(* ===== verification/Prelude.thy ===== *)
theory Prelude
  imports Main "HOL-Library.Word" "HOL-Library.Monad_Syntax"
begin

text \<open>
  Shared vocabulary of the development. A C++ operation that can abort the process
  (\<^verbatim>\<open>zmq_assert\<close>, \<^verbatim>\<open>errno_assert\<close>) or run into undefined behaviour (an index outside
  a vector, a freed chunk, an uninitialised slot) is a function into \<^typ>\<open>'a option\<close>:
  \<open>None\<close> is the abort or the undefined behaviour, \<open>Some\<close> the result. Programs are written
  with the \<^theory_text>\<open>do\<close> notation of \<^verbatim>\<open>Monad_Syntax\<close>. Error codes (\<^verbatim>\<open>errno\<close> with
  \<^verbatim>\<open>return -1\<close>) are values of a sum type, \<open>Inl\<close> the error.
\<close>

named_theorems run_simps \<comment> \<open>evaluation of \<open>do\<close> blocks\<close>

type_synonym addr = nat \<comment> \<open>a pointer; 0 is \<^verbatim>\<open>NULL\<close>\<close>

type_synonym u8 = "8 word"
type_synonym u32 = "32 word"
type_synonym u64 = "64 word"

subsection \<open>Assertions\<close>

text \<open>\<^verbatim>\<open>zmq_assert\<close> of err.hpp: abort unless the condition holds.\<close>

definition zmq_assert :: "bool \<Rightarrow> unit option" where
  "zmq_assert b = (if b then Some () else None)"

text \<open>\<^verbatim>\<open>errno\<close> values the modelled code sets.\<close>

datatype errno = EAGAIN | EFAULT | EFSM | EINVAL | ENOTSUP | EHOSTUNREACH | ENOMEM | EPROTO
  | ETERM | EMFILE | EADDRINUSE | ECONNREFUSED | ENODEV | ENOTSOCK | EPROTONOSUPPORT
  | ENOCOMPATPROTO | EMTHREAD | ENAMETOOLONG | EINTR

type_synonym rc = "errno + unit"

lemma zmq_assert_True [simp]: "zmq_assert True = Some ()"
  by (simp add: zmq_assert_def)

lemma zmq_assert_False [simp]: "zmq_assert False = None"
  by (simp add: zmq_assert_def)

lemma zmq_assert_Some [simp]: "zmq_assert b = Some u \<longleftrightarrow> b"
  by (simp add: zmq_assert_def)

lemma zmq_assert_ok: "b \<Longrightarrow> zmq_assert b = Some ()"
  by simp

lemma assert_bind [run_simps]: "(zmq_assert b \<bind> f) = (if b then f () else None)"
  by (simp add: zmq_assert_def)

lemma bind_Some_iff [run_simps]: "(m \<bind> f = Some y) \<longleftrightarrow> (\<exists>x. m = Some x \<and> f x = Some y)"
  by (cases m) auto

text \<open>A result of a call without a value is an error or success.\<close>

lemma not_Inl_iff [simp]: "(\<forall>e. r \<noteq> Inl e) \<longleftrightarrow> r = Inr ()" for r :: "'e + unit"
  by (cases r) auto

subsection \<open>Checked element access\<close>

text \<open>\<^verbatim>\<open>v [i]\<close> of a \<^verbatim>\<open>std::vector\<close> or a table: outside the bounds it is undefined.\<close>

definition elem :: "'a list \<Rightarrow> nat \<Rightarrow> 'a option" where
  "elem xs i = (if i < length xs then Some (xs ! i) else None)"

lemma elem_Some [simp]: "i < length xs \<Longrightarrow> elem xs i = Some (xs ! i)"
  by (simp add: elem_def)

lemma elem_eq_Some: "elem xs i = Some x \<longleftrightarrow> i < length xs \<and> xs ! i = x"
  by (auto simp: elem_def)

subsection \<open>Searching an index range\<close>

lemma find_upt_Some:
  "find P [lo..<n] = Some i \<longleftrightarrow> lo \<le> i \<and> i < n \<and> P i \<and> (\<forall>j. lo \<le> j \<and> j < i \<longrightarrow> \<not> P j)"
proof
  assume "find P [lo..<n] = Some i"
  then obtain k where k: "k < n - lo" "P (lo + k)" "i = lo + k" "\<forall>j<k. \<not> P (lo + j)"
    by (auto simp: find_Some_iff)
  have "\<not> P j" if "lo \<le> j" "j < i" for j
    using k(4)[rule_format, of "j - lo"] that k(3) by simp
  then show "lo \<le> i \<and> i < n \<and> P i \<and> (\<forall>j. lo \<le> j \<and> j < i \<longrightarrow> \<not> P j)"
    using k by auto
next
  assume "lo \<le> i \<and> i < n \<and> P i \<and> (\<forall>j. lo \<le> j \<and> j < i \<longrightarrow> \<not> P j)"
  then have "i - lo < length [lo..<n] \<and> P ([lo..<n] ! (i - lo)) \<and> i = [lo..<n] ! (i - lo) \<and>
      (\<forall>j < i - lo. \<not> P ([lo..<n] ! j))" by (auto simp: less_diff_conv add.commute)
  then show "find P [lo..<n] = Some i" unfolding find_Some_iff by blast
qed

lemma find_upt_exists:
  assumes "lo \<le> j" "j < n" "P j"
  obtains i where "find P [lo..<n] = Some i" "lo \<le> i" "i \<le> j" "P i"
    "\<And>k. lo \<le> k \<Longrightarrow> k < i \<Longrightarrow> \<not> P k"
proof -
  have "find P [lo..<n] \<noteq> None" using assms by (auto simp: find_None_iff)
  then obtain i where i: "find P [lo..<n] = Some i" by auto
  then show ?thesis using that[of i] assms unfolding find_upt_Some by (meson not_le)
qed

subsection \<open>Splitting a list at two positions\<close>

lemma drop_take_split [simp]:
  assumes "w \<le> f"
  shows "drop w (take f xs) @ drop f xs = drop w xs"
proof -
  have "drop w (take f xs @ drop f xs)
      = drop w (take f xs) @ drop (w - length (take f xs)) (drop f xs)"
    by (rule drop_append)
  moreover have "drop (w - length (take f xs)) (drop f xs) = drop f xs"
    using assms by (cases "f \<le> length xs") simp_all
  ultimately show ?thesis by simp
qed

lemma drop_take_split_assoc [simp]:
  "w \<le> f \<Longrightarrow> drop w (take f xs) @ drop f xs @ ys = drop w xs @ ys"
  by (simp flip: append_assoc)

subsection \<open>Exchanging two elements of a list\<close>

definition list_swap :: "nat \<Rightarrow> nat \<Rightarrow> 'a list \<Rightarrow> 'a list" where
  "list_swap i j xs = xs[i := xs ! j, j := xs ! i]"

lemma length_list_swap [simp]: "length (list_swap i j xs) = length xs"
  by (simp add: list_swap_def)

lemma set_list_swap [simp]:
  "i < length xs \<Longrightarrow> j < length xs \<Longrightarrow> set (list_swap i j xs) = set xs"
  unfolding list_swap_def by (rule set_swap)

lemma distinct_list_swap [simp]:
  "i < length xs \<Longrightarrow> j < length xs \<Longrightarrow> distinct (list_swap i j xs) = distinct xs"
  unfolding list_swap_def by (rule distinct_swap)

lemma nth_list_swap:
  "i < length xs \<Longrightarrow> j < length xs \<Longrightarrow> k < length xs \<Longrightarrow>
   list_swap i j xs ! k = (if k = i then xs ! j else if k = j then xs ! i else xs ! k)"
  by (auto simp: list_swap_def nth_list_update)

lemma list_swap_commute: "i < length xs \<Longrightarrow> j < length xs \<Longrightarrow> list_swap i j xs = list_swap j i xs"
  by (rule nth_equalityI) (auto simp: nth_list_swap)

lemma list_swap_same [simp]: "list_swap i i xs = xs"
  by (simp add: list_swap_def)

lemma take_list_swap_beyond [simp]: "n \<le> i \<Longrightarrow> n \<le> j \<Longrightarrow> take n (list_swap i j xs) = take n xs"
  by (simp add: list_swap_def)

text \<open>Exchanging two positions of a prefix permutes the prefix.\<close>

lemma set_take_swap_inside:
  assumes "i < n" "j < n" "n \<le> length xs"
  shows "set (take n (list_swap i j xs)) = set (take n xs)"
proof -
  have "take n (list_swap i j xs) = list_swap i j (take n xs)"
    using assms by (simp add: list_swap_def take_update_swap)
  then show ?thesis using assms by simp
qed

text \<open>Moving an element to the position just behind a prefix, and extending the prefix by it.\<close>

lemma set_take_Suc_swap:
  assumes "n \<le> i" "i < length xs"
  shows "set (take (Suc n) (list_swap i n xs)) = insert (xs ! i) (set (take n xs))"
proof -
  have "n < length (list_swap i n xs)" using assms by simp
  then have "take (Suc n) (list_swap i n xs) = take n (list_swap i n xs) @ [list_swap i n xs ! n]"
    by (rule take_Suc_conv_app_nth)
  moreover have "take n (list_swap i n xs) = take n xs" using assms(1) by simp
  moreover have "list_swap i n xs ! n = xs ! i" using assms by (simp add: nth_list_swap)
  ultimately show ?thesis by simp
qed

text \<open>Moving an element of a prefix to its last position and shortening the prefix by it.\<close>

lemma set_take_swap_drop:
  assumes "i \<le> n" "n < length xs" "distinct xs"
  shows "set (take n (list_swap i n xs)) = set (take (Suc n) xs) - {xs ! i}"
proof -
  let ?ys = "take (Suc n) (list_swap i n xs)"
  have d: "distinct ?ys" using assms by (simp add: distinct_take)
  have "?ys = take n (list_swap i n xs) @ [list_swap i n xs ! n]"
    using assms by (intro take_Suc_conv_app_nth) simp
  moreover have "list_swap i n xs ! n = xs ! i"
    using assms by (simp add: nth_list_swap)
  ultimately have split: "?ys = take n (list_swap i n xs) @ [xs ! i]" by simp
  have "set ?ys = set (take (Suc n) xs)"
    using assms by (intro set_take_swap_inside) auto
  with split d show ?thesis by auto
qed

end
