(* ===== verification/Yqueue.thy ===== *)
theory Yqueue
  imports Prelude
begin

text \<open>
  \<^verbatim>\<open>yqueue_t<T, N>\<close> of src/yqueue.hpp: an unbounded queue whose elements live in chunks of
  \<open>N\<close> slots. A chunk is named by its position in the chain of \<^verbatim>\<open>next\<close> pointers since the
  queue was created, so \<^verbatim>\<open>chunk->next\<close> is \<open>Suc\<close> and \<^verbatim>\<open>chunk->prev\<close> the
  predecessor; \<open>chunks\<close> maps every allocated chunk to its slots, and freeing a chunk removes
  it, so that an access to a freed chunk or an uninitialised slot is \<open>None\<close>. The recycled spare
  chunk gets the name of its new place in the chain and its stale slots count as
  uninitialised. An element address \<^verbatim>\<open>&chunk->values [pos]\<close> is the pair of both numbers.
  The lemmas show that the queue is the list of the elements between the begin and the end
  position.
\<close>

type_synonym slot_ptr = "nat \<times> nat"

record 'a yqueue =
  chunks :: "nat \<Rightarrow> (nat \<Rightarrow> 'a option) option"
  begin_chunk :: nat
  begin_pos :: nat
  back_chunk :: "nat option"
  back_pos :: nat
  end_chunk :: nat
  end_pos :: nat
  spare_chunk :: bool

subsection \<open>Operations\<close>

definition yqueue_new :: "'a yqueue" where
  "yqueue_new = \<lparr>chunks = [0 \<mapsto> Map.empty], begin_chunk = 0, begin_pos = 0,
     back_chunk = None, back_pos = 0, end_chunk = 0, end_pos = 0, spare_chunk = False\<rparr>"

text \<open>The addresses of the front and the back element.\<close>

definition front_ptr :: "'a yqueue \<Rightarrow> slot_ptr" where
  "front_ptr q = (begin_chunk q, begin_pos q)"

definition back_ptr :: "'a yqueue \<Rightarrow> slot_ptr option" where
  "back_ptr q = (case back_chunk q of None \<Rightarrow> None | Some c \<Rightarrow> Some (c, back_pos q))"

definition slot :: "'a yqueue \<Rightarrow> slot_ptr \<Rightarrow> 'a option" where
  "slot q a = (case chunks q (fst a) of None \<Rightarrow> None | Some vs \<Rightarrow> vs (snd a))"

definition yq_front :: "'a yqueue \<Rightarrow> 'a option" where
  "yq_front q = slot q (front_ptr q)"

definition yq_back :: "'a yqueue \<Rightarrow> 'a option" where
  "yq_back q = (case back_ptr q of None \<Rightarrow> None | Some a \<Rightarrow> slot q a)"

text \<open>\<^verbatim>\<open>queue.back () = value\<close>.\<close>

definition yq_set_back :: "'a \<Rightarrow> 'a yqueue \<Rightarrow> 'a yqueue option" where
  "yq_set_back v q = do {
     c \<leftarrow> back_chunk q;
     vs \<leftarrow> chunks q c;
     Some (q\<lparr>chunks := (chunks q)(c \<mapsto> vs(back_pos q \<mapsto> v))\<rparr>) }"

definition yq_push :: "nat \<Rightarrow> 'a yqueue \<Rightarrow> 'a yqueue" where
  "yq_push N q =
    (let q = q\<lparr>back_chunk := Some (end_chunk q), back_pos := end_pos q\<rparr>;
         q = q\<lparr>end_pos := end_pos q + 1\<rparr>
     in if end_pos q \<noteq> N then q
        else \<comment> \<open>link the spare chunk or a new one\<close>
          q\<lparr>spare_chunk := False,
            chunks := (chunks q)(end_chunk q + 1 \<mapsto> Map.empty),
            end_chunk := end_chunk q + 1, end_pos := 0\<rparr>)"

definition yq_unpush :: "nat \<Rightarrow> 'a yqueue \<Rightarrow> 'a yqueue option" where
  "yq_unpush N q = do {
     bc \<leftarrow> back_chunk q;
     q \<leftarrow> (if back_pos q \<noteq> 0 then Some (q\<lparr>back_pos := back_pos q - 1\<rparr>)
           else \<comment> \<open>\<^verbatim>\<open>prev\<close> is \<^verbatim>\<open>NULL\<close> in the first chunk\<close>
             Some (q\<lparr>back_pos := N - 1,
               back_chunk := (if bc = 0 \<or> chunks q (bc - 1) = None then None else Some (bc - 1))\<rparr>));
     if end_pos q \<noteq> 0 then Some (q\<lparr>end_pos := end_pos q - 1\<rparr>)
     else if end_chunk q = 0 \<or> chunks q (end_chunk q - 1) = None then None
     else Some (q\<lparr>end_pos := N - 1, end_chunk := end_chunk q - 1,
                  chunks := (chunks q)(end_chunk q := None)\<rparr>) }"

definition yq_pop :: "nat \<Rightarrow> 'a yqueue \<Rightarrow> 'a yqueue option" where
  "yq_pop N q =
    (let q = q\<lparr>begin_pos := begin_pos q + 1\<rparr>
     in if begin_pos q = N then
          (if chunks q (begin_chunk q + 1) = None then None
           else Some (q\<lparr>begin_chunk := begin_chunk q + 1, begin_pos := 0,
                        chunks := (chunks q)(begin_chunk q := None), spare_chunk := True\<rparr>))
        else Some q)"

text \<open>The destructor frees the chain from the begin to the end chunk and the spare.\<close>

definition yqueue_destroy :: "'a yqueue \<Rightarrow> 'a yqueue" where
  "yqueue_destroy q = q\<lparr>chunks := (\<lambda>c. if begin_chunk q \<le> c \<and> c \<le> end_chunk q then None
     else chunks q c), spare_chunk := False\<rparr>"

subsection \<open>Positions and the invariant\<close>

definition pos_of :: "nat \<Rightarrow> slot_ptr \<Rightarrow> nat" where
  "pos_of N a = fst a * N + snd a"

definition ptr_at :: "nat \<Rightarrow> nat \<Rightarrow> slot_ptr" where
  "ptr_at N i = (i div N, i mod N)"

definition begin_ix :: "nat \<Rightarrow> 'a yqueue \<Rightarrow> nat" where
  "begin_ix N q = begin_chunk q * N + begin_pos q"

definition end_ix :: "nat \<Rightarrow> 'a yqueue \<Rightarrow> nat" where
  "end_ix N q = end_chunk q * N + end_pos q"

definition yq_inv :: "nat \<Rightarrow> 'a yqueue \<Rightarrow> bool" where
  "yq_inv N q \<longleftrightarrow> 0 < N \<and> begin_pos q < N \<and> end_pos q < N \<and> begin_ix N q \<le> end_ix N q \<and>
     dom (chunks q) = {begin_chunk q..end_chunk q} \<and>
     (begin_ix N q < end_ix N q \<longrightarrow> back_ptr q = Some (ptr_at N (end_ix N q - 1)))"

text \<open>The contents: the slots between the begin and the end position.\<close>

definition yq_slots :: "nat \<Rightarrow> 'a yqueue \<Rightarrow> 'a option list" where
  "yq_slots N q = map (\<lambda>i. slot q (ptr_at N i)) [begin_ix N q..<end_ix N q]"

subsection \<open>Arithmetic of positions\<close>

lemma ptr_at_div_mod: "p < N \<Longrightarrow> ptr_at N (c * N + p) = (c, p)"
  by (simp add: ptr_at_def)

lemma ptr_at_begin: "yq_inv N q \<Longrightarrow> ptr_at N (begin_ix N q) = front_ptr q"
  by (simp add: yq_inv_def begin_ix_def front_ptr_def ptr_at_div_mod)

lemma ptr_at_inj: "0 < N \<Longrightarrow> ptr_at N i = ptr_at N j \<longleftrightarrow> i = j"
  by (metis Pair_inject div_mult_mod_eq ptr_at_def)

lemma chunk_le_of_ix:
  fixes c :: nat
  assumes "i \<le> c * N + p" "p < N"
  shows "i div N \<le> c"
proof -
  have "i < Suc c * N" using assms by simp
  then have "i div N < Suc c" by (rule less_mult_imp_div_less)
  then show ?thesis by simp
qed

lemma chunk_ge_of_ix: "c * N + p \<le> i \<Longrightarrow> 0 < N \<Longrightarrow> (c :: nat) \<le> i div N"
  by (metis add_leD1 less_eq_div_iff_mult_less_eq)

lemma length_yq_slots: "length (yq_slots N q) = end_ix N q - begin_ix N q"
  by (simp add: yq_slots_def)

lemma yq_slots_nth:
  "i < end_ix N q - begin_ix N q \<Longrightarrow> yq_slots N q ! i = slot q (ptr_at N (begin_ix N q + i))"
  by (simp add: yq_slots_def)

text \<open>Every position between begin and end lies in an allocated chunk.\<close>

lemma chunk_live:
  assumes "yq_inv N q" "begin_ix N q \<le> i" "i \<le> end_ix N q"
  shows "\<exists>vs. chunks q (i div N) = Some vs"
proof -
  have "begin_chunk q \<le> i div N"
    using assms by (intro chunk_ge_of_ix[where p = "begin_pos q"]) (auto simp: yq_inv_def begin_ix_def)
  moreover have "i div N \<le> end_chunk q"
    using assms by (intro chunk_le_of_ix[where p = "end_pos q"]) (auto simp: yq_inv_def end_ix_def)
  ultimately have "i div N \<in> dom (chunks q)" using assms(1) by (simp add: yq_inv_def)
  then show ?thesis by auto
qed

subsection \<open>The operations on the contents\<close>

lemma yqueue_new_inv: "0 < N \<Longrightarrow> yq_inv N yqueue_new"
  by (auto simp: yq_inv_def yqueue_new_def begin_ix_def end_ix_def split: if_splits)

lemma yqueue_new_slots: "yq_slots N yqueue_new = []"
  by (simp add: yq_slots_def yqueue_new_def begin_ix_def end_ix_def)

lemma yq_push_ix:
  assumes "yq_inv N q"
  shows "end_ix N (yq_push N q) = Suc (end_ix N q)" "begin_ix N (yq_push N q) = begin_ix N q"
  using assms by (auto simp: yq_push_def Let_def end_ix_def begin_ix_def yq_inv_def)

lemma yq_push_inv:
  assumes "yq_inv N q"
  shows "yq_inv N (yq_push N q)"
proof -
  have "ptr_at N (end_ix N q) = (end_chunk q, end_pos q)"
    using assms by (simp add: yq_inv_def end_ix_def ptr_at_div_mod)
  moreover have "begin_chunk q \<le> end_chunk q"
    using chunk_live[OF assms, of "begin_ix N q"] assms
    by (auto simp: yq_inv_def begin_ix_def ptr_at_def)
  ultimately show ?thesis
    using assms yq_push_ix[OF assms]
    unfolding yq_inv_def by (auto simp: yq_push_def Let_def back_ptr_def split: if_splits)
qed

lemma yq_push_slot_old:
  assumes "yq_inv N q" "i < end_ix N q"
  shows "slot (yq_push N q) (ptr_at N i) = slot q (ptr_at N i)"
proof -
  have "i div N \<le> end_chunk q"
    using assms by (intro chunk_le_of_ix[where p = "end_pos q"]) (auto simp: yq_inv_def end_ix_def)
  then show ?thesis by (auto simp: yq_push_def Let_def slot_def ptr_at_def)
qed

text \<open>Pushing appends one slot (of unspecified contents) that becomes the back element.\<close>

lemma yq_push_slots:
  assumes "yq_inv N q"
  shows "\<exists>v. yq_slots N (yq_push N q) = yq_slots N q @ [v]"
  using assms yq_push_slot_old[OF assms]
  by (auto simp: yq_slots_def yq_push_ix yq_inv_def upt_Suc_append)

lemma yq_push_back:
  assumes "yq_inv N q"
  shows "back_ptr (yq_push N q) = Some (ptr_at N (end_ix N q))"
  using yq_push_inv[OF assms] yq_push_ix[OF assms] assms by (auto simp: yq_inv_def)

lemma yq_set_back:
  assumes inv: "yq_inv N q" and ne: "begin_ix N q < end_ix N q"
  obtains q' where "yq_set_back v q = Some q'" "yq_inv N q'"
    "begin_ix N q' = begin_ix N q" "end_ix N q' = end_ix N q" "back_ptr q' = back_ptr q"
    "yq_slots N q' = butlast (yq_slots N q) @ [Some v]"
proof -
  let ?e = "end_ix N q - Suc 0"
  have "begin_ix N q \<le> ?e" "?e \<le> end_ix N q" using ne by simp_all
  then obtain vs where vs: "chunks q (?e div N) = Some vs"
    using chunk_live[OF inv] by blast
  have bp: "back_ptr q = Some (?e div N, ?e mod N)"
    using inv ne by (simp add: yq_inv_def ptr_at_def)
  then have bc: "back_chunk q = Some (?e div N)" "back_pos q = ?e mod N"
    by (auto simp: back_ptr_def split: option.splits)
  let ?q = "q\<lparr>chunks := (chunks q)(?e div N \<mapsto> vs(?e mod N \<mapsto> v))\<rparr>"
  have upd: "yq_set_back v q = Some ?q" using bc vs by (simp add: yq_set_back_def)
  have ix: "begin_ix N ?q = begin_ix N q" "end_ix N ?q = end_ix N q" "back_ptr ?q = back_ptr q"
    by (simp_all add: begin_ix_def end_ix_def back_ptr_def split: option.split)
  have "?e div N \<in> dom (chunks q)" using vs by auto
  then have inv': "yq_inv N ?q" using inv ix by (auto simp: yq_inv_def)
  have sl: "yq_slots N ?q = (yq_slots N q)[?e - begin_ix N q := Some v]"
  proof (rule nth_equalityI)
    fix i assume "i < length (yq_slots N ?q)"
    then have i: "i < end_ix N q - begin_ix N q" using ix by (simp add: length_yq_slots)
    have "slot ?q (ptr_at N (begin_ix N q + i)) =
        (if begin_ix N q + i = ?e then Some v else slot q (ptr_at N (begin_ix N q + i)))"
      using vs ptr_at_inj[of N "begin_ix N q + i" ?e] inv
      by (auto simp: slot_def ptr_at_def yq_inv_def)
    with i ix show "yq_slots N ?q ! i = (yq_slots N q)[?e - begin_ix N q := Some v] ! i"
      by (auto simp: yq_slots_nth nth_list_update length_yq_slots)
  qed (simp add: length_yq_slots ix)
  have "yq_slots N q \<noteq> []" using ne by (simp add: yq_slots_def)
  moreover have "length (yq_slots N q) - 1 = ?e - begin_ix N q" by (simp add: length_yq_slots)
  ultimately have "yq_slots N ?q = butlast (yq_slots N q) @ [Some v]"
    using sl by (metis append_butlast_last_id length_butlast list_update_length)
  then show ?thesis by (rule that[OF upd inv' ix])
qed

lemma yq_front_hd:
  assumes "yq_inv N q" "begin_ix N q < end_ix N q"
  shows "yq_front q = hd (yq_slots N q)"
  using assms by (simp add: yq_front_def yq_slots_def upt_conv_Cons ptr_at_begin)

text \<open>When the begin position is the last slot of its chunk, the next chunk is linked.\<close>

lemma next_chunk_live:
  assumes inv: "yq_inv N q" and ne: "begin_ix N q < end_ix N q" and last: "Suc (begin_pos q) = N"
  shows "begin_chunk q < end_chunk q"
proof -
  have "Suc (begin_chunk q) * N + 0 \<le> end_ix N q"
    using ne last by (simp add: begin_ix_def)
  then have "Suc (begin_chunk q) \<le> end_ix N q div N"
    using inv by (intro chunk_ge_of_ix[where p = 0]) (auto simp: yq_inv_def)
  moreover have "end_ix N q div N = end_chunk q"
    using inv ptr_at_div_mod[of "end_pos q" N "end_chunk q"]
    by (simp add: yq_inv_def end_ix_def ptr_at_def)
  ultimately show ?thesis by simp
qed

lemma yq_pop:
  assumes inv: "yq_inv N q" and ne: "begin_ix N q < end_ix N q"
  obtains q' where "yq_pop N q = Some q'" "yq_inv N q'" "begin_ix N q' = Suc (begin_ix N q)"
    "end_ix N q' = end_ix N q" "back_ptr q' = back_ptr q" "yq_slots N q' = tl (yq_slots N q)"
proof (cases "Suc (begin_pos q) = N")
  case False
  let ?q = "q\<lparr>begin_pos := Suc (begin_pos q)\<rparr>"
  have "yq_pop N q = Some ?q" using False by (simp add: yq_pop_def Let_def)
  moreover have ix: "begin_ix N ?q = Suc (begin_ix N q)" "end_ix N ?q = end_ix N q"
    "back_ptr ?q = back_ptr q"
    by (simp_all add: begin_ix_def end_ix_def back_ptr_def split: option.split)
  moreover have "yq_inv N ?q" using inv ne False ix by (auto simp: yq_inv_def)
  moreover have "slot ?q = slot q" by (simp add: slot_def fun_eq_iff)
  then have "yq_slots N ?q = tl (yq_slots N q)"
    using ne ix by (simp add: yq_slots_def upt_conv_Cons)
  ultimately show ?thesis using that by blast
next
  case True
  let ?q = "q\<lparr>begin_chunk := Suc (begin_chunk q), begin_pos := 0,
    chunks := (chunks q)(begin_chunk q := None), spare_chunk := True\<rparr>"
  have lt: "begin_chunk q < end_chunk q" by (rule next_chunk_live[OF inv ne True])
  then have "Suc (begin_chunk q) \<in> dom (chunks q)" using inv by (simp add: yq_inv_def)
  then have "yq_pop N q = Some ?q" using True by (auto simp: yq_pop_def Let_def)
  moreover have ix: "begin_ix N ?q = Suc (begin_ix N q)" "end_ix N ?q = end_ix N q"
    "back_ptr ?q = back_ptr q"
    using True by (auto simp: begin_ix_def end_ix_def back_ptr_def split: option.split)
  moreover have "yq_inv N ?q" using inv ne True lt ix by (auto simp: yq_inv_def)
  moreover have "slot ?q (ptr_at N i) = slot q (ptr_at N i)" if "Suc (begin_ix N q) \<le> i" for i
  proof -
    have "Suc (begin_chunk q) \<le> i div N"
      using that True inv
      by (intro chunk_ge_of_ix[where p = 0]) (auto simp: begin_ix_def yq_inv_def)
    then show ?thesis by (auto simp: slot_def ptr_at_def)
  qed
  then have "yq_slots N ?q = tl (yq_slots N q)"
    using ne ix by (simp add: yq_slots_def upt_conv_Cons)
  ultimately show ?thesis using that by blast
qed

text \<open>Rolling back a push drops the back element.\<close>

lemma yq_back_fields:
  assumes "yq_inv N q" "begin_ix N q < end_ix N q"
  shows "back_chunk q = Some ((end_ix N q - 1) div N)" "back_pos q = (end_ix N q - 1) mod N"
  using assms by (auto simp: yq_inv_def back_ptr_def ptr_at_def split: option.splits)

lemma pred_ptr:
  assumes "0 < N" "0 < i"
  shows "i mod N \<noteq> 0 \<Longrightarrow> ptr_at N (i - 1) = (i div N, i mod N - 1)"
    and "i mod N = 0 \<Longrightarrow> ptr_at N (i - 1) = (i div N - 1, N - 1)"
proof -
  assume "i mod N \<noteq> 0"
  then obtain m where m: "i mod N = Suc m" by (cases "i mod N") auto
  have "i - 1 = i div N * N + m" using m div_mult_mod_eq[of i N] by simp
  moreover have "m < N" using m assms(1) mod_less_divisor[of N i] by simp
  ultimately show "ptr_at N (i - 1) = (i div N, i mod N - 1)"
    using m by (simp add: ptr_at_def)
next
  assume z: "i mod N = 0"
  then have i: "i = i div N * N" using div_mult_mod_eq[of i N] by simp
  with assms(2) have pos: "0 < i div N" by (metis mult_0 neq0_conv)
  then obtain k where k: "i div N = Suc k" by (cases "i div N") auto
  have "i - 1 = k * N + (N - 1)" using i k assms(1) by (simp add: add.commute)
  then have "ptr_at N (i - 1) = ptr_at N (k * N + (N - 1))" by (rule arg_cong)
  also have "\<dots> = (k, N - 1)" using assms(1) by (intro ptr_at_div_mod) simp
  finally show "ptr_at N (i - 1) = (i div N - 1, N - 1)" using k by simp
qed

text \<open>The two halves of \<^verbatim>\<open>unpush\<close>: moving \<^verbatim>\<open>back\<close> and moving \<^verbatim>\<open>end\<close>.\<close>

definition back_step :: "nat \<Rightarrow> nat \<Rightarrow> 'a yqueue \<Rightarrow> 'a yqueue" where
  "back_step N bc q = (if back_pos q \<noteq> 0 then q\<lparr>back_pos := back_pos q - 1\<rparr>
     else q\<lparr>back_pos := N - 1,
       back_chunk := (if bc = 0 \<or> chunks q (bc - 1) = None then None else Some (bc - 1))\<rparr>)"

lemma back_step_fields [simp]:
  "chunks (back_step N c q) = chunks q" "begin_chunk (back_step N c q) = begin_chunk q"
  "begin_pos (back_step N c q) = begin_pos q" "end_chunk (back_step N c q) = end_chunk q"
  "end_pos (back_step N c q) = end_pos q"
  by (simp_all add: back_step_def)

lemma back_step_ptr:
  assumes inv: "yq_inv N q" and ne: "Suc (begin_ix N q) < end_ix N q"
    and c: "back_chunk q = Some c"
  shows "back_ptr (back_step N c q) = Some (ptr_at N (end_ix N q - 1 - 1))"
proof -
  let ?b = "end_ix N q - 1"
  have N: "0 < N" and b: "0 < ?b" using inv ne by (auto simp: yq_inv_def)
  have c': "c = ?b div N" and p: "back_pos q = ?b mod N"
    using yq_back_fields[OF inv] ne c by simp_all
  show ?thesis
  proof (cases "?b mod N = 0")
    case False
    then show ?thesis using pred_ptr(1)[OF N b False] p c c'
      by (simp add: back_step_def back_ptr_def)
  next
    case True
    note pp = pred_ptr(2)[OF N b True]
    have "begin_ix N q \<le> ?b - 1" "?b - 1 \<le> end_ix N q" using ne by simp_all
    then have "\<exists>vs. chunks q ((?b - 1) div N) = Some vs" using chunk_live[OF inv] by blast
    then have live: "chunks q (c - 1) \<noteq> None" using pp c' by (auto simp: ptr_at_def)
    have "c \<noteq> 0" using True b c' by (metis div_mult_mod_eq add_0_right mult_0 neq0_conv)
    then show ?thesis using live True p c' pp by (auto simp: back_step_def back_ptr_def)
  qed
qed

lemma yq_unpush:
  assumes inv: "yq_inv N q" and ne: "begin_ix N q < end_ix N q"
  obtains q' where "yq_unpush N q = Some q'" "yq_inv N q'" "begin_ix N q' = begin_ix N q"
    "Suc (end_ix N q') = end_ix N q" "yq_slots N q' = butlast (yq_slots N q)"
proof -
  obtain c where c: "back_chunk q = Some c" using yq_back_fields[OF inv ne] by blast
  let ?r = "back_step N c q"
  let ?q = "if end_pos q \<noteq> 0 then ?r\<lparr>end_pos := end_pos q - 1\<rparr>
    else ?r\<lparr>end_pos := N - 1, end_chunk := end_chunk q - 1, chunks := (chunks q)(end_chunk q := None)\<rparr>"
  have N: "0 < N" and e0: "0 < end_ix N q" using inv ne by (auto simp: yq_inv_def)
  have ep: "ptr_at N (end_ix N q) = (end_chunk q, end_pos q)"
    using inv by (simp add: yq_inv_def end_ix_def ptr_at_div_mod)
  then have dm: "end_ix N q div N = end_chunk q" "end_ix N q mod N = end_pos q"
    by (simp_all add: ptr_at_def)
  have bi: "begin_ix N ?q = begin_ix N q" by (simp add: begin_ix_def)
  have ei: "Suc (end_ix N ?q) = end_ix N q"
  proof (cases "end_pos q = 0")
    case True
    then obtain k where k: "end_chunk q = Suc k" using e0 by (cases "end_chunk q") (auto simp: end_ix_def)
    show ?thesis using True k N by (simp add: end_ix_def)
  qed (simp add: end_ix_def)
  have live: "end_chunk q \<noteq> 0 \<and> chunks q (end_chunk q - 1) \<noteq> None
    \<and> begin_chunk q \<le> end_chunk q - 1" if z: "end_pos q = 0"
  proof -
    have nz: "end_chunk q \<noteq> 0" using z e0 by (auto simp: end_ix_def)
    have pp: "(end_ix N q - 1) div N = end_chunk q - 1"
      using pred_ptr(2)[OF N e0] dm z by (simp add: ptr_at_def)
    have "begin_ix N q \<le> end_ix N q - 1" "end_ix N q - 1 \<le> end_ix N q" using ne by simp_all
    from chunk_live[OF inv this] have ex: "\<exists>vs. chunks q (end_chunk q - 1) = Some vs"
      by (simp only: pp)
    then have "end_chunk q - 1 \<in> dom (chunks q)" by auto
    with nz ex inv show ?thesis by (auto simp: yq_inv_def)
  qed
  have res: "yq_unpush N q = Some ?q"
  proof (cases "end_pos q = 0")
    case True
    from live[OF True] show ?thesis using True c by (auto simp: yq_unpush_def back_step_def)
  qed (use c in \<open>auto simp: yq_unpush_def back_step_def\<close>)
  have dom: "dom (chunks ?q) = {begin_chunk ?q..end_chunk ?q}"
    using live inv by (auto simp: yq_inv_def)
  have bp: "back_ptr ?q = back_ptr ?r" by (simp add: back_ptr_def split: option.split)
  have inv': "yq_inv N ?q"
    unfolding yq_inv_def
  proof (intro conjI impI)
    assume "begin_ix N ?q < end_ix N ?q"
    then have "Suc (begin_ix N q) < end_ix N q" using bi ei by linarith
    from back_step_ptr[OF inv this c] show "back_ptr ?q = Some (ptr_at N (end_ix N ?q - 1))"
      using bp ei by (metis diff_Suc_1)
  next
    show "begin_ix N ?q \<le> end_ix N ?q" using bi ei ne by linarith
  next
    show "end_pos ?q < N" using inv N by (auto simp: yq_inv_def)
  qed (use inv dom in \<open>auto simp: yq_inv_def\<close>)
  have sl: "slot ?q (ptr_at N i) = slot q (ptr_at N i)" if "Suc i < end_ix N q" for i
  proof -
    have "i div N \<noteq> end_chunk q" if "end_pos q = 0"
    proof -
      have "i < end_chunk q * N" using \<open>Suc i < end_ix N q\<close> that by (simp add: end_ix_def)
      from less_mult_imp_div_less[OF this] show ?thesis by simp
    qed
    then show ?thesis by (auto simp: slot_def ptr_at_def)
  qed
  let ?e = "end_ix N ?q"
  have le: "begin_ix N q \<le> ?e" using ei ne by linarith
  have "yq_slots N q = map (\<lambda>i. slot q (ptr_at N i)) [begin_ix N q..<Suc ?e]"
    unfolding yq_slots_def ei ..
  also have "\<dots> = map (\<lambda>i. slot q (ptr_at N i)) [begin_ix N q..<?e] @ [slot q (ptr_at N ?e)]"
    using le by (simp add: upt_Suc_append)
  finally have "butlast (yq_slots N q) = map (\<lambda>i. slot q (ptr_at N i)) [begin_ix N q..<?e]"
    by simp
  also have "\<dots> = map (\<lambda>i. slot ?q (ptr_at N i)) [begin_ix N q..<?e]"
  proof (intro map_cong refl)
    fix i assume "i \<in> set [begin_ix N q..<?e]"
    then have "Suc i < Suc ?e" by simp
    then show "slot q (ptr_at N i) = slot ?q (ptr_at N i)" unfolding ei by (rule sl[symmetric])
  qed
  finally have "yq_slots N ?q = butlast (yq_slots N q)" by (simp only: yq_slots_def bi)
  then show ?thesis by (rule that[OF res inv' bi ei])
qed

text \<open>Destruction releases every chunk the queue owns.\<close>

lemma yqueue_destroy_frees:
  "yq_inv N q \<Longrightarrow> dom (chunks (yqueue_destroy q)) = {}"
  unfolding yq_inv_def by (auto simp: yqueue_destroy_def dom_def set_eq_iff)

text \<open>The facts about a step of the writer: storing a value and appending a new slot.\<close>

lemma yq_write_push:
  assumes inv: "yq_inv N q" and ne: "begin_ix N q < end_ix N q"
  obtains q' where "yq_set_back v q = Some q'" "yq_inv N (yq_push N q')"
    "begin_ix N (yq_push N q') = begin_ix N q" "end_ix N (yq_push N q') = Suc (end_ix N q)"
    "back_ptr (yq_push N q') = Some (ptr_at N (end_ix N q))"
    "front_ptr (yq_push N q') = front_ptr q"
    "butlast (yq_slots N (yq_push N q')) = butlast (yq_slots N q) @ [Some v]"
proof -
  obtain q' where q': "yq_set_back v q = Some q'" and i: "yq_inv N q'"
    and b: "begin_ix N q' = begin_ix N q" and e: "end_ix N q' = end_ix N q"
    and s: "yq_slots N q' = butlast (yq_slots N q) @ [Some v]"
    using yq_set_back[OF inv ne] by blast
  have f: "front_ptr (yq_push N q') = front_ptr q"
    using ptr_at_begin[OF inv] ptr_at_begin[OF yq_push_inv[OF i]] yq_push_ix[OF i] b by simp
  have "butlast (yq_slots N (yq_push N q')) = butlast (yq_slots N q) @ [Some v]"
    using yq_push_slots[OF i] s by (auto simp: butlast_append)
  then show ?thesis
    using that[OF q' yq_push_inv[OF i]] yq_push_ix[OF i] yq_push_back[OF i] b e f by simp
qed

end
