(* ===== verification/Ypipe.thy ===== *)
theory Ypipe
  imports Yqueue
begin

text \<open>
  \<^verbatim>\<open>ypipe_t<T, N>\<close> of src/ypipe.hpp: the lock-free pipe between one writer and one reader
  thread, on top of the chunked queue. The last slot of the queue is a terminator. The
  writer owns \<open>wp\<close> (first un-flushed item) and \<open>fp\<close> (first item of an incomplete message),
  the reader owns \<open>rp\<close> (first un-prefetched item), and both meet in the atomic pointer
  \<open>cp\<close> (past the last flushed item, \<open>None\<close> when the reader is asleep). Every operation
  performs at most one atomic access to \<open>cp\<close>, so an interleaving of both threads is a
  sequence of operations. The pipe refines an abstract pipe of four parts: the flushed items,
  the completed items not yet flushed, the items of an incomplete message, and whether the
  reader sleeps.
\<close>

record 'a ypipe =
  queue :: "'a yqueue"
  wp :: "slot_ptr option"
  rp :: "slot_ptr option"
  fp :: "slot_ptr option"
  cp :: "slot_ptr option"

subsection \<open>Operations\<close>

text \<open>\<^verbatim>\<open>atomic_ptr_t::cas\<close>: the new value of the pointer and the old one, which is returned.\<close>

definition atomic_ptr_cas :: "'p option \<Rightarrow> 'p option \<Rightarrow> 'p option \<Rightarrow> 'p option \<times> 'p option" where
  "atomic_ptr_cas ptr cmp v = (if ptr = cmp then v else ptr, ptr)"

definition ypipe_new :: "nat \<Rightarrow> 'a ypipe" where
  "ypipe_new N = (let q = yq_push N yqueue_new; b = back_ptr q
     in \<lparr>queue = q, wp = b, rp = b, fp = b, cp = b\<rparr>)"

definition ypipe_write :: "nat \<Rightarrow> 'a \<Rightarrow> bool \<Rightarrow> 'a ypipe \<Rightarrow> 'a ypipe option" where
  "ypipe_write N v incomplete p = do {
     q \<leftarrow> yq_set_back v (queue p);
     let q = yq_push N q;
     let p = p\<lparr>queue := q\<rparr>;
     Some (if \<not> incomplete then p\<lparr>fp := back_ptr q\<rparr> else p) }"

definition ypipe_unwrite :: "nat \<Rightarrow> 'a ypipe \<Rightarrow> ('a option \<times> 'a ypipe) option" where
  "ypipe_unwrite N p =
     (if fp p = back_ptr (queue p) then Some (None, p)
      else do {
        q \<leftarrow> yq_unpush N (queue p);
        v \<leftarrow> yq_back q;
        Some (Some v, p\<lparr>queue := q\<rparr>) })"

definition ypipe_flush :: "'a ypipe \<Rightarrow> bool \<times> 'a ypipe" where
  "ypipe_flush p =
     (if wp p = fp p then (True, p)
      else let (c, old) = atomic_ptr_cas (cp p) (wp p) (fp p); p = p\<lparr>cp := c\<rparr>
        in if old \<noteq> wp p then (False, p\<lparr>cp := fp p, wp := fp p\<rparr>)
           else (True, p\<lparr>wp := fp p\<rparr>))"

definition ypipe_check_read :: "'a ypipe \<Rightarrow> bool \<times> 'a ypipe" where
  "ypipe_check_read p =
     (let a = Some (front_ptr (queue p))
      in if a \<noteq> rp p \<and> rp p \<noteq> None then (True, p)
         else let (c, old) = atomic_ptr_cas (cp p) a None; p = p\<lparr>cp := c, rp := old\<rparr>
           in if a = rp p \<or> rp p = None then (False, p) else (True, p))"

definition ypipe_read :: "nat \<Rightarrow> 'a ypipe \<Rightarrow> ('a option \<times> 'a ypipe) option" where
  "ypipe_read N p =
     (let (ok, p) = ypipe_check_read p
      in if \<not> ok then Some (None, p)
         else do {
           v \<leftarrow> yq_front (queue p);
           q \<leftarrow> yq_pop N (queue p);
           Some (Some v, p\<lparr>queue := q\<rparr>) })"

definition ypipe_probe :: "('a \<Rightarrow> bool) \<Rightarrow> 'a ypipe \<Rightarrow> (bool \<times> 'a ypipe) option" where
  "ypipe_probe fn p =
     (let (rc, p) = ypipe_check_read p
      in do {
        zmq_assert rc;
        v \<leftarrow> yq_front (queue p);
        Some (fn v, p) })"

subsection \<open>The abstract pipe\<close>

record 'a apipe =
  flushed :: "'a list"
  complete :: "'a list"
  partial :: "'a list"
  asleep :: bool

definition ap_new :: "'a apipe" where
  "ap_new = \<lparr>flushed = [], complete = [], partial = [], asleep = False\<rparr>"

definition ap_write :: "'a \<Rightarrow> bool \<Rightarrow> 'a apipe \<Rightarrow> 'a apipe" where
  "ap_write v incomplete a =
     (if incomplete then a\<lparr>partial := partial a @ [v]\<rparr>
      else a\<lparr>complete := complete a @ partial a @ [v], partial := []\<rparr>)"

definition ap_unwrite :: "'a apipe \<Rightarrow> 'a option \<times> 'a apipe" where
  "ap_unwrite a = (if partial a = [] then (None, a)
     else (Some (last (partial a)), a\<lparr>partial := butlast (partial a)\<rparr>))"

definition ap_flush :: "'a apipe \<Rightarrow> bool \<times> 'a apipe" where
  "ap_flush a = (if complete a = [] then (True, a)
     else (\<not> asleep a, a\<lparr>flushed := flushed a @ complete a, complete := [], asleep := False\<rparr>))"

definition ap_check_read :: "'a apipe \<Rightarrow> bool \<times> 'a apipe" where
  "ap_check_read a = (if flushed a = [] then (False, a\<lparr>asleep := True\<rparr>) else (True, a))"

definition ap_read :: "'a apipe \<Rightarrow> 'a option \<times> 'a apipe" where
  "ap_read a = (case flushed a of [] \<Rightarrow> (None, a\<lparr>asleep := True\<rparr>)
     | x # xs \<Rightarrow> (Some x, a\<lparr>flushed := xs\<rparr>))"

subsection \<open>Invariant and abstraction\<close>

definition ppos :: "nat \<Rightarrow> slot_ptr option \<Rightarrow> nat" where
  "ppos N x = (case x of None \<Rightarrow> 0 | Some a \<Rightarrow> pos_of N a)"

definition yp_items :: "nat \<Rightarrow> 'a ypipe \<Rightarrow> 'a option list" where
  "yp_items N p = butlast (yq_slots N (queue p))"

definition yp_inv :: "nat \<Rightarrow> 'a ypipe \<Rightarrow> bool" where
  "yp_inv N p \<longleftrightarrow>
    (let q = queue p; b = begin_ix N q; w = ppos N (wp p); f = ppos N (fp p)
     in yq_inv N q \<and> b < end_ix N q \<and> None \<notin> set (yp_items N p) \<and>
        wp p = Some (ptr_at N w) \<and> fp p = Some (ptr_at N f) \<and>
        b \<le> w \<and> w \<le> f \<and> f < end_ix N q \<and>
        (rp p = None \<or> (\<exists>r. rp p = Some (ptr_at N r) \<and> b \<le> r \<and> r \<le> w)) \<and>
        (cp p = wp p \<or> cp p = None \<and> w = b))"

definition yp_abs :: "nat \<Rightarrow> 'a ypipe \<Rightarrow> 'a apipe" where
  "yp_abs N p =
    (let b = begin_ix N (queue p); w = ppos N (wp p) - b; f = ppos N (fp p) - b;
         xs = map the (yp_items N p)
     in \<lparr>flushed = take w xs, complete = drop w (take f xs), partial = drop f xs,
         asleep = (cp p = None)\<rparr>)"

lemma pos_of_ptr_at [simp]: "0 < N \<Longrightarrow> pos_of N (ptr_at N i) = i"
  by (simp add: pos_of_def ptr_at_def)

lemma ppos_Some [simp]: "ppos N (Some a) = pos_of N a"
  by (simp add: ppos_def)

text \<open>The invariant with the writer's positions made explicit.\<close>

lemma yp_invE:
  assumes "yp_inv N p"
  obtains w f where "0 < N" "yq_inv N (queue p)" "begin_ix N (queue p) < end_ix N (queue p)"
    "None \<notin> set (yp_items N p)" "wp p = Some (ptr_at N w)" "fp p = Some (ptr_at N f)"
    "begin_ix N (queue p) \<le> w" "w \<le> f" "f < end_ix N (queue p)"
    "rp p = None \<or> (\<exists>r. rp p = Some (ptr_at N r) \<and> begin_ix N (queue p) \<le> r \<and> r \<le> w)"
    "cp p = wp p \<or> cp p = None \<and> w = begin_ix N (queue p)"
    "back_ptr (queue p) = Some (ptr_at N (end_ix N (queue p) - 1))"
    "front_ptr (queue p) = ptr_at N (begin_ix N (queue p))"
    "ppos N (wp p) = w" "ppos N (fp p) = f"
    "length (yp_items N p) = end_ix N (queue p) - 1 - begin_ix N (queue p)"
proof -
  have N: "0 < N" and q: "yq_inv N (queue p)" using assms by (auto simp: yp_inv_def Let_def yq_inv_def)
  have "length (yp_items N p) = end_ix N (queue p) - 1 - begin_ix N (queue p)"
    by (simp add: yp_items_def length_yq_slots)
  then show ?thesis
    using assms ptr_at_begin[OF q] N
    by (intro that[of "ppos N (wp p)" "ppos N (fp p)"]) (auto simp: yp_inv_def Let_def yq_inv_def)
qed

lemma yp_invI:
  assumes "yq_inv N (queue p)" "begin_ix N (queue p) < end_ix N (queue p)"
    "None \<notin> set (yp_items N p)" "wp p = Some (ptr_at N w)" "fp p = Some (ptr_at N f)"
    "begin_ix N (queue p) \<le> w" "w \<le> f" "f < end_ix N (queue p)"
    "rp p = None \<or> (\<exists>r. rp p = Some (ptr_at N r) \<and> begin_ix N (queue p) \<le> r \<and> r \<le> w)"
    "cp p = wp p \<or> cp p = None \<and> w = begin_ix N (queue p)"
  shows "yp_inv N p"
proof -
  have "0 < N" using assms(1) by (simp add: yq_inv_def)
  then show ?thesis using assms by (simp add: yp_inv_def Let_def)
qed

subsection \<open>The pipe refines the abstract pipe\<close>

lemma ypipe_new_refines:
  assumes "0 < N"
  shows "yp_inv N (ypipe_new N :: 'a ypipe) \<and> yp_abs N (ypipe_new N :: 'a ypipe) = ap_new"
proof -
  let ?q = "yq_push N yqueue_new :: 'a yqueue"
  note new = yqueue_new_inv[OF assms, where ?'a = 'a]
  have ix: "begin_ix N ?q = 0" "end_ix N ?q = 1"
    using yq_push_ix[OF new] by (simp_all add: yqueue_new_def begin_ix_def end_ix_def)
  have bp: "back_ptr ?q = Some (ptr_at N 0)"
    using yq_push_back[OF new] by (simp add: yqueue_new_def end_ix_def)
  have items: "yp_items N (ypipe_new N :: 'a ypipe) = []"
    using ix by (simp add: yp_items_def ypipe_new_def Let_def yq_slots_def)
  have "yp_inv N (ypipe_new N :: 'a ypipe)"
    using yq_push_inv[OF new] ix bp items
    by (intro yp_invI[where w = 0 and f = 0]) (auto simp: ypipe_new_def Let_def)
  moreover have "cp (ypipe_new N :: 'a ypipe) \<noteq> None" using bp by (simp add: ypipe_new_def Let_def)
  ultimately show ?thesis using items by (simp add: yp_abs_def ap_new_def Let_def)
qed

lemma ypipe_write_refines:
  assumes inv: "yp_inv N p"
  shows "\<exists>p'. ypipe_write N v inc p = Some p' \<and> yp_inv N p' \<and> yp_abs N p' = ap_write v inc (yp_abs N p)"
proof -
  obtain w f where a: "0 < N" "yq_inv N (queue p)" "begin_ix N (queue p) < end_ix N (queue p)"
    "None \<notin> set (yp_items N p)" "wp p = Some (ptr_at N w)" "fp p = Some (ptr_at N f)"
    "begin_ix N (queue p) \<le> w" "w \<le> f" "f < end_ix N (queue p)"
    "rp p = None \<or> (\<exists>r. rp p = Some (ptr_at N r) \<and> begin_ix N (queue p) \<le> r \<and> r \<le> w)"
    "cp p = wp p \<or> cp p = None \<and> w = begin_ix N (queue p)"
    "ppos N (wp p) = w" "ppos N (fp p) = f"
    "length (yp_items N p) = end_ix N (queue p) - 1 - begin_ix N (queue p)"
    by (rule yp_invE[OF inv])
  obtain q' where q': "yq_set_back v (queue p) = Some q'" "yq_inv N (yq_push N q')"
    "begin_ix N (yq_push N q') = begin_ix N (queue p)"
    "end_ix N (yq_push N q') = Suc (end_ix N (queue p))"
    "back_ptr (yq_push N q') = Some (ptr_at N (end_ix N (queue p)))"
    "butlast (yq_slots N (yq_push N q')) = yp_items N p @ [Some v]"
    using yq_write_push[OF a(2,3)] unfolding yp_items_def by metis
  let ?p = "if \<not> inc then p\<lparr>queue := yq_push N q', fp := back_ptr (yq_push N q')\<rparr>
    else p\<lparr>queue := yq_push N q'\<rparr>"
  have res: "ypipe_write N v inc p = Some ?p" using q' by (simp add: ypipe_write_def)
  have items: "yp_items N ?p = yp_items N p @ [Some v]" using q' by (simp add: yp_items_def)
  have "yp_inv N ?p"
    using a q' items
    by (intro yp_invI[where w = w and f = "if inc then f else end_ix N (queue p)"]) auto
  moreover have "yp_abs N ?p = ap_write v inc (yp_abs N p)"
    using a q' items by (auto simp: yp_abs_def Let_def ap_write_def)
  ultimately show ?thesis using res by blast
qed

lemma ypipe_unwrite_refines:
  assumes inv: "yp_inv N p"
  shows "\<exists>p'. ypipe_unwrite N p = Some (fst (ap_unwrite (yp_abs N p)), p') \<and> yp_inv N p' \<and>
    yp_abs N p' = snd (ap_unwrite (yp_abs N p))"
proof -
  let ?b = "begin_ix N (queue p)" and ?e = "end_ix N (queue p)"
  obtain w f where a: "0 < N" "yq_inv N (queue p)" "?b < ?e"
    "None \<notin> set (yp_items N p)" "wp p = Some (ptr_at N w)" "fp p = Some (ptr_at N f)"
    "?b \<le> w" "w \<le> f" "f < ?e"
    "rp p = None \<or> (\<exists>r. rp p = Some (ptr_at N r) \<and> ?b \<le> r \<and> r \<le> w)"
    "cp p = wp p \<or> cp p = None \<and> w = ?b" "back_ptr (queue p) = Some (ptr_at N (?e - 1))"
    "ppos N (wp p) = w" "ppos N (fp p) = f" "length (yp_items N p) = ?e - 1 - ?b"
    by (rule yp_invE[OF inv])
  show ?thesis
  proof (cases "f = ?e - 1")
    case True
    then have "ypipe_unwrite N p = Some (None, p)"
      using a by (simp add: ypipe_unwrite_def)
    moreover have "ap_unwrite (yp_abs N p) = (None, yp_abs N p)"
      using a True by (simp add: ap_unwrite_def yp_abs_def Let_def)
    ultimately show ?thesis using inv by simp
  next
    case False
    then have ne: "fp p \<noteq> back_ptr (queue p)" using a ptr_at_inj[OF a(1)] by simp
    obtain q' where q': "yq_unpush N (queue p) = Some q'" "yq_inv N q'" "begin_ix N q' = ?b"
      "Suc (end_ix N q') = ?e" "yq_slots N q' = yp_items N p"
      using yq_unpush[OF a(2,3)] unfolding yp_items_def by metis
    have lt: "begin_ix N q' < end_ix N q'" using q' a False by linarith
    have items: "yp_items N p \<noteq> []" using q'(5) lt by (auto simp: yq_slots_def)
    have "yq_back q' = last (yp_items N p)"
      using lt q' by (auto simp: yq_back_def yq_inv_def yq_slots_def upt_Suc_append last_map
          simp flip: q'(5))
    moreover obtain v where v: "last (yp_items N p) = Some v"
      using a(4) items last_in_set by (metis not_Some_eq)
    ultimately have bk: "yq_back q' = Some v" by simp
    let ?p = "p\<lparr>queue := q'\<rparr>"
    have res: "ypipe_unwrite N p = Some (Some v, ?p)"
      using ne q' bk by (simp add: ypipe_unwrite_def)
    have items': "yp_items N ?p = butlast (yp_items N p)" using q' by (simp add: yp_items_def)
    have "yp_inv N ?p"
      using a q' lt items' False
      by (intro yp_invI[where w = w and f = f]) (auto dest: in_set_butlastD)
    moreover have len: "f - ?b < length (yp_items N p)" using a False by linarith
    then have "ap_unwrite (yp_abs N p) = (Some v, yp_abs N ?p)"
      using a q' items' v items
      by (simp add: ap_unwrite_def yp_abs_def Let_def last_map map_butlast butlast_drop
          take_butlast last_drop)
    ultimately show ?thesis using res by simp
  qed
qed

lemma ypipe_flush_refines:
  assumes inv: "yp_inv N p"
  shows "fst (ypipe_flush p) = fst (ap_flush (yp_abs N p)) \<and> yp_inv N (snd (ypipe_flush p)) \<and>
    yp_abs N (snd (ypipe_flush p)) = snd (ap_flush (yp_abs N p))"
proof -
  let ?b = "begin_ix N (queue p)" and ?e = "end_ix N (queue p)"
  obtain w f where a: "0 < N" "yq_inv N (queue p)" "?b < ?e"
    "None \<notin> set (yp_items N p)" "wp p = Some (ptr_at N w)" "fp p = Some (ptr_at N f)"
    "?b \<le> w" "w \<le> f" "f < ?e"
    "rp p = None \<or> (\<exists>r. rp p = Some (ptr_at N r) \<and> ?b \<le> r \<and> r \<le> w)"
    "cp p = wp p \<or> cp p = None \<and> w = ?b"
    "ppos N (wp p) = w" "ppos N (fp p) = f" "length (yp_items N p) = ?e - 1 - ?b"
    by (rule yp_invE[OF inv])
  show ?thesis
  proof (cases "w = f")
    case True
    then have "ypipe_flush p = (True, p)" using a by (simp add: ypipe_flush_def)
    moreover have "ap_flush (yp_abs N p) = (True, yp_abs N p)"
      using a True by (simp add: ap_flush_def yp_abs_def Let_def)
    ultimately show ?thesis using inv by simp
  next
    case False
    let ?p = "p\<lparr>cp := fp p, wp := fp p\<rparr>"
    have res: "ypipe_flush p = (cp p \<noteq> None, ?p)"
      using a False ptr_at_inj[OF a(1), of w f]
      by (auto simp: ypipe_flush_def atomic_ptr_cas_def)
    have items: "yp_items N ?p = yp_items N p" by (simp add: yp_items_def)
    have "yp_inv N ?p" using a items by (intro yp_invI[where w = f and f = f]) auto
    moreover have "drop (w - ?b) (take (f - ?b) (map the (yp_items N p))) \<noteq> []"
      using a False by simp
    then have "ap_flush (yp_abs N p) = (cp p \<noteq> None, yp_abs N ?p)"
      using a items
      by (simp add: ap_flush_def yp_abs_def Let_def)
        (metis append_take_drop_id diff_le_mono min.absorb1 take_take)
    ultimately show ?thesis using res by simp
  qed
qed

text \<open>After a successful check the prefetch pointer is ahead of the front.\<close>

definition prefetched :: "nat \<Rightarrow> 'a ypipe \<Rightarrow> bool" where
  "prefetched N p \<longleftrightarrow> (\<exists>r. rp p = Some (ptr_at N r) \<and> begin_ix N (queue p) < r \<and> r \<le> ppos N (wp p))"

lemma ypipe_check_read_refines:
  assumes inv: "yp_inv N p"
  shows "fst (ypipe_check_read p) = fst (ap_check_read (yp_abs N p)) \<and>
    yp_inv N (snd (ypipe_check_read p)) \<and>
    yp_abs N (snd (ypipe_check_read p)) = snd (ap_check_read (yp_abs N p)) \<and>
    queue (snd (ypipe_check_read p)) = queue p \<and>
    (fst (ypipe_check_read p) \<longrightarrow> prefetched N (snd (ypipe_check_read p)))"
proof -
  let ?b = "begin_ix N (queue p)" and ?e = "end_ix N (queue p)"
  obtain w f where a: "0 < N" "yq_inv N (queue p)" "?b < ?e"
    "None \<notin> set (yp_items N p)" "wp p = Some (ptr_at N w)" "fp p = Some (ptr_at N f)"
    "?b \<le> w" "w \<le> f" "f < ?e"
    "rp p = None \<or> (\<exists>r. rp p = Some (ptr_at N r) \<and> ?b \<le> r \<and> r \<le> w)"
    "cp p = wp p \<or> cp p = None \<and> w = ?b" "front_ptr (queue p) = ptr_at N ?b"
    "ppos N (wp p) = w" "ppos N (fp p) = f" "length (yp_items N p) = ?e - 1 - ?b"
    by (rule yp_invE[OF inv])
  note inj = ptr_at_inj[OF a(1)]
  have flushed: "flushed (yp_abs N p) = [] \<longleftrightarrow> w = ?b"
    using a by (auto simp: yp_abs_def Let_def)
  show ?thesis
  proof (cases "rp p = None \<or> rp p = Some (ptr_at N ?b)")
    case False
    then obtain r where r: "rp p = Some (ptr_at N r)" "?b < r" "r \<le> w"
      using a(10) by (metis le_neq_implies_less)
    then have "ypipe_check_read p = (True, p)"
      using False a by (auto simp: ypipe_check_read_def Let_def)
    moreover have "prefetched N p" using r a by (auto simp: prefetched_def)
    ultimately show ?thesis using inv flushed r by (auto simp: ap_check_read_def)
  next
    case stale: True
    then have cond: "\<not> (Some (front_ptr (queue p)) \<noteq> rp p \<and> rp p \<noteq> None)" using a(12) by auto
    show ?thesis
    proof (cases "w = ?b")
      case False
      then have c: "cp p = Some (ptr_at N w)" using a by auto
      have ne: "ptr_at N ?b \<noteq> ptr_at N w" using False inj by metis
      have res: "ypipe_check_read p = (True, p\<lparr>cp := cp p, rp := cp p\<rparr>)"
        unfolding ypipe_check_read_def Let_def if_not_P[OF cond]
        using c ne a(12) by (simp add: atomic_ptr_cas_def)
      let ?p = "p\<lparr>cp := cp p, rp := cp p\<rparr>"
      have "yp_inv N ?p"
        using a c by (intro yp_invI[where w = w and f = f]) (auto simp: yp_items_def)
      moreover have "yp_abs N ?p = yp_abs N p" by (simp add: yp_abs_def yp_items_def)
      moreover have "prefetched N ?p"
        using a c False by (auto simp: prefetched_def intro!: exI[of _ w])
      ultimately show ?thesis using res flushed False by (simp add: ap_check_read_def)
    next
      case True
      let ?p = "p\<lparr>cp := None, rp := cp p\<rparr>"
      have c: "cp p = Some (ptr_at N ?b) \<or> cp p = None" using a(5,11) unfolding True by metis
      have "atomic_ptr_cas (cp p) (Some (ptr_at N ?b)) None = (None, cp p)"
        using c by (auto simp: atomic_ptr_cas_def)
      moreover have "Some (ptr_at N ?b) = rp ?p \<or> rp ?p = None" using c by auto
      ultimately have res: "ypipe_check_read p = (False, ?p)"
        unfolding ypipe_check_read_def Let_def if_not_P[OF cond] unfolding a(12)
        by (simp only: split_conv if_True fst_conv snd_conv ypipe.simps)
      have "rp ?p = None \<or> (\<exists>r. rp ?p = Some (ptr_at N r) \<and> ?b \<le> r \<and> r \<le> w)"
        using a(5,7,11) by auto
      then have "yp_inv N ?p"
        using a(2-9) True by (intro yp_invI[where w = w and f = f]) (simp_all add: yp_items_def)
      moreover have "yp_abs N ?p = (yp_abs N p)\<lparr>asleep := True\<rparr>"
        by (simp add: yp_abs_def yp_items_def Let_def)
      ultimately show ?thesis using res flushed True by (simp add: ap_check_read_def)
    qed
  qed
qed

lemma yp_pop:
  assumes inv: "yp_inv N p" and pre: "prefetched N p"
  obtains v q' where "yq_front (queue p) = Some v" "yq_pop N (queue p) = Some q'"
    "yp_inv N (p\<lparr>queue := q'\<rparr>)" "flushed (yp_abs N p) = v # flushed (yp_abs N (p\<lparr>queue := q'\<rparr>))"
    "yp_abs N (p\<lparr>queue := q'\<rparr>) = (yp_abs N p)\<lparr>flushed := tl (flushed (yp_abs N p))\<rparr>"
proof -
  let ?b = "begin_ix N (queue p)" and ?e = "end_ix N (queue p)"
  obtain w f where a: "0 < N" "yq_inv N (queue p)" "?b < ?e"
    "None \<notin> set (yp_items N p)" "wp p = Some (ptr_at N w)" "fp p = Some (ptr_at N f)"
    "?b \<le> w" "w \<le> f" "f < ?e"
    "cp p = wp p \<or> cp p = None \<and> w = ?b"
    "ppos N (wp p) = w" "ppos N (fp p) = f" "length (yp_items N p) = ?e - 1 - ?b"
    by (rule yp_invE[OF inv])
  have lt: "?b < w" using pre a by (auto simp: prefetched_def)
  obtain q' where q': "yq_pop N (queue p) = Some q'" "yq_inv N q'" "begin_ix N q' = Suc ?b"
    "end_ix N q' = ?e" "yq_slots N q' = tl (yq_slots N (queue p))"
    using yq_pop[OF a(2,3)] by metis
  let ?p = "p\<lparr>queue := q'\<rparr>"
  obtain x xs where xs: "yp_items N p = x # xs"
    using a lt by (cases "yp_items N p") auto
  then obtain v where v: "x = Some v" using a(4) by (cases x) auto
  have "yq_slots N (queue p) = yp_items N p @ [last (yq_slots N (queue p))]"
    using xs by (metis append_butlast_last_id butlast.simps(1) list.distinct(1) yp_items_def)
  then have hd: "yq_front (queue p) = Some v" and tl: "yp_items N ?p = xs"
    using yq_front_hd[OF a(2,3)] xs v q'(5)
    by (metis append_Cons list.sel(1), simp add: yp_items_def butlast_tl)
  have inv': "yp_inv N ?p"
    using a q' lt xs tl pre
    by (intro yp_invI[where w = w and f = f]) (auto simp: prefetched_def)
  obtain k where k: "w - ?b = Suc k" using lt by (metis Suc_diff_Suc)
  obtain m where m: "f - ?b = Suc m" using lt a(8) by (metis Suc_diff_Suc less_le_trans)
  have km: "w - Suc ?b = k" "f - Suc ?b = m" using k m by simp_all
  have old: "yp_abs N p = \<lparr>flushed = v # take k (map the xs),
    complete = drop k (take m (map the xs)), partial = drop m (map the xs), asleep = (cp p = None)\<rparr>"
    unfolding yp_abs_def Let_def xs v a(11,12) k m by simp
  have wf: "ppos N (wp ?p) = w" "ppos N (fp ?p) = f" "begin_ix N (queue ?p) = Suc ?b"
    using a(11,12) q'(3) by simp_all
  have new: "yp_abs N ?p = \<lparr>flushed = take k (map the xs),
    complete = drop k (take m (map the xs)), partial = drop m (map the xs), asleep = (cp p = None)\<rparr>"
    unfolding yp_abs_def Let_def tl wf km by simp
  show ?thesis by (rule that[OF hd q'(1) inv']) (simp_all add: old new)
qed

lemma ypipe_read_refines:
  assumes inv: "yp_inv N p"
  shows "\<exists>p'. ypipe_read N p = Some (fst (ap_read (yp_abs N p)), p') \<and> yp_inv N p' \<and>
    yp_abs N p' = snd (ap_read (yp_abs N p))"
proof -
  note chk = ypipe_check_read_refines[OF inv]
  obtain ok p1 where p1: "ypipe_check_read p = (ok, p1)" by fastforce
  show ?thesis
  proof (cases "flushed (yp_abs N p)")
    case Nil
    then show ?thesis using chk p1
      by (auto simp: ypipe_read_def ap_check_read_def ap_read_def)
  next
    case (Cons x xs)
    then have ok: "ok" and inv1: "yp_inv N p1" and abs1: "yp_abs N p1 = yp_abs N p"
      and pre: "prefetched N p1"
      using chk p1 by (auto simp: ap_check_read_def)
    obtain v q' where "yq_front (queue p1) = Some v" "yq_pop N (queue p1) = Some q'"
      "yp_inv N (p1\<lparr>queue := q'\<rparr>)" "flushed (yp_abs N p1) = v # flushed (yp_abs N (p1\<lparr>queue := q'\<rparr>))"
      "yp_abs N (p1\<lparr>queue := q'\<rparr>) = (yp_abs N p1)\<lparr>flushed := tl (flushed (yp_abs N p1))\<rparr>"
      by (rule yp_pop[OF inv1 pre])
    then show ?thesis using p1 ok Cons abs1 by (simp add: ypipe_read_def ap_read_def)
  qed
qed

lemma ypipe_probe_refines:
  assumes inv: "yp_inv N p" and ne: "flushed (yp_abs N p) \<noteq> []"
  shows "\<exists>p'. ypipe_probe fn p = Some (fn (hd (flushed (yp_abs N p))), p') \<and> yp_inv N p' \<and>
    yp_abs N p' = yp_abs N p"
proof -
  note chk = ypipe_check_read_refines[OF inv]
  obtain ok p1 where p1: "ypipe_check_read p = (ok, p1)" by fastforce
  have ok: "ok" and inv1: "yp_inv N p1" and abs1: "yp_abs N p1 = yp_abs N p"
    and pre: "prefetched N p1"
    using chk p1 ne by (auto simp: ap_check_read_def)
  obtain v q' where "yq_front (queue p1) = Some v"
    "flushed (yp_abs N p1) = v # flushed (yp_abs N (p1\<lparr>queue := q'\<rparr>))"
    by (rule yp_pop[OF inv1 pre])
  then show ?thesis using p1 ok inv1 abs1 by (simp add: ypipe_probe_def)
qed

subsection \<open>Sequences of operations: the contract of a pipe\<close>

text \<open>
  Any interleaving of the writer's and the reader's operations is a list of operations; a
  run records what each operation returned.
\<close>

datatype 'a pipe_op = OpWrite 'a bool | OpUnwrite | OpFlush | OpCheckRead | OpRead

datatype 'a pipe_obs = ObsDone | ObsItem "'a option" | ObsBool bool

fun run_ops :: "('a pipe_op \<Rightarrow> 'p \<Rightarrow> ('a pipe_obs \<times> 'p) option) \<Rightarrow> 'a pipe_op list \<Rightarrow> 'p
    \<Rightarrow> ('a pipe_obs list \<times> 'p) option" where
  "run_ops step [] p = Some ([], p)"
| "run_ops step (x # xs) p = do {
     (ob, p) \<leftarrow> step x p;
     (obs, p) \<leftarrow> run_ops step xs p;
     Some (ob # obs, p) }"

fun ypipe_step :: "nat \<Rightarrow> 'a pipe_op \<Rightarrow> 'a ypipe \<Rightarrow> ('a pipe_obs \<times> 'a ypipe) option" where
  "ypipe_step N (OpWrite v inc) p = do { p \<leftarrow> ypipe_write N v inc p; Some (ObsDone, p) }"
| "ypipe_step N OpUnwrite p = do { (v, p) \<leftarrow> ypipe_unwrite N p; Some (ObsItem v, p) }"
| "ypipe_step N OpFlush p = (let (b, p) = ypipe_flush p in Some (ObsBool b, p))"
| "ypipe_step N OpCheckRead p = (let (b, p) = ypipe_check_read p in Some (ObsBool b, p))"
| "ypipe_step N OpRead p = do { (v, p) \<leftarrow> ypipe_read N p; Some (ObsItem v, p) }"

fun ap_step :: "'a pipe_op \<Rightarrow> 'a apipe \<Rightarrow> 'a pipe_obs \<times> 'a apipe" where
  "ap_step (OpWrite v inc) a = (ObsDone, ap_write v inc a)"
| "ap_step OpUnwrite a = map_prod ObsItem id (ap_unwrite a)"
| "ap_step OpFlush a = map_prod ObsBool id (ap_flush a)"
| "ap_step OpCheckRead a = map_prod ObsBool id (ap_check_read a)"
| "ap_step OpRead a = map_prod ObsItem id (ap_read a)"

text \<open>The items a reader received, and the items written and not taken back.\<close>

fun delivered :: "'a pipe_op list \<Rightarrow> 'a pipe_obs list \<Rightarrow> 'a list" where
  "delivered (OpRead # xs) (ObsItem (Some v) # obs) = v # delivered xs obs"
| "delivered (_ # xs) (_ # obs) = delivered xs obs"
| "delivered _ _ = []"

fun retained :: "'a pipe_op list \<Rightarrow> 'a pipe_obs list \<Rightarrow> 'a list \<Rightarrow> 'a list" where
  "retained (OpWrite v inc # xs) (_ # obs) acc = retained xs obs (acc @ [v])"
| "retained (OpUnwrite # xs) (ObsItem (Some v) # obs) acc = retained xs obs (butlast acc)"
| "retained (_ # xs) (_ # obs) acc = retained xs obs acc"
| "retained _ _ acc = acc"

definition ap_all :: "'a apipe \<Rightarrow> 'a list" where
  "ap_all a = flushed a @ complete a @ partial a"

locale fifo_pipe =
  fixes step :: "'a pipe_op \<Rightarrow> 'p \<Rightarrow> ('a pipe_obs \<times> 'p) option"
    and inv :: "'p \<Rightarrow> bool"
    and abs :: "'p \<Rightarrow> 'a apipe"
  assumes step_refines:
    "inv p \<Longrightarrow> \<exists>p'. step x p = Some (fst (ap_step x (abs p)), p') \<and> inv p' \<and>
       abs p' = snd (ap_step x (abs p))"
    and awake: "inv p \<Longrightarrow> asleep (abs p) \<Longrightarrow> flushed (abs p) = []"
begin

lemma run_total: "inv p \<Longrightarrow> \<exists>obs p'. run_ops step xs p = Some (obs, p') \<and> inv p'"
proof (induction xs arbitrary: p)
  case (Cons x xs)
  obtain p1 where p1: "step x p = Some (fst (ap_step x (abs p)), p1)" "inv p1"
    using step_refines[OF Cons.prems] by blast
  show ?case using p1(1) Cons.IH[OF p1(2)] by auto
qed simp

lemma run_delivers:
  assumes "inv p" "run_ops step xs p = Some (obs, p')"
  shows "pre @ delivered xs obs @ ap_all (abs p') = retained xs obs (pre @ ap_all (abs p))"
  using assms
proof (induction xs arbitrary: p obs pre)
  case Nil
  then show ?case by simp
next
  case (Cons x xs)
  obtain p1 where p1: "step x p = Some (fst (ap_step x (abs p)), p1)" "inv p1"
    and a1: "abs p1 = snd (ap_step x (abs p))"
    using step_refines[OF Cons.prems(1)] by blast
  obtain obs' where obs': "run_ops step xs p1 = Some (obs', p')"
    and obs: "obs = fst (ap_step x (abs p)) # obs'"
    using Cons.prems(2) p1(1) by (auto simp: bind_Some_iff)
  note IH = Cons.IH[OF p1(2) obs']
  show ?case
  proof (cases x)
    case (OpWrite v inc)
    then show ?thesis using IH[of pre] obs a1 by (simp add: ap_write_def ap_all_def split: if_splits)
  next
    case OpUnwrite
    then show ?thesis using IH[of pre] obs a1
      by (auto simp: ap_unwrite_def ap_all_def butlast_append split: if_splits)
  next
    case OpFlush
    then show ?thesis using IH[of pre] obs a1
      by (auto simp: ap_flush_def ap_all_def split: if_splits)
  next
    case OpCheckRead
    then show ?thesis using IH[of pre] obs a1
      by (auto simp: ap_check_read_def ap_all_def split: if_splits)
  next
    case OpRead
    then show ?thesis
      using IH[of "pre @ (case fst (ap_read (abs p)) of None \<Rightarrow> [] | Some v \<Rightarrow> [v])"] obs a1
      by (auto simp: ap_read_def ap_all_def split: list.splits)
  qed
qed

lemma run_no_lost_wakeup:
  assumes "inv p" "run_ops step xs p = Some (obs, p')" "asleep (abs p')"
  shows "flushed (abs p') = []"
proof -
  have "inv p'" using run_total[OF assms(1), of xs] assms(2) by auto
  then show ?thesis using assms(3) by (rule awake)
qed

end

lemma ypipe_step_refines:
  assumes "yp_inv N p"
  shows "\<exists>p'. ypipe_step N x p = Some (fst (ap_step x (yp_abs N p)), p') \<and> yp_inv N p' \<and>
    yp_abs N p' = snd (ap_step x (yp_abs N p))"
proof (cases x)
  case (OpWrite v inc)
  then show ?thesis using ypipe_write_refines[OF assms, of v inc] by auto
next
  case OpUnwrite
  then show ?thesis using ypipe_unwrite_refines[OF assms] by auto
next
  case OpFlush
  then show ?thesis using ypipe_flush_refines[OF assms] by (auto split: prod.split)
next
  case OpCheckRead
  then show ?thesis using ypipe_check_read_refines[OF assms] by (auto split: prod.split)
next
  case OpRead
  then show ?thesis using ypipe_read_refines[OF assms] by auto
qed

lemma yp_asleep_empty:
  assumes "yp_inv N p" "asleep (yp_abs N p)"
  shows "flushed (yp_abs N p) = []"
  using assms by (auto simp: yp_inv_def yp_abs_def Let_def)

interpretation yp: fifo_pipe "ypipe_step N" "yp_inv N" "yp_abs N" for N
  by unfold_locales (rule ypipe_step_refines, assumption, rule yp_asleep_empty)

subsection \<open>Properties\<close>



text \<open>C2: A flush reports \<^verbatim>\<open>false\<close> exactly when it made items visible to a sleeping reader, and
  after any flush every completed item is visible to the reader, who is awake if anything was
  published.\<close>

theorem ypipe_flush_wakes:
  assumes "yp_inv N p" "ypipe_flush p = (b, p')"
  shows "(b \<longleftrightarrow> complete (yp_abs N p) = [] \<or> cp p \<noteq> None) \<and>
    flushed (yp_abs N p') = flushed (yp_abs N p) @ complete (yp_abs N p) \<and>
    complete (yp_abs N p') = [] \<and> (complete (yp_abs N p) \<noteq> [] \<longrightarrow> cp p' \<noteq> None)"
proof -
  have asl: "asleep (yp_abs N r) \<longleftrightarrow> cp r = None" for r :: "'a ypipe"
    by (simp add: yp_abs_def Let_def)
  have "b = fst (ap_flush (yp_abs N p))" "yp_abs N p' = snd (ap_flush (yp_abs N p))"
    using ypipe_flush_refines[OF assms(1)] assms(2) by auto
  moreover have "asleep (snd (ap_flush (yp_abs N p))) \<longleftrightarrow> cp p' = None"
    using calculation(2) asl[of p'] by simp
  ultimately show ?thesis using asl[of p] asl[of p']
    by (auto simp: ap_flush_def split: if_splits)
qed

theorem ypipe_flush_wakes_witness:
  "(False \<longleftrightarrow> complete (yp_abs 2 (snd (ypipe_check_read (the (ypipe_write 2 (5::nat) False (ypipe_new 2)))))) = [] \<or>
      cp (snd (ypipe_check_read (the (ypipe_write 2 (5::nat) False (ypipe_new 2))))) \<noteq> None)"
proof -
  let ?p = "the (ypipe_write 2 (5::nat) False (ypipe_new 2))"
  let ?q = "snd (ypipe_check_read ?p)"
  have "yp_inv 2 ?p"
    using ypipe_write_refines[of 2 "ypipe_new 2" "5::nat" False] ypipe_new_refines[of 2, where ?'a = nat]
    by auto
  then have inv: "yp_inv 2 ?q" using ypipe_check_read_refines by blast
  have "fst (ypipe_flush ?q) = False" by code_simp
  then have "ypipe_flush ?q = (False, snd (ypipe_flush ?q))" by (metis prod.collapse)
  from ypipe_flush_wakes[OF inv this] show ?thesis by blast
qed

end
