(* ===== verification/Mailbox.thy ===== *)
theory Mailbox
  imports Ypipe
begin

text \<open>
  \<^verbatim>\<open>mailbox_t\<close> of src/mailbox.cpp and \<^verbatim>\<open>signaler_t\<close> of src/signaler.cpp: how the commands of all threads
  reach the thread of an object. A mailbox is a lock-free pipe of commands, filled under a mutex, and a
  pair of connected sockets that carries one byte for each time the reader has to be woken. The
  signaler is the one over a pair of sockets, and its state the number of bytes in it; the variant
  over an event counter takes all of them at once and puts one back. The senders and the reader run
  at the same time: the steps of an interleaving are the accesses to what they share.
\<close>

definition command_pipe_granularity :: nat where
  "command_pipe_granularity = 16"

lemma command_pipe_granularity_pos [simp]: "0 < command_pipe_granularity"
  by (simp add: command_pipe_granularity_def)

subsection \<open>The signaler\<close>

definition signaler_new :: nat where
  "signaler_new = 0"

definition signaler_send :: "nat \<Rightarrow> nat" where
  "signaler_send n = n + 1"

text \<open>The socket does not block: receiving from an empty one is an error.\<close>

definition signaler_recv :: "nat \<Rightarrow> nat option" where
  "signaler_recv n = (if n = 0 then None else Some (n - 1))"

definition signaler_recv_eventfd :: "nat \<Rightarrow> nat option" where
  "signaler_recv_eventfd n = do {
     zmq_assert (n \<noteq> 0);
     if n = 2 then Some 1
     else do { zmq_assert (n = 1); Some 0 } }"

text \<open>The wait ends when a signal of the process interrupts it, at the timeout, or with a byte to read.\<close>

definition signaler_wait :: "bool \<Rightarrow> nat \<Rightarrow> rc" where
  "signaler_wait interrupted n = (if interrupted then Inl EINTR else if n = 0 then Inl EAGAIN else Inr ())"

lemma signaler_recv_variants: "n \<le> 2 \<Longrightarrow> signaler_recv_eventfd n = signaler_recv n"
  by (auto simp: signaler_recv_eventfd_def signaler_recv_def le_Suc_eq numeral_2_eq_2)

subsection \<open>The mailbox\<close>

record 'c mailbox =
  cpipe :: "'c ypipe"
  signals :: nat
  mb_active :: bool

definition mailbox_new :: "'c mailbox option" where
  "mailbox_new = do {
     (v, p) \<leftarrow> ypipe_read command_pipe_granularity (ypipe_new command_pipe_granularity);
     zmq_assert (v = None);
     Some \<lparr>cpipe = p, signals = signaler_new, mb_active = False\<rparr> }"

definition send_write :: "'c \<Rightarrow> ('c, 'r) mailbox_scheme \<Rightarrow> ('c, 'r) mailbox_scheme option" where
  "send_write c m = do { p \<leftarrow> ypipe_write command_pipe_granularity c False (cpipe m); Some (m\<lparr>cpipe := p\<rparr>) }"

definition send_flush :: "('c, 'r) mailbox_scheme \<Rightarrow> bool \<times> ('c, 'r) mailbox_scheme" where
  "send_flush m = (let (ok, p) = ypipe_flush (cpipe m) in (ok, m\<lparr>cpipe := p\<rparr>))"

definition send_signal :: "('c, 'r) mailbox_scheme \<Rightarrow> ('c, 'r) mailbox_scheme" where
  "send_signal m = m\<lparr>signals := signaler_send (signals m)\<rparr>"

definition mailbox_send :: "'c \<Rightarrow> ('c, 'r) mailbox_scheme \<Rightarrow> ('c, 'r) mailbox_scheme option" where
  "mailbox_send c m = do {
     m \<leftarrow> send_write c m;
     let (ok, m) = send_flush m;
     Some (if \<not> ok then send_signal m else m) }"

definition recv_read :: "('c, 'r) mailbox_scheme \<Rightarrow> ('c option \<times> ('c, 'r) mailbox_scheme) option" where
  "recv_read m = do { (v, p) \<leftarrow> ypipe_read command_pipe_granularity (cpipe m); Some (v, m\<lparr>cpipe := p\<rparr>) }"

definition recv_drain :: "('c, 'r) mailbox_scheme \<Rightarrow> ('c, 'r) mailbox_scheme option" where
  "recv_drain m = do { n \<leftarrow> signaler_recv (signals m); Some (m\<lparr>mb_active := False, signals := n\<rparr>) }"

definition recv_fetch :: "('c, 'r) mailbox_scheme \<Rightarrow> ('c \<times> ('c, 'r) mailbox_scheme) option" where
  "recv_fetch m = do {
     (v, m) \<leftarrow> recv_read m;
     zmq_assert (v \<noteq> None);
     Some (the v, m) }"

definition recv_wait :: "bool \<Rightarrow> ('c, 'r) mailbox_scheme \<Rightarrow> ((errno + 'c) \<times> ('c, 'r) mailbox_scheme) option" where
  "recv_wait interrupted m =
     (case signaler_wait interrupted (signals m) of Inl e \<Rightarrow> Some (Inl e, m)
      | Inr _ \<Rightarrow> do { (c, m) \<leftarrow> recv_fetch (m\<lparr>mb_active := True\<rparr>); Some (Inr c, m) })"

definition mailbox_recv :: "bool \<Rightarrow> ('c, 'r) mailbox_scheme \<Rightarrow> ((errno + 'c) \<times> ('c, 'r) mailbox_scheme) option" where
  "mailbox_recv interrupted m =
     (if mb_active m then do {
        (v, m) \<leftarrow> recv_read m;
        case v of Some c \<Rightarrow> Some (Inr c, m)
        | None \<Rightarrow> do { m \<leftarrow> recv_drain m; recv_wait interrupted m } }
      else recv_wait interrupted m)"

subsection \<open>Senders and a reader at the same time\<close>

text \<open>
  Where the reader is: outside of \<^verbatim>\<open>recv\<close>, after a failed read, before the wait, or after a wait that
  found a byte. A sender that holds the mutex has written and not yet flushed; the senders that have
  flushed and not yet sent their byte are counted. The commands sent are listed in the order of the
  mutex.
\<close>

datatype reader = Outside | Drain | Wait | Fetch

record 'c mailbox_run = "'c mailbox" +
  reader :: reader
  locked :: bool
  owed :: nat
  sent_cmds :: "'c list"
  got_cmds :: "'c list"

datatype 'c mailbox_op = Send_write 'c | Send_flush | Send_signal | Recv_enter | Recv_drain | Recv_wait bool | Recv_fetch

fun mailbox_can :: "'c mailbox_op \<Rightarrow> 'c mailbox_run \<Rightarrow> bool" where
  "mailbox_can (Send_write c) s = (\<not> locked s)"
| "mailbox_can Send_flush s = locked s"
| "mailbox_can Send_signal s = (owed s > 0)"
| "mailbox_can Recv_enter s = (reader s = Outside)"
| "mailbox_can Recv_drain s = (reader s = Drain)"
| "mailbox_can (Recv_wait interrupted) s = (reader s = Wait)"
| "mailbox_can Recv_fetch s = (reader s = Fetch)"

fun mailbox_step :: "'c mailbox_op \<Rightarrow> 'c mailbox_run \<Rightarrow> 'c mailbox_run option" where
  "mailbox_step (Send_write c) s = do { s \<leftarrow> send_write c s; Some (s\<lparr>locked := True, sent_cmds := sent_cmds s @ [c]\<rparr>) }"
| "mailbox_step Send_flush s = (let (ok, s) = send_flush s in Some (s\<lparr>locked := False, owed := (if ok then owed s else owed s + 1)\<rparr>))"
| "mailbox_step Send_signal s = Some (send_signal (s\<lparr>owed := owed s - 1\<rparr>))"
| "mailbox_step Recv_enter s = (if mb_active s then do {
       (v, s) \<leftarrow> recv_read s;
       Some (case v of Some c \<Rightarrow> s\<lparr>got_cmds := got_cmds s @ [c]\<rparr> | None \<Rightarrow> s\<lparr>reader := Drain\<rparr>) }
     else Some (s\<lparr>reader := Wait\<rparr>))"
| "mailbox_step Recv_drain s = do { s \<leftarrow> recv_drain s; Some (s\<lparr>reader := Wait\<rparr>) }"
| "mailbox_step (Recv_wait interrupted) s =
     (case signaler_wait interrupted (signals s) of Inl e \<Rightarrow> Some (s\<lparr>reader := Outside\<rparr>)
      | Inr _ \<Rightarrow> Some (s\<lparr>mb_active := True, reader := Fetch\<rparr>))"
| "mailbox_step Recv_fetch s = do { (c, s) \<leftarrow> recv_fetch s; Some (s\<lparr>reader := Outside, got_cmds := got_cmds s @ [c]\<rparr>) }"

inductive mailbox_reach :: "'c mailbox_run \<Rightarrow> bool" where
  created: "mailbox_new = Some m \<Longrightarrow>
    mailbox_reach (mailbox.extend m \<lparr>reader = Outside, locked = False, owed = 0, sent_cmds = [], got_cmds = []\<rparr>)"
| stepped: "mailbox_reach s \<Longrightarrow> mailbox_can a s \<Longrightarrow> mailbox_step a s = Some s' \<Longrightarrow> mailbox_reach s'"

abbreviation cabs :: "'c ypipe \<Rightarrow> 'c apipe" where
  "cabs \<equiv> yp_abs command_pipe_granularity"

definition mailbox_inv :: "'c mailbox_run \<Rightarrow> bool" where
  "mailbox_inv s \<longleftrightarrow>
     yp_inv command_pipe_granularity (cpipe s) \<and> partial (cabs (cpipe s)) = [] \<and>
     (complete (cabs (cpipe s)) \<noteq> [] \<longleftrightarrow> locked s) \<and>
     got_cmds s @ flushed (cabs (cpipe s)) @ complete (cabs (cpipe s)) = sent_cmds s \<and>
     (reader s \<in> {Drain, Fetch} \<longrightarrow> mb_active s) \<and> (reader s = Wait \<longrightarrow> \<not> mb_active s) \<and>
     (mb_active s \<and> reader s \<noteq> Drain \<longrightarrow> \<not> asleep (cabs (cpipe s))) \<and>
     (mb_active s \<longrightarrow> 0 < signals s) \<and>
     signals s + owed s = (if mb_active s then 1 else 0) +
       (if (\<not> mb_active s \<or> reader s = Drain) \<and> \<not> asleep (cabs (cpipe s)) then 1 else 0) \<and>
     (\<not> asleep (cabs (cpipe s)) \<and> (\<not> mb_active s \<or> reader s \<in> {Drain, Fetch}) \<longrightarrow> flushed (cabs (cpipe s)) \<noteq> []) \<and>
     (asleep (cabs (cpipe s)) \<longrightarrow> flushed (cabs (cpipe s)) = [])"

lemma mailbox_new_ok:
  "\<exists>p. mailbox_new = Some \<lparr>cpipe = p, signals = 0, mb_active = False\<rparr> \<and> yp_inv command_pipe_granularity p \<and>
     cabs p = ap_new\<lparr>asleep := True\<rparr>"
proof -
  let ?p = "ypipe_new command_pipe_granularity :: 'a ypipe"
  have new: "yp_inv command_pipe_granularity ?p" "cabs ?p = ap_new"
    using ypipe_new_refines[of command_pipe_granularity, where ?'a = 'a] by auto
  then show ?thesis
    using ypipe_read_refines[OF new(1)] by (auto simp: new(2) ap_read_def ap_new_def mailbox_new_def signaler_new_def)
qed

lemma mailbox_new_inv:
  assumes "mailbox_new = Some m"
  shows "mailbox_inv (mailbox.extend m \<lparr>reader = Outside, locked = False, owed = 0, sent_cmds = [], got_cmds = []\<rparr>)"
proof -
  obtain p where "m = \<lparr>cpipe = p, signals = 0, mb_active = False\<rparr>" "yp_inv command_pipe_granularity p"
    "cabs p = ap_new\<lparr>asleep := True\<rparr>" using mailbox_new_ok assms by (metis option.inject)
  then show ?thesis by (simp add: mailbox_inv_def mailbox.defs ap_new_def ap_all_def)
qed

text \<open>The accesses to the pipe, by what they do to the abstract pipe.\<close>

lemma send_write_ok:
  assumes "yp_inv command_pipe_granularity (cpipe s)"
  obtains p where "send_write c s = Some (s\<lparr>cpipe := p\<rparr>)" "yp_inv command_pipe_granularity p"
    "cabs p = ap_write c False (cabs (cpipe s))"
  using ypipe_write_refines[OF assms, of c False] that by (auto simp: send_write_def)

lemma send_flush_ok:
  assumes "yp_inv command_pipe_granularity (cpipe s)"
  obtains p where "send_flush s = (fst (ap_flush (cabs (cpipe s))), s\<lparr>cpipe := p\<rparr>)" "yp_inv command_pipe_granularity p"
    "cabs p = snd (ap_flush (cabs (cpipe s)))"
  using ypipe_flush_refines[OF assms] that[of "snd (ypipe_flush (cpipe s))"] by (simp add: send_flush_def split_beta)

lemma recv_read_ok:
  assumes "yp_inv command_pipe_granularity (cpipe s)"
  obtains p where "recv_read s = Some (fst (ap_read (cabs (cpipe s))), s\<lparr>cpipe := p\<rparr>)" "yp_inv command_pipe_granularity p"
    "cabs p = snd (ap_read (cabs (cpipe s)))"
  using ypipe_read_refines[OF assms] that by (auto simp: recv_read_def)

lemma mailbox_send_ok:
  assumes inv: "mailbox_inv s" and can: "mailbox_can a s" and a: "(\<exists>c. a = Send_write c) \<or> a = Send_flush \<or> a = Send_signal"
  obtains s' where "mailbox_step a s = Some s'" "mailbox_inv s'"
proof (cases a)
  case (Send_write c)
  obtain p where p: "send_write c s = Some (s\<lparr>cpipe := p\<rparr>)" "yp_inv command_pipe_granularity p"
    "cabs p = ap_write c False (cabs (cpipe s))" by (rule send_write_ok[of s]) (use inv in \<open>auto simp: mailbox_inv_def\<close>)
  have "complete (cabs (cpipe s)) = []" using inv can Send_write by (simp add: mailbox_inv_def)
  moreover have "mailbox_inv (s\<lparr>cpipe := p, locked := True, sent_cmds := sent_cmds s @ [c]\<rparr>)"
    using inv can Send_write p(2,3) calculation unfolding mailbox_inv_def ap_write_def by auto
  ultimately show ?thesis using p(1) Send_write that by simp
next
  case Send_flush
  obtain p where p: "send_flush s = (fst (ap_flush (cabs (cpipe s))), s\<lparr>cpipe := p\<rparr>)" "yp_inv command_pipe_granularity p"
    "cabs p = snd (ap_flush (cabs (cpipe s)))" by (rule send_flush_ok[of s]) (use inv in \<open>auto simp: mailbox_inv_def\<close>)
  have c: "complete (cabs (cpipe s)) \<noteq> []" using inv can Send_flush by (simp add: mailbox_inv_def)
  then have flush: "ap_flush (cabs (cpipe s)) = (\<not> asleep (cabs (cpipe s)), (cabs (cpipe s))\<lparr>flushed := flushed (cabs (cpipe s)) @
      complete (cabs (cpipe s)), complete := [], asleep := False\<rparr>)" by (simp add: ap_flush_def)
  let ?s' = "s\<lparr>cpipe := p, locked := False, owed := (if \<not> asleep (cabs (cpipe s)) then owed s else owed s + 1)\<rparr>"
  have "mailbox_inv ?s'" using inv c p(2)
    by (cases "asleep (cabs (cpipe s))"; cases "mb_active s"; cases "reader s"; simp add: mailbox_inv_def p(3) flush)
  then show ?thesis using p(1) Send_flush that[of ?s'] by (simp add: flush)
next
  case Send_signal
  let ?s' = "send_signal (s\<lparr>owed := owed s - 1\<rparr>)"
  have "mailbox_inv ?s'" using inv can Send_signal
    by (cases "mb_active s"; cases "asleep (cabs (cpipe s))"; simp add: mailbox_inv_def send_signal_def signaler_send_def)
  then show ?thesis using Send_signal that[of ?s'] by simp
qed (use a in auto)

lemma mailbox_recv_ok:
  assumes inv: "mailbox_inv s" and can: "mailbox_can a s" and a: "a \<in> {Recv_enter, Recv_drain, Recv_fetch} \<or> (\<exists>i. a = Recv_wait i)"
  obtains s' where "mailbox_step a s = Some s'" "mailbox_inv s'"
proof (cases a)
  case Recv_enter
  obtain p where p: "recv_read s = Some (fst (ap_read (cabs (cpipe s))), s\<lparr>cpipe := p\<rparr>)" "yp_inv command_pipe_granularity p"
    "cabs p = snd (ap_read (cabs (cpipe s)))" by (rule recv_read_ok[of s]) (use inv in \<open>auto simp: mailbox_inv_def\<close>)
  show ?thesis
  proof (cases "mb_active s")
    case False
    have "mailbox_inv (s\<lparr>reader := Wait\<rparr>)" using inv can Recv_enter False by (simp add: mailbox_inv_def)
    then show ?thesis using Recv_enter False that by simp
  next
    case True
    show ?thesis
    proof (cases "flushed (cabs (cpipe s))")
      case Nil
      have "mailbox_inv (s\<lparr>cpipe := p, reader := Drain\<rparr>)"
        using inv can Recv_enter True Nil p(2,3) by (simp add: mailbox_inv_def ap_read_def)
      then show ?thesis using Recv_enter True Nil p(1) that by (simp add: ap_read_def)
    next
      case (Cons c cs)
      have "mailbox_inv (s\<lparr>cpipe := p, got_cmds := got_cmds s @ [c]\<rparr>)"
        using inv can Recv_enter True Cons p(2,3) by (simp add: mailbox_inv_def ap_read_def)
      then show ?thesis using Recv_enter True Cons p(1) that by (simp add: ap_read_def)
    qed
  qed
next
  case Recv_drain
  have pos: "0 < signals s" using inv can Recv_drain by (simp add: mailbox_inv_def)
  have "mailbox_inv (s\<lparr>mb_active := False, signals := signals s - 1, reader := Wait\<rparr>)"
    using inv can Recv_drain pos by (simp add: mailbox_inv_def)
  then show ?thesis using Recv_drain pos that by (simp add: recv_drain_def signaler_recv_def)
next
  case (Recv_wait interrupted)
  show ?thesis
  proof (cases "interrupted \<or> signals s = 0")
    case True
    have "mailbox_inv (s\<lparr>reader := Outside\<rparr>)" using inv can Recv_wait by (simp add: mailbox_inv_def)
    then show ?thesis using True Recv_wait that by (auto simp: signaler_wait_def)
  next
    case False
    have na: "\<not> mb_active s" using inv can Recv_wait by (simp add: mailbox_inv_def)
    then have sum: "signals s + owed s = (if asleep (cabs (cpipe s)) then 0 else 1)" using inv by (simp add: mailbox_inv_def)
    moreover have "0 < signals s" using False by simp
    ultimately have aw: "\<not> asleep (cabs (cpipe s))" by (auto split: if_splits)
    have "mailbox_inv (s\<lparr>mb_active := True, reader := Fetch\<rparr>)"
      using inv na sum aw \<open>0 < signals s\<close> by (simp add: mailbox_inv_def)
    then show ?thesis using False Recv_wait that by (simp add: signaler_wait_def)
  qed
next
  case Recv_fetch
  obtain p where p: "recv_read s = Some (fst (ap_read (cabs (cpipe s))), s\<lparr>cpipe := p\<rparr>)" "yp_inv command_pipe_granularity p"
    "cabs p = snd (ap_read (cabs (cpipe s)))" by (rule recv_read_ok[of s]) (use inv in \<open>auto simp: mailbox_inv_def\<close>)
  obtain c cs where c: "flushed (cabs (cpipe s)) = c # cs"
    using inv can Recv_fetch by (cases "flushed (cabs (cpipe s))") (auto simp: mailbox_inv_def)
  have "mailbox_inv (s\<lparr>cpipe := p, reader := Outside, got_cmds := got_cmds s @ [c]\<rparr>)"
    using inv can Recv_fetch c p(2,3) by (simp add: mailbox_inv_def ap_read_def)
  then show ?thesis using Recv_fetch c p(1) that by (simp add: recv_fetch_def ap_read_def)
qed (use a in auto)

lemma mailbox_step_ok:
  assumes "mailbox_inv s" "mailbox_can a s"
  obtains s' where "mailbox_step a s = Some s'" "mailbox_inv s'"
proof -
  consider "(\<exists>c. a = Send_write c) \<or> a = Send_flush \<or> a = Send_signal"
    | "a \<in> {Recv_enter, Recv_drain, Recv_fetch} \<or> (\<exists>i. a = Recv_wait i)" by (cases a) auto
  then show ?thesis
  proof cases
    case 1
    show ?thesis by (rule mailbox_send_ok[OF assms 1]) (rule that)
  next
    case 2
    show ?thesis by (rule mailbox_recv_ok[OF assms 2]) (rule that)
  qed
qed

lemma mailbox_reach_inv: "mailbox_reach s \<Longrightarrow> mailbox_inv s"
proof (induction rule: mailbox_reach.induct)
  case (created m)
  then show ?case by (rule mailbox_new_inv)
next
  case (stepped s a s')
  then show ?case by (metis mailbox_step_ok option.inject)
qed

subsection \<open>The calls as steps\<close>

text \<open>A whole call of \<^verbatim>\<open>send\<close> or \<^verbatim>\<open>recv\<close> is a sequence of the steps.\<close>

primrec mailbox_steps :: "'c mailbox_op list \<Rightarrow> 'c mailbox_run \<Rightarrow> 'c mailbox_run option" where
  "mailbox_steps [] s = Some s"
| "mailbox_steps (a # as) s = do { zmq_assert (mailbox_can a s); s \<leftarrow> mailbox_step a s; mailbox_steps as s }"

lemma mailbox_steps_reach: "mailbox_reach s \<Longrightarrow> mailbox_steps as s = Some s' \<Longrightarrow> mailbox_reach s'"
  by (induction as arbitrary: s) (auto simp: assert_bind bind_Some_iff intro: stepped split: if_splits)

lemma mailbox_steps_append: "mailbox_steps (as @ bs) s = mailbox_steps as s \<bind> mailbox_steps bs"
  by (induction as arbitrary: s) (simp_all add: assert_bind)

lemma mailbox_send_steps:
  assumes "\<not> locked s" "mailbox_send c s = Some s'"
  obtains as where "mailbox_steps as s = Some (s'\<lparr>sent_cmds := sent_cmds s @ [c]\<rparr>)"
proof -
  obtain p ok q where "ypipe_write command_pipe_granularity c False (cpipe s) = Some p" "ypipe_flush p = (ok, q)"
    "s' = (if \<not> ok then send_signal (s\<lparr>cpipe := q\<rparr>) else s\<lparr>cpipe := q\<rparr>)"
    using assms(2) by (auto simp: mailbox_send_def send_write_def send_flush_def run_simps split: prod.splits)
  then show ?thesis using assms(1)
    by (intro that[of "Send_write c # Send_flush # (if ok then [] else [Send_signal])"])
      (simp add: send_write_def send_flush_def send_signal_def)
qed

lemma recv_wait_steps:
  assumes "recv_wait interrupted m = Some (r, m')"
  shows "\<exists>as. mailbox_steps as (m\<lparr>reader := Wait\<rparr>) =
    Some (m'\<lparr>reader := Outside, got_cmds := got_cmds m @ (case r of Inl e \<Rightarrow> [] | Inr c \<Rightarrow> [c])\<rparr>)"
proof (cases "signaler_wait interrupted (signals m)")
  case (Inl e)
  then show ?thesis using assms by (intro exI[of _ "[Recv_wait interrupted]"]) (auto simp: recv_wait_def)
next
  case (Inr u)
  then obtain c where c: "recv_fetch (m\<lparr>mb_active := True\<rparr>) = Some (c, m')" "r = Inr c"
    using assms by (auto simp: recv_wait_def bind_Some_iff)
  then obtain p where "recv_read (m\<lparr>mb_active := True\<rparr>) = Some (Some c, m\<lparr>mb_active := True, cpipe := p\<rparr>)"
    "m' = m\<lparr>mb_active := True, cpipe := p\<rparr>"
    by (auto simp: recv_fetch_def recv_read_def bind_Some_iff)
  then show ?thesis using Inr c(2)
    by (intro exI[of _ "[Recv_wait interrupted, Recv_fetch]"]) (auto simp: recv_fetch_def recv_read_def bind_Some_iff)
qed

lemma mailbox_recv_steps:
  assumes "reader s = Outside" "mailbox_recv interrupted s = Some (r, s')"
  shows "\<exists>as. mailbox_steps as s =
    Some (s'\<lparr>reader := Outside, got_cmds := got_cmds s @ (case r of Inl e \<Rightarrow> [] | Inr c \<Rightarrow> [c])\<rparr>)"
proof -
  have wait: ?thesis if w: "mailbox_steps as s = Some (m\<lparr>reader := Wait\<rparr>)" "got_cmds m = got_cmds s"
    "recv_wait interrupted m = Some (r, s')" for as m
  proof -
    obtain bs where "mailbox_steps bs (m\<lparr>reader := Wait\<rparr>) =
      Some (s'\<lparr>reader := Outside, got_cmds := got_cmds m @ (case r of Inl e \<Rightarrow> [] | Inr c \<Rightarrow> [c])\<rparr>)"
      using recv_wait_steps[OF w(3)] by blast
    then have "mailbox_steps (as @ bs) s =
      Some (s'\<lparr>reader := Outside, got_cmds := got_cmds s @ (case r of Inl e \<Rightarrow> [] | Inr c \<Rightarrow> [c])\<rparr>)"
      by (simp only: mailbox_steps_append w(1,2) bind.bind_lunit)
    then show ?thesis by blast
  qed
  show ?thesis
  proof (cases "mb_active s")
    case False
    then show ?thesis using assms by (intro wait[of "[Recv_enter]" s]) (simp_all add: mailbox_recv_def)
  next
    case True
    then obtain v n where n: "recv_read s = Some (v, n)" using assms(2) by (auto simp: mailbox_recv_def bind_Some_iff)
    then obtain p where p: "n = s\<lparr>cpipe := p\<rparr>" by (auto simp: recv_read_def bind_Some_iff)
    show ?thesis
    proof (cases v)
      case (Some c)
      have "mailbox_recv interrupted s = Some (Inr c, n)" using True n Some by (simp add: mailbox_recv_def)
      then show ?thesis using True n Some assms p by (intro exI[of _ "[Recv_enter]"]) simp
    next
      case None
      obtain m where m: "recv_drain n = Some m" "recv_wait interrupted m = Some (r, s')"
        using assms(2) True n None by (auto simp: mailbox_recv_def bind_Some_iff)
      then obtain k where "signaler_recv (signals s) = Some k" "m = s\<lparr>cpipe := p, mb_active := False, signals := k\<rparr>"
        using p by (auto simp: recv_drain_def bind_Some_iff)
      then show ?thesis using m True n None assms(1) p
        by (intro wait[of "[Recv_enter, Recv_drain]" m]) (simp_all add: recv_drain_def)
    qed
  qed
qed

subsection \<open>What a mailbox promises\<close>

lemma mailbox_recv_fetches:
  assumes inv: "mailbox_inv s" and out: "reader s = Outside" "owed s = 0"
  shows "\<exists>s'. mailbox_recv False s = Some (case flushed (cabs (cpipe s)) of [] \<Rightarrow> Inl EAGAIN | c # _ \<Rightarrow> Inr c, s')"
proof -
  obtain p where p: "recv_read s = Some (fst (ap_read (cabs (cpipe s))), s\<lparr>cpipe := p\<rparr>)"
    "cabs p = snd (ap_read (cabs (cpipe s)))" by (rule recv_read_ok[of s]) (use inv in \<open>auto simp: mailbox_inv_def\<close>)
  obtain q where q: "recv_read (s\<lparr>mb_active := True\<rparr>) = Some (fst (ap_read (cabs (cpipe s))), s\<lparr>mb_active := True, cpipe := q\<rparr>)"
    by (rule recv_read_ok[of "s\<lparr>mb_active := True\<rparr>"]) (use inv in \<open>auto simp: mailbox_inv_def\<close>)
  show ?thesis
  proof (cases "flushed (cabs (cpipe s))")
    case Nil
    then have "signals s = (if mb_active s then 1 else 0)" using inv out by (auto simp: mailbox_inv_def)
    then show ?thesis using p Nil
      by (simp add: mailbox_recv_def recv_wait_def recv_drain_def signaler_recv_def signaler_wait_def ap_read_def)
  next
    case (Cons c cs)
    then have "\<not> mb_active s \<Longrightarrow> signals s = 1" using inv out by (auto simp: mailbox_inv_def)
    then show ?thesis using p(1) q Cons
      by (simp add: mailbox_recv_def recv_wait_def recv_fetch_def signaler_wait_def ap_read_def)
  qed
qed

lemma mailbox_inv_signals:
  assumes "mailbox_inv s"
  shows "signals s \<le> 2 \<and> (reader s = Wait \<longrightarrow> signals s + owed s = (if flushed (cabs (cpipe s)) = [] then 0 else 1))"
  using assms by (cases "mb_active s"; cases "asleep (cabs (cpipe s))"; cases "reader s"; simp add: mailbox_inv_def)

text \<open>C24: In every interleaving of any number of senders with the reader no assertion of the mailbox
  or of the signaler fails and no read is of a freed slot; the commands received, then those that can be
  received, then the one a sender is writing, are the commands sent, in the order of the mutex. There are never
  more than two bytes in the signaler, which the variant over an event counter relies on. A reader
  that waits while there is a command has a byte to wake it, or a sender about to write it, and no byte
  wakes it otherwise; when no sender owes a byte, a receive that no signal of the process interrupts gives the
  oldest command, and \<^verbatim>\<open>EAGAIN\<close> only if there is none.\<close>

theorem mailbox_delivers:
  assumes "mailbox_reach s"
  shows "(\<forall>a. mailbox_can a s \<longrightarrow> mailbox_step a s \<noteq> None) \<and>
    got_cmds s @ flushed (cabs (cpipe s)) @ complete (cabs (cpipe s)) = sent_cmds s \<and>
    signals s \<le> 2 \<and>
    (reader s = Wait \<longrightarrow> signals s + owed s = (if flushed (cabs (cpipe s)) = [] then 0 else 1)) \<and>
    (reader s = Outside \<and> owed s = 0 \<longrightarrow>
      (\<exists>s'. mailbox_recv False s = Some (case flushed (cabs (cpipe s)) of [] \<Rightarrow> Inl EAGAIN | c # _ \<Rightarrow> Inr c, s')))"
proof -
  note inv = mailbox_reach_inv[OF assms]
  have "mailbox_step a s \<noteq> None" if "mailbox_can a s" for a by (rule mailbox_step_ok[OF inv that]) simp
  moreover have "got_cmds s @ flushed (cabs (cpipe s)) @ complete (cabs (cpipe s)) = sent_cmds s"
    using inv by (simp add: mailbox_inv_def)
  ultimately show ?thesis using mailbox_inv_signals[OF inv] mailbox_recv_fetches[OF inv] by blast
qed

text \<open>The reader is about to wait, and a sender has flushed a command and not sent its byte.\<close>

theorem mailbox_delivers_witness:
  "\<exists>s. mailbox_reach s \<and> reader s = Wait \<and> flushed (cabs (cpipe s)) = [7 :: nat] \<and> signals s + owed s = 1"
proof -
  obtain p :: "nat ypipe" where p: "mailbox_new = Some \<lparr>cpipe = p, signals = 0, mb_active = False\<rparr>"
    "yp_inv command_pipe_granularity p" "cabs p = ap_new\<lparr>asleep := True\<rparr>" using mailbox_new_ok by blast
  let ?s = "\<lparr>cpipe = p, signals = 0, mb_active = False, reader = Outside, locked = False, owed = 0, sent_cmds = [] :: nat list, got_cmds = []\<rparr>"
  have r: "mailbox_reach ?s" using created[OF p(1)] by (simp add: mailbox.defs)
  obtain p1 where p1: "send_write 7 ?s = Some (?s\<lparr>cpipe := p1\<rparr>)" "yp_inv command_pipe_granularity p1"
    "cabs p1 = ap_write 7 False (cabs p)" by (rule send_write_ok[of ?s]) (use p in simp_all)
  let ?s1 = "?s\<lparr>cpipe := p1, locked := True, sent_cmds := [7], reader := Wait\<rparr>"
  obtain p2 where p2: "send_flush ?s1 = (False, ?s1\<lparr>cpipe := p2\<rparr>)" 
    by (rule send_flush_ok[of ?s1]) (use p(3) p1 in \<open>simp_all add: ap_write_def ap_flush_def ap_new_def\<close>)
  define s where "s = ?s1\<lparr>cpipe := p2, locked := False, owed := 1\<rparr>"
  have "mailbox_step (Send_write 7) ?s = Some (?s1\<lparr>reader := Outside\<rparr>)" by (simp add: p1(1)[simplified])
  moreover have "mailbox_step Recv_enter (?s1\<lparr>reader := Outside\<rparr>) = Some ?s1" by simp
  moreover have "mailbox_step Send_flush ?s1 = Some s" by (simp add: p2[simplified] s_def)
  ultimately have "mailbox_steps [Send_write 7, Recv_enter, Send_flush] ?s = Some s"
    unfolding mailbox_steps.simps by (simp del: mailbox_step.simps)
  moreover have "reader s = Wait" "\<not> locked s" "got_cmds s = []" "sent_cmds s = [7]" by (simp_all add: s_def)
  ultimately have s: "mailbox_steps [Send_write 7, Recv_enter, Send_flush] ?s = Some s" "reader s = Wait" "\<not> locked s"
    "got_cmds s = []" "sent_cmds s = [7]" by blast+
  have reach: "mailbox_reach s" by (rule mailbox_steps_reach[OF r s(1)])
  have "complete (cabs (cpipe s)) = []" using mailbox_reach_inv[OF reach] s(3) by (simp add: mailbox_inv_def)
  then show ?thesis using mailbox_delivers[OF reach] reach s by (intro exI[of _ s]) auto
qed

end
