(* ===== verification/Node_Table.thy ===== *)
theory Node_Table
  imports Prelude
begin

text \<open>
  The child table shared by \<^verbatim>\<open>trie_t\<close> and \<^verbatim>\<open>mtrie_t\<close> (src/trie.cpp, src/mtrie.cpp): the
  children of a node for the characters \<open>min .. min + count - 1\<close>. The \<^verbatim>\<open>union next\<close> is a list
  of \<open>count\<close> possibly null children: the single \<^verbatim>\<open>next.node\<close> when \<open>count = 1\<close>, the table
  \<^verbatim>\<open>next.table\<close> when \<open>count > 1\<close>. \<open>min\<close>, \<open>count\<close> and \<open>live_nodes\<close> are natural numbers; the
  invariant bounds \<open>min + count\<close> by 256, so that they never leave the \<^verbatim>\<open>unsigned char\<close> and
  \<^verbatim>\<open>unsigned short\<close> they are stored in.
\<close>

text \<open>The child for a character, if there is one.\<close>

definition tbl_get :: "nat \<Rightarrow> 'n option list \<Rightarrow> nat \<Rightarrow> 'n option" where
  "tbl_get m t c = (if m \<le> c \<and> c < m + length t then t ! (c - m) else None)"

definition live :: "'n option list \<Rightarrow> nat" where
  "live t = length (filter (\<lambda>x. x \<noteq> None) t)"

text \<open>The extension of the table to a character out of its range, as both \<^verbatim>\<open>add\<close> functions do it.\<close>

definition tbl_extend :: "nat \<Rightarrow> nat \<Rightarrow> nat \<Rightarrow> 'n option list \<Rightarrow> nat \<times> nat \<times> 'n option list" where
  "tbl_extend c m n t =
    (if c < m \<or> c \<ge> m + n then
       (if n = 0 then (c, 1, [None])
        else if n = 1 then
          (let n' = (if m < c then c - m else m - c) + 1; m' = min m c
           in (m', n', (replicate n' None)[m - m' := t ! 0]))
        else if m < c then
          (let n' = c - m + 1 in (m, n', t @ replicate (n' - n) None))
        else
          (let n' = (m + n) - c in (c, n', replicate (m - c) None @ t)))
     else (m, n, t))"

text \<open>
  The shape of a node's table: the count is the length, \<open>live_nodes\<close> counts the children, the
  range fits an \<^verbatim>\<open>unsigned char\<close>, and the ends of the range are occupied.
\<close>

definition tbl_inv :: "nat \<Rightarrow> nat \<Rightarrow> nat \<Rightarrow> 'n option list \<Rightarrow> bool" where
  "tbl_inv m n l t \<longleftrightarrow> n = length t \<and> l = live t \<and> m + n \<le> 256 \<and>
     (t \<noteq> [] \<longrightarrow> hd t \<noteq> None \<and> last t \<noteq> None)"

subsection \<open>Counting live entries\<close>

lemma live_simps [simp]:
  "live [] = 0" "live (None # t) = live t" "live (Some x # t) = Suc (live t)"
  "live (t @ u) = live t + live u" "live (replicate k None) = 0"
  by (simp_all add: live_def)

lemma live_update:
  assumes "i < length t"
  shows "live (t[i := x]) + (if t ! i = None then 0 else 1) = live t + (if x = None then 0 else 1)"
proof -
  have "t = take i t @ t ! i # drop (Suc i) t" using assms by (simp add: id_take_nth_drop)
  then have "live t = live (take i t) + live [t ! i] + live (drop (Suc i) t)"
    by (metis append_Cons append_Nil live_simps(4) add.assoc)
  moreover have "live (t[i := x]) = live (take i t) + live [x] + live (drop (Suc i) t)"
    using assms by (simp add: upd_conv_take_nth_drop live_def)
  ultimately show ?thesis by (cases "t ! i"; cases x) auto
qed

lemma live_0_iff: "live t = 0 \<longleftrightarrow> (\<forall>i < length t. t ! i = None)"
  by (auto simp: live_def filter_empty_conv all_set_conv_all_nth)

lemma live_positive: "i < length t \<Longrightarrow> t ! i \<noteq> None \<Longrightarrow> 0 < live t"
  using live_0_iff[of t] by fastforce

lemma live_ge_2:
  assumes "i < j" "j < length t" "t ! i \<noteq> None" "t ! j \<noteq> None"
  shows "2 \<le> live t"
proof -
  have "0 < live (t[i := None])" using assms by (intro live_positive[of j]) auto
  then show ?thesis using live_update[of i t None] assms by (simp split: if_splits)
qed

lemma live_1_unique:
  assumes "live t = 1" "i < length t" "t ! i \<noteq> None" "j < length t" "j \<noteq> i"
  shows "t ! j = None"
proof (rule ccontr)
  assume "t ! j \<noteq> None"
  then have "2 \<le> live t"
    using assms live_ge_2[of i j t] live_ge_2[of j i t] by (cases "i < j") auto
  then show False using assms(1) by simp
qed

subsection \<open>Lookup after updates, extension and trimming\<close>

lemma tbl_get_update:
  "m \<le> c \<Longrightarrow> c < m + length t \<Longrightarrow> tbl_get m (t[c - m := x]) = (tbl_get m t)(c := x)"
  by (auto simp: tbl_get_def fun_eq_iff nth_list_update)

lemma tbl_get_Nil [simp]: "tbl_get m [] c = None"
  by (auto simp: tbl_get_def)

lemma tbl_get_single: "tbl_get m [x] = (\<lambda>c. if c = m then x else None)"
  by (force simp: tbl_get_def fun_eq_iff)

text \<open>Trimming a table to a slice outside of which nothing lives.\<close>

lemma tbl_get_slice:
  assumes "i + k \<le> length t" "\<And>j. j < length t \<Longrightarrow> j < i \<or> i + k \<le> j \<Longrightarrow> t ! j = None"
  shows "tbl_get (m + i) (take k (drop i t)) = tbl_get m t"
proof
  fix c
  show "tbl_get (m + i) (take k (drop i t)) c = tbl_get m t c"
  proof (cases "m \<le> c \<and> c < m + length t")
    case True
    then have "c - m < length t" by auto
    show ?thesis
    proof (cases "m + i \<le> c \<and> c < m + i + k")
      case True
      with \<open>m \<le> c \<and> c < m + length t\<close> assms(1) show ?thesis
        by (auto simp: tbl_get_def min_def)
    next
      case False
      then have "t ! (c - m) = None" using \<open>c - m < length t\<close> True by (intro assms(2)) auto
      with False True assms(1) show ?thesis by (auto simp: tbl_get_def min_def)
    qed
  qed (use assms(1) in \<open>auto simp: tbl_get_def\<close>)
qed

lemma live_slice:
  assumes "i + k \<le> length t" "\<And>j. j < length t \<Longrightarrow> j < i \<or> i + k \<le> j \<Longrightarrow> t ! j = None"
  shows "live (take k (drop i t)) = live t"
proof -
  have "t = take i t @ take k (drop i t) @ drop (i + k) t"
    by (metis append_assoc append_take_drop_id take_add)
  then have "live t = live (take i t) + live (take k (drop i t)) + live (drop (i + k) t)"
    by (metis live_simps(4) add.assoc)
  moreover have "live (take i t) = 0" "live (drop (i + k) t) = 0"
    using assms by (auto simp: live_0_iff)
  ultimately show ?thesis by simp
qed

lemma tbl_slice_inv:
  assumes "m + length t \<le> 256" "i + k \<le> length t" "0 < k"
    "\<And>j. j < length t \<Longrightarrow> j < i \<or> i + k \<le> j \<Longrightarrow> t ! j = None"
    "t ! i \<noteq> None" "t ! (i + k - 1) \<noteq> None"
  shows "tbl_inv (m + i) k (live t) (take k (drop i t))"
proof -
  let ?u = "take k (drop i t)"
  have ne: "?u \<noteq> []" and len: "length ?u = k" using assms by auto
  have "hd ?u = t ! i" using ne assms by (simp add: hd_conv_nth)
  moreover have "last ?u = t ! (i + k - 1)" using ne assms by (simp add: last_conv_nth)
  moreover have "live ?u = live t" using assms(2,4) by (rule live_slice)
  ultimately show ?thesis using assms len by (auto simp: tbl_inv_def)
qed

text \<open>Extension keeps every child and brings the character into range.\<close>

lemma tbl_extend_cases:
  fixes t :: "'a option list"
  assumes ext: "tbl_extend c m n t = (m', n', t')" and n: "n = length t"
  obtains (in_range) "m \<le> c" "c < m + n" "m' = m" "n' = n" "t' = t"
    | (none) "t = []" "m' = c" "n' = 1" "t' = [None]"
    | (above) k where "t \<noteq> []" "m + n + k = c" "m' = m" "n' = n + k + 1" "t' = t @ replicate (Suc k) None"
    | (below) k where "t \<noteq> []" "c + Suc k = m" "m' = c" "n' = n + Suc k" "t' = replicate (Suc k) None @ t"
proof -
  consider "m \<le> c" "c < m + n" | "c < m \<or> m + n \<le> c" "n = 0" | "m + n \<le> c" "n = 1" | "c < m" "n = 1"
    | "m + n \<le> c" "n > 1" | "c < m" "n > 1" by linarith
  then show thesis
  proof cases
    case 1
    then show ?thesis using ext by (intro in_range) (auto simp: tbl_extend_def)
  next
    case 2
    then show ?thesis using ext n by (intro none) (auto simp: tbl_extend_def)
  next
    case 3
    then obtain x where t: "t = [x]" using n by (auto simp: length_Suc_conv)
    show ?thesis
      by (rule above[of "c - m - 1"]) (use ext 3 t in \<open>auto simp: tbl_extend_def Let_def Suc_diff_Suc\<close>)
  next
    case 4
    then obtain x where t: "t = [x]" using n by (auto simp: length_Suc_conv)
    have "(replicate (Suc k) None)[k := x] = replicate k None @ [x]" for k and x :: "'a option"
    proof -
      have "replicate (Suc k) None = replicate k (None :: 'a option) @ [None]"
        by (simp add: replicate_append_same)
      then show ?thesis by (metis length_replicate list_update_length)
    qed
    from this[of "m - c" x] show ?thesis
      by (intro below[of "m - c - 1"])
        (use ext 4 t in \<open>auto simp: tbl_extend_def Let_def Suc_diff_Suc simp flip: replicate_Suc\<close>)
  next
    case 5
    then have "tbl_extend c m n t = (m, c - m + 1, t @ replicate (c - m + 1 - n) None)"
      by (simp add: tbl_extend_def Let_def)
    moreover have "c - m + 1 - n = Suc (c - m - n)" "c - m + 1 = n + (c - m - n) + 1" using 5 by auto
    ultimately show ?thesis using ext 5 n by (intro above[of "c - m - n"]) auto
  next
    case 6
    then have "tbl_extend c m n t = (c, m + n - c, replicate (m - c) None @ t)"
      by (simp add: tbl_extend_def Let_def)
    moreover have "m - c = Suc (m - c - 1)" "m + n - c = n + Suc (m - c - 1)" using 6 by auto
    ultimately show ?thesis using ext 6 n by (intro below[of "m - c - 1"]) auto
  qed
qed

lemma tbl_extend_ok:
  assumes inv: "tbl_inv m n l t" and c: "c < 256" and ext: "tbl_extend c m n t = (m', n', t')"
  shows "n' = length t'" "m' \<le> c" "c < m' + n'" "m' + n' \<le> 256" "tbl_get m' t' = tbl_get m t"
    "live t' = live t"
    "hd t' \<noteq> None \<or> c = m'" "last t' \<noteq> None \<or> c = m' + n' - 1"
    "tbl_get m t c \<noteq> None \<longrightarrow> t' = t" "n' = 1 \<longrightarrow> n = 0 \<or> n = 1"
proof -
  have len: "n = length t" and b: "m + n \<le> 256" and l: "l = live t"
    and ends: "t \<noteq> [] \<Longrightarrow> hd t \<noteq> None" "t \<noteq> [] \<Longrightarrow> last t \<noteq> None"
    using inv by (auto simp: tbl_inv_def)
  have all: "n' = length t' \<and> m' \<le> c \<and> c < m' + n' \<and> m' + n' \<le> 256 \<and> tbl_get m' t' = tbl_get m t \<and>
    live t' = live t \<and> (hd t' \<noteq> None \<or> c = m') \<and> (last t' \<noteq> None \<or> c = m' + n' - 1) \<and>
    (tbl_get m t c \<noteq> None \<longrightarrow> t' = t) \<and> (n' = 1 \<longrightarrow> n = 0 \<or> n = 1)"
  proof (rule tbl_extend_cases[OF ext len])
    assume "m \<le> c" "c < m + n" "m' = m" "n' = n" "t' = t"
    moreover then have "t \<noteq> []" using len by auto
    ultimately show ?thesis using ends b len by simp
  next
    assume "t = []" "m' = c" "n' = 1" "t' = [None]"
    then show ?thesis using c len by (auto simp: tbl_get_def fun_eq_iff)
  next
    fix k assume a: "t \<noteq> []" "m + n + k = c" "m' = m" "n' = n + k + 1" "t' = t @ replicate (Suc k) None"
    have "tbl_get m' t' = tbl_get m t"
      using a by (auto simp: tbl_get_def fun_eq_iff nth_append nth_replicate simp del: replicate_Suc)
    then show ?thesis using a ends c len by (auto simp: tbl_get_def simp del: replicate_Suc)
  next
    fix k assume a: "t \<noteq> []" "c + Suc k = m" "m' = c" "n' = n + Suc k" "t' = replicate (Suc k) None @ t"
    have "tbl_get m' t' = tbl_get m t"
      using a by (auto simp: tbl_get_def fun_eq_iff nth_append nth_replicate simp del: replicate_Suc)
    then show ?thesis using a ends b len by (auto simp: tbl_get_def simp del: replicate_Suc)
  qed
  then show "n' = length t'" "m' \<le> c" "c < m' + n'" "m' + n' \<le> 256" "tbl_get m' t' = tbl_get m t"
    "live t' = live t" "hd t' \<noteq> None \<or> c = m'" "last t' \<noteq> None \<or> c = m' + n' - 1"
    "tbl_get m t c \<noteq> None \<longrightarrow> t' = t" "n' = 1 \<longrightarrow> n = 0 \<or> n = 1"
    by blast+
qed

text \<open>After the slot of the character is filled, the extended table is well-formed.\<close>

lemma tbl_extend_fill:
  assumes inv: "tbl_inv m n l t" and c: "c < 256" and ext: "tbl_extend c m n t = (m', n', t')"
  shows "tbl_inv m' n' (if tbl_get m t c = None then Suc l else l) (t'[c - m' := Some x])"
    "tbl_get m' (t'[c - m' := Some x]) = (tbl_get m t)(c \<mapsto> x)"
    "t' ! (c - m') = tbl_get m t c"
proof -
  note e = tbl_extend_ok[OF inv c ext]
  have i: "c - m' < length t'" using e(1-3) by linarith
  show g: "t' ! (c - m') = tbl_get m t c"
    using e(1-3) by (simp add: tbl_get_def flip: e(5))
  show "tbl_get m' (t'[c - m' := Some x]) = (tbl_get m t)(c \<mapsto> x)"
    using e(1-3) by (simp add: tbl_get_update e(5))
  have ne: "t' \<noteq> []" using i by auto
  have "hd (t'[c - m' := Some x]) \<noteq> None"
    using e(7) ne i by (auto simp: hd_conv_nth nth_list_update)
  moreover have "last (t'[c - m' := Some x]) \<noteq> None"
    using e(8) e(1-3) ne i by (auto simp: last_conv_nth nth_list_update)
  moreover have "live (t'[c - m' := Some x]) = (if tbl_get m t c = None then Suc l else l)"
    using live_update[OF i, of "Some x"] g e(6) inv by (auto simp: tbl_inv_def split: if_splits)
  ultimately show "tbl_inv m' n' (if tbl_get m t c = None then Suc l else l) (t'[c - m' := Some x])"
    using e(1,4) by (simp add: tbl_inv_def)
qed

text \<open>The assertions on \<open>live_nodes\<close> when a child is created.\<close>

lemma tbl_extend_new:
  assumes inv: "tbl_inv m n l t" and c: "c < 256" and ext: "tbl_extend c m n t = (m', n', t')"
    and new: "tbl_get m t c = None"
  shows "(if n' = 1 then l + 1 = 1 else l + 1 > 1)"
proof -
  have len: "n = length t" and l: "l = live t" and ends: "t \<noteq> [] \<Longrightarrow> hd t \<noteq> None"
    using inv by (auto simp: tbl_inv_def)
  have pos: "0 < live t" if "t \<noteq> []"
    using that ends[OF that] by (intro live_positive[of 0]) (auto simp: hd_conv_nth)
  show ?thesis
  proof (rule tbl_extend_cases[OF ext len])
    assume a: "m \<le> c" "c < m + n" "m' = m" "n' = n" "t' = t"
    then have ne: "t \<noteq> []" using len by auto
    have "n \<noteq> 1"
    proof
      assume "n = 1"
      then have "tbl_get m t c = hd t" using a len ne by (auto simp: tbl_get_def hd_conv_nth)
      then show False using new ends[OF ne] by simp
    qed
    then show ?thesis using a pos[OF ne] l by simp
  qed (use pos l len in auto)
qed

lemma tbl_inv_live_get: "tbl_inv m n l t \<Longrightarrow> tbl_get m t c \<noteq> None \<Longrightarrow> 0 < l"
  by (auto simp: tbl_inv_def tbl_get_def intro!: live_positive[of "c - m"] split: if_splits)

lemma tbl_inv_live_0: "tbl_inv m n l t \<Longrightarrow> l = 0 \<longleftrightarrow> t = []"
  by (auto simp: tbl_inv_def live_0_iff hd_conv_nth)

lemma tbl_inv_update:
  assumes "tbl_inv m n l t" "tbl_get m t c \<noteq> None"
  shows "tbl_inv m n l (t[c - m := Some x])" "tbl_get m (t[c - m := Some x]) = (tbl_get m t)(c \<mapsto> x)"
    "elem t (if n = 1 then 0 else c - m) = Some (tbl_get m t c)" "(if n = 1 then 0 else c - m) = c - m"
    "n \<noteq> 0" "m \<le> c" "c < m + n"
proof -
  have i: "m \<le> c" "c < m + length t" "t ! (c - m) \<noteq> None" "n = length t"
    using assms by (auto simp: tbl_get_def tbl_inv_def split: if_splits)
  then show "n \<noteq> 0" "m \<le> c" "c < m + n" by auto
  show ix: "(if n = 1 then 0 else c - m) = c - m" using i by auto
  show "elem t (if n = 1 then 0 else c - m) = Some (tbl_get m t c)"
    unfolding ix using i by (simp add: tbl_get_def)
  show "tbl_get m (t[c - m := Some x]) = (tbl_get m t)(c \<mapsto> x)"
    using i by (simp add: tbl_get_update)
  have ne: "t \<noteq> []" and j: "c - m < length t" using i by auto
  have "live (t[c - m := Some x]) = live t" using live_update[OF j, of "Some x"] i by simp
  then show "tbl_inv m n l (t[c - m := Some x])"
    using assms(1) ne j by (auto simp: tbl_inv_def hd_conv_nth last_conv_nth nth_list_update)
qed

lemma tbl_get_None_step:
  assumes "tbl_inv m n l t" "tbl_get m t c = None"
  shows "n = 0 \<or> c < m \<or> c \<ge> m + n \<or> elem t (if n = 1 then 0 else c - m) = Some None"
  using assms by (auto simp: tbl_inv_def tbl_get_def split: if_splits)

lemma tbl_get_Cons: "tbl_get m (x # t) c = (if c = m then x else tbl_get (Suc m) t c)"
  by (auto simp: tbl_get_def nth_Cons')

lemma tbl_get_below [simp]: "c < m \<Longrightarrow> tbl_get m t c = None"
  by (simp add: tbl_get_def)

subsection \<open>Compaction after a child was removed\<close>

text \<open>
  The three ways to shrink a table: to its only live entry, from the left to the first live
  entry, and from the right to the last one.
\<close>

lemma tbl_shrink_one:
  assumes "m + length u \<le> 256" "live u = 1" "k < length u" "u ! k \<noteq> None"
  shows "tbl_inv (m + k) 1 1 [u ! k]" "tbl_get (m + k) [u ! k] = tbl_get m u"
proof -
  have sl: "take 1 (drop k u) = [u ! k]" using assms(3) by (simp add: take_Suc_conv_app_nth)
  have out: "u ! j = None" if "j < length u" "j < k \<or> k + 1 \<le> j" for j
    using live_1_unique[OF assms(2-4), of j] that by auto
  show "tbl_inv (m + k) 1 1 [u ! k]"
    using tbl_slice_inv[of m u k 1] assms out unfolding sl by auto
  show "tbl_get (m + k) [u ! k] = tbl_get m u"
    using tbl_get_slice[of k 1 u m] assms out unfolding sl by auto
qed

lemma tbl_shrink_left:
  assumes "m + length u \<le> 256" "u ! 0 = None" "u ! (length u - 1) \<noteq> None" "2 \<le> length u"
  obtains i where "find (\<lambda>i. u ! i \<noteq> None) [1..<length u] = Some i" "1 \<le> i" "i < length u"
    "tbl_inv (m + i) (length u - i) (live u) (take (length u - i) (drop i u))"
    "tbl_get (m + i) (take (length u - i) (drop i u)) = tbl_get m u"
proof -
  obtain i where i: "find (\<lambda>i. u ! i \<noteq> None) [1..<length u] = Some i" "1 \<le> i" "i \<le> length u - 1"
    "u ! i \<noteq> None" "\<And>k. 1 \<le> k \<Longrightarrow> k < i \<Longrightarrow> \<not> u ! k \<noteq> None"
    by (rule find_upt_exists[of 1 "length u - 1" "length u" "\<lambda>i. u ! i \<noteq> None", rotated 2])
      (use assms in auto)
  have lt: "i < length u" using i(3) assms(4) by linarith
  have out: "u ! j = None" if "j < length u" "j < i \<or> i + (length u - i) \<le> j" for j
    using i(5)[of j] that assms(2) lt by (cases j) auto
  have "tbl_get (m + i) (take (length u - i) (drop i u)) = tbl_get m u"
    using lt out by (intro tbl_get_slice) auto
  moreover have "tbl_inv (m + i) (length u - i) (live u) (take (length u - i) (drop i u))"
    using lt out assms i(4) by (intro tbl_slice_inv) auto
  ultimately show ?thesis using that[OF i(1,2) lt] by blast
qed

lemma tbl_shrink_right:
  assumes "m + length u \<le> 256" "u ! 0 \<noteq> None" "u ! (length u - 1) = None" "2 \<le> length u"
  obtains i where "find (\<lambda>i. u ! (length u - 1 - i) \<noteq> None) [1..<length u] = Some i" "1 \<le> i"
    "i < length u" "tbl_inv m (length u - i) (live u) (take (length u - i) u)"
    "tbl_get m (take (length u - i) u) = tbl_get m u"
proof -
  let ?P = "\<lambda>i. u ! (length u - 1 - i) \<noteq> None"
  obtain i where i: "find ?P [1..<length u] = Some i" "1 \<le> i" "i \<le> length u - 1"
    "?P i" "\<And>k. 1 \<le> k \<Longrightarrow> k < i \<Longrightarrow> \<not> ?P k"
    by (rule find_upt_exists[of 1 "length u - 1" "length u" ?P, rotated 2]) (use assms in auto)
  have lt: "i < length u" using i(3) assms(4) by linarith
  have out: "u ! j = None" if "j < length u" "j < 0 \<or> 0 + (length u - i) \<le> j" for j
  proof (cases "j = length u - 1")
    case False
    then have j: "length u - 1 - (length u - 1 - j) = j" "1 \<le> length u - 1 - j" "length u - 1 - j < i"
      using that i(2,3) by auto
    then show ?thesis using i(5)[of "length u - 1 - j"] by simp
  qed (simp only: assms(3))
  have "tbl_get (m + 0) (take (length u - i) (drop 0 u)) = tbl_get m u"
    using lt out by (intro tbl_get_slice) auto
  moreover have "u ! (0 + (length u - i) - 1) \<noteq> None" using i(4) lt by (simp add: diff_diff_add add.commute)
  then have "tbl_inv (m + 0) (length u - i) (live u) (take (length u - i) (drop 0 u))"
    using lt out assms by (intro tbl_slice_inv) auto
  ultimately show ?thesis using that[OF i(1,2) lt] by simp
qed

text \<open>The table of a node from which the child of a character was removed.\<close>

lemma tbl_removed:
  assumes inv: "tbl_inv m n l t" and c: "tbl_get m t c \<noteq> None"
  shows "Suc (live (t[c - m := None])) = l" "tbl_get m (t[c - m := None]) = (tbl_get m t)(c := None)"
    "m + length (t[c - m := None]) \<le> 256" "length (t[c - m := None]) = n" "0 < n"
    "c \<noteq> m \<Longrightarrow> t[c - m := None] ! 0 \<noteq> None" "c \<noteq> m + n - 1 \<Longrightarrow> t[c - m := None] ! (n - 1) \<noteq> None"
    "c = m \<Longrightarrow> t[c - m := None] ! 0 = None" "c = m + n - 1 \<Longrightarrow> t[c - m := None] ! (n - 1) = None"
    "m \<le> c" "c < m + n"
proof -
  have len: "n = length t" and b: "m + n \<le> 256" and l: "l = live t"
    and ends: "t \<noteq> [] \<Longrightarrow> hd t \<noteq> None" "t \<noteq> [] \<Longrightarrow> last t \<noteq> None"
    using inv by (auto simp: tbl_inv_def)
  show rng: "m \<le> c" "c < m + n" using c len by (auto simp: tbl_get_def split: if_splits)
  have tc: "t ! (c - m) \<noteq> None" using c by (auto simp: tbl_get_def split: if_splits)
  have ne: "t \<noteq> []" and pos: "c - m < length t" using rng len by auto
  show "Suc (live (t[c - m := None])) = l" using live_update[OF pos, of None] tc l by simp
  show "tbl_get m (t[c - m := None]) = (tbl_get m t)(c := None)" using rng len by (simp add: tbl_get_update)
  show "m + length (t[c - m := None]) \<le> 256" "length (t[c - m := None]) = n" using b len by simp_all
  show "0 < n" using pos len by linarith
  have t0: "t ! 0 \<noteq> None" and tn: "t ! (n - 1) \<noteq> None"
    using ends ne len by (simp_all add: hd_conv_nth last_conv_nth)
  show "c \<noteq> m \<Longrightarrow> t[c - m := None] ! 0 \<noteq> None" using t0 rng by (simp add: nth_list_update)
  show "c \<noteq> m + n - 1 \<Longrightarrow> t[c - m := None] ! (n - 1) \<noteq> None"
    using tn rng pos by (auto simp: nth_list_update)
  show "c = m \<Longrightarrow> t[c - m := None] ! 0 = None" using pos by simp
  have "c = m + n - 1 \<Longrightarrow> c - m = n - 1" using rng by linarith
  then show "c = m + n - 1 \<Longrightarrow> t[c - m := None] ! (n - 1) = None" using pos by (metis nth_list_update_eq)
qed

lemma tbl_removed_live:
  assumes inv: "tbl_inv m n l t" and c: "tbl_get m t c \<noteq> None" and n: "n \<noteq> 1"
  shows "live (t[c - m := None]) \<noteq> 0"
proof (cases "c = m")
  case True
  note r = tbl_removed[OF inv c]
  have "c \<noteq> m + n - 1" using True n r(5) by linarith
  from r(7)[OF this] show ?thesis using r(4,5) live_positive[of "n - 1" "t[c - m := None]"] by simp
next
  case False
  note r = tbl_removed[OF inv c]
  show ?thesis using r(6)[OF False] r(4,5) live_positive[of 0 "t[c - m := None]"] by simp
qed

text \<open>If one live entry is left, it is at the end opposite to the removed child.\<close>

lemma tbl_removed_one:
  assumes inv: "tbl_inv m n l t" and c: "tbl_get m t c \<noteq> None" and n: "n \<noteq> 1"
    and one: "live (t[c - m := None]) = 1"
  shows "c = m \<or> c = m + n - 1"
proof (rule ccontr)
  assume a: "\<not> (c = m \<or> c = m + n - 1)"
  note r = tbl_removed[OF inv c]
  have "2 \<le> live (t[c - m := None])"
    using a r(4,5,6,7) n by (intro live_ge_2[of 0 "n - 1"]) auto
  then show False using one by simp
qed

end
