(* ===== verification/Trie.thy ===== *)
theory Trie
  imports Node_Table "HOL-Library.Sublist"
begin

text \<open>
  \<^verbatim>\<open>trie_t\<close> of src/trie.cpp: the set of subscriptions of a SUB or XSUB socket. A node has a
  reference count (how often its key was subscribed, a \<^verbatim>\<open>uint32_t\<close>) and a compact table of
  children for a character range. Failed assertions and null dereferences are \<open>None\<close>. The
  lemmas show that a well-formed trie is a multiset of keys, that every operation keeps it
  well-formed and never fails an assertion, and that \<^verbatim>\<open>check\<close> finds exactly the messages with a
  subscribed prefix.
\<close>

type_synonym key = "u8 list"

datatype trie = Trie (refcnt: u32) (tmin: nat) (tcount: nat) (live_nodes: nat) (next_nodes: "trie option list")

subsection \<open>Operations\<close>

definition trie_new :: trie where
  "trie_new = Trie 0 0 0 0 []"

fun trie_is_redundant :: "trie \<Rightarrow> bool" where
  "trie_is_redundant (Trie r m n l t) = (r = 0 \<and> l = 0)"

fun trie_add :: "key \<Rightarrow> trie \<Rightarrow> (bool \<times> trie) option" where
  "trie_add [] (Trie r m n l t) = Some (r + 1 = 1, Trie (r + 1) m n l t)"
| "trie_add (x # xs) (Trie r m n l t) =
    (let c = unat x; (m, n, t) = tbl_extend c m n t;
         i = (if n = 1 then 0 else c - m)
     in do {
       node \<leftarrow> elem t i;
       (ch, l) \<leftarrow> (case node of
           Some ch \<Rightarrow> Some (ch, l)
         | None \<Rightarrow> do { zmq_assert (if n = 1 then l + 1 = 1 else l + 1 > 1); Some (trie_new, l + 1) });
       (ret, ch) \<leftarrow> trie_add xs ch;
       Some (ret, Trie r m n l (t[i := Some ch])) })"

text \<open>Pruning a redundant child and compacting the table, the second half of \<^verbatim>\<open>rm\<close>.\<close>

definition trie_prune :: "nat \<Rightarrow> nat \<Rightarrow> nat \<Rightarrow> nat \<Rightarrow> 'n option list
    \<Rightarrow> (nat \<times> nat \<times> nat \<times> 'n option list) option" where
  "trie_prune c m n l t = do {
     zmq_assert (n > 0);
     if n = 1 then do {
       zmq_assert (l \<noteq> 0 \<and> l - 1 = 0);
       Some (m, 0, l - 1, []) }
     else do {
       let t = t[c - m := None];
       zmq_assert (l > 1);
       let l = l - 1;
       if l = 1 then do {
         let (m', node) = (if c = m then (m + (n - 1), t ! (n - 1))
                           else if c = m + n - 1 then (m, t ! 0) else (m, None));
         zmq_assert (node \<noteq> None);
         Some (m', 1, l, [node]) }
       else if c = m then do {
         let new_min = (case find (\<lambda>i. t ! i \<noteq> None) [1..<n] of Some i \<Rightarrow> i + m | None \<Rightarrow> m);
         zmq_assert (new_min \<noteq> m);
         zmq_assert (new_min > m);
         zmq_assert (n > new_min - m);
         let n' = n - (new_min - m);
         Some (new_min, n', l, take n' (drop (new_min - m) t)) }
       else if c = m + n - 1 then do {
         let new_count = (case find (\<lambda>i. t ! (n - 1 - i) \<noteq> None) [1..<n] of Some i \<Rightarrow> n - i | None \<Rightarrow> n);
         zmq_assert (new_count \<noteq> n);
         Some (m, new_count, l, take new_count t) }
       else Some (m, n, l, t) } }"

fun trie_rm :: "key \<Rightarrow> trie \<Rightarrow> (bool \<times> trie) option" where
  "trie_rm [] (Trie r m n l t) =
    (if r = 0 then Some (False, Trie r m n l t) else Some (r - 1 = 0, Trie (r - 1) m n l t))"
| "trie_rm (x # xs) (Trie r m n l t) =
    (let c = unat x; i = (if n = 1 then 0 else c - m)
     in if n = 0 \<or> c < m \<or> c \<ge> m + n then Some (False, Trie r m n l t)
        else do {
          node \<leftarrow> elem t i;
          case node of
            None \<Rightarrow> Some (False, Trie r m n l t)
          | Some ch \<Rightarrow> do {
              (ret, ch) \<leftarrow> trie_rm xs ch;
              if trie_is_redundant ch then do {
                (m, n, l, t) \<leftarrow> trie_prune c m n l t;
                Some (ret, Trie r m n l t) }
              else Some (ret, Trie r m n l (t[i := Some ch])) } })"

fun trie_check :: "u8 list \<Rightarrow> trie \<Rightarrow> bool option" where
  "trie_check data (Trie r m n l t) =
    (if r \<noteq> 0 then Some True
     else case data of
       [] \<Rightarrow> Some False
     | x # xs \<Rightarrow>
        (let c = unat x
         in if c < m \<or> c \<ge> m + n then Some False
            else if n = 1 then do { node \<leftarrow> elem t 0; ch \<leftarrow> node; trie_check xs ch }
            else do {
              node \<leftarrow> elem t (c - m);
              case node of None \<Rightarrow> Some False | Some ch \<Rightarrow> trie_check xs ch }))"

text \<open>The keys \<^verbatim>\<open>apply\<close> passes to its callback, in order; \<open>buff\<close> is the path to the node.\<close>

fun trie_apply :: "key \<Rightarrow> trie \<Rightarrow> key list"
  and trie_apply_table :: "key \<Rightarrow> nat \<Rightarrow> trie option list \<Rightarrow> key list" where
  "trie_apply buff (Trie r m n l t) =
    (if r \<noteq> 0 then [buff] else []) @ trie_apply_table buff m t"
| "trie_apply_table buff c [] = []"
| "trie_apply_table buff c (None # t) = trie_apply_table buff (c + 1) t"
| "trie_apply_table buff c (Some ch # t) =
    trie_apply (buff @ [word_of_nat c]) ch @ trie_apply_table buff (c + 1) t"

subsection \<open>The trie as a multiset of keys\<close>

fun trie_ref :: "key \<Rightarrow> trie \<Rightarrow> u32" where
  "trie_ref [] (Trie r m n l t) = r"
| "trie_ref (x # xs) (Trie r m n l t) =
    (case tbl_get m t (unat x) of None \<Rightarrow> 0 | Some ch \<Rightarrow> trie_ref xs ch)"

fun trie_inv :: "trie \<Rightarrow> bool" where
  "trie_inv (Trie r m n l t) \<longleftrightarrow> tbl_inv m n l t \<and>
     list_all (\<lambda>x. case x of None \<Rightarrow> True | Some ch \<Rightarrow> trie_inv ch \<and> \<not> trie_is_redundant ch) t"

lemma trie_inv_iff:
  "trie_inv (Trie r m n l t) \<longleftrightarrow> tbl_inv m n l t \<and>
     (\<forall>c ch. tbl_get m t c = Some ch \<longrightarrow> trie_inv ch \<and> \<not> trie_is_redundant ch)"
proof -
  have "list_all P t \<longleftrightarrow> (\<forall>c. P (tbl_get m t c))" if "P None" for P :: "trie option \<Rightarrow> bool"
  proof
    assume "list_all P t"
    then show "\<forall>c. P (tbl_get m t c)" using that by (auto simp: tbl_get_def list_all_length)
  next
    assume a: "\<forall>c. P (tbl_get m t c)"
    have "P (t ! i)" if "i < length t" for i
      using spec[OF a, of "m + i"] that by (simp add: tbl_get_def)
    then show "list_all P t" by (simp add: list_all_length)
  qed
  from this[of "case_option True (\<lambda>ch. trie_inv ch \<and> \<not> trie_is_redundant ch)"]
  show ?thesis by (auto split: option.splits)
qed

declare trie_inv.simps [simp del]

lemma trie_new_inv [simp]: "trie_inv trie_new"
  by (simp add: trie_new_def trie_inv_iff tbl_inv_def)

lemma trie_ref_new [simp]: "trie_ref k trie_new = 0"
  by (cases k) (simp_all add: trie_new_def)

text \<open>Pruning removes exactly the child, keeps the table compact and fails no assertion.\<close>

lemma trie_prune_ok:
  assumes inv: "tbl_inv m n l t" and c: "tbl_get m t c \<noteq> None"
  obtains m' n' l' t' where "trie_prune c m n l t = Some (m', n', l', t')" "tbl_inv m' n' l' t'"
    "tbl_get m' t' = (tbl_get m t)(c := None)" "Suc l' = l"
proof (cases "n = 1")
  case True
  note r = tbl_removed[OF inv c]
  have "c = m" using r(10,11) True by linarith
  then have "t[c - m := None] = [None]" using r(4,8) True by (auto simp: length_Suc_conv)
  then have l: "l = 1" using r(1) by simp
  have get: "tbl_get m [] = (tbl_get m t)(c := None)"
    using True r(4,10,11) by (auto simp: tbl_get_def fun_eq_iff)
  have res: "trie_prune c m n l t = Some (m, 0, 0, [])"
    using True l by (simp add: trie_prune_def)
  have inv0: "tbl_inv m 0 0 []" using r(3) by (simp add: tbl_inv_def)
  have "Suc 0 = l" using l by simp
  from that[OF res inv0 get this] show ?thesis .
next
  case False
  let ?u = "t[c - m := None]"
  note r = tbl_removed[OF inv c]
  have n2: "2 \<le> length ?u" and len: "length t = n" using False r(4,5) by simp_all
  have lpos: "live ?u \<noteq> 0" by (rule tbl_removed_live[OF inv c False])
  then have l1: "1 < l" "l - 1 = live ?u" using r(1) by auto
  show ?thesis
  proof (cases "live ?u = 1")
    case True
    define k where "k = (if c = m then n - 1 else 0)"
    have end_k: "c = m \<or> c = m + n - 1" by (rule tbl_removed_one[OF inv c False True])
    have k: "k < length ?u" "?u ! k \<noteq> None"
      using r(4-7) False by (auto simp: k_def)
    note sh = tbl_shrink_one[OF r(3) True k]
    have "trie_prune c m n l t = Some (m + k, 1, 1, [?u ! k])"
    proof (cases "c = m")
      case cm: True
      then show ?thesis using False l1 True k r(5) by (simp add: trie_prune_def assert_bind k_def)
    next
      case cm: False
      then have "c = m + n - 1" using end_k by blast
      then show ?thesis using cm False l1 True k r(5) by (simp add: trie_prune_def assert_bind k_def)
    qed
    from that[OF this sh(1)] sh(2) r(1,2) True show ?thesis by simp
  next
    case many: False
    consider "c = m" | "c \<noteq> m" "c = m + n - 1" | "c \<noteq> m" "c \<noteq> m + n - 1" by blast
    then show ?thesis
    proof cases
      case 1
      have last: "?u ! (length ?u - 1) \<noteq> None" using r(4,7) 1 False r(5) by auto
      obtain i where i: "find (\<lambda>i. ?u ! i \<noteq> None) [1..<length ?u] = Some i" "1 \<le> i" "i < length ?u"
        "tbl_inv (m + i) (length ?u - i) (live ?u) (take (length ?u - i) (drop i ?u))"
        "tbl_get (m + i) (take (length ?u - i) (drop i ?u)) = tbl_get m ?u"
        by (rule tbl_shrink_left[OF r(3) r(8)[OF 1] last n2])
      have "trie_prune c m n l t = Some (m + i, length ?u - i, live ?u, take (length ?u - i) (drop i ?u))"
        using 1 i(1-3) l1 many False len by (auto simp: trie_prune_def Let_def run_simps add.commute)
      from that[OF this i(4)] i(5) r(1,2) show ?thesis by simp
    next
      case 2
      have last: "?u ! (length ?u - 1) = None" using r(4,9) 2 by auto
      obtain i where i: "find (\<lambda>i. ?u ! (length ?u - 1 - i) \<noteq> None) [1..<length ?u] = Some i" "1 \<le> i"
        "i < length ?u" "tbl_inv m (length ?u - i) (live ?u) (take (length ?u - i) ?u)"
        "tbl_get m (take (length ?u - i) ?u) = tbl_get m ?u"
        by (rule tbl_shrink_right[OF r(3) r(6)[OF 2(1)] last n2])
      have "trie_prune c m n l t = Some (m, length ?u - i, live ?u, take (length ?u - i) ?u)"
        using 2 i(1-3) l1 many False len by (auto simp: trie_prune_def Let_def run_simps)
      from that[OF this i(4)] i(5) r(1,2) show ?thesis by simp
    next
      case 3
      have "trie_prune c m n l t = Some (m, n, live ?u, ?u)"
        using 3 l1 many False r(5) by (auto simp: trie_prune_def Let_def run_simps)
      moreover have "tbl_inv m n (live ?u) ?u"
        using r(3-7) 3 by (auto simp: tbl_inv_def hd_conv_nth last_conv_nth)
      ultimately show ?thesis using that r(1,2) by simp
    qed
  qed
qed

lemma unat_u8_lt [simp]: "unat (x :: u8) < 256"
  using unsigned_less[of x] by simp

lemma trie_ref_child:
  "(case tbl_get m t (unat x) of None \<Rightarrow> 0 | Some ch \<Rightarrow> trie_ref xs ch) =
    trie_ref xs (case tbl_get m t (unat x) of None \<Rightarrow> trie_new | Some ch \<Rightarrow> ch)"
  by (simp split: option.split)

lemma unat_u8_eq [simp]: "unat (x :: u8) = unat y \<longleftrightarrow> x = y"
  by (simp add: word_unat_eq_iff)

text \<open>A node's lookups after one child was replaced.\<close>

lemma trie_ref_replace:
  assumes "tbl_get m' t' = (tbl_get m t)(unat x \<mapsto> ch')"
    and "\<forall>k'. trie_ref k' ch' = (if k' = xs then v else
           trie_ref k' (case tbl_get m t (unat x) of None \<Rightarrow> trie_new | Some ch \<Rightarrow> ch))"
  shows "trie_ref k' (Trie r m' n' l' t') = (if k' = x # xs then v else trie_ref k' (Trie r m n l t))"
  using assms(2) by (cases k') (auto simp: assms(1) split: option.splits)

lemma trie_add_ok:
  assumes "trie_inv t" "trie_ref k t + 1 \<noteq> 0"
  shows "\<exists>t'. trie_add k t = Some (trie_ref k t = 0, t') \<and> trie_inv t' \<and> \<not> trie_is_redundant t' \<and>
    (\<forall>k'. trie_ref k' t' = (if k' = k then trie_ref k t + 1 else trie_ref k' t))"
  using assms
proof (induction k arbitrary: t)
  case Nil
  obtain r m n l tb where t: "t = Trie r m n l tb" by (cases t)
  have "trie_inv (Trie (r + 1) m n l tb)" using Nil.prems t by (simp add: trie_inv_iff)
  moreover have "trie_ref k' (Trie (r + 1) m n l tb) = (if k' = [] then r + 1 else trie_ref k' t)" for k'
    using t by (cases k') auto
  ultimately show ?case using Nil.prems t by simp
next
  case (Cons x xs)
  obtain r m n l tb where t: "t = Trie r m n l tb" by (cases t)
  let ?c = "unat x"
  let ?ch = "case tbl_get m tb ?c of None \<Rightarrow> trie_new | Some ch \<Rightarrow> ch"
  let ?l = "if tbl_get m tb ?c = None then Suc l else l"
  have inv: "tbl_inv m n l tb" and ch: "\<And>c ch. tbl_get m tb c = Some ch \<Longrightarrow> trie_inv ch \<and> \<not> trie_is_redundant ch"
    using Cons.prems(1) t by (auto simp: trie_inv_iff)
  have chinv: "trie_inv ?ch" using ch by (auto split: option.split)
  have ref: "trie_ref (x # xs) t = trie_ref xs ?ch" by (simp add: t trie_ref_child)
  obtain m' n' t' where ext: "tbl_extend ?c m n tb = (m', n', t')" by (metis prod_cases3)
  note e = tbl_extend_ok[OF inv unat_u8_lt ext]
  obtain ch' where ch': "trie_add xs ?ch = Some (trie_ref xs ?ch = 0, ch')" "trie_inv ch'"
    "\<not> trie_is_redundant ch'"
    "\<forall>k'. trie_ref k' ch' = (if k' = xs then trie_ref xs ?ch + 1 else trie_ref k' ?ch)"
    using Cons.IH[OF chinv] Cons.prems(2) ref by auto
  note fill = tbl_extend_fill(1,2)[OF inv unat_u8_lt ext, of ch'] tbl_extend_fill(3)[OF inv unat_u8_lt ext]
  have ix: "(if n' = 1 then 0 else ?c - m') = ?c - m'" using e(2,3) by auto
  have lt: "?c - m' < length t'" using e(1-3) by linarith
  have new: "tbl_get m tb ?c = None \<Longrightarrow> (if n' = 1 then l + 1 = 1 else l + 1 > 1)"
    by (rule tbl_extend_new[OF inv unat_u8_lt ext])
  let ?t = "Trie r m' n' ?l (t'[?c - m' := Some ch'])"
  have "trie_add (x # xs) t = Some (trie_ref xs ?ch = 0, ?t)"
    unfolding t trie_add.simps Let_def ext split_conv ix
    using lt fill(3) ch'(1) new by (cases "tbl_get m tb ?c") (simp_all add: assert_bind)
  moreover have "trie_inv ?t"
    unfolding trie_inv_iff using fill(1,2) ch ch'(2,3) by auto
  moreover have "\<not> trie_is_redundant ?t"
    using tbl_inv_live_get[OF fill(1), of ?c] fill(2) by simp
  moreover have "trie_ref k' ?t = (if k' = x # xs then trie_ref xs ?ch + 1 else trie_ref k' t)" for k'
    unfolding t by (rule trie_ref_replace[OF fill(2) ch'(4)])
  ultimately show ?case unfolding ref by blast
qed

lemma trie_rm_ok:
  assumes "trie_inv t"
  shows "\<exists>t'. trie_rm k t = Some (trie_ref k t = 1, t') \<and> trie_inv t' \<and>
    (\<forall>k'. trie_ref k' t' = (if k' = k \<and> trie_ref k t \<noteq> 0 then trie_ref k t - 1 else trie_ref k' t))"
  using assms
proof (induction k arbitrary: t)
  case Nil
  obtain r m n l tb where t: "t = Trie r m n l tb" by (cases t)
  show ?case
  proof (cases "r = 0")
    case False
    have "trie_inv (Trie (r - 1) m n l tb)" using Nil.prems t by (simp add: trie_inv_iff)
    moreover have "trie_ref k' (Trie (r - 1) m n l tb) = (if k' = [] then r - 1 else trie_ref k' t)" for k'
      using t by (cases k') auto
    ultimately show ?thesis using False t by (simp add: eq_diff_eq)
  qed (use Nil.prems t in auto)
next
  case (Cons x xs)
  obtain r m n l tb where t: "t = Trie r m n l tb" by (cases t)
  let ?c = "unat x"
  have inv: "tbl_inv m n l tb" and ch: "\<And>c ch. tbl_get m tb c = Some ch \<Longrightarrow> trie_inv ch \<and> \<not> trie_is_redundant ch"
    using Cons.prems(1) t by (auto simp: trie_inv_iff)
  show ?case
  proof (cases "tbl_get m tb ?c")
    case None
    then have "trie_rm (x # xs) t = Some (False, t)"
      using tbl_get_None_step[OF inv None] by (auto simp: t Let_def)
    then show ?thesis using None Cons.prems t by auto
  next
    case (Some ch0)
    then have some: "tbl_get m tb ?c \<noteq> None" by simp
    have ref: "trie_ref (x # xs) t = trie_ref xs ch0" using Some t by simp
    obtain ch' where ch': "trie_rm xs ch0 = Some (trie_ref xs ch0 = 1, ch')" "trie_inv ch'"
      "\<forall>k'. trie_ref k' ch' = (if k' = xs \<and> trie_ref xs ch0 \<noteq> 0 then trie_ref xs ch0 - 1 else trie_ref k' ch0)"
      using Cons.IH ch[OF Some] by blast
    note upd = tbl_inv_update[OF inv some]
    have refs: "trie_ref k' (Trie r m' n' l' t') =
        (if k' = x # xs \<and> trie_ref xs ch0 \<noteq> 0 then trie_ref xs ch0 - 1 else trie_ref k' t)"
      if "\<And>k. (case tbl_get m' t' ?c of None \<Rightarrow> 0 | Some ch \<Rightarrow> trie_ref k ch) = trie_ref k ch'"
        "\<And>c. c \<noteq> ?c \<Longrightarrow> tbl_get m' t' c = tbl_get m tb c" for k' m' n' l' t'
    proof (cases k')
      case (Cons y ys)
      show ?thesis
      proof (cases "y = x")
        case True
        then show ?thesis using that(1)[of ys] ch'(3) Some t Cons by simp
      next
        case False
        then have "unat y \<noteq> ?c" by simp
        then show ?thesis using that(2)[of "unat y"] False t Cons by simp
      qed
    qed (simp add: t)
    show ?thesis
    proof (cases "trie_is_redundant ch'")
      case True
      obtain m' n' l' t' where p: "trie_prune ?c m n l tb = Some (m', n', l', t')" "tbl_inv m' n' l' t'"
        "tbl_get m' t' = (tbl_get m tb)(?c := None)"
        by (rule trie_prune_ok[OF inv some])
      have "trie_rm (x # xs) t = Some (trie_ref xs ch0 = 1, Trie r m' n' l' t')"
        using upd(3-7) Some ch'(1) True p(1) by (simp add: t Let_def)
      moreover have "trie_inv (Trie r m' n' l' t')"
        using p ch by (auto simp: trie_inv_iff split: if_splits)
      moreover have red: "trie_ref k ch' = 0" for k
      proof (cases ch')
        case (Trie r' m1 n1 l1 t1)
        then have "r' = 0" "t1 = []" using True ch'(2) tbl_inv_live_0 by (auto simp: trie_inv_iff)
        then show ?thesis using Trie by (cases k) auto
      qed
      have "trie_ref k' (Trie r m' n' l' t') =
        (if k' = x # xs \<and> trie_ref xs ch0 \<noteq> 0 then trie_ref xs ch0 - 1 else trie_ref k' t)" for k'
        by (rule refs) (simp_all add: p(3) red)
      ultimately show ?thesis unfolding ref by blast
    next
      case False
      let ?t = "Trie r m n l (tb[?c - m := Some ch'])"
      have "trie_rm (x # xs) t = Some (trie_ref xs ch0 = 1, ?t)"
        using upd(3-7) Some ch'(1) False by (simp add: t Let_def)
      moreover have "trie_inv ?t"
        using upd(1)[of ch'] upd(2)[of ch'] ch ch'(2) False by (auto simp: trie_inv_iff)
      moreover have "trie_ref k' ?t =
        (if k' = x # xs \<and> trie_ref xs ch0 \<noteq> 0 then trie_ref xs ch0 - 1 else trie_ref k' t)" for k'
        by (rule refs) (simp_all add: upd(2)[of ch'])
      ultimately show ?thesis unfolding ref by blast
    qed
  qed
qed

lemma trie_check_ok:
  assumes "trie_inv t"
  shows "trie_check d t = Some (\<exists>k. prefix k d \<and> trie_ref k t \<noteq> 0)"
  using assms
proof (induction d arbitrary: t)
  case Nil
  then show ?case by (cases t) auto
next
  case (Cons x xs)
  obtain r m n l tb where t: "t = Trie r m n l tb" by (cases t)
  have inv: "tbl_inv m n l tb" and ch: "\<And>c ch. tbl_get m tb c = Some ch \<Longrightarrow> trie_inv ch"
    using Cons.prems t by (auto simp: trie_inv_iff)
  have split: "(\<exists>k. prefix k (x # xs) \<and> trie_ref k t \<noteq> 0) \<longleftrightarrow>
      r \<noteq> 0 \<or> (\<exists>ch. tbl_get m tb (unat x) = Some ch \<and> (\<exists>k. prefix k xs \<and> trie_ref k ch \<noteq> 0))"
    by (auto simp: t prefix_Cons split: option.splits)
  show ?case
  proof (cases "tbl_get m tb (unat x)")
    case None
    then show ?thesis
      using tbl_get_None_step[OF inv None] inv unfolding split
      by (auto simp: t Let_def tbl_inv_def hd_conv_nth tbl_get_def split: if_splits)
  next
    case (Some ch0)
    then have "tbl_get m tb (unat x) \<noteq> None" by simp
    note u = tbl_inv_update(3-7)[OF inv this]
    show ?thesis using u Some Cons.IH[OF ch[OF Some]] unfolding split
      by (auto simp: t Let_def split: if_splits)
  qed
qed

subsection \<open>Enumeration\<close>

lemma trie_apply_set:
  "trie_inv t \<Longrightarrow> set (trie_apply buff t) = {buff @ k | k. trie_ref k t \<noteq> 0} \<and> distinct (trie_apply buff t)"
  "c + length tb \<le> 256 \<Longrightarrow> (\<forall>ch. Some ch \<in> set tb \<longrightarrow> trie_inv ch) \<Longrightarrow>
     set (trie_apply_table buff c tb) =
       {buff @ x # xs | x xs ch. tbl_get c tb (unat x) = Some ch \<and> trie_ref xs ch \<noteq> 0} \<and>
     distinct (trie_apply_table buff c tb)"
proof (induction buff t and buff c tb rule: trie_apply_trie_apply_table.induct)
  case (1 buff r m n l tb)
  have tb: "m + length tb \<le> 256" "\<forall>ch. Some ch \<in> set tb \<longrightarrow> trie_inv ch"
    using "1.prems" by (auto simp: trie_inv.simps tbl_inv_def list_all_iff split: option.splits)
  have all: "{buff @ k | k. trie_ref k (Trie r m n l tb) \<noteq> 0} =
      (if r \<noteq> 0 then {buff} else {}) \<union>
      {buff @ x # xs | x xs ch. tbl_get m tb (unat x) = Some ch \<and> trie_ref xs ch \<noteq> 0}" (is "?L = ?R")
  proof (intro set_eqI iffI)
    fix y assume "y \<in> ?L"
    then obtain k where k: "y = buff @ k" "trie_ref k (Trie r m n l tb) \<noteq> 0" by blast
    then show "y \<in> ?R" by (cases k) (auto split: option.splits)
  next
    fix y assume "y \<in> ?R"
    then consider "y = buff" "r \<noteq> 0"
      | x xs ch where "y = buff @ x # xs" "tbl_get m tb (unat x) = Some ch" "trie_ref xs ch \<noteq> 0"
      by (auto split: if_splits)
    then show "y \<in> ?L"
    proof cases
      case 1
      then have "y = buff @ []" "trie_ref [] (Trie r m n l tb) \<noteq> 0" by simp_all
      then show ?thesis by blast
    next
      case (2 x xs ch)
      then have "trie_ref (x # xs) (Trie r m n l tb) \<noteq> 0" by simp
      with 2(1) show ?thesis by blast
    qed
  qed
  show ?case using "1.IH"[OF tb] unfolding all by auto
next
  case (2 buff c)
  then show ?case by simp
next
  case (3 buff c tb)
  have "c + 1 + length tb \<le> 256" "\<forall>ch. Some ch \<in> set tb \<longrightarrow> trie_inv ch" using "3.prems" by auto
  note IH = "3.IH"[OF this]
  have "tbl_get c (None # tb) = tbl_get (Suc c) tb" by (auto simp: tbl_get_Cons fun_eq_iff)
  then show ?case using IH by simp
next
  case (4 buff c ch tb)
  let ?x = "word_of_nat c :: u8"
  have c: "c < 256" using "4.prems"(1) by simp
  then have ux: "unat ?x = c" by (simp add: unat_word_ariths unsigned_of_nat take_bit_eq_mod)
  have "trie_inv ch" using "4.prems"(2) by simp
  note IH1 = "4.IH"(1)[OF this]
  have "c + 1 + length tb \<le> 256" "\<forall>ch. Some ch \<in> set tb \<longrightarrow> trie_inv ch" using "4.prems" by auto
  note IH2 = "4.IH"(2)[OF this]
  have xc: "unat x = c \<longleftrightarrow> x = ?x" for x using ux unat_u8_eq by metis
  have all: "{buff @ x # xs | x xs ch'. tbl_get c (Some ch # tb) (unat x) = Some ch' \<and> trie_ref xs ch' \<noteq> 0} =
      {(buff @ [?x]) @ k | k. trie_ref k ch \<noteq> 0} \<union>
      {buff @ x # xs | x xs ch'. tbl_get (c + 1) tb (unat x) = Some ch' \<and> trie_ref xs ch' \<noteq> 0}"
    by (auto simp: tbl_get_Cons xc ux split: if_splits) (use ux in force)
  have "{(buff @ [?x]) @ k | k. trie_ref k ch \<noteq> 0} \<inter>
      {buff @ x # xs | x xs ch'. tbl_get (c + 1) tb (unat x) = Some ch' \<and> trie_ref xs ch' \<noteq> 0} = {}"
    by (auto simp: ux)
  then show ?case using IH1 IH2 unfolding all by simp
qed

subsection \<open>The contract of a subscription store\<close>

text \<open>
  A history of subscribe and unsubscribe requests, and what a multiset of keys says about it:
  the result of each request (a new key, or the last reference to a key) and the number of
  references of every key.
\<close>

datatype sub_op = Subscribe key | Unsubscribe key

fun sub_spec :: "sub_op list \<Rightarrow> (key \<Rightarrow> nat) \<Rightarrow> bool list \<times> (key \<Rightarrow> nat)" where
  "sub_spec [] c = ([], c)"
| "sub_spec (Subscribe k # xs) c = (let (bs, c') = sub_spec xs (c(k := c k + 1)) in ((c k = 0) # bs, c'))"
| "sub_spec (Unsubscribe k # xs) c = (let (bs, c') = sub_spec xs (c(k := c k - 1)) in ((c k = 1) # bs, c'))"

fun sub_run :: "(key \<Rightarrow> 't \<Rightarrow> (bool \<times> 't) option) \<Rightarrow> (key \<Rightarrow> 't \<Rightarrow> (bool \<times> 't) option) \<Rightarrow>
    sub_op list \<Rightarrow> 't \<Rightarrow> (bool list \<times> 't) option" where
  "sub_run add rm [] t = Some ([], t)"
| "sub_run add rm (x # xs) t = do {
     (b, t) \<leftarrow> (case x of Subscribe k \<Rightarrow> add k t | Unsubscribe k \<Rightarrow> rm k t);
     (bs, t) \<leftarrow> sub_run add rm xs t;
     Some (b # bs, t) }"

locale subscription_store =
  fixes add :: "key \<Rightarrow> 't \<Rightarrow> (bool \<times> 't) option"
    and rm :: "key \<Rightarrow> 't \<Rightarrow> (bool \<times> 't) option"
    and check :: "u8 list \<Rightarrow> 't \<Rightarrow> bool option"
    and ref :: "key \<Rightarrow> 't \<Rightarrow> u32"
    and inv :: "'t \<Rightarrow> bool"
  assumes add_law: "inv t \<Longrightarrow> ref k t + 1 \<noteq> 0 \<Longrightarrow> \<exists>t'. add k t = Some (ref k t = 0, t') \<and> inv t' \<and>
      (\<forall>k'. ref k' t' = (if k' = k then ref k t + 1 else ref k' t))"
    and rm_law: "inv t \<Longrightarrow> \<exists>t'. rm k t = Some (ref k t = 1, t') \<and> inv t' \<and>
      (\<forall>k'. ref k' t' = (if k' = k \<and> ref k t \<noteq> 0 then ref k t - 1 else ref k' t))"
    and check_law: "inv t \<Longrightarrow> check d t = Some (\<exists>k. prefix k d \<and> ref k t \<noteq> 0)"
begin

lemma run_spec:
  assumes "inv t" "\<And>k. unat (ref k t) = c k" "\<And>k. c k + length xs < 2 ^ 32"
  shows "\<exists>t'. sub_run add rm xs t = Some (fst (sub_spec xs c), t') \<and> inv t' \<and>
    (\<forall>k. unat (ref k t') = snd (sub_spec xs c) k)"
  using assms
proof (induction xs arbitrary: t c)
  case Nil
  then show ?case by simp
next
  case (Cons x xs)
  have zero: "ref k t = 0 \<longleftrightarrow> c k = 0" for k using Cons.prems(2)[of k] by (simp add: unat_eq_0 flip: Cons.prems(2))
  have one: "ref k t = 1 \<longleftrightarrow> c k = 1" for k
    using Cons.prems(2)[of k] by (simp add: word_unat_eq_iff)
  show ?case
  proof (cases x)
    case (Subscribe k)
    have suc: "unat (ref k t + 1) = Suc (c k)"
      using Cons.prems(2)[of k] Cons.prems(3)[of k] by (simp add: unat_word_ariths)
    then have "ref k t + 1 \<noteq> 0" by (metis Zero_neq_Suc unat_0)
    then obtain t' where t': "add k t = Some (ref k t = 0, t')" "inv t'"
      "\<forall>k'. ref k' t' = (if k' = k then ref k t + 1 else ref k' t)"
      using add_law[OF Cons.prems(1)] by blast
    obtain c' where c': "c(k := c k + 1) = c'" by blast
    have "unat (ref k' t') = (c(k := c k + 1)) k'" for k'
      using t'(3) Cons.prems(2) suc by auto
    moreover have "(c(k := c k + 1)) k' + length xs < 2 ^ 32" for k'
      using Cons.prems(3)[of k'] by auto
    ultimately show ?thesis
      using Cons.IH[OF t'(2), of c'] t'(1) Subscribe zero unfolding c' by (auto simp: c'[simplified] split: prod.splits)
  next
    case (Unsubscribe k)
    obtain t' where t': "rm k t = Some (ref k t = 1, t')" "inv t'"
      "\<forall>k'. ref k' t' = (if k' = k \<and> ref k t \<noteq> 0 then ref k t - 1 else ref k' t)"
      using rm_law[OF Cons.prems(1)] by blast
    obtain c' where c': "c(k := c k - 1) = c'" by blast
    have "unat (ref k t - 1) = c k - 1" if "ref k t \<noteq> 0"
      using that Cons.prems(2)[of k] by (metis unat_minus_one)
    then have "unat (ref k' t') = (c(k := c k - 1)) k'" for k'
      using t'(3) Cons.prems(2) zero by auto
    moreover have "(c(k := c k - 1)) k' + length xs < 2 ^ 32" for k'
      using Cons.prems(3)[of k'] by auto
    ultimately show ?thesis
      using Cons.IH[OF t'(2), of c'] t'(1) Unsubscribe one unfolding c' by (auto simp: c'[simplified] split: prod.splits)
  qed
qed

lemma run_check:
  assumes "inv t" "\<And>k. ref k t = 0" "length xs < 2 ^ 32"
  shows "\<exists>t'. sub_run add rm xs t = Some (fst (sub_spec xs (\<lambda>_. 0)), t') \<and>
    (\<forall>d. check d t' = Some (\<exists>k. prefix k d \<and> 0 < snd (sub_spec xs (\<lambda>_. 0)) k))"
proof -
  obtain t' where t': "sub_run add rm xs t = Some (fst (sub_spec xs (\<lambda>_. 0)), t')" "inv t'"
    "\<forall>k. unat (ref k t') = snd (sub_spec xs (\<lambda>_. 0)) k"
    using run_spec[of t "\<lambda>_. 0" xs] assms by auto
  have "ref k t' \<noteq> 0 \<longleftrightarrow> 0 < snd (sub_spec xs (\<lambda>_. 0)) k" for k
    using t'(3)[rule_format, of k] by (metis neq0_conv unat_eq_zero)
  then show ?thesis using t'(1) check_law[OF t'(2)] by simp
qed

end

interpretation trie: subscription_store trie_add trie_rm trie_check trie_ref trie_inv
  by unfold_locales (use trie_add_ok trie_rm_ok trie_check_ok in blast)+

subsection \<open>Properties\<close>

text \<open>C3: For every history of fewer than 2 to the 32 subscribe and unsubscribe requests on an
  empty trie, no assertion of \<^verbatim>\<open>add\<close> or \<^verbatim>\<open>rm\<close> fails and no null child is followed, every
  request reports exactly whether it created a key or dropped its last reference, and
  afterwards \<^verbatim>\<open>check\<close> accepts a message exactly when one of the keys that are still subscribed
  is a prefix of it.\<close>

theorem trie_matches:
  assumes "length xs < 2 ^ 32"
  shows "\<exists>t. sub_run trie_add trie_rm xs trie_new = Some (fst (sub_spec xs (\<lambda>_. 0)), t) \<and>
    (\<forall>d. trie_check d t = Some (\<exists>k. prefix k d \<and> 0 < snd (sub_spec xs (\<lambda>_. 0)) k))"
  by (rule trie.run_check[OF trie_new_inv trie_ref_new assms])

theorem trie_matches_witness:
  "\<exists>t. sub_run trie_add trie_rm [Subscribe [97, 98], Subscribe [97], Subscribe [99], Unsubscribe [97]] trie_new
      = Some (fst (sub_spec [Subscribe [97, 98], Subscribe [97], Subscribe [99], Unsubscribe [97]] (\<lambda>_. 0)), t) \<and>
    (\<forall>d. trie_check d t = Some (\<exists>k. prefix k d \<and>
      0 < snd (sub_spec [Subscribe [97, 98], Subscribe [97], Subscribe [99], Unsubscribe [97]] (\<lambda>_. 0)) k))"
  by (rule trie_matches) simp

text \<open>C4: Removing a key from a well-formed trie fails no assertion, reports \<^verbatim>\<open>true\<close> exactly
  for the last reference, drops one reference of that key and of no other, and leaves a
  well-formed trie: the counts agree with the tables, every range fits an unsigned char, both
  ends of every range are occupied and no redundant node is left.\<close>

theorem trie_rm_compacts:
  assumes "trie_inv t"
  shows "\<exists>t'. trie_rm k t = Some (trie_ref k t = 1, t') \<and> trie_inv t' \<and>
    (\<forall>k'. trie_ref k' t' = (if k' = k \<and> trie_ref k t \<noteq> 0 then trie_ref k t - 1 else trie_ref k' t))"
  by (rule trie_rm_ok[OF assms])

theorem trie_rm_compacts_witness:
  "let t = Trie 0 97 3 2 [Some (Trie 1 0 0 0 []), None, Some (Trie 1 0 0 0 [])]
   in \<exists>t'. trie_rm [97] t = Some (trie_ref [97] t = 1, t') \<and> trie_inv t'"
proof -
  have "trie_inv (Trie 0 97 3 2 [Some (Trie 1 0 0 0 []), None, Some (Trie 1 0 0 0 [])])"
    by (simp add: trie_inv.simps tbl_inv_def)
  from trie_rm_compacts[OF this, of "[97]"] show ?thesis by (auto simp: Let_def)
qed

text \<open>C5: \<^verbatim>\<open>apply\<close> calls its function once for every subscribed key, with the key, and for
  nothing else.\<close>

theorem trie_apply_enumerates:
  assumes "trie_inv t"
  shows "distinct (trie_apply [] t) \<and> set (trie_apply [] t) = {k. trie_ref k t \<noteq> 0}"
  using trie_apply_set(1)[OF assms, of "[]"] by simp

theorem trie_apply_enumerates_witness:
  "distinct (trie_apply [] (Trie 0 97 1 1 [Some (Trie 2 0 0 0 [])]))"
proof -
  have "trie_inv (Trie 0 97 1 1 [Some (Trie 2 0 0 0 [])])"
    by (simp add: trie_inv.simps tbl_inv_def)
  then show ?thesis using trie_apply_enumerates by blast
qed

end
