(* ===== verification/Mtrie.thy ===== *)
theory Mtrie
  imports Trie
begin

text \<open>
  \<^verbatim>\<open>mtrie_t\<close> of src/mtrie.cpp: the subscriptions of all the peers of a PUB or XPUB socket.
  Every node carries the set of pipes subscribed to its key (\<open>None\<close> for the null
  \<^verbatim>\<open>std::set\<close> pointer; a \<^verbatim>\<open>std::set\<close> of pointers is the sorted list of its elements, in
  which it is iterated), and the same compact child table as \<^verbatim>\<open>trie_t\<close>. The lemmas show
  that a well-formed multi-trie is a map from keys to sets of pipes, that every operation keeps it
  well-formed, when the assertions of the code fail, and which pipes a message matches.
\<close>

datatype mtrie = MTrie (mpipes: "addr list option") (mmin: nat) (mcount: nat) (mlive: nat)
  (mnext: "mtrie option list")

subsection \<open>Operations\<close>

definition mtrie_new :: mtrie where
  "mtrie_new = MTrie None 0 0 0 []"

fun mtrie_is_redundant :: "mtrie \<Rightarrow> bool" where
  "mtrie_is_redundant (MTrie ps m n l t) = (ps = None \<and> l = 0)"

fun mtrie_add :: "key \<Rightarrow> addr \<Rightarrow> mtrie \<Rightarrow> (bool \<times> mtrie) option" where
  "mtrie_add [] p (MTrie ps m n l t) =
    Some (ps = None, MTrie (Some (insort_insert p (case ps of None \<Rightarrow> [] | Some xs \<Rightarrow> xs))) m n l t)"
| "mtrie_add (x # xs) p (MTrie ps m n l t) =
    (let c = unat x; (m, n, t) = tbl_extend c m n t;
         i = (if n = 1 then 0 else c - m)
     in do {
       node \<leftarrow> elem t i;
       let (ch, l) = (case node of Some ch \<Rightarrow> (ch, l) | None \<Rightarrow> (mtrie_new, l + 1));
       (ret, ch) \<leftarrow> mtrie_add xs p ch;
       Some (ret, MTrie ps m n l (t[i := Some ch])) })"

text \<open>Pruning a redundant child and compacting the table, the second half of \<^verbatim>\<open>rm_helper\<close> by key.\<close>

definition mtrie_prune :: "nat \<Rightarrow> nat \<Rightarrow> nat \<Rightarrow> nat \<Rightarrow> 'n option list
    \<Rightarrow> (nat \<times> nat \<times> nat \<times> 'n option list) option" where
  "mtrie_prune c m n l t = do {
     zmq_assert (n > 0);
     if n = 1 then do {
       zmq_assert (l \<noteq> 0 \<and> l - 1 = 0);
       Some (m, 0, l - 1, []) }
     else do {
       let t = t[c - m := None];
       zmq_assert (l > 1);
       let l = l - 1;
       if l = 1 then do {
         let i = (case find (\<lambda>i. t ! i \<noteq> None) [0..<n] of Some i \<Rightarrow> i | None \<Rightarrow> n);
         zmq_assert (i < n);
         Some (m + i, 1, l, [t ! i]) }
       else if c = m then do {
         let i = (case find (\<lambda>i. t ! i \<noteq> None) [1..<n] of Some i \<Rightarrow> i | None \<Rightarrow> n);
         zmq_assert (i < n);
         Some (m + i, n - i, l, take (n - i) (drop i t)) }
       else if c = m + n - 1 then do {
         let i = (case find (\<lambda>i. t ! (n - 1 - i) \<noteq> None) [1..<n] of Some i \<Rightarrow> i | None \<Rightarrow> n);
         zmq_assert (i < n);
         Some (m, n - i, l, take (n - i) t) }
       else Some (m, n, l, t) } }"

text \<open>\<^verbatim>\<open>rm (prefix, size, pipe)\<close>: one subscription of one pipe.\<close>

fun mtrie_rm_key :: "key \<Rightarrow> addr \<Rightarrow> mtrie \<Rightarrow> (bool \<times> mtrie) option" where
  "mtrie_rm_key [] p (MTrie ps m n l t) =
    (case ps of
       None \<Rightarrow> Some (True, MTrie ps m n l t)
     | Some xs \<Rightarrow> do {
         zmq_assert (p \<in> set xs);
         let ps = (if remove1 p xs = [] then None else Some (remove1 p xs));
         Some (ps = None, MTrie ps m n l t) })"
| "mtrie_rm_key (x # xs) p (MTrie ps m n l t) =
    (let c = unat x; i = (if n = 1 then 0 else c - m)
     in if n = 0 \<or> c < m \<or> c \<ge> m + n then Some (False, MTrie ps m n l t)
        else do {
          node \<leftarrow> elem t i;
          case node of
            None \<Rightarrow> Some (False, MTrie ps m n l t)
          | Some ch \<Rightarrow> do {
              (ret, ch) \<leftarrow> mtrie_rm_key xs p ch;
              if mtrie_is_redundant ch then do {
                (m, n, l, t) \<leftarrow> mtrie_prune c m n l t;
                Some (ret, MTrie ps m n l t) }
              else Some (ret, MTrie ps m n l (t[i := Some ch])) } })"

text \<open>
  Compacting the table after the removal of a pipe, given the characters of the first and the
  last child that were kept.
\<close>

definition mtrie_compact :: "nat \<Rightarrow> nat \<Rightarrow> nat \<Rightarrow> 'n option list \<Rightarrow> nat \<Rightarrow> nat
    \<Rightarrow> (nat \<times> nat \<times> nat \<times> 'n option list) option" where
  "mtrie_compact m n l t new_min new_max = do {
     zmq_assert (n > 1);
     if l = 0 then Some (m, 0, l, [])
     else if l = 1 then do {
       zmq_assert (new_min = new_max);
       zmq_assert (new_min \<ge> m \<and> new_min < m + n);
       let node = t ! (new_min - m);
       zmq_assert (node \<noteq> None);
       Some (new_min, 1, l, [node]) }
     else if new_min > m \<or> new_max < m + n - 1 then do {
       zmq_assert (int new_max - int new_min + 1 > 1);
       zmq_assert (new_min > m \<or> new_max < m + n - 1);
       zmq_assert (new_min \<ge> m);
       zmq_assert (new_max \<le> m + n - 1);
       zmq_assert (new_max - new_min + 1 < n);
       Some (new_min, new_max - new_min + 1, l, take (new_max - new_min + 1) (drop (new_min - m) t)) }
     else Some (m, n, l, t) }"

text \<open>
  \<^verbatim>\<open>rm (pipe, func)\<close>: every subscription of a pipe. The result lists the keys the callback was
  invoked with, in order. \<open>mtrie_rm_table\<close> is the loop over the table: it carries the current
  character, \<^verbatim>\<open>live_nodes\<close>, \<^verbatim>\<open>new_min\<close> and \<^verbatim>\<open>new_max\<close>.
\<close>

fun mtrie_rm_pipe :: "addr \<Rightarrow> key \<Rightarrow> mtrie \<Rightarrow> (key list \<times> mtrie) option"
  and mtrie_rm_table :: "addr \<Rightarrow> key \<Rightarrow> nat \<Rightarrow> nat \<Rightarrow> nat \<Rightarrow> nat \<Rightarrow> mtrie option list
    \<Rightarrow> (key list \<times> nat \<times> nat \<times> nat \<times> mtrie option list) option" where
  "mtrie_rm_pipe p buff (MTrie ps m n l t) =
    (let (calls, ps) = (case ps of
           None \<Rightarrow> ([], None)
         | Some xs \<Rightarrow> if p \<in> set xs \<and> remove1 p xs = [] then ([buff], None)
                     else ([], Some (remove1 p xs)))
     in if n = 0 then Some (calls, MTrie ps m n l t)
        else if n = 1 then
          (case t of
             Some ch # _ \<Rightarrow> do {
               (cs, ch) \<leftarrow> mtrie_rm_pipe p (buff @ [word_of_nat m]) ch;
               if mtrie_is_redundant ch then do {
                 zmq_assert (l \<noteq> 0 \<and> l - 1 = 0);
                 Some (calls @ cs, MTrie ps m 0 (l - 1) []) }
               else Some (calls @ cs, MTrie ps m n l [Some ch]) }
           | _ \<Rightarrow> None)
        else do {
          (cs, l, new_min, new_max, t) \<leftarrow> mtrie_rm_table p buff m l (m + n - 1) m t;
          (m, n, l, t) \<leftarrow> mtrie_compact m n l t new_min new_max;
          Some (calls @ cs, MTrie ps m n l t) })"
| "mtrie_rm_table p buff c l new_min new_max [] = Some ([], l, new_min, new_max, [])"
| "mtrie_rm_table p buff c l new_min new_max (None # t) = do {
     (cs, l, new_min, new_max, t) \<leftarrow> mtrie_rm_table p buff (c + 1) l new_min new_max t;
     Some (cs, l, new_min, new_max, None # t) }"
| "mtrie_rm_table p buff c l new_min new_max (Some ch # t) = do {
     (calls, ch) \<leftarrow> mtrie_rm_pipe p (buff @ [word_of_nat c]) ch;
     if mtrie_is_redundant ch then do {
       zmq_assert (l > 0);
       (cs, l, new_min, new_max, t) \<leftarrow> mtrie_rm_table p buff (c + 1) (l - 1) new_min new_max t;
       Some (calls @ cs, l, new_min, new_max, None # t) }
     else do {
       (cs, l, new_min, new_max, t) \<leftarrow> mtrie_rm_table p buff (c + 1) l
         (if c < new_min then c else new_min) (if c > new_max then c else new_max) t;
       Some (calls @ cs, l, new_min, new_max, Some ch # t) } }"

text \<open>The pipes \<^verbatim>\<open>match\<close> signals for a message, in order.\<close>

fun mtrie_match :: "u8 list \<Rightarrow> mtrie \<Rightarrow> addr list option" where
  "mtrie_match data (MTrie ps m n l t) =
    (let here = (case ps of None \<Rightarrow> [] | Some xs \<Rightarrow> xs)
     in case data of
          [] \<Rightarrow> Some here
        | x # xs \<Rightarrow>
           (let c = unat x
            in if n = 0 then Some here
               else if n = 1 then
                 (if c \<noteq> m then Some here
                  else do { node \<leftarrow> elem t 0; ch \<leftarrow> node; rest \<leftarrow> mtrie_match xs ch; Some (here @ rest) })
               else if c < m \<or> c \<ge> m + n then Some here
               else do {
                 node \<leftarrow> elem t (c - m);
                 case node of
                   None \<Rightarrow> Some here
                 | Some ch \<Rightarrow> do { rest \<leftarrow> mtrie_match xs ch; Some (here @ rest) } }))"

subsection \<open>The multi-trie as a map from keys to sets of pipes\<close>

fun mt_ref :: "key \<Rightarrow> mtrie \<Rightarrow> addr set" where
  "mt_ref [] (MTrie ps m n l t) = (case ps of None \<Rightarrow> {} | Some xs \<Rightarrow> set xs)"
| "mt_ref (x # xs) (MTrie ps m n l t) =
    (case tbl_get m t (unat x) of None \<Rightarrow> {} | Some ch \<Rightarrow> mt_ref xs ch)"

definition pipes_inv :: "addr list option \<Rightarrow> bool" where
  "pipes_inv ps \<longleftrightarrow> (case ps of None \<Rightarrow> True | Some xs \<Rightarrow> xs \<noteq> [] \<and> sorted xs \<and> distinct xs)"

fun mt_inv :: "mtrie \<Rightarrow> bool" where
  "mt_inv (MTrie ps m n l t) \<longleftrightarrow> pipes_inv ps \<and> tbl_inv m n l t \<and>
     list_all (\<lambda>x. case x of None \<Rightarrow> True | Some ch \<Rightarrow> mt_inv ch \<and> \<not> mtrie_is_redundant ch) t"

declare mt_inv.simps [simp del]

lemma mt_inv_set:
  "mt_inv (MTrie ps m n l t) \<longleftrightarrow> pipes_inv ps \<and> tbl_inv m n l t \<and>
     (\<forall>ch. Some ch \<in> set t \<longrightarrow> mt_inv ch \<and> \<not> mtrie_is_redundant ch)"
  by (auto simp: mt_inv.simps list_all_iff split: option.splits)

lemma tbl_get_set: "(\<exists>c. tbl_get m t c = Some ch) \<longleftrightarrow> Some ch \<in> set t"
proof
  assume "Some ch \<in> set t"
  then obtain i where "i < length t" "t ! i = Some ch" by (auto simp: in_set_conv_nth)
  then have "tbl_get m t (m + i) = Some ch" by (simp add: tbl_get_def)
  then show "\<exists>c. tbl_get m t c = Some ch" ..
next
  assume "\<exists>c. tbl_get m t c = Some ch"
  then obtain c where "m \<le> c" "c < m + length t" "t ! (c - m) = Some ch"
    by (auto simp: tbl_get_def split: if_splits)
  then show "Some ch \<in> set t" by (auto simp: in_set_conv_nth intro!: exI[of _ "c - m"])
qed

lemma mt_inv_iff:
  "mt_inv (MTrie ps m n l t) \<longleftrightarrow> pipes_inv ps \<and> tbl_inv m n l t \<and>
     (\<forall>c ch. tbl_get m t c = Some ch \<longrightarrow> mt_inv ch \<and> \<not> mtrie_is_redundant ch)"
  unfolding mt_inv_set using tbl_get_set[of m t] by blast

lemma mtrie_new_inv [simp]: "mt_inv mtrie_new"
  by (simp add: mtrie_new_def mt_inv_iff tbl_inv_def pipes_inv_def)

lemma mt_ref_new [simp]: "mt_ref k mtrie_new = {}"
  by (cases k) (simp_all add: mtrie_new_def)

lemma mt_ref_redundant: "mt_inv t \<Longrightarrow> mtrie_is_redundant t \<Longrightarrow> mt_ref k t = {}"
proof (cases t)
  case (MTrie ps m n l tb)
  assume "mt_inv t" "mtrie_is_redundant t"
  then have "ps = None" "tb = []" using MTrie tbl_inv_live_0[of m n l tb] by (auto simp: mt_inv_iff)
  then show ?thesis using MTrie by (cases k) simp_all
qed

lemma pipes_insert:
  "pipes_inv ps \<Longrightarrow> pipes_inv (Some (insort_insert p (case ps of None \<Rightarrow> [] | Some xs \<Rightarrow> xs)))"
  by (auto simp: pipes_inv_def sorted_insort_insert distinct_insort_insert split: option.splits
      dest!: arg_cong[of "insort_insert p _" "[]" set] simp: set_insort_insert)

lemma pipes_remove:
  "pipes_inv (Some xs) \<Longrightarrow> pipes_inv (if remove1 p xs = [] then None else Some (remove1 p xs))"
  by (simp add: pipes_inv_def sorted_remove1)

text \<open>Pruning by key.\<close>

lemma mtrie_prune_ok:
  assumes inv: "tbl_inv m n l t" and c: "tbl_get m t c \<noteq> None"
  obtains m' n' l' t' where "mtrie_prune c m n l t = Some (m', n', l', t')" "tbl_inv m' n' l' t'"
    "tbl_get m' t' = (tbl_get m t)(c := None)"
proof (cases "n = 1")
  case True
  note r = tbl_removed[OF inv c]
  have "c = m" using r(10,11) True by linarith
  then have "t[c - m := None] = [None]" using r(4,8) True by (auto simp: length_Suc_conv)
  then have l: "l = 1" using r(1) by simp
  have get: "tbl_get m [] = (tbl_get m t)(c := None)"
    using True r(4,10,11) by (auto simp: tbl_get_def fun_eq_iff)
  have res: "mtrie_prune c m n l t = Some (m, 0, 0, [])"
    using True l by (simp add: mtrie_prune_def)
  have "tbl_inv m 0 0 []" using r(3) by (simp add: tbl_inv_def)
  from that[OF res this get] show ?thesis .
next
  case False
  let ?u = "t[c - m := None]"
  note r = tbl_removed[OF inv c]
  have n2: "2 \<le> length ?u" and len: "length t = n" using False r(4,5) by simp_all
  have lpos: "live ?u \<noteq> 0" by (rule tbl_removed_live[OF inv c False])
  then have l1: "1 < l" "l - 1 = live ?u" using r(1) by auto
  show ?thesis
  proof (cases "live ?u = 1")
    case True
    obtain j where "j < length ?u" "?u ! j \<noteq> None" using lpos unfolding live_0_iff by blast
    then obtain k where k: "find (\<lambda>i. ?u ! i \<noteq> None) [0..<n] = Some k" "k \<le> j" "?u ! k \<noteq> None"
      by (rule_tac find_upt_exists[of 0 j n "\<lambda>i. ?u ! i \<noteq> None"]) (use r(4) in auto)
    have kl: "k < length ?u" using k(2) \<open>j < length ?u\<close> by simp
    note sh = tbl_shrink_one[OF r(3) True kl k(3)]
    have "mtrie_prune c m n l t = Some (m + k, 1, 1, [?u ! k])"
      using False l1 True k kl r(4,5) by (simp add: mtrie_prune_def assert_bind)
    from that[OF this sh(1)] sh(2) r(2) show ?thesis by simp
  next
    case many: False
    consider "c = m" | "c \<noteq> m" "c = m + n - 1" | "c \<noteq> m" "c \<noteq> m + n - 1" by blast
    then show ?thesis
    proof cases
      case 1
      have last: "?u ! (length ?u - 1) \<noteq> None" using r(4,7) 1 False r(5) by auto
      obtain i where i: "find (\<lambda>i. ?u ! i \<noteq> None) [1..<length ?u] = Some i" "1 \<le> i" "i < length ?u"
        "tbl_inv (m + i) (length ?u - i) (live ?u) (take (length ?u - i) (drop i ?u))"
        "tbl_get (m + i) (take (length ?u - i) (drop i ?u)) = tbl_get m ?u"
        by (rule tbl_shrink_left[OF r(3) r(8)[OF 1] last n2])
      have "mtrie_prune c m n l t = Some (m + i, length ?u - i, live ?u, take (length ?u - i) (drop i ?u))"
        using 1 i(1-3) l1 many False len by (auto simp: mtrie_prune_def Let_def run_simps)
      from that[OF this i(4)] i(5) r(2) show ?thesis by simp
    next
      case 2
      have last: "?u ! (length ?u - 1) = None" using r(4,9) 2 by auto
      obtain i where i: "find (\<lambda>i. ?u ! (length ?u - 1 - i) \<noteq> None) [1..<length ?u] = Some i" "1 \<le> i"
        "i < length ?u" "tbl_inv m (length ?u - i) (live ?u) (take (length ?u - i) ?u)"
        "tbl_get m (take (length ?u - i) ?u) = tbl_get m ?u"
        by (rule tbl_shrink_right[OF r(3) r(6)[OF 2(1)] last n2])
      have "mtrie_prune c m n l t = Some (m, length ?u - i, live ?u, take (length ?u - i) ?u)"
        using 2 i(1-3) l1 many False len by (auto simp: mtrie_prune_def Let_def run_simps)
      from that[OF this i(4)] i(5) r(2) show ?thesis by simp
    next
      case 3
      have "mtrie_prune c m n l t = Some (m, n, live ?u, ?u)"
        using 3 l1 many False r(5) by (auto simp: mtrie_prune_def Let_def run_simps)
      moreover have "tbl_inv m n (live ?u) ?u"
        using r(3-7) 3 by (auto simp: tbl_inv_def hd_conv_nth last_conv_nth)
      ultimately show ?thesis using that r(2) by simp
    qed
  qed
qed

subsection \<open>Functional behaviour\<close>

text \<open>A node's lookups, child by child.\<close>

lemma mt_ref_node:
  assumes "\<And>x xs. (case tbl_get m' t' (unat x) of None \<Rightarrow> {} | Some ch \<Rightarrow> mt_ref xs ch) = f x xs
      (case tbl_get m t (unat (x::u8)) of None \<Rightarrow> {} | Some ch \<Rightarrow> mt_ref xs ch)"
    and "k' = y # ys"
  shows "mt_ref k' (MTrie ps m' n' l' t') = f y ys (mt_ref k' (MTrie ps m n l t))"
  using assms by simp

lemma mt_ref_child:
  "(case tbl_get m t (unat x) of None \<Rightarrow> {} | Some ch \<Rightarrow> mt_ref xs ch) =
    mt_ref xs (case tbl_get m t (unat x) of None \<Rightarrow> mtrie_new | Some ch \<Rightarrow> ch)"
  by (simp split: option.split)

lemma mtrie_add_ok:
  assumes "mt_inv t"
  shows "\<exists>t'. mtrie_add k p t = Some (mt_ref k t = {}, t') \<and> mt_inv t' \<and> \<not> mtrie_is_redundant t' \<and>
    (\<forall>k'. mt_ref k' t' = (if k' = k then insert p (mt_ref k t) else mt_ref k' t))"
  using assms
proof (induction k arbitrary: t)
  case Nil
  obtain ps m n l tb where t: "t = MTrie ps m n l tb" by (cases t)
  let ?ps = "Some (insort_insert p (case ps of None \<Rightarrow> [] | Some xs \<Rightarrow> xs))"
  have pi: "pipes_inv ps" using Nil.prems t by (simp add: mt_inv_iff)
  have "mt_inv (MTrie ?ps m n l tb)" using Nil.prems t pipes_insert[OF pi] by (simp add: mt_inv_iff)
  moreover have "mt_ref k' (MTrie ?ps m n l tb) = (if k' = [] then insert p (mt_ref [] t) else mt_ref k' t)" for k'
    using t by (cases k') (auto simp: set_insort_insert split: option.splits)
  moreover have "mt_ref [] t = {} \<longleftrightarrow> ps = None"
    using t pi by (auto simp: pipes_inv_def split: option.splits)
  ultimately show ?case using t by simp
next
  case (Cons x xs)
  obtain ps m n l tb where t: "t = MTrie ps m n l tb" by (cases t)
  let ?c = "unat x"
  let ?ch = "case tbl_get m tb ?c of None \<Rightarrow> mtrie_new | Some ch \<Rightarrow> ch"
  let ?l = "if tbl_get m tb ?c = None then Suc l else l"
  have pi: "pipes_inv ps" and inv: "tbl_inv m n l tb"
    and ch: "\<And>c ch. tbl_get m tb c = Some ch \<Longrightarrow> mt_inv ch \<and> \<not> mtrie_is_redundant ch"
    using Cons.prems t by (auto simp: mt_inv_iff)
  have chinv: "mt_inv ?ch" using ch by (auto split: option.split)
  have ref: "mt_ref (x # xs) t = mt_ref xs ?ch" by (simp add: t mt_ref_child)
  obtain m' n' t' where ext: "tbl_extend ?c m n tb = (m', n', t')" by (metis prod_cases3)
  note e = tbl_extend_ok[OF inv unat_u8_lt ext]
  obtain ch' where ch': "mtrie_add xs p ?ch = Some (mt_ref xs ?ch = {}, ch')" "mt_inv ch'"
    "\<not> mtrie_is_redundant ch'"
    "\<forall>k'. mt_ref k' ch' = (if k' = xs then insert p (mt_ref xs ?ch) else mt_ref k' ?ch)"
    using Cons.IH[OF chinv] by auto
  note fill = tbl_extend_fill(1,2)[OF inv unat_u8_lt ext, of ch'] tbl_extend_fill(3)[OF inv unat_u8_lt ext]
  have ix: "(if n' = 1 then 0 else ?c - m') = ?c - m'" using e(2,3) by auto
  have lt: "?c - m' < length t'" using e(1-3) by linarith
  let ?t = "MTrie ps m' n' ?l (t'[?c - m' := Some ch'])"
  have "mtrie_add (x # xs) p t = Some (mt_ref xs ?ch = {}, ?t)"
    unfolding t mtrie_add.simps Let_def ext split_conv ix
    using lt fill(3) ch'(1) by (cases "tbl_get m tb ?c") simp_all
  moreover have "mt_inv ?t"
    unfolding mt_inv_iff using pi fill(1,2) ch ch'(2,3) by auto
  moreover have "\<not> mtrie_is_redundant ?t"
    using tbl_inv_live_get[OF fill(1), of ?c] fill(2) by simp
  moreover have "mt_ref k' ?t = (if k' = x # xs then insert p (mt_ref xs ?ch) else mt_ref k' t)" for k'
    using ch'(4) unfolding t by (cases k') (auto simp: fill(2) split: option.splits)
  ultimately show ?case unfolding ref by blast
qed


text \<open>The value of \<open>mt_ref\<close> after the child of one character was replaced or pruned.\<close>

lemma mt_ref_upd:
  assumes "\<And>k. (case tbl_get m' t' (unat (x::u8)) of None \<Rightarrow> {} | Some ch \<Rightarrow> mt_ref k ch) = mt_ref k ch'"
    and "\<And>c. c \<noteq> unat x \<Longrightarrow> tbl_get m' t' c = tbl_get m t c"
  shows "mt_ref k' (MTrie ps m' n' l' t') =
    (case k' of y # ys \<Rightarrow> if y = x then mt_ref ys ch' else mt_ref k' (MTrie ps m n l t)
      | [] \<Rightarrow> mt_ref [] (MTrie ps m n l t))"
proof (cases k')
  case (Cons y ys)
  show ?thesis
  proof (cases "y = x")
    case True
    then show ?thesis using assms(1)[of ys] Cons by simp
  next
    case False
    then have "unat y \<noteq> unat x" by simp
    then show ?thesis using assms(2)[of "unat y"] False Cons by simp
  qed
qed simp

lemma mtrie_rm_key_ok:
  assumes "mt_inv t" "p \<in> mt_ref k t"
  shows "\<exists>t'. mtrie_rm_key k p t = Some (mt_ref k t = {p}, t') \<and> mt_inv t' \<and>
    (\<forall>k'. mt_ref k' t' = (if k' = k then mt_ref k t - {p} else mt_ref k' t))"
  using assms
proof (induction k arbitrary: t)
  case Nil
  obtain ps m n l tb where t: "t = MTrie ps m n l tb" by (cases t)
  then obtain xs where xs: "ps = Some xs" "p \<in> set xs" using Nil.prems by (auto split: option.splits)
  let ?ps = "if remove1 p xs = [] then None else Some (remove1 p xs)"
  have pi: "pipes_inv (Some xs)" using Nil.prems t xs by (simp add: mt_inv_iff)
  then have set: "set (remove1 p xs) = set xs - {p}" by (simp add: pipes_inv_def set_remove1_eq)
  have "mt_inv (MTrie ?ps m n l tb)" using Nil.prems t pipes_remove[OF pi] by (simp add: mt_inv_iff)
  moreover have "mt_ref k' (MTrie ?ps m n l tb) = (if k' = [] then set xs - {p} else mt_ref k' t)" for k'
    by (cases k') (simp_all add: t flip: set)
  moreover have "remove1 p xs = [] \<longleftrightarrow> set (remove1 p xs) = {}" by simp
  then have "remove1 p xs = [] \<longleftrightarrow> set xs = {p}" unfolding set using xs(2) by blast
  moreover have "mtrie_rm_key [] p t = Some (remove1 p xs = [], MTrie ?ps m n l tb)" using xs t by simp
  moreover have "mt_ref [] t = set xs" using xs t by simp
  ultimately show ?case by (intro exI[of _ "MTrie ?ps m n l tb"]) simp
next
  case (Cons x xs)
  obtain ps m n l tb where t: "t = MTrie ps m n l tb" by (cases t)
  let ?c = "unat x"
  have inv: "tbl_inv m n l tb" and ch: "\<And>c ch. tbl_get m tb c = Some ch \<Longrightarrow> mt_inv ch \<and> \<not> mtrie_is_redundant ch"
    and pi: "pipes_inv ps" using Cons.prems(1) t by (auto simp: mt_inv_iff)
  obtain ch0 where Some: "tbl_get m tb ?c = Some ch0" and p: "p \<in> mt_ref xs ch0"
    using Cons.prems(2) t by (auto split: option.splits)
  then have some: "tbl_get m tb ?c \<noteq> None" by simp
  have ref: "mt_ref (x # xs) t = mt_ref xs ch0" using Some t by simp
  obtain ch' where ch': "mtrie_rm_key xs p ch0 = Some (mt_ref xs ch0 = {p}, ch')" "mt_inv ch'"
    "\<forall>k'. mt_ref k' ch' = (if k' = xs then mt_ref xs ch0 - {p} else mt_ref k' ch0)"
    using Cons.IH[OF _ p] ch[OF Some] by blast
  note upd = tbl_inv_update[OF inv some]
  have refs: "mt_ref k' (MTrie ps m' n' l' t') = (if k' = x # xs then mt_ref xs ch0 - {p} else mt_ref k' t)"
    if "\<And>k. (case tbl_get m' t' ?c of None \<Rightarrow> {} | Some ch \<Rightarrow> mt_ref k ch) = mt_ref k ch'"
      "\<And>c. c \<noteq> ?c \<Longrightarrow> tbl_get m' t' c = tbl_get m tb c" for k' m' n' l' t'
  proof -
    have "mt_ref k' (MTrie ps m' n' l' t') =
      (case k' of y # ys \<Rightarrow> if y = x then mt_ref ys ch' else mt_ref k' t | [] \<Rightarrow> mt_ref [] t)"
      unfolding t by (rule mt_ref_upd[OF that])
    also have "\<dots> = (if k' = x # xs then mt_ref xs ch0 - {p} else mt_ref k' t)"
      using ch'(3) Some by (cases k') (auto simp: t)
    finally show ?thesis .
  qed
  show ?case
  proof (cases "mtrie_is_redundant ch'")
    case True
    obtain m' n' l' t' where p: "mtrie_prune ?c m n l tb = Some (m', n', l', t')" "tbl_inv m' n' l' t'"
      "tbl_get m' t' = (tbl_get m tb)(?c := None)"
      by (rule mtrie_prune_ok[OF inv some])
    have "mtrie_rm_key (x # xs) p t = Some (mt_ref xs ch0 = {p}, MTrie ps m' n' l' t')"
      using upd(3-7) Some ch'(1) True p(1) by (simp add: t Let_def)
    moreover have "mt_inv (MTrie ps m' n' l' t')"
      using p ch pi by (auto simp: mt_inv_iff split: if_splits)
    moreover have "mt_ref k' (MTrie ps m' n' l' t') = (if k' = x # xs then mt_ref xs ch0 - {p} else mt_ref k' t)" for k'
      by (rule refs) (simp_all add: p(3) mt_ref_redundant[OF ch'(2) True])
    ultimately show ?thesis unfolding ref by blast
  next
    case False
    let ?t = "MTrie ps m n l (tb[?c - m := Some ch'])"
    have "mtrie_rm_key (x # xs) p t = Some (mt_ref xs ch0 = {p}, ?t)"
      using upd(3-7) Some ch'(1) False by (simp add: t Let_def)
    moreover have "mt_inv ?t"
      using upd(1)[of ch'] upd(2)[of ch'] ch ch'(2) False pi by (auto simp: mt_inv_iff)
    moreover have "mt_ref k' ?t = (if k' = x # xs then mt_ref xs ch0 - {p} else mt_ref k' t)" for k'
      by (rule refs) (simp_all add: upd(2)[of ch'])
    ultimately show ?thesis unfolding ref by blast
  qed
qed

text \<open>
  A pipe that did not subscribe to the key: harmless when nobody did, an assertion failure when
  another pipe did.
\<close>

lemma mtrie_rm_key_stranger:
  assumes "mt_inv t" "p \<notin> mt_ref k t"
  shows "mt_ref k t = {} \<Longrightarrow> \<exists>b. mtrie_rm_key k p t = Some (b, t)"
    "mt_ref k t \<noteq> {} \<Longrightarrow> mtrie_rm_key k p t = None"
proof -
  have "(mt_ref k t = {} \<longrightarrow> (\<exists>b. mtrie_rm_key k p t = Some (b, t))) \<and>
    (mt_ref k t \<noteq> {} \<longrightarrow> mtrie_rm_key k p t = None)"
    using assms
  proof (induction k arbitrary: t)
    case Nil
    then show ?case by (cases t) (auto simp: mt_inv_iff pipes_inv_def zmq_assert_def split: option.splits)
  next
    case (Cons x xs)
    obtain ps m n l tb where t: "t = MTrie ps m n l tb" by (cases t)
    let ?c = "unat x"
    have inv: "tbl_inv m n l tb" and ch: "\<And>c ch. tbl_get m tb c = Some ch \<Longrightarrow> mt_inv ch \<and> \<not> mtrie_is_redundant ch"
      using Cons.prems(1) t by (auto simp: mt_inv_iff)
    show ?case
    proof (cases "tbl_get m tb ?c")
      case None
      then show ?thesis using tbl_get_None_step[OF inv None] by (auto simp: t Let_def)
    next
      case (Some ch0)
      then have some: "tbl_get m tb ?c \<noteq> None" by simp
      note upd = tbl_inv_update[OF inv some]
      have "tb[?c - m := Some ch0] = tb"
        using Some upd(6,7) inv by (auto simp: tbl_get_def tbl_inv_def list_update_same_conv)
      then show ?thesis
        using Cons.IH[of ch0] Cons.prems(2) ch[OF Some] upd(3-7) Some by (auto simp: t Let_def)
    qed
  qed
  then show "mt_ref k t = {} \<Longrightarrow> \<exists>b. mtrie_rm_key k p t = Some (b, t)"
    "mt_ref k t \<noteq> {} \<Longrightarrow> mtrie_rm_key k p t = None" by blast+
qed

lemma mtrie_match_ok:
  assumes "mt_inv t"
  shows "\<exists>ps. mtrie_match d t = Some ps \<and> set ps = (\<Union>k \<in> {k. prefix k d}. mt_ref k t)"
  using assms
proof (induction d arbitrary: t)
  case Nil
  then show ?case by (cases t) (auto split: option.splits)
next
  case (Cons x xs)
  obtain ps m n l tb where t: "t = MTrie ps m n l tb" by (cases t)
  have inv: "tbl_inv m n l tb" and ch: "\<And>c ch. tbl_get m tb c = Some ch \<Longrightarrow> mt_inv ch"
    using Cons.prems t by (auto simp: mt_inv_iff)
  have "{k. prefix k (x # xs)} = insert [] ((#) x ` {k. prefix k xs})" by (auto simp: prefix_Cons)
  then have split: "(\<Union>k \<in> {k. prefix k (x # xs)}. mt_ref k t) = mt_ref [] t \<union>
      (case tbl_get m tb (unat x) of None \<Rightarrow> {} | Some ch \<Rightarrow> \<Union>k \<in> {k. prefix k xs}. mt_ref k ch)"
    by (simp add: t split: option.split)
  have here: "mt_ref [] t = set (case ps of None \<Rightarrow> [] | Some xs \<Rightarrow> xs)" by (simp add: t split: option.split)
  show ?case
  proof (cases "tbl_get m tb (unat x)")
    case None
    then have "mtrie_match (x # xs) t = Some (case ps of None \<Rightarrow> [] | Some xs \<Rightarrow> xs)"
      using tbl_get_None_step[OF inv None] inv
      by (auto simp: t Let_def tbl_inv_def hd_conv_nth tbl_get_def split: if_splits)
    then show ?thesis unfolding split here None by simp
  next
    case (Some ch0)
    then have "tbl_get m tb (unat x) \<noteq> None" by simp
    note u = tbl_inv_update(3-7)[OF inv this]
    obtain qs where qs: "mtrie_match xs ch0 = Some qs" "set qs = (\<Union>k \<in> {k. prefix k xs}. mt_ref k ch0)"
      using Cons.IH[OF ch[OF Some]] by blast
    have "mtrie_match (x # xs) t = Some ((case ps of None \<Rightarrow> [] | Some xs \<Rightarrow> xs) @ qs)"
      using u Some qs(1) by (auto simp: t Let_def split: if_splits)
    then show ?thesis using qs(2) unfolding split here Some by simp
  qed
qed


subsection \<open>Removing a pipe everywhere\<close>

lemma tbl_get_SomeD:
  "tbl_get m t c = Some x \<Longrightarrow> m \<le> c \<and> c < m + length t \<and> t ! (c - m) = Some x"
  by (simp add: tbl_get_def split: if_splits)

lemma mtrie_compact_ok:
  assumes len: "1 < length t" and b: "m + length t \<le> 256"
    and rng: "\<And>d. tbl_get m t d \<noteq> None \<Longrightarrow> lo \<le> d \<and> d \<le> hi"
    and lo: "live t \<noteq> 0 \<Longrightarrow> tbl_get m t lo \<noteq> None" and hi: "live t \<noteq> 0 \<Longrightarrow> tbl_get m t hi \<noteq> None"
  obtains m' n' l' t' where "mtrie_compact m (length t) (live t) t lo hi = Some (m', n', l', t')"
    "tbl_inv m' n' l' t'" "tbl_get m' t' = tbl_get m t"
proof -
  consider "live t = 0" | "live t = 1" | "2 \<le> live t" by linarith
  then show thesis
  proof cases
    case 1
    then have "t ! i = None" if "i < length t" for i using that live_0_iff by blast
    then have "tbl_get m t c = None" for c by (auto simp: tbl_get_def)
    then have "tbl_get m [] = tbl_get m t" by (simp add: fun_eq_iff)
    moreover have "tbl_inv m 0 0 []" using b by (simp add: tbl_inv_def)
    ultimately show ?thesis using that[of m 0 0 "[]"] 1 len by (simp add: mtrie_compact_def)
  next
    case 2
    obtain x where x: "tbl_get m t lo = Some x" using lo 2 by auto
    obtain y where y: "tbl_get m t hi = Some y" using hi 2 by auto
    note xy = tbl_get_SomeD[OF x] tbl_get_SomeD[OF y]
    have ix: "lo - m < length t" "hi - m < length t" using xy by auto
    have "hi - m = lo - m" using live_1_unique[OF 2 ix(1) _ ix(2)] xy by force
    then have eq: "lo = hi" using xy by auto
    have ne: "t ! (lo - m) \<noteq> None" using xy by simp
    have "mtrie_compact m (length t) (live t) t lo hi = Some (m + (lo - m), 1, 1, [t ! (lo - m)])"
      using 2 len eq xy by (simp add: mtrie_compact_def Let_def)
    from that[OF this tbl_shrink_one[OF b 2 ix(1) ne]] show ?thesis .
  next
    case 3
    obtain x where x: "tbl_get m t lo = Some x" using lo 3 by auto
    obtain y where y: "tbl_get m t hi = Some y" using hi 3 by auto
    note xy = tbl_get_SomeD[OF x] tbl_get_SomeD[OF y]
    have ix: "lo - m < length t" "hi - m < length t" using xy by auto
    have le: "lo \<le> hi" using rng[of lo] x by simp
    have out: "t ! j = None" if "j < length t" "j < lo - m \<or> lo - m + (hi - lo + 1) \<le> j" for j
    proof (rule ccontr)
      assume "t ! j \<noteq> None"
      then have "tbl_get m t (m + j) \<noteq> None" using that(1) by (simp add: tbl_get_def)
      from rng[OF this] show False using that(2) xy by auto
    qed
    have lt: "lo < hi"
    proof (rule ccontr)
      assume "\<not> lo < hi"
      then have "take 1 (drop (lo - m) t) = [t ! (lo - m)]" "lo = hi" using ix le by (simp_all add: take_Suc_conv_app_nth)
      moreover from this have "live (take 1 (drop (lo - m) t)) = live t"
        using out ix by (intro live_slice) auto
      moreover have "live [t ! (lo - m)] \<le> 1" by (cases "t ! (lo - m)") simp_all
      ultimately show False using 3 by simp
    qed
    have k: "lo - m + (hi - lo + 1) \<le> length t" using xy le by auto
    have "t ! (lo - m + (hi - lo + 1) - 1) \<noteq> None" using xy le by simp
    then have inv: "tbl_inv (m + (lo - m)) (hi - lo + 1) (live t) (take (hi - lo + 1) (drop (lo - m) t))"
      using xy by (intro tbl_slice_inv[OF b k _ out]) auto
    have get: "tbl_get (m + (lo - m)) (take (hi - lo + 1) (drop (lo - m) t)) = tbl_get m t"
      by (rule tbl_get_slice[OF k out])
    show ?thesis
    proof (cases "lo > m \<or> hi < m + length t - 1")
      case True
      then have "mtrie_compact m (length t) (live t) t lo hi =
          Some (m + (lo - m), hi - lo + 1, live t, take (hi - lo + 1) (drop (lo - m) t))"
        using 3 len xy lt by (auto simp: mtrie_compact_def Let_def assert_bind)
      from that[OF this inv get] show ?thesis .
    next
      case False
      then have "lo = m" "hi = m + length t - 1" using xy by auto
      then have "mtrie_compact m (length t) (live t) t lo hi = Some (m, length t, live t, t)"
        "take (hi - lo + 1) (drop (lo - m) t) = t" "hi - lo + 1 = length t"
        using 3 len by (simp_all add: mtrie_compact_def)
      from that[OF this(1)] inv this(2,3) \<open>lo = m\<close> show ?thesis by simp
    qed
  qed
qed


text \<open>What a node holds for a key below it, and what the two mutually recursive loops establish.\<close>

definition tbl_ref :: "nat \<Rightarrow> mtrie option list \<Rightarrow> u8 \<Rightarrow> key \<Rightarrow> addr set" where
  "tbl_ref m t x xs = (case tbl_get m t (unat x) of None \<Rightarrow> {} | Some ch \<Rightarrow> mt_ref xs ch)"

definition rm_pipe_post :: "addr \<Rightarrow> key \<Rightarrow> mtrie \<Rightarrow> key list \<Rightarrow> mtrie \<Rightarrow> bool" where
  "rm_pipe_post p buff t cs t' \<longleftrightarrow> mt_inv t' \<and> (\<forall>k. mt_ref k t' = mt_ref k t - {p}) \<and>
     distinct cs \<and> set cs = {buff @ k | k. mt_ref k t = {p}}"

definition rm_table_post :: "addr \<Rightarrow> key \<Rightarrow> nat \<Rightarrow> nat \<Rightarrow> nat \<Rightarrow> nat \<Rightarrow> mtrie option list \<Rightarrow>
    key list \<Rightarrow> nat \<Rightarrow> nat \<Rightarrow> nat \<Rightarrow> mtrie option list \<Rightarrow> bool" where
  "rm_table_post p buff c l lo hi t cs l' lo' hi' t' \<longleftrightarrow>
     length t' = length t \<and> l' + live t = l + live t' \<and> live t' \<le> live t \<and>
     (\<forall>ch. Some ch \<in> set t' \<longrightarrow> mt_inv ch \<and> \<not> mtrie_is_redundant ch) \<and>
     (\<forall>x xs. tbl_ref c t' x xs = tbl_ref c t x xs - {p}) \<and>
     distinct cs \<and> set cs = {buff @ x # xs | x xs. tbl_ref c t x xs = {p}} \<and>
     lo' \<le> lo \<and> hi \<le> hi' \<and> (\<forall>d. tbl_get c t' d \<noteq> None \<longrightarrow> lo' \<le> d \<and> d \<le> hi') \<and>
     (lo' = lo \<or> tbl_get c t' lo' \<noteq> None) \<and> (hi' = hi \<or> tbl_get c t' hi' \<noteq> None)"

lemma tbl_ref_Nil [simp]: "tbl_ref c [] x xs = {}"
  by (simp add: tbl_ref_def)

lemma tbl_ref_Cons:
  "tbl_ref c (z # t) x xs =
    (if unat x = c then (case z of None \<Rightarrow> {} | Some ch \<Rightarrow> mt_ref xs ch) else tbl_ref (Suc c) t x xs)"
  by (simp add: tbl_ref_def tbl_get_Cons)

lemma mt_ref_tbl: "mt_ref (x # xs) (MTrie ps m n l t) = tbl_ref m t x xs"
  by (simp add: tbl_ref_def)

lemma tbl_ref_below [simp]: "unat x < c \<Longrightarrow> tbl_ref c t x xs = {}"
  by (simp add: tbl_ref_def)

lemma rm_table_None:
  assumes "rm_table_post p buff (c + 1) l lo hi t cs l' lo' hi' t'"
  shows "rm_table_post p buff c l lo hi (None # t) cs l' lo' hi' (None # t')"
proof -
  have "tbl_ref c (None # t) x xs = tbl_ref (c + 1) t x xs" for x xs and t :: "mtrie option list"
    by (simp add: tbl_ref_Cons)
  moreover have "tbl_get c (None # t) = tbl_get (c + 1) t" for t :: "mtrie option list"
    by (auto simp: tbl_get_Cons fun_eq_iff)
  ultimately show ?thesis using assms by (simp add: rm_table_post_def)
qed

lemma keys_Cons:
  assumes "c < 256" "distinct cs1" "distinct cs2" "set cs1 = {(buff @ [word_of_nat c]) @ k | k. mt_ref k ch = {p}}"
    "set cs2 = {buff @ x # xs | x xs. tbl_ref (c + 1) t x xs = {p}}"
  shows "distinct (cs1 @ cs2)"
    "set (cs1 @ cs2) = {buff @ x # xs | x xs. tbl_ref c (Some ch # t) x xs = {p}}"
proof -
  let ?x = "word_of_nat c :: u8"
  have ux: "unat ?x = c" using assms(1) by (simp add: unsigned_of_nat take_bit_eq_mod)
  have xc: "unat x = c \<longleftrightarrow> x = ?x" for x using ux unat_u8_eq by metis
  have "set cs1 = {buff @ x # xs | x xs. x = ?x \<and> mt_ref xs ch = {p}}" using assms(4) by auto
  moreover have "tbl_ref (c + 1) t ?x xs = {}" for xs by (simp add: ux)
  then have "set cs2 = {buff @ x # xs | x xs. x \<noteq> ?x \<and> tbl_ref (c + 1) t x xs = {p}}"
    using assms(5) by auto
  ultimately show "distinct (cs1 @ cs2)"
    "set (cs1 @ cs2) = {buff @ x # xs | x xs. tbl_ref c (Some ch # t) x xs = {p}}"
    using assms(2,3) by (auto simp: tbl_ref_Cons xc)
qed


lemma rm_table_pruned:
  assumes "c < 256" "rm_pipe_post p (buff @ [word_of_nat c]) ch calls ch'" "mtrie_is_redundant ch'" "0 < l"
    and post: "rm_table_post p buff (c + 1) (l - 1) lo hi t cs l' lo' hi' t'"
  shows "rm_table_post p buff c l lo hi (Some ch # t) (calls @ cs) l' lo' hi' (None # t')"
proof -
  have "mt_ref k ch - {p} = {}" for k
    using assms(2,3) mt_ref_redundant[of ch' k] by (simp add: rm_pipe_post_def)
  then have "tbl_ref c (None # t') x xs = tbl_ref c (Some ch # t) x xs - {p}" for x xs
    using post by (simp add: tbl_ref_Cons rm_table_post_def)
  moreover have "distinct (calls @ cs) \<and> set (calls @ cs) =
      {buff @ x # xs | x xs. tbl_ref c (Some ch # t) x xs = {p}}"
    by (intro conjI keys_Cons[OF assms(1), of calls cs buff ch p t])
      (use assms(2) post in \<open>simp_all add: rm_pipe_post_def rm_table_post_def\<close>)
  moreover have "tbl_get c (None # t') = tbl_get (c + 1) t'" by (auto simp: tbl_get_Cons fun_eq_iff)
  moreover have "l' + live (Some ch # t) = l + live (None # t')" "live (None # t') \<le> live (Some ch # t)"
    using post assms(4) by (auto simp: rm_table_post_def)
  ultimately show ?thesis using post unfolding rm_table_post_def by auto
qed

lemma rm_table_kept:
  assumes "c < 256" "rm_pipe_post p (buff @ [word_of_nat c]) ch calls ch'" "\<not> mtrie_is_redundant ch'"
    and post: "rm_table_post p buff (c + 1) l (if c < lo then c else lo) (if c > hi then c else hi) t
      cs l' lo' hi' t'"
  shows "rm_table_post p buff c l lo hi (Some ch # t) (calls @ cs) l' lo' hi' (Some ch' # t')"
proof -
  have "tbl_ref c (Some ch' # t') x xs = tbl_ref c (Some ch # t) x xs - {p}" for x xs
    using post assms(2) by (simp add: tbl_ref_Cons rm_table_post_def rm_pipe_post_def)
  moreover have "distinct (calls @ cs) \<and> set (calls @ cs) =
      {buff @ x # xs | x xs. tbl_ref c (Some ch # t) x xs = {p}}"
    by (intro conjI keys_Cons[OF assms(1), of calls cs buff ch p t])
      (use assms(2) post in \<open>simp_all add: rm_pipe_post_def rm_table_post_def\<close>)
  moreover have "lo' \<le> d \<and> d \<le> hi'" if "tbl_get c (Some ch' # t') d \<noteq> None" for d
    using that post by (cases "d = c") (auto simp: tbl_get_Cons rm_table_post_def split: if_splits)
  moreover have "lo' = lo \<or> tbl_get c (Some ch' # t') lo' \<noteq> None"
    "hi' = hi \<or> tbl_get c (Some ch' # t') hi' \<noteq> None" "lo' \<le> lo" "hi \<le> hi'"
    using post by (auto simp: tbl_get_Cons rm_table_post_def split: if_splits)
  moreover have "l' + live (Some ch # t) = l + live (Some ch' # t')" "live (Some ch' # t') \<le> live (Some ch # t)"
    "length (Some ch' # t') = length (Some ch # t)"
    "\<forall>x. Some x \<in> set (Some ch' # t') \<longrightarrow> mt_inv x \<and> \<not> mtrie_is_redundant x"
    using post assms(2,3) by (auto simp: rm_table_post_def rm_pipe_post_def)
  ultimately show ?thesis unfolding rm_table_post_def by blast
qed

text \<open>The removal at the node itself.\<close>

lemma rm_pipe_here:
  assumes "pipes_inv ps"
  obtains calls ps' where
    "(case ps of None \<Rightarrow> ([], None) | Some xs \<Rightarrow> if p \<in> set xs \<and> remove1 p xs = [] then ([buff], None)
        else ([], Some (remove1 p xs))) = (calls, ps')"
    "pipes_inv ps'" "mt_ref [] (MTrie ps' m' n' l' t') = mt_ref [] (MTrie ps m n l t) - {p}"
    "calls = (if mt_ref [] (MTrie ps m n l t) = {p} then [buff] else [])"
proof (cases ps)
  case None
  then show ?thesis using that[of "[]" None] by (simp add: pipes_inv_def)
next
  case (Some xs)
  have set: "set (remove1 p xs) = set xs - {p}" and inv: "xs \<noteq> []" "sorted (remove1 p xs)" "distinct (remove1 p xs)"
    using assms Some by (simp_all add: pipes_inv_def set_remove1_eq sorted_remove1)
  have nil: "remove1 p xs = [] \<longleftrightarrow> set xs - {p} = {}" unfolding set[symmetric] by simp
  show ?thesis
  proof (cases "set xs = {p}")
    case True
    then show ?thesis using that[of "[buff]" None] Some nil by (simp add: pipes_inv_def)
  next
    case False
    then have "remove1 p xs \<noteq> []" unfolding nil using inv(1) by (simp add: subset_singleton_iff)
    then show ?thesis using that[of "[]" "Some (remove1 p xs)"] Some False inv set
      by (simp add: pipes_inv_def)
  qed
qed

text \<open>Putting a node together from its own removal and that of its table.\<close>

lemma rm_pipe_post_node:
  assumes "pipes_inv ps'" "mt_ref [] (MTrie ps' m' n' l' t') = mt_ref [] (MTrie ps m n l t) - {p}"
    "calls = (if mt_ref [] (MTrie ps m n l t) = {p} then [buff] else [])"
    "tbl_inv m' n' l' t'" "\<And>c ch. tbl_get m' t' c = Some ch \<Longrightarrow> mt_inv ch \<and> \<not> mtrie_is_redundant ch"
    "\<And>x xs. tbl_ref m' t' x xs = tbl_ref m t x xs - {p}" "distinct cs"
    "set cs = {buff @ x # xs | x xs. tbl_ref m t x xs = {p}}"
  shows "rm_pipe_post p buff (MTrie ps m n l t) (calls @ cs) (MTrie ps' m' n' l' t')"
proof -
  let ?t = "MTrie ps m n l t"
  have "mt_ref k (MTrie ps' m' n' l' t') = mt_ref k ?t - {p}" for k
    using assms(2,6) by (cases k) (simp_all only: mt_ref_tbl)
  moreover have "mt_inv (MTrie ps' m' n' l' t')" using assms(1,4,5) by (simp add: mt_inv_iff)
  moreover have "distinct (calls @ cs)" using assms(3,7,8) by auto
  moreover have "{buff @ k | k. mt_ref k ?t = {p}} =
      (if mt_ref [] ?t = {p} then {buff} else {}) \<union> {buff @ x # xs | x xs. mt_ref (x # xs) ?t = {p}}"
    (is "?L = ?R")
  proof (intro set_eqI iffI)
    fix y assume "y \<in> ?L"
    then obtain k where k: "y = buff @ k" "mt_ref k ?t = {p}" by blast
    then show "y \<in> ?R" by (cases k) (simp_all del: mt_ref.simps)
  next
    fix y assume "y \<in> ?R"
    then show "y \<in> ?L" by (force split: if_splits simp del: mt_ref.simps)
  qed
  then have "set (calls @ cs) = {buff @ k | k. mt_ref k ?t = {p}}"
    using assms(3,8) by (simp add: mt_ref_tbl del: mt_ref.simps)
  ultimately show ?thesis by (simp add: rm_pipe_post_def)
qed


lemma tbl_ref_single: "tbl_ref m [z] x xs = (if unat x = m then (case z of None \<Rightarrow> {} | Some ch \<Rightarrow> mt_ref xs ch) else {})"
  by (simp add: tbl_ref_Cons)

text \<open>A table of more than one slot after the loop and the compaction.\<close>

lemma rm_table_compact:
  assumes inv: "tbl_inv m n l t" and n: "1 < n"
    and post: "rm_table_post p buff m l (m + n - 1) m t cs l' lo hi t'"
  obtains m'' n'' l'' t'' where "mtrie_compact m n l' t' lo hi = Some (m'', n'', l'', t'')"
    "tbl_inv m'' n'' l'' t''" "tbl_get m'' t'' = tbl_get m t'"
proof -
  have len: "length t' = n" and b: "m + n \<le> 256" and l': "l' = live t'"
    using inv post by (auto simp: tbl_inv_def rm_table_post_def)
  have rng: "lo \<le> d \<and> d \<le> hi" if "tbl_get m t' d \<noteq> None" for d
    using post that by (simp add: rm_table_post_def)
  have ends: "tbl_get m t' lo \<noteq> None" "tbl_get m t' hi \<noteq> None" if nz: "live t' \<noteq> 0"
  proof -
    obtain i where i: "i < length t'" "t' ! i \<noteq> None" using nz unfolding live_0_iff by blast
    then have d: "tbl_get m t' (m + i) \<noteq> None" by (simp add: tbl_get_def)
    note r = rng[OF d]
    have "lo = m + n - 1 \<or> tbl_get m t' lo \<noteq> None" "hi = m \<or> tbl_get m t' hi \<noteq> None"
      using post by (auto simp: rm_table_post_def)
    moreover have "lo = m + i" if "lo = m + n - 1" using that r i(1) len by linarith
    moreover have "hi = m + i" if "hi = m" using that r i(1) len by linarith
    ultimately show "tbl_get m t' lo \<noteq> None" "tbl_get m t' hi \<noteq> None" using d by metis+
  qed
  have "1 < length t'" "m + length t' \<le> 256" using n len b by simp_all
  from mtrie_compact_ok[OF this rng ends] obtain m'' n'' l'' t'' where
    "mtrie_compact m (length t') (live t') t' lo hi = Some (m'', n'', l'', t'')"
    "tbl_inv m'' n'' l'' t''" "tbl_get m'' t'' = tbl_get m t'" .
  from that[OF this(1)[unfolded len, folded l'] this(2,3)] show thesis .
qed

lemma mtrie_rm_pipe_ok:
  "mt_inv t \<Longrightarrow> \<exists>cs t'. mtrie_rm_pipe p buff t = Some (cs, t') \<and> rm_pipe_post p buff t cs t'"
  "c + length tb \<le> 256 \<Longrightarrow> live tb \<le> l \<Longrightarrow>
     (\<forall>ch. Some ch \<in> set tb \<longrightarrow> mt_inv ch \<and> \<not> mtrie_is_redundant ch) \<Longrightarrow>
     \<exists>cs l' lo' hi' tb'. mtrie_rm_table p buff c l lo hi tb = Some (cs, l', lo', hi', tb') \<and>
       rm_table_post p buff c l lo hi tb cs l' lo' hi' tb'"
proof (induction p buff t and p buff c l lo hi tb rule: mtrie_rm_pipe_mtrie_rm_table.induct)
  case (1 p buff ps m n l t)
  have pi: "pipes_inv ps" and inv: "tbl_inv m n l t"
    and ch: "\<And>ch. Some ch \<in> set t \<Longrightarrow> mt_inv ch \<and> \<not> mtrie_is_redundant ch"
    using "1.prems" by (auto simp: mt_inv_set)
  have len: "n = length t" and b: "m + n \<le> 256" and l: "l = live t" and ne: "t \<noteq> [] \<Longrightarrow> hd t \<noteq> None"
    using inv by (auto simp: tbl_inv_def)
  obtain calls ps' where here: "(case ps of None \<Rightarrow> ([], None) | Some xs \<Rightarrow> if p \<in> set xs \<and> remove1 p xs = []
      then ([buff], None) else ([], Some (remove1 p xs))) = (calls, ps')" "pipes_inv ps'"
    and refs: "\<And>m' n' l' t'. mt_ref [] (MTrie ps' m' n' l' t') = mt_ref [] (MTrie ps m n l t) - {p}"
    and calls: "calls = (if mt_ref [] (MTrie ps m n l t) = {p} then [buff] else [])"
    by (rule rm_pipe_here[OF pi, of p buff 0 0 0 "[]" m n l t]) auto
  note node = rm_pipe_post_node[OF here(2) refs calls]
  consider "n = 0" | "n = 1" | "1 < n" by linarith
  then show ?case
  proof cases
    case 1
    then have "t = []" using len by simp
    have "mtrie_rm_pipe p buff (MTrie ps m n l t) = Some (calls @ [], MTrie ps' m n l t)"
      using here(1) 1 by simp
    moreover have "rm_pipe_post p buff (MTrie ps m n l t) (calls @ []) (MTrie ps' m n l t)"
      by (rule node[OF inv]) (auto simp: \<open>t = []\<close>)
    ultimately show ?thesis by blast
  next
    case 2
    then obtain c0 where t: "t = [Some c0]" using len ne by (auto simp: length_Suc_conv)
    have "mt_inv c0" using ch t by simp
    with "1.IH"(1)[OF here(1)[symmetric] refl _ 2, of "Some c0" "[]" c0] t 2
    obtain cs c1 where c1: "mtrie_rm_pipe p (buff @ [word_of_nat m]) c0 = Some (cs, c1)"
      "rm_pipe_post p (buff @ [word_of_nat m]) c0 cs c1" by auto
    have m: "m < 256" using b 2 by simp
    have keys: "distinct cs" "set cs = {buff @ x # xs | x xs. tbl_ref m t x xs = {p}}"
      using keys_Cons[OF m, of cs "[]" buff c0 p "[]"] c1(2) by (simp_all add: rm_pipe_post_def t)
    have ref1: "mt_ref k c1 = mt_ref k c0 - {p}" for k using c1(2) by (simp add: rm_pipe_post_def)
    have l1: "l = 1" using l t by simp
    show ?thesis
    proof (cases "mtrie_is_redundant c1")
      case True
      have "mtrie_rm_pipe p buff (MTrie ps m n l t) = Some (calls @ cs, MTrie ps' m 0 0 [])"
        using here(1) 2 c1(1) True l1 by (simp add: t)
      moreover have red: "mt_ref k c0 - {p} = {}" for k
        using ref1 mt_ref_redundant[OF _ True, of k] c1(2) by (simp add: rm_pipe_post_def)
      have "rm_pipe_post p buff (MTrie ps m n l t) (calls @ cs) (MTrie ps' m 0 0 [])"
        by (rule node[OF _ _ _ keys]) (use b red in \<open>auto simp: t tbl_inv_def tbl_ref_single\<close>)
      ultimately show ?thesis by blast
    next
      case False
      have "mtrie_rm_pipe p buff (MTrie ps m n l t) = Some (calls @ cs, MTrie ps' m n l [Some c1])"
        using here(1) 2 c1(1) False by (simp add: t)
      moreover have "rm_pipe_post p buff (MTrie ps m n l t) (calls @ cs) (MTrie ps' m n l [Some c1])"
        by (rule node[OF _ _ _ keys])
          (use inv 2 False c1(2) ref1 in \<open>auto simp: t tbl_inv_def tbl_ref_single tbl_get_single rm_pipe_post_def split: if_splits\<close>)
      ultimately show ?thesis by blast
    qed
  next
    case 3
    then have n: "n \<noteq> 0" "n \<noteq> 1" by simp_all
    obtain cs l' lo hi t' where run: "mtrie_rm_table p buff m l (m + n - 1) m t = Some (cs, l', lo, hi, t')"
      and post: "rm_table_post p buff m l (m + n - 1) m t cs l' lo hi t'"
      using "1.IH"(2)[OF here(1)[symmetric] refl n] ch b l len by auto
    obtain m'' n'' l'' t'' where cp: "mtrie_compact m n l' t' lo hi = Some (m'', n'', l'', t'')"
      "tbl_inv m'' n'' l'' t''" "tbl_get m'' t'' = tbl_get m t'"
      by (rule rm_table_compact[OF inv 3 post])
    have "mtrie_rm_pipe p buff (MTrie ps m n l t) = Some (calls @ cs, MTrie ps' m'' n'' l'' t'')"
      using here(1) n run cp(1) by simp
    moreover have "rm_pipe_post p buff (MTrie ps m n l t) (calls @ cs) (MTrie ps' m'' n'' l'' t'')"
    proof (rule node[OF cp(2)])
      show "mt_inv ch \<and> \<not> mtrie_is_redundant ch" if "tbl_get m'' t'' c = Some ch" for c ch
        using that post tbl_get_set[of m t' ch] unfolding cp(3) rm_table_post_def by blast
      show "tbl_ref m'' t'' x xs = tbl_ref m t x xs - {p}" for x xs
        using post by (simp add: tbl_ref_def cp(3) rm_table_post_def)
    qed (use post in \<open>simp_all add: rm_table_post_def\<close>)
    ultimately show ?thesis by blast
  qed
next
  case (2 p buff c l lo hi)
  then show ?case by (simp add: rm_table_post_def)
next
  case (3 p buff c l lo hi t)
  obtain cs l' lo' hi' t' where r: "mtrie_rm_table p buff (c + 1) l lo hi t = Some (cs, l', lo', hi', t')"
    "rm_table_post p buff (c + 1) l lo hi t cs l' lo' hi' t'"
    using "3.IH" "3.prems" by auto
  then show ?case using rm_table_None[OF r(2)] by auto
next
  case (4 p buff c l lo hi ch t)
  have c: "c < 256" using "4.prems"(1) by simp
  obtain calls ch' where r: "mtrie_rm_pipe p (buff @ [word_of_nat c]) ch = Some (calls, ch')"
    "rm_pipe_post p (buff @ [word_of_nat c]) ch calls ch'"
    using "4.IH"(1) "4.prems" by auto
  show ?case
  proof (cases "mtrie_is_redundant ch'")
    case True
    have l: "0 < l" "live t \<le> l - 1" using "4.prems"(2) by auto
    obtain cs l' lo' hi' t' where s: "mtrie_rm_table p buff (c + 1) (l - 1) lo hi t = Some (cs, l', lo', hi', t')"
      "rm_table_post p buff (c + 1) (l - 1) lo hi t cs l' lo' hi' t'"
      using "4.IH"(2)[OF r(1) refl True] "4.prems" l by auto
    show ?thesis using r(1) True l(1) s(1) rm_table_pruned[OF c r(2) True l(1) s(2)] by auto
  next
    case False
    obtain cs l' lo' hi' t' where s: "mtrie_rm_table p buff (c + 1) l (if c < lo then c else lo)
        (if c > hi then c else hi) t = Some (cs, l', lo', hi', t')"
      "rm_table_post p buff (c + 1) l (if c < lo then c else lo) (if c > hi then c else hi) t cs l' lo' hi' t'"
      using "4.IH"(3)[OF r(1) refl False] "4.prems" by auto
    show ?thesis using r(1) False s(1) rm_table_kept[OF c r(2) False s(2)] by auto
  qed
qed


subsection \<open>The contract of a topic index\<close>

text \<open>
  The requests XPUB makes of its index: a peer subscribes, a peer unsubscribes, a peer goes away.
  The specification keeps the set of subscribers of every key. It fails on the removal of a
  subscription its peer does not hold while another one does.
\<close>

datatype topic_op = Join key addr | Leave key addr | Gone addr

datatype topic_obs = Fresh bool | Last bool | Orphans "key set"

fun topic_spec :: "topic_op list \<Rightarrow> (key \<Rightarrow> addr set) \<Rightarrow> (topic_obs list \<times> (key \<Rightarrow> addr set)) option" where
  "topic_spec [] c = Some ([], c)"
| "topic_spec (Join k p # xs) c = do {
     (bs, c') \<leftarrow> topic_spec xs (c(k := insert p (c k)));
     Some (Fresh (c k = {}) # bs, c') }"
| "topic_spec (Leave k p # xs) c = do {
     zmq_assert (p \<in> c k);
     (bs, c') \<leftarrow> topic_spec xs (c(k := c k - {p}));
     Some (Last (c k = {p}) # bs, c') }"
| "topic_spec (Gone p # xs) c = do {
     (bs, c') \<leftarrow> topic_spec xs (\<lambda>k. c k - {p});
     Some (Orphans {k. c k = {p}} # bs, c') }"

fun topic_run :: "(key \<Rightarrow> addr \<Rightarrow> 't \<Rightarrow> (bool \<times> 't) option) \<Rightarrow> (key \<Rightarrow> addr \<Rightarrow> 't \<Rightarrow> (bool \<times> 't) option) \<Rightarrow>
    (addr \<Rightarrow> 't \<Rightarrow> (key list \<times> 't) option) \<Rightarrow> topic_op list \<Rightarrow> 't \<Rightarrow> (topic_obs list \<times> 't) option" where
  "topic_run add rm rm_pipe [] t = Some ([], t)"
| "topic_run add rm rm_pipe (x # xs) t = do {
     (b, t) \<leftarrow> (case x of
        Join k p \<Rightarrow> do { (b, t) \<leftarrow> add k p t; Some (Fresh b, t) }
      | Leave k p \<Rightarrow> do { (b, t) \<leftarrow> rm k p t; Some (Last b, t) }
      | Gone p \<Rightarrow> do { (ks, t) \<leftarrow> rm_pipe p t; Some (Orphans (set ks), t) });
     (bs, t) \<leftarrow> topic_run add rm rm_pipe xs t;
     Some (b # bs, t) }"

locale topic_index =
  fixes add rm :: "key \<Rightarrow> addr \<Rightarrow> 't \<Rightarrow> (bool \<times> 't) option"
    and rm_pipe :: "addr \<Rightarrow> 't \<Rightarrow> (key list \<times> 't) option"
    and matches :: "u8 list \<Rightarrow> 't \<Rightarrow> addr list option"
    and ref :: "key \<Rightarrow> 't \<Rightarrow> addr set"
    and inv :: "'t \<Rightarrow> bool"
  assumes add_law: "inv t \<Longrightarrow> \<exists>t'. add k p t = Some (ref k t = {}, t') \<and> inv t' \<and>
      (\<forall>k'. ref k' t' = (if k' = k then insert p (ref k t) else ref k' t))"
    and rm_law: "inv t \<Longrightarrow> p \<in> ref k t \<Longrightarrow> \<exists>t'. rm k p t = Some (ref k t = {p}, t') \<and> inv t' \<and>
      (\<forall>k'. ref k' t' = (if k' = k then ref k t - {p} else ref k' t))"
    and rm_pipe_law: "inv t \<Longrightarrow> \<exists>ks t'. rm_pipe p t = Some (ks, t') \<and> inv t' \<and>
      set ks = {k. ref k t = {p}} \<and> (\<forall>k. ref k t' = ref k t - {p})"
    and match_law: "inv t \<Longrightarrow> \<exists>ps. matches d t = Some ps \<and> set ps = (\<Union>k \<in> {k. prefix k d}. ref k t)"
begin

lemma run_spec:
  assumes "inv t" "\<And>k. ref k t = c k" "topic_spec xs c = Some (bs, c')"
  shows "\<exists>t'. topic_run add rm rm_pipe xs t = Some (bs, t') \<and> inv t' \<and> (\<forall>k. ref k t' = c' k)"
  using assms
proof (induction xs arbitrary: t c bs)
  case Nil
  then show ?case by simp
next
  case (Cons x xs)
  have step: ?case if "inv t1" "\<And>k. ref k t1 = c1 k" "topic_spec xs c1 = Some (bs1, c')" "bs = b # bs1"
    "(case x of Join k p \<Rightarrow> do { (b, t) \<leftarrow> add k p t; Some (Fresh b, t) }
      | Leave k p \<Rightarrow> do { (b, t) \<leftarrow> rm k p t; Some (Last b, t) }
      | Gone p \<Rightarrow> do { (ks, t) \<leftarrow> rm_pipe p t; Some (Orphans (set ks), t) }) = Some (b, t1)"
    for t1 c1 bs1 b
    using Cons.IH[OF that(1-3)] that(4,5) by auto
  show ?case
  proof (cases x)
    case (Join k p)
    then obtain bs1 where bs1: "topic_spec xs (c(k := insert p (c k))) = Some (bs1, c')"
      "bs = Fresh (c k = {}) # bs1" using Cons.prems(3) by (auto simp: bind_Some_iff)
    obtain t1 where t1: "add k p t = Some (ref k t = {}, t1)" "inv t1"
      "\<forall>k'. ref k' t1 = (if k' = k then insert p (ref k t) else ref k' t)"
      using add_law[OF Cons.prems(1)] by blast
    show ?thesis by (rule step[OF t1(2) _ bs1]) (use t1 Cons.prems(2) Join in simp_all)
  next
    case (Leave k p)
    then obtain bs1 where bs1: "p \<in> c k" "topic_spec xs (c(k := c k - {p})) = Some (bs1, c')"
      "bs = Last (c k = {p}) # bs1" using Cons.prems(3) by (auto simp: bind_Some_iff zmq_assert_def split: if_splits)
    then have "p \<in> ref k t" using Cons.prems(2) by simp
    then obtain t1 where t1: "rm k p t = Some (ref k t = {p}, t1)" "inv t1"
      "\<forall>k'. ref k' t1 = (if k' = k then ref k t - {p} else ref k' t)"
      using rm_law[OF Cons.prems(1)] by blast
    show ?thesis by (rule step[OF t1(2) _ bs1(2,3)]) (use t1 Cons.prems(2) Leave in simp_all)
  next
    case (Gone p)
    then obtain bs1 where bs1: "topic_spec xs (\<lambda>k. c k - {p}) = Some (bs1, c')"
      "bs = Orphans {k. c k = {p}} # bs1" using Cons.prems(3) by (auto simp: bind_Some_iff)
    obtain ks t1 where t1: "rm_pipe p t = Some (ks, t1)" "inv t1" "set ks = {k. ref k t = {p}}"
      "\<forall>k. ref k t1 = ref k t - {p}"
      using rm_pipe_law[OF Cons.prems(1), of p] by (elim exE conjE) (rule that)
    have "ref k t1 = c k - {p}" for k by (simp add: t1(4) Cons.prems(2))
    moreover have "Orphans (set ks) = Orphans {k. c k = {p}}" by (simp add: t1(3) Cons.prems(2))
    ultimately show ?thesis by (intro step[OF t1(2) _ bs1]) (simp_all add: Gone t1(1))
  qed
qed

lemma run_matches:
  assumes "inv t" "\<And>k. ref k t = {}" "topic_spec xs (\<lambda>_. {}) = Some (bs, c)"
  shows "\<exists>t'. topic_run add rm rm_pipe xs t = Some (bs, t') \<and>
    (\<forall>d. \<exists>ps. matches d t' = Some ps \<and> set ps = (\<Union>k \<in> {k. prefix k d}. c k))"
proof -
  obtain t' where t': "topic_run add rm rm_pipe xs t = Some (bs, t')" "inv t'" "\<forall>k. ref k t' = c k"
    using run_spec[of t "\<lambda>_. {}" xs bs c] assms by auto
  then show ?thesis using match_law[OF t'(2)] by simp
qed

end

lemma mtrie_gone_law:
  assumes "mt_inv t"
  shows "\<exists>ks t'. mtrie_rm_pipe p [] t = Some (ks, t') \<and> mt_inv t' \<and>
    set ks = {k. mt_ref k t = {p}} \<and> (\<forall>k. mt_ref k t' = mt_ref k t - {p})"
  using mtrie_rm_pipe_ok(1)[OF assms, of p "[]"] by (auto simp: rm_pipe_post_def)

lemma mtrie_add_law:
  "mt_inv t \<Longrightarrow> \<exists>t'. mtrie_add k p t = Some (mt_ref k t = {}, t') \<and> mt_inv t' \<and>
    (\<forall>k'. mt_ref k' t' = (if k' = k then insert p (mt_ref k t) else mt_ref k' t))"
  using mtrie_add_ok by blast

interpretation mtrie: topic_index mtrie_add mtrie_rm_key "\<lambda>p. mtrie_rm_pipe p []" mtrie_match mt_ref mt_inv
  by unfold_locales (fact mtrie_add_law mtrie_rm_key_ok mtrie_gone_law mtrie_match_ok)+

subsection \<open>Properties\<close>

text \<open>C6: For every history of subscriptions, unsubscriptions by subscribed peers and departures
  on an empty multi-trie, no assertion fails and no null child is followed, every call reports
  what the sets of subscribers say (a new topic, the last subscriber, the topics left without
  one), and afterwards \<^verbatim>\<open>match\<close> signals exactly the peers subscribed to a prefix of the
  message.\<close>

theorem mtrie_history:
  assumes "topic_spec xs (\<lambda>_. {}) = Some (bs, c)"
  shows "\<exists>t. topic_run mtrie_add mtrie_rm_key (\<lambda>p. mtrie_rm_pipe p []) xs mtrie_new = Some (bs, t) \<and>
    (\<forall>d. \<exists>ps. mtrie_match d t = Some ps \<and> set ps = (\<Union>k \<in> {k. prefix k d}. c k))"
  by (rule mtrie.run_matches[OF mtrie_new_inv mt_ref_new assms])

theorem mtrie_history_witness:
  "\<exists>bs c t. topic_spec [Join [97] 1, Join [97, 98] 2, Join [99] 1, Leave [97] 1, Gone 2] (\<lambda>_. {}) = Some (bs, c) \<and>
    topic_run mtrie_add mtrie_rm_key (\<lambda>p. mtrie_rm_pipe p [])
      [Join [97] 1, Join [97, 98] 2, Join [99] 1, Leave [97] 1, Gone 2] mtrie_new = Some (bs, t)"
proof -
  obtain bs c where "topic_spec [Join [97] 1, Join [97, 98] 2, Join [99] 1, Leave [97] 1, Gone 2] (\<lambda>_. {})
    = Some (bs, c)" by (simp add: zmq_assert_def)
  with mtrie_history[OF this] show ?thesis by blast
qed

text \<open>C7: When a peer goes away, no assertion of the compaction fails, the callback runs exactly
  once for every topic whose only subscriber it was, it is removed from every topic and no other
  peer from any, and the multi-trie stays well-formed.\<close>

theorem mtrie_rm_pipe_callbacks:
  assumes "mt_inv t"
  shows "\<exists>ks t'. mtrie_rm_pipe p [] t = Some (ks, t') \<and> mt_inv t' \<and> distinct ks \<and>
    set ks = {k. mt_ref k t = {p}} \<and> (\<forall>k. mt_ref k t' = mt_ref k t - {p})"
  using mtrie_rm_pipe_ok(1)[OF assms, of p "[]"] by (auto simp: rm_pipe_post_def)

theorem mtrie_rm_pipe_callbacks_witness:
  "let t = MTrie None 97 3 2 [Some (MTrie (Some [1]) 0 0 0 []), None, Some (MTrie (Some [1, 2]) 0 0 0 [])]
   in \<exists>ks t'. mtrie_rm_pipe 1 [] t = Some (ks, t') \<and> distinct ks"
proof -
  have "mt_inv (MTrie None 97 3 2 [Some (MTrie (Some [1]) 0 0 0 []), None, Some (MTrie (Some [1, 2]) 0 0 0 [])])"
    by (simp add: mt_inv.simps tbl_inv_def pipes_inv_def)
  from mtrie_rm_pipe_callbacks[OF this, of 1] show ?thesis by (auto simp: Let_def)
qed

text \<open>C8: An unsubscription from a peer that does not hold the subscription is ignored when
  nobody holds it, and fails the assertion \<^verbatim>\<open>erased == 1\<close>, aborting the process, when another peer
  does.\<close>

theorem mtrie_rm_stranger:
  assumes "mt_inv t" "p \<notin> mt_ref k t"
  shows "if mt_ref k t = {} then \<exists>b. mtrie_rm_key k p t = Some (b, t) else mtrie_rm_key k p t = None"
  using mtrie_rm_key_stranger[OF assms] by simp

theorem mtrie_rm_stranger_witness:
  "mtrie_rm_key [97] 2 (MTrie None 97 1 1 [Some (MTrie (Some [1]) 0 0 0 [])]) = None"
proof -
  have "mt_inv (MTrie None 97 1 1 [Some (MTrie (Some [1]) 0 0 0 [])])"
    by (simp add: mt_inv.simps tbl_inv_def pipes_inv_def)
  from mtrie_rm_stranger[OF this, of 2 "[97]"] show ?thesis by (simp add: tbl_get_def)
qed

end
