(* ===== verification/Msg.thy ===== *)
theory Msg
  imports Prelude "HOL-Library.Multiset"
begin

text \<open>
  \<^verbatim>\<open>msg_t\<close> of src/msg.cpp and the reference counts of src/atomic_counter.hpp. A message is
  the record of the fields of the union \<^verbatim>\<open>u\<close>: the type byte, the flags, the size and the 29
  bytes of a very small message, the content pointer of a long one. The content blocks live in an
  explicit heap, since several messages can point to one block; a use of a block that is not
  allocated is \<open>None\<close>. \<^verbatim>\<open>size_t\<close> is a 64-bit word and \<^verbatim>\<open>sizeof (content_t)\<close> is 40, its value
  on a 64-bit target, so that the sum passed to \<^verbatim>\<open>malloc\<close> wraps as it does in the code. Bytes
  nobody has written are read from \<open>junk\<close>, whether \<^verbatim>\<open>malloc\<close> succeeds from \<open>malloc_ok\<close>; both
  are arbitrary. The lemmas show that the reference counts are exact: every operation keeps each
  content block allocated as long as a message refers to it and not longer.
\<close>

unbundle bit_operations_syntax

subsection \<open>State\<close>

record content =
  cdata :: "u8 list"
  csize :: u64
  cffn :: addr
  cuser :: addr
  chint :: addr
  refcnt :: u32

record mem =
  contents :: "addr \<Rightarrow> content option"
  next_content :: addr
  malloc_ok :: "addr \<Rightarrow> u64 \<Rightarrow> bool"
  junk :: "nat \<Rightarrow> u8"
  ffn_calls :: "(addr \<times> addr \<times> addr) list"

record msg =
  mtype :: u8
  mflags :: u8
  vsize :: u8
  vdata :: "u8 list"
  content_ptr :: addr

abbreviation "flag_more \<equiv> (1 :: u8)"
abbreviation "flag_identity \<equiv> (64 :: u8)"
abbreviation "flag_shared \<equiv> (128 :: u8)"
abbreviation "type_vsm \<equiv> (101 :: u8)"
abbreviation "type_lmsg \<equiv> (102 :: u8)"
abbreviation "type_delimiter \<equiv> (103 :: u8)"
abbreviation "max_vsm_size \<equiv> (29 :: nat)"
abbreviation "content_size \<equiv> (40 :: u64)"

subsection \<open>The reference counter\<close>

definition counter_add :: "u32 \<Rightarrow> u32 \<Rightarrow> u32 \<times> u32" where
  "counter_add increment v = (v, v + increment)"

definition counter_sub :: "u32 \<Rightarrow> u32 \<Rightarrow> bool \<times> u32" where
  "counter_sub decrement v = (v \<noteq> decrement, v - decrement)"

subsection \<open>Operations\<close>

definition msg_check :: "msg \<Rightarrow> bool" where
  "msg_check m = (type_vsm \<le> mtype m \<and> mtype m \<le> type_delimiter)"

definition msg_init :: "msg \<Rightarrow> msg" where
  "msg_init m = m\<lparr>mtype := type_vsm, mflags := 0, vsize := 0\<rparr>"

text \<open>\<^verbatim>\<open>new (&refcnt) atomic_counter_t ()\<close> starts the counter at 0.\<close>

definition content_alloc :: "content \<Rightarrow> mem \<Rightarrow> addr \<times> mem" where
  "content_alloc c h = (next_content h,
     h\<lparr>contents := (contents h)(next_content h \<mapsto> c), next_content := next_content h + 1\<rparr>)"

definition msg_init_size :: "u64 \<Rightarrow> msg \<Rightarrow> mem \<Rightarrow> (rc \<times> msg \<times> mem) option" where
  "msg_init_size sz m h =
    (if unat sz \<le> max_vsm_size then
       Some (Inr (), m\<lparr>mtype := type_vsm, mflags := 0, vsize := ucast sz\<rparr>, h)
     else
       let m = m\<lparr>mtype := type_lmsg, mflags := 0\<rparr>; block = content_size + sz
       in if \<not> malloc_ok h (next_content h) block then Some (Inl ENOMEM, m\<lparr>content_ptr := 0\<rparr>, h)
          else if block < content_size then None
          else let (a, h) = content_alloc \<lparr>cdata = map (junk h) [0..<unat sz], csize = sz, cffn = 0,
                 cuser = 0, chint = 0, refcnt = 0\<rparr> h
               in Some (Inr (), m\<lparr>content_ptr := a\<rparr>, h))"

text \<open>The bytes of the buffer the caller hands over are \<open>bs\<close>, its address is \<open>user\<close>.\<close>

definition msg_init_data :: "u8 list \<Rightarrow> addr \<Rightarrow> addr \<Rightarrow> addr \<Rightarrow> msg \<Rightarrow> mem \<Rightarrow> rc \<times> msg \<times> mem" where
  "msg_init_data bs user ffn hint m h =
    (let m = m\<lparr>mtype := type_lmsg, mflags := 0\<rparr>
     in if \<not> malloc_ok h (next_content h) content_size then (Inl ENOMEM, m\<lparr>content_ptr := 0\<rparr>, h)
        else let (a, h) = content_alloc \<lparr>cdata = bs, csize = of_nat (length bs), cffn = ffn,
               cuser = user, chint = hint, refcnt = 0\<rparr> h
             in (Inr (), m\<lparr>content_ptr := a\<rparr>, h))"

definition msg_init_delimiter :: "msg \<Rightarrow> msg" where
  "msg_init_delimiter m = m\<lparr>mtype := type_delimiter, mflags := 0\<rparr>"

text \<open>Running the deallocation function, if any, and freeing the block.\<close>

definition content_free :: "addr \<Rightarrow> mem \<Rightarrow> mem option" where
  "content_free a h = do {
     c \<leftarrow> contents h a;
     let h = (if cffn c \<noteq> 0 then h\<lparr>ffn_calls := ffn_calls h @ [(cffn c, cuser c, chint c)]\<rparr> else h);
     Some (h\<lparr>contents := (contents h)(a := None)\<rparr>) }"

definition content_sub :: "addr \<Rightarrow> u32 \<Rightarrow> mem \<Rightarrow> (bool \<times> mem) option" where
  "content_sub a decrement h = do {
     c \<leftarrow> contents h a;
     let (nonzero, v) = counter_sub decrement (refcnt c);
     Some (nonzero, h\<lparr>contents := (contents h)(a \<mapsto> c\<lparr>refcnt := v\<rparr>)\<rparr>) }"

definition content_add :: "addr \<Rightarrow> u32 \<Rightarrow> mem \<Rightarrow> mem option" where
  "content_add a increment h = do {
     c \<leftarrow> contents h a;
     Some (h\<lparr>contents := (contents h)(a \<mapsto> c\<lparr>refcnt := snd (counter_add increment (refcnt c))\<rparr>)\<rparr>) }"

definition content_set :: "addr \<Rightarrow> u32 \<Rightarrow> mem \<Rightarrow> mem option" where
  "content_set a v h = do {
     c \<leftarrow> contents h a;
     Some (h\<lparr>contents := (contents h)(a \<mapsto> c\<lparr>refcnt := v\<rparr>)\<rparr>) }"

definition msg_close :: "msg \<Rightarrow> mem \<Rightarrow> (rc \<times> msg \<times> mem) option" where
  "msg_close m h =
    (if \<not> msg_check m then Some (Inl EFAULT, m, h)
     else do {
       h \<leftarrow> (if mtype m = type_lmsg then
               (if mflags m AND flag_shared = 0 then content_free (content_ptr m) h
                else do {
                  (nonzero, h) \<leftarrow> content_sub (content_ptr m) 1 h;
                  if \<not> nonzero then content_free (content_ptr m) h else Some h })
             else Some h);
       Some (Inr (), m\<lparr>mtype := 0\<rparr>, h) })"

text \<open>\<^verbatim>\<open>move\<close> and \<^verbatim>\<open>copy\<close> between two distinct messages: destination, source.\<close>

definition msg_move :: "msg \<Rightarrow> msg \<Rightarrow> mem \<Rightarrow> (rc \<times> msg \<times> msg \<times> mem) option" where
  "msg_move dst src h =
    (if \<not> msg_check src then Some (Inl EFAULT, dst, src, h)
     else do {
       (rc, dst, h) \<leftarrow> msg_close dst h;
       case rc of Inl e \<Rightarrow> Some (Inl e, dst, src, h)
       | Inr _ \<Rightarrow> Some (Inr (), src, msg_init src, h) })"

definition msg_copy :: "msg \<Rightarrow> msg \<Rightarrow> mem \<Rightarrow> (rc \<times> msg \<times> msg \<times> mem) option" where
  "msg_copy dst src h =
    (if \<not> msg_check src then Some (Inl EFAULT, dst, src, h)
     else do {
       (rc, dst, h) \<leftarrow> msg_close dst h;
       case rc of Inl e \<Rightarrow> Some (Inl e, dst, src, h)
       | Inr _ \<Rightarrow> do {
           (src, h) \<leftarrow> (if mtype src = type_lmsg then
               (if mflags src AND flag_shared \<noteq> 0 then
                  do { h \<leftarrow> content_add (content_ptr src) 1 h; Some (src, h) }
                else do { h \<leftarrow> content_set (content_ptr src) 2 h;
                          Some (src\<lparr>mflags := mflags src OR flag_shared\<rparr>, h) })
             else Some (src, h));
           Some (Inr (), src, src, h) } })"

text \<open>The bytes \<^verbatim>\<open>data ()\<close> points to, and their number.\<close>

definition msg_data :: "msg \<Rightarrow> mem \<Rightarrow> u8 list option" where
  "msg_data m h = do {
     zmq_assert (msg_check m);
     if mtype m = type_vsm then Some (take (unat (vsize m)) (vdata m))
     else if mtype m = type_lmsg then do { c \<leftarrow> contents h (content_ptr m); Some (cdata c) }
     else None }"

definition msg_size :: "msg \<Rightarrow> mem \<Rightarrow> u64 option" where
  "msg_size m h = do {
     zmq_assert (msg_check m);
     if mtype m = type_vsm then Some (ucast (vsize m))
     else if mtype m = type_lmsg then do { c \<leftarrow> contents h (content_ptr m); Some (csize c) }
     else None }"

text \<open>Writing through \<^verbatim>\<open>data ()\<close> at an offset; beyond the buffer it is undefined.\<close>

definition msg_put :: "nat \<Rightarrow> u8 list \<Rightarrow> msg \<Rightarrow> mem \<Rightarrow> (msg \<times> mem) option" where
  "msg_put off bs m h = do {
     zmq_assert (msg_check m);
     if mtype m = type_vsm then
       (if off + length bs \<le> length (vdata m)
        then Some (m\<lparr>vdata := take off (vdata m) @ bs @ drop (off + length bs) (vdata m)\<rparr>, h) else None)
     else if mtype m = type_lmsg then do {
       c \<leftarrow> contents h (content_ptr m);
       if off + length bs \<le> length (cdata c)
       then Some (m, h\<lparr>contents := (contents h)(content_ptr m \<mapsto>
              c\<lparr>cdata := take off (cdata c) @ bs @ drop (off + length bs) (cdata c)\<rparr>)\<rparr>) else None }
     else None }"

definition msg_set_flags :: "u8 \<Rightarrow> msg \<Rightarrow> msg" where
  "msg_set_flags f m = m\<lparr>mflags := mflags m OR f\<rparr>"

definition msg_reset_flags :: "u8 \<Rightarrow> msg \<Rightarrow> msg" where
  "msg_reset_flags f m = m\<lparr>mflags := mflags m AND NOT f\<rparr>"

definition msg_is_identity :: "msg \<Rightarrow> bool" where
  "msg_is_identity m = (mflags m AND flag_identity = flag_identity)"

definition msg_is_delimiter :: "msg \<Rightarrow> bool" where
  "msg_is_delimiter m = (mtype m = type_delimiter)"

definition msg_is_vsm :: "msg \<Rightarrow> bool" where
  "msg_is_vsm m = (mtype m = type_vsm)"

definition msg_add_refs :: "int \<Rightarrow> msg \<Rightarrow> mem \<Rightarrow> (msg \<times> mem) option" where
  "msg_add_refs refs m h = do {
     zmq_assert (refs \<ge> 0);
     if refs = 0 then Some (m, h)
     else if mtype m = type_lmsg then
       (if mflags m AND flag_shared \<noteq> 0 then
          do { h \<leftarrow> content_add (content_ptr m) (word_of_int refs) h; Some (m, h) }
        else do { h \<leftarrow> content_set (content_ptr m) (word_of_int (refs + 1)) h;
                  Some (m\<lparr>mflags := mflags m OR flag_shared\<rparr>, h) })
     else Some (m, h) }"

definition msg_rm_refs :: "int \<Rightarrow> msg \<Rightarrow> mem \<Rightarrow> (bool \<times> msg \<times> mem) option" where
  "msg_rm_refs refs m h = do {
     zmq_assert (refs \<ge> 0);
     if refs = 0 then Some (True, m, h)
     else if mtype m \<noteq> type_lmsg \<or> mflags m AND flag_shared = 0 then do {
       (_, m, h) \<leftarrow> msg_close m h;
       Some (False, m, h) }
     else do {
       (nonzero, h) \<leftarrow> content_sub (content_ptr m) (word_of_int refs) h;
       if \<not> nonzero then do { h \<leftarrow> content_free (content_ptr m) h; Some (False, m, h) }
       else Some (True, m, h) } }"


subsection \<open>Exact reference counts\<close>

definition holds :: "addr \<Rightarrow> msg \<Rightarrow> bool" where
  "holds a m \<longleftrightarrow> mtype m = type_lmsg \<and> content_ptr m = a"

abbreviation shared :: "msg \<Rightarrow> bool" where
  "shared m \<equiv> mflags m AND flag_shared \<noteq> 0"

text \<open>
  A block and the messages that hold it: either one unshared message, or shared messages whose
  number is the reference count. A block nobody holds is not allocated.
\<close>

definition block_ok :: "content option \<Rightarrow> msg multiset \<Rightarrow> bool" where
  "block_ok x H \<longleftrightarrow> (case x of None \<Rightarrow> H = {#}
     | Some c \<Rightarrow> (\<exists>m. H = {#m#} \<and> \<not> shared m) \<or>
         (H \<noteq> {#} \<and> unat (refcnt c) = size H \<and> (\<forall>m \<in># H. shared m)))"

definition refs_inv :: "msg multiset \<Rightarrow> mem \<Rightarrow> bool" where
  "refs_inv M h \<longleftrightarrow> 0 < next_content h \<and> (\<forall>a \<ge> next_content h. contents h a = None) \<and>
     (\<forall>a. block_ok (contents h a) (filter_mset (holds a) M))"

text \<open>The blocks of \<open>h'\<close> are blocks of \<open>h\<close>, up to their reference counts.\<close>

definition mem_sub :: "mem \<Rightarrow> mem \<Rightarrow> bool" where
  "mem_sub h' h \<longleftrightarrow> (\<forall>a c'. contents h' a = Some c' \<longrightarrow>
     (\<exists>c. contents h a = Some c \<and> c' = c\<lparr>refcnt := refcnt c'\<rparr>))"

text \<open>The deallocation functions that have run, and those still to run.\<close>

definition block_ffn :: "content option \<Rightarrow> (addr \<times> addr \<times> addr) multiset" where
  "block_ffn x = (case x of None \<Rightarrow> {#}
     | Some c \<Rightarrow> if cffn c = 0 then {#} else {#(cffn c, cuser c, chint c)#})"

definition all_ffns :: "mem \<Rightarrow> (addr \<times> addr \<times> addr) multiset" where
  "all_ffns h = mset (ffn_calls h) + (\<Sum>a < next_content h. block_ffn (contents h a))"

lemma filter_replicate: "filter_mset P (replicate_mset n x) = (if P x then replicate_mset n x else {#})"
  by (induction n) auto

lemma holds_simps [simp]:
  "mtype m \<noteq> type_lmsg \<Longrightarrow> \<not> holds a m" "holds a (m\<lparr>mflags := f\<rparr>) = holds a m"
  "\<not> holds a (m\<lparr>mtype := 0\<rparr>)" "\<not> holds a (msg_init m)"
  by (simp_all add: holds_def msg_init_def)

lemma block_ok_held:
  assumes "refs_inv (add_mset m M) h" "mtype m = type_lmsg"
  obtains c where "contents h (content_ptr m) = Some c"
    "block_ok (Some c) (add_mset m (filter_mset (holds (content_ptr m)) M))"
    "content_ptr m < next_content h"
proof -
  have h: "holds (content_ptr m) m" using assms(2) by (simp add: holds_def)
  have "block_ok (contents h (content_ptr m)) (filter_mset (holds (content_ptr m)) (add_mset m M))"
    using assms(1) unfolding refs_inv_def by blast
  then have ok: "block_ok (contents h (content_ptr m)) (add_mset m (filter_mset (holds (content_ptr m)) M))"
    using h by simp
  then obtain c where c: "contents h (content_ptr m) = Some c" by (auto simp: block_ok_def split: option.splits)
  then have "content_ptr m < next_content h"
    using assms(1) by (metis refs_inv_def leI option.distinct(1))
  with that c ok show ?thesis by simp
qed

text \<open>Changing one block and the messages that hold it.\<close>

lemma refs_inv_change:
  assumes "refs_inv M h" "\<And>b. b \<noteq> a \<Longrightarrow> filter_mset (holds b) M' = filter_mset (holds b) M"
    and "contents h' = (contents h)(a := x)" "next_content h' = next_content h" "a < next_content h"
    and "block_ok x (filter_mset (holds a) M')"
  shows "refs_inv M' h'"
  unfolding refs_inv_def
proof (intro conjI allI impI)
  fix b
  show "block_ok (contents h' b) (filter_mset (holds b) M')"
    using assms by (cases "b = a") (auto simp: refs_inv_def)
qed (use assms in \<open>auto simp: refs_inv_def\<close>)

lemma refs_inv_skip:
  assumes "\<And>a. \<not> holds a m" shows "refs_inv (add_mset m M) h = refs_inv M h"
  using assms by (simp add: refs_inv_def)

lemma mem_sub_refl [simp]: "mem_sub h h"
  by (simp add: mem_sub_def)

lemma mem_sub_trans:
  assumes "mem_sub h2 h1" "mem_sub h1 h" shows "mem_sub h2 h"
  unfolding mem_sub_def
proof (intro allI impI)
  fix a c2 assume "contents h2 a = Some c2"
  then obtain c1 where 1: "contents h1 a = Some c1" "c2 = c1\<lparr>refcnt := refcnt c2\<rparr>"
    using assms(1) unfolding mem_sub_def by blast
  then obtain c where 2: "contents h a = Some c" "c1 = c\<lparr>refcnt := refcnt c1\<rparr>"
    using assms(2) unfolding mem_sub_def by blast
  have "c2 = c\<lparr>refcnt := refcnt c2\<rparr>" by (subst 1(2), subst 2(2)) simp
  with 2(1) show "\<exists>c. contents h a = Some c \<and> c2 = c\<lparr>refcnt := refcnt c2\<rparr>" by blast
qed

lemma mem_sub_upd:
  assumes "contents h a = Some c" "contents h' = (contents h)(a := x)" "x = None \<or> (\<exists>v. x = Some (c\<lparr>refcnt := v\<rparr>))"
  shows "mem_sub h' h"
  using assms by (auto simp: mem_sub_def split: if_splits)

lemma msg_data_sub:
  assumes "mem_sub h' h" "refs_inv M h'" "m \<in># M"
  shows "msg_data m h' = msg_data m h" "msg_size m h' = msg_size m h"
proof -
  have "\<exists>c v. contents h (content_ptr m) = Some c \<and> contents h' (content_ptr m) = Some (c\<lparr>refcnt := v\<rparr>)"
    if lm: "mtype m = type_lmsg"
  proof -
    obtain M0 where M0: "M = add_mset m M0" using assms(3) by (metis mset_add)
    obtain c' where c': "contents h' (content_ptr m) = Some c'"
      by (rule block_ok_held[OF assms(2)[unfolded M0] lm])
    then obtain c where "contents h (content_ptr m) = Some c" "c' = c\<lparr>refcnt := refcnt c'\<rparr>"
      using assms(1) unfolding mem_sub_def by blast
    with c' show ?thesis by metis
  qed
  then show "msg_data m h' = msg_data m h" "msg_size m h' = msg_size m h"
    unfolding msg_data_def msg_size_def by (cases "mtype m = type_lmsg"; force)+
qed

lemma all_ffns_upd:
  assumes "contents h a = Some c" "a < next_content h" "contents h' = (contents h)(a := x)"
    "next_content h' = next_content h" "mset (ffn_calls h') + block_ffn x = mset (ffn_calls h) + block_ffn (Some c)"
  shows "all_ffns h' = all_ffns h"
proof -
  have rest: "(\<Sum>b \<in> {..<next_content h} - {a}. block_ffn (contents h' b)) =
      (\<Sum>b \<in> {..<next_content h} - {a}. block_ffn (contents h b))"
    by (intro sum.cong) (simp_all add: assms(3))
  have "(\<Sum>b < next_content h. block_ffn (contents g b)) =
      block_ffn (contents g a) + (\<Sum>b \<in> {..<next_content h} - {a}. block_ffn (contents g b))" for g
    using assms(2) by (intro sum.remove) auto
  from this[of h] this[of h'] show ?thesis
    using assms(1,3,4,5) rest unfolding all_ffns_def by (simp add: ac_simps)
qed

subsection \<open>The operations keep the counts exact\<close>

lemma content_free_ok:
  assumes "refs_inv (add_mset m M) h" "mtype m = type_lmsg" "filter_mset (holds (content_ptr m)) M = {#}"
  shows "\<exists>h'. content_free (content_ptr m) h = Some h' \<and> refs_inv M h' \<and> mem_sub h' h \<and> all_ffns h' = all_ffns h"
proof -
  let ?a = "content_ptr m"
  obtain c where c: "contents h ?a = Some c" "?a < next_content h" using block_ok_held[OF assms(1,2)] by blast
  obtain h' where h': "content_free ?a h = Some h'" "contents h' = (contents h)(?a := None)"
    "next_content h' = next_content h" "mset (ffn_calls h') = mset (ffn_calls h) + block_ffn (Some c)"
    using c(1) by (auto simp: content_free_def block_ffn_def Let_def)
  have "refs_inv M h'"
    by (rule refs_inv_change[OF assms(1) _ h'(2,3) c(2)]) (auto simp: holds_def block_ok_def assms(3))
  moreover have "mem_sub h' h" by (rule mem_sub_upd[OF c(1) h'(2)]) simp
  moreover have "all_ffns h' = all_ffns h"
    by (rule all_ffns_upd[OF c h'(2,3)]) (simp add: h'(4) block_ffn_def)
  ultimately show ?thesis using h'(1) by blast
qed

text \<open>Dropping \<open>k\<close> references at once; closing drops one.\<close>

lemma content_sub_ok:
  assumes "refs_inv (replicate_mset (unat k) m + M) h" "mtype m = type_lmsg" "shared m" "k \<noteq> 0"
  shows "\<exists>nz h1. content_sub (content_ptr m) k h = Some (nz, h1) \<and> mem_sub h1 h \<and> all_ffns h1 = all_ffns h \<and>
    (if nz then refs_inv M h1 else \<exists>h2. content_free (content_ptr m) h1 = Some h2 \<and> refs_inv M h2 \<and>
       mem_sub h2 h \<and> all_ffns h2 = all_ffns h)"
proof -
  let ?a = "content_ptr m"
  obtain j where j: "unat k = Suc j" using assms(4) by (metis not0_implies_Suc unat_eq_zero)
  have hm: "holds ?a m" and nh: "\<And>b. b \<noteq> ?a \<Longrightarrow> \<not> holds b m" using assms(2) by (auto simp: holds_def)
  have inv: "refs_inv (add_mset m (replicate_mset j m + M)) h" using assms(1) j by simp
  obtain c where c: "contents h ?a = Some c" "?a < next_content h"
    "block_ok (Some c) (replicate_mset (Suc j) m + filter_mset (holds ?a) M)"
    using block_ok_held[OF inv assms(2)] hm by (auto simp: filter_replicate)
  have cnt: "unat (refcnt c) = unat k + size (filter_mset (holds ?a) M)"
    and sh: "\<forall>x \<in># filter_mset (holds ?a) M. shared x"
    using c(3) assms(3) j by (auto simp: block_ok_def)
  let ?c = "c\<lparr>refcnt := refcnt c - k\<rparr>"
  let ?h = "h\<lparr>contents := (contents h)(?a \<mapsto> ?c)\<rparr>"
  have res: "content_sub ?a k h = Some (refcnt c \<noteq> k, ?h)"
    using c(1) by (simp add: content_sub_def counter_sub_def)
  have sub: "mem_sub ?h h" by (rule mem_sub_upd[OF c(1), of _ "Some ?c"]) auto
  have ffn: "all_ffns ?h = all_ffns h"
    by (rule all_ffns_upd[OF c(1,2), of _ "Some ?c"]) (simp_all add: block_ffn_def)
  show ?thesis
  proof (cases "refcnt c = k")
    case True
    then have nil: "filter_mset (holds ?a) M = {#}" using cnt by simp
    have "refs_inv (add_mset (m\<lparr>mflags := 0\<rparr>) M) ?h"
      by (rule refs_inv_change[OF inv, of ?a _ _ "Some ?c"])
        (use c(2) nil hm nh in \<open>auto simp: block_ok_def filter_replicate\<close>)
    from content_free_ok[OF this] nil assms(2) obtain h2 where
      "content_free ?a ?h = Some h2" "refs_inv M h2" "mem_sub h2 ?h" "all_ffns h2 = all_ffns ?h" by auto
    then show ?thesis using res True ffn sub mem_sub_trans by auto
  next
    case False
    have "k \<le> refcnt c" using cnt by (simp add: word_le_nat_alt)
    then have v: "unat (refcnt c - k) = size (filter_mset (holds ?a) M)" using cnt by (simp add: unat_sub)
    have "size (filter_mset (holds ?a) M) \<noteq> 0" using cnt False by (metis add.right_neutral word_unat_eq_iff)
    then have "refs_inv M ?h"
      by (intro refs_inv_change[OF inv, of ?a _ _ "Some ?c"])
        (use c(2) nh sh v in \<open>auto simp: block_ok_def filter_replicate\<close>)
    then show ?thesis using res False ffn sub by auto
  qed
qed

lemma msg_close_ok:
  assumes "refs_inv (add_mset m M) h" "msg_check m"
  shows "\<exists>h'. msg_close m h = Some (Inr (), m\<lparr>mtype := 0\<rparr>, h') \<and> refs_inv M h' \<and> mem_sub h' h \<and>
    all_ffns h' = all_ffns h"
proof (cases "mtype m = type_lmsg")
  case False
  then have "refs_inv M h" using assms(1) refs_inv_skip[of m M h] by simp
  then show ?thesis using assms(2) False by (simp add: msg_close_def)
next
  case lm: True
  show ?thesis
  proof (cases "shared m")
    case False
    then have "filter_mset (holds (content_ptr m)) M = {#}"
      using block_ok_held[OF assms(1) lm] by (auto simp: block_ok_def)
    from content_free_ok[OF assms(1) lm this] show ?thesis
      using assms(2) lm False by (auto simp: msg_close_def)
  next
    case True
    have "refs_inv (replicate_mset (unat (1 :: u32)) m + M) h" using assms(1) by simp
    from content_sub_ok[OF this lm True] obtain nz h1 where
      "content_sub (content_ptr m) 1 h = Some (nz, h1)" "mem_sub h1 h" "all_ffns h1 = all_ffns h"
      "if nz then refs_inv M h1 else \<exists>h2. content_free (content_ptr m) h1 = Some h2 \<and> refs_inv M h2 \<and>
         mem_sub h2 h \<and> all_ffns h2 = all_ffns h" by auto
    then show ?thesis using assms(2) lm True by (cases nz) (auto simp: msg_close_def)
  qed
qed


lemma refs_inv_init [simp]: "refs_inv (add_mset (msg_init m) M) h = refs_inv M h"
  by (rule refs_inv_skip) simp

lemma refs_inv_closed [simp]: "refs_inv (add_mset (m\<lparr>mtype := 0\<rparr>) M) h = refs_inv M h"
  by (rule refs_inv_skip) simp

lemma msg_move_ok:
  assumes "refs_inv (add_mset dst (add_mset src M)) h" "msg_check dst" "msg_check src"
  shows "\<exists>h'. msg_move dst src h = Some (Inr (), src, msg_init src, h') \<and>
    refs_inv (add_mset src M) h' \<and> mem_sub h' h \<and> all_ffns h' = all_ffns h"
  using msg_close_ok[OF assms(1,2)] assms(3) by (auto simp: msg_move_def)

text \<open>Raising the count by \<open>k\<close>, as \<^verbatim>\<open>copy\<close> and \<^verbatim>\<open>add_refs\<close> do, makes room for \<open>k\<close> copies.\<close>

definition mark_shared :: "msg \<Rightarrow> msg" where
  "mark_shared m = (if mtype m = type_lmsg then m\<lparr>mflags := mflags m OR flag_shared\<rparr> else m)"

lemma or_shared: "(f OR flag_shared) AND flag_shared \<noteq> 0" for f :: u8
  by (simp add: bit.conj_disj_distrib2)

lemma or_shared_id: "f AND flag_shared \<noteq> 0 \<Longrightarrow> f OR flag_shared = f" for f :: u8
proof -
  assume nz: "f AND flag_shared \<noteq> 0"
  have s: "flag_shared = push_bit 7 1" by simp
  have "bit f 7" using nz unfolding s bit_iff_and_push_bit_not_eq_0 .
  then have "set_bit 7 f = f" by (intro bit_word_eqI) (auto simp: bit_set_bit_iff)
  then show ?thesis unfolding s set_bit_eq_or .
qed

lemma mark_shared_shared: "mtype m = type_lmsg \<Longrightarrow> shared m \<Longrightarrow> mark_shared m = m"
  by (simp add: mark_shared_def or_shared_id)

lemma mark_shared_simps [simp]: "mtype (mark_shared m) = mtype m" "content_ptr (mark_shared m) = content_ptr m"
  "vsize (mark_shared m) = vsize m" "vdata (mark_shared m) = vdata m" "msg_check (mark_shared m) = msg_check m"
  "holds a (mark_shared m) = holds a m" "msg_data (mark_shared m) h = msg_data m h"
  by (simp_all add: mark_shared_def msg_check_def msg_data_def)

lemma content_raise_ok:
  assumes inv: "refs_inv (add_mset m M) h" and lm: "mtype m = type_lmsg"
    and k: "size M + 1 + unat k < 2 ^ 32"
    and act: "shared m \<Longrightarrow> act = content_add (content_ptr m) k h"
      "\<not> shared m \<Longrightarrow> act = content_set (content_ptr m) (k + 1) h"
  shows "\<exists>h'. act = Some h' \<and> refs_inv (replicate_mset (unat k + 1) (mark_shared m) + M) h' \<and>
    mem_sub h' h \<and> all_ffns h' = all_ffns h"
proof -
  let ?a = "content_ptr m"
  have hm: "holds ?a m" and nh: "\<And>b. b \<noteq> ?a \<Longrightarrow> \<not> holds b m" using lm by (auto simp: holds_def)
  obtain c where c: "contents h ?a = Some c" "?a < next_content h"
    "block_ok (Some c) (add_mset m (filter_mset (holds ?a) M))"
    by (rule block_ok_held[OF inv lm])
  define v where "v = (if shared m then refcnt c + k else k + 1)"
  let ?h = "h\<lparr>contents := (contents h)(?a \<mapsto> c\<lparr>refcnt := v\<rparr>)\<rparr>"
  have res: "act = Some ?h"
    using act c(1) by (cases "shared m") (auto simp: content_add_def content_set_def counter_add_def v_def)
  have sub: "mem_sub ?h h" by (rule mem_sub_upd[OF c(1), of _ "Some (c\<lparr>refcnt := v\<rparr>)"]) auto
  have ffn: "all_ffns ?h = all_ffns h"
    by (rule all_ffns_upd[OF c(1,2), of _ "Some (c\<lparr>refcnt := v\<rparr>)"]) (simp_all add: block_ffn_def)
  let ?H = "filter_mset (holds ?a) M"
  have le: "size ?H \<le> size M" by (rule size_filter_mset_lesseq)
  have "unat v = unat k + 1 + size ?H \<and> (\<forall>x \<in># ?H. shared x)"
  proof (cases "shared m")
    case True
    then have u: "unat (refcnt c) = Suc (size ?H)" "\<forall>x \<in># ?H. shared x"
      using c(3) by (auto simp: block_ok_def)
    have "unat (refcnt c) + unat k < 2 ^ 32" using u(1) k le by linarith
    then have "unat (refcnt c + k) = unat (refcnt c) + unat k" by (subst unat_add_lem[THEN iffD1]) auto
    then show ?thesis using u True by (simp add: v_def)
  next
    case False
    then have nil: "?H = {#}" using c(3) by (auto simp: block_ok_def)
    have "unat (k + 1) = unat k + 1" using k by (subst unat_add_lem[THEN iffD1]) auto
    then show ?thesis unfolding nil v_def using False by simp
  qed
  moreover have "shared (mark_shared m)" using lm by (simp add: mark_shared_def or_shared)
  ultimately have ok: "block_ok (Some (c\<lparr>refcnt := v\<rparr>)) (replicate_mset (unat k + 1) (mark_shared m) + ?H)"
    by (auto simp: block_ok_def)
  have "refs_inv (replicate_mset (unat k + 1) (mark_shared m) + M) ?h"
    by (rule refs_inv_change[OF inv, of ?a _ _ "Some (c\<lparr>refcnt := v\<rparr>)"])
      (use c(2) hm nh ok in \<open>auto simp: filter_replicate\<close>)
  then show ?thesis using res sub ffn by blast
qed

lemma msg_copy_ok:
  assumes "refs_inv (add_mset dst (add_mset src M)) h" "msg_check dst" "msg_check src" "size M + 2 < 2 ^ 32"
  shows "\<exists>h'. msg_copy dst src h = Some (Inr (), mark_shared src, mark_shared src, h') \<and>
    refs_inv (add_mset (mark_shared src) (add_mset (mark_shared src) M)) h' \<and>
    mem_sub h' h \<and> all_ffns h' = all_ffns h"
proof -
  obtain h1 where h1: "msg_close dst h = Some (Inr (), dst\<lparr>mtype := 0\<rparr>, h1)" "refs_inv (add_mset src M) h1"
    "mem_sub h1 h" "all_ffns h1 = all_ffns h"
    using msg_close_ok[OF assms(1,2)] by blast
  show ?thesis
  proof (cases "mtype src = type_lmsg")
    case False
    then have "mark_shared src = src" by (simp add: mark_shared_def)
    moreover have "refs_inv (add_mset src (add_mset src M)) h1"
      using refs_inv_skip[of src] False h1(2) by simp
    ultimately show ?thesis using h1 False assms(3) by (simp add: msg_copy_def)
  next
    case True
    let ?act = "if shared src then content_add (content_ptr src) 1 h1 else content_set (content_ptr src) 2 h1"
    have "\<exists>h2. ?act = Some h2 \<and> refs_inv (replicate_mset (unat (1 :: u32) + 1) (mark_shared src) + M) h2 \<and>
        mem_sub h2 h1 \<and> all_ffns h2 = all_ffns h1"
      by (rule content_raise_ok[OF h1(2) True]) (use assms(4) in auto)
    then obtain h2 where h2: "?act = Some h2" "refs_inv (add_mset (mark_shared src) (add_mset (mark_shared src) M)) h2"
      "mem_sub h2 h1" "all_ffns h2 = all_ffns h1" by auto
    have "msg_copy dst src h = Some (Inr (), mark_shared src, mark_shared src, h2)"
      using h1(1) h2(1) True assms(3) mark_shared_shared[OF True]
      by (cases "shared src") (auto simp: msg_copy_def mark_shared_def)
    then show ?thesis using h1 h2 mem_sub_trans by auto
  qed
qed


text \<open>Existing blocks are untouched by an allocation.\<close>

definition mem_ext :: "mem \<Rightarrow> mem \<Rightarrow> bool" where
  "mem_ext h' h \<longleftrightarrow> next_content h \<le> next_content h' \<and> (\<forall>a < next_content h. contents h' a = contents h a)"

lemma mem_ext_refl [simp]: "mem_ext h h"
  by (simp add: mem_ext_def)

lemma msg_data_ext:
  assumes "mem_ext h' h" "refs_inv M h" "m \<in># M"
  shows "msg_data m h' = msg_data m h" "msg_size m h' = msg_size m h"
proof -
  have "contents h' (content_ptr m) = contents h (content_ptr m)" if lm: "mtype m = type_lmsg"
  proof -
    obtain M0 where M0: "M = add_mset m M0" using assms(3) by (metis mset_add)
    have "content_ptr m < next_content h" by (rule block_ok_held[OF assms(2)[unfolded M0] lm])
    then show ?thesis using assms(1) by (simp add: mem_ext_def)
  qed
  then show "msg_data m h' = msg_data m h" "msg_size m h' = msg_size m h"
    unfolding msg_data_def msg_size_def by (cases "mtype m = type_lmsg"; simp)+
qed

lemma content_alloc_ok:
  assumes inv: "refs_inv M h" and al: "content_alloc c h = (a, h')"
    and m: "mtype m = type_lmsg" "content_ptr m = a" "\<not> shared m"
  shows "refs_inv (add_mset m M) h'" "mem_ext h' h" "contents h' a = Some c"
    "all_ffns h' = all_ffns h + block_ffn (Some c)"
proof -
  have a: "a = next_content h" and h': "contents h' = (contents h)(a \<mapsto> c)" "next_content h' = a + 1"
    "ffn_calls h' = ffn_calls h"
    using al by (auto simp: content_alloc_def)
  have none: "contents h a = None" using inv a by (simp add: refs_inv_def)
  have "block_ok (contents h a) (filter_mset (holds a) M)" using inv unfolding refs_inv_def by blast
  then have nil: "filter_mset (holds a) M = {#}" by (simp add: none block_ok_def)
  have hm: "holds b m \<longleftrightarrow> b = a" for b using m by (auto simp: holds_def)
  have other: "block_ok (contents h b) (filter_mset (holds b) M)" for b
    using inv unfolding refs_inv_def by blast
  have "block_ok (contents h' b) (filter_mset (holds b) (add_mset m M))" for b
    using other[of b] nil m(3) by (cases "b = a") (auto simp: h'(1) hm block_ok_def)
  then show "refs_inv (add_mset m M) h'"
    using inv a h' by (auto simp: refs_inv_def)
  show "mem_ext h' h" "contents h' a = Some c" using a h' by (auto simp: mem_ext_def)
  have "(\<Sum>b < a. block_ffn (contents h' b)) = (\<Sum>b < a. block_ffn (contents h b))"
    by (intro sum.cong) (auto simp: h'(1))
  then show "all_ffns h' = all_ffns h + block_ffn (Some c)"
    using a h' by (simp add: all_ffns_def)
qed

lemma msg_init_size_ok:
  assumes inv: "refs_inv M h" and sz: "unat sz \<le> 2 ^ 64 - 41"
  shows "\<exists>rc m' h'. msg_init_size sz m h = Some (rc, m', h') \<and>
    (case rc of Inl e \<Rightarrow> e = ENOMEM \<and> h' = h
     | Inr _ \<Rightarrow> msg_check m' \<and> mflags m' = 0 \<and> msg_size m' h' = Some sz \<and>
         refs_inv (add_mset m' M) h' \<and> mem_ext h' h \<and> all_ffns h' = all_ffns h)"
proof (cases "unat sz \<le> max_vsm_size")
  case True
  then have "unat (ucast (ucast sz :: u8) :: u64) = unat sz"
    by (simp add: unsigned_ucast_eq unsigned_take_bit_eq take_bit_nat_eq_self)
  then have "ucast (ucast sz :: u8) = sz" by (simp only: word_unat_eq_iff)
  then show ?thesis using True inv refs_inv_skip[of "m\<lparr>mtype := type_vsm, mflags := 0, vsize := ucast sz\<rparr>" M h]
    by (simp add: msg_init_size_def msg_check_def msg_size_def)
next
  case False
  let ?m = "m\<lparr>mtype := type_lmsg, mflags := 0\<rparr>"
  show ?thesis
  proof (cases "malloc_ok h (next_content h) (content_size + sz)")
    case True
    have "unat (content_size + sz) = 40 + unat sz" using sz by (subst unat_add_lem[THEN iffD1]) auto
    then have nw: "\<not> content_size + sz < content_size" by (simp add: word_less_nat_alt)
    let ?c = "\<lparr>cdata = map (junk h) [0..<unat sz], csize = sz, cffn = 0, cuser = 0, chint = 0, refcnt = 0\<rparr>"
    obtain a h' where al: "content_alloc ?c h = (a, h')" by (cases "content_alloc ?c h")
    note ok = content_alloc_ok[OF inv al, of "?m\<lparr>content_ptr := a\<rparr>"]
    have "msg_init_size sz m h = Some (Inr (), ?m\<lparr>content_ptr := a\<rparr>, h')"
      using False True nw al by (simp add: msg_init_size_def Let_def)
    then show ?thesis using ok by (simp add: msg_check_def msg_size_def block_ffn_def)
  qed (use False in \<open>simp add: msg_init_size_def Let_def\<close>)
qed

lemma msg_init_data_ok:
  assumes inv: "refs_inv M h"
  shows "case msg_init_data bs user ffn hint m h of (rc, m', h') \<Rightarrow>
    (case rc of Inl e \<Rightarrow> e = ENOMEM \<and> h' = h
     | Inr _ \<Rightarrow> msg_check m' \<and> mflags m' = 0 \<and> msg_data m' h' = Some bs \<and>
         refs_inv (add_mset m' M) h' \<and> mem_ext h' h \<and>
         all_ffns h' = all_ffns h + (if ffn = 0 then {#} else {#(ffn, user, hint)#}))"
proof (cases "malloc_ok h (next_content h) content_size")
  case True
  let ?m = "m\<lparr>mtype := type_lmsg, mflags := 0\<rparr>"
  let ?c = "\<lparr>cdata = bs, csize = of_nat (length bs), cffn = ffn, cuser = user, chint = hint, refcnt = 0\<rparr>"
  obtain a h' where al: "content_alloc ?c h = (a, h')" by (cases "content_alloc ?c h")
  note ok = content_alloc_ok[OF inv al, of "?m\<lparr>content_ptr := a\<rparr>"]
  show ?thesis using ok True al by (simp add: msg_init_data_def Let_def msg_check_def msg_data_def block_ffn_def)
qed (simp add: msg_init_data_def Let_def)

text \<open>\<^verbatim>\<open>add_refs\<close> makes room for copies in the style of plain data, \<^verbatim>\<open>rm_refs\<close> drops them.\<close>

lemma msg_add_refs_ok:
  assumes "refs_inv (add_mset m M) h" "size M + k + 1 < 2 ^ 32" "k \<noteq> 0 \<Longrightarrow> mtype m \<noteq> type_lmsg \<Longrightarrow> msg_check m"
  shows "\<exists>m' h'. msg_add_refs (int k) m h = Some (m', h') \<and> (m' = m \<or> m' = mark_shared m) \<and>
    refs_inv (replicate_mset (k + 1) m' + M) h' \<and> mem_sub h' h \<and> all_ffns h' = all_ffns h"
proof -
  consider "k = 0" | "k \<noteq> 0" "mtype m \<noteq> type_lmsg" | "k \<noteq> 0" "mtype m = type_lmsg" by blast
  then show ?thesis
  proof cases
    case 1
    then show ?thesis using assms(1) by (simp add: msg_add_refs_def)
  next
    case 2
    then have "\<not> holds a m" for a by simp
    then have "refs_inv (replicate_mset j m + M) h = refs_inv M h" for j
      by (induction j) (simp_all add: refs_inv_skip)
    moreover have "refs_inv M h" using assms(1) refs_inv_skip[of m M h] 2 by simp
    ultimately show ?thesis using 2 by (simp add: msg_add_refs_def del: replicate_mset_Suc)
  next
    case 3
    have k: "unat (word_of_nat k :: u32) = k" using assms(2) by (simp add: unsigned_of_nat take_bit_nat_eq_self)
    let ?act = "if shared m then content_add (content_ptr m) (word_of_nat k) h
      else content_set (content_ptr m) (word_of_nat k + 1) h"
    have "\<exists>h'. ?act = Some h' \<and> refs_inv (replicate_mset (unat (word_of_nat k :: u32) + 1) (mark_shared m) + M) h' \<and>
        mem_sub h' h \<and> all_ffns h' = all_ffns h"
      by (rule content_raise_ok[OF assms(1) 3(2)]) (use assms(2) k in auto)
    then obtain h' where h': "?act = Some h'" "refs_inv (replicate_mset (k + 1) (mark_shared m) + M) h'"
      "mem_sub h' h" "all_ffns h' = all_ffns h" unfolding k by blast
    have "msg_add_refs (int k) m h = Some (mark_shared m, h')"
      using h'(1) 3 mark_shared_shared[OF 3(2)]
      by (cases "shared m") (auto simp: msg_add_refs_def mark_shared_def add.commute)
    then show ?thesis using h' by blast
  qed
qed


lemma msg_rm_refs_ok:
  assumes "refs_inv (replicate_mset k m + M) h" "mtype m = type_lmsg" "shared m" "0 < k" "k < 2 ^ 32"
  shows "\<exists>alive h'. msg_rm_refs (int k) m h = Some (alive, m, h') \<and> refs_inv M h' \<and> mem_sub h' h \<and>
    all_ffns h' = all_ffns h"
proof -
  have k: "unat (word_of_nat k :: u32) = k" using assms(5) by (simp add: unsigned_of_nat take_bit_nat_eq_self)
  have nz: "(word_of_nat k :: u32) \<noteq> 0" using k assms(4) by (metis neq0_conv unat_0)
  from content_sub_ok[of "word_of_nat k" m M h, unfolded k, OF assms(1-3) nz] obtain b h1 where
    h1: "content_sub (content_ptr m) (word_of_nat k) h = Some (b, h1)" "mem_sub h1 h" "all_ffns h1 = all_ffns h"
    "if b then refs_inv M h1 else \<exists>h2. content_free (content_ptr m) h1 = Some h2 \<and> refs_inv M h2 \<and>
       mem_sub h2 h \<and> all_ffns h2 = all_ffns h" by auto
  then show ?thesis using assms(2-4) by (cases b) (auto simp: msg_rm_refs_def)
qed

subsection \<open>A pool of messages\<close>

text \<open>
  The messages of a client, and the operations it may call on them: it initialises closed
  messages only, closes, moves and copies initialised ones, and re-initialises a message whose
  allocation failed, as the decoders do. The last component of the state registers the
  deallocation functions handed over.
\<close>

datatype pool_op = MInit nat | MInitSize nat u64 | MInitData nat "u8 list" addr addr addr | MInitDelimiter nat
  | MClose nat | MMove nat nat | MCopy nat nat

type_synonym pool = "msg list \<times> mem \<times> (addr \<times> addr \<times> addr) list"

definition retry_init :: "rc \<Rightarrow> msg \<Rightarrow> msg" where
  "retry_init rc m = (case rc of Inl e \<Rightarrow> msg_init m | Inr _ \<Rightarrow> m)"

fun pool_step :: "pool_op \<Rightarrow> pool \<Rightarrow> pool option" where
  "pool_step (MInit i) (ms, h, r) = Some (ms[i := msg_init (ms ! i)], h, r)"
| "pool_step (MInitSize i sz) (ms, h, r) = do {
     (rc, m, h) \<leftarrow> msg_init_size sz (ms ! i) h;
     Some (ms[i := retry_init rc m], h, r) }"
| "pool_step (MInitData i bs user ffn hint) (ms, h, r) =
     (let (rc, m, h) = msg_init_data bs user ffn hint (ms ! i) h
      in Some (ms[i := retry_init rc m], h,
           if rc = Inr () \<and> ffn \<noteq> 0 then r @ [(ffn, user, hint)] else r))"
| "pool_step (MInitDelimiter i) (ms, h, r) = Some (ms[i := msg_init_delimiter (ms ! i)], h, r)"
| "pool_step (MClose i) (ms, h, r) = do {
     (rc, m, h) \<leftarrow> msg_close (ms ! i) h;
     Some (ms[i := m], h, r) }"
| "pool_step (MMove i j) (ms, h, r) = do {
     (rc, dst, src, h) \<leftarrow> msg_move (ms ! i) (ms ! j) h;
     Some (ms[i := dst, j := src], h, r) }"
| "pool_step (MCopy i j) (ms, h, r) = do {
     (rc, dst, src, h) \<leftarrow> msg_copy (ms ! i) (ms ! j) h;
     Some (ms[i := dst, j := src], h, r) }"

fun pool_legal :: "pool_op \<Rightarrow> msg list \<Rightarrow> bool" where
  "pool_legal (MInit i) ms = (i < length ms \<and> mtype (ms ! i) = 0)"
| "pool_legal (MInitSize i sz) ms = (i < length ms \<and> mtype (ms ! i) = 0 \<and> unat sz \<le> 2 ^ 64 - 41)"
| "pool_legal (MInitData i bs user ffn hint) ms = (i < length ms \<and> mtype (ms ! i) = 0)"
| "pool_legal (MInitDelimiter i) ms = (i < length ms \<and> mtype (ms ! i) = 0)"
| "pool_legal (MClose i) ms = (i < length ms \<and> msg_check (ms ! i))"
| "pool_legal (MMove i j) ms =
    (i < length ms \<and> j < length ms \<and> i \<noteq> j \<and> msg_check (ms ! i) \<and> msg_check (ms ! j))"
| "pool_legal (MCopy i j) ms =
    (i < length ms \<and> j < length ms \<and> i \<noteq> j \<and> msg_check (ms ! i) \<and> msg_check (ms ! j))"

text \<open>A history; \<open>None\<close> also when the client breaks its side of the contract.\<close>

fun pool_run :: "pool_op list \<Rightarrow> pool \<Rightarrow> pool option" where
  "pool_run [] s = Some s"
| "pool_run (x # xs) s = do { s \<leftarrow> pool_step x s; pool_run xs s }"

fun pool_obeys :: "pool_op list \<Rightarrow> pool \<Rightarrow> bool" where
  "pool_obeys [] s = True"
| "pool_obeys (x # xs) s =
    (pool_legal x (fst s) \<and> (case pool_step x s of None \<Rightarrow> True | Some s' \<Rightarrow> pool_obeys xs s'))"

fun pool_inv :: "pool \<Rightarrow> bool" where
  "pool_inv (ms, h, r) \<longleftrightarrow> refs_inv (mset ms) h \<and> all_ffns h = mset r \<and> length ms < 2 ^ 32 \<and>
     (\<forall>m \<in> set ms. msg_check m \<or> mtype m = 0)"

lemma mset_update_split:
  "i < length ms \<Longrightarrow> \<exists>M. mset ms = add_mset (ms ! i) M \<and> (\<forall>x. mset (ms[i := x]) = add_mset x M)"
  by (intro exI[of _ "mset ms - {#ms ! i#}"]) (simp add: mset_update)

lemma mset_update_split2:
  assumes "i < length ms" "j < length ms" "i \<noteq> j"
  shows "\<exists>M. mset ms = add_mset (ms ! i) (add_mset (ms ! j) M) \<and> size M + 2 = length ms \<and>
    (\<forall>x y. mset (ms[i := x, j := y]) = add_mset x (add_mset y M))"
proof -
  let ?S = "{..<length ms} - {i, j}"
  define M where "M = image_mset ((!) ms) (mset_set ?S)"
  have idx: "mset xs = image_mset ((!) xs) (mset_set {..<length xs})" for xs :: "'a list"
    by (metis atLeast_upt map_nth mset_map mset_upt lessThan_atLeast0)
  have set: "{..<length ms} = insert i (insert j ?S)" using assms by auto
  have split: "mset xs = add_mset (xs ! i) (add_mset (xs ! j) M)"
    if "length xs = length ms" "\<And>k. k \<in> ?S \<Longrightarrow> xs ! k = ms ! k" for xs
  proof -
    have "mset xs = image_mset ((!) xs) (mset_set (insert i (insert j ?S)))"
      using idx[of xs] that(1) set by metis
    also have "\<dots> = add_mset (xs ! i) (add_mset (xs ! j) (image_mset ((!) xs) (mset_set ?S)))"
      using assms(3) by simp
    also have "image_mset ((!) xs) (mset_set ?S) = M"
      unfolding M_def by (intro image_mset_cong) (use that(2) in auto)
    finally show ?thesis .
  qed
  have "mset (ms[i := x, j := y]) = add_mset x (add_mset y M)" for x y
    using split[of "ms[i := x, j := y]"] assms by simp
  moreover have "mset ms = add_mset (ms ! i) (add_mset (ms ! j) M)" by (rule split) simp_all
  moreover then have "length ms = size M + 2" by (metis add_2_eq_Suc' size_add_mset size_mset)
  ultimately show ?thesis by auto
qed


lemma closed_not_lmsg: "mtype m = 0 \<Longrightarrow> \<not> holds a m"
  by (simp add: holds_def)

lemma set_update_checked:
  "\<forall>m \<in> set ms. P m \<Longrightarrow> P x \<Longrightarrow> \<forall>m \<in> set (ms[i := x]). P m"
  using set_update_subset_insert[of ms i x] by blast

lemma msg_check_init [simp]: "msg_check (msg_init m)" "msg_check (msg_init_delimiter m)"
  by (simp_all add: msg_check_def msg_init_def msg_init_delimiter_def)

lemma refs_inv_delimiter [simp]: "refs_inv (add_mset (msg_init_delimiter m) M) h = refs_inv M h"
  by (rule refs_inv_skip) (simp add: msg_init_delimiter_def)

lemma pool_step_ok:
  assumes inv: "pool_inv (ms, h, r)" and legal: "pool_legal x ms"
  shows "\<exists>ms' h' r'. pool_step x (ms, h, r) = Some (ms', h', r') \<and> pool_inv (ms', h', r')"
proof -
  let ?P = "\<lambda>m. msg_check m \<or> mtype m = 0"
  have I: "refs_inv (mset ms) h" "all_ffns h = mset r" "length ms < 2 ^ 32" "\<forall>m \<in> set ms. ?P m"
    using inv by simp_all
  have closed: "refs_inv M h" if "mset ms = add_mset (ms ! i) M" "mtype (ms ! i) = 0" for i M
    using I(1) that refs_inv_skip[of "ms ! i" M h] closed_not_lmsg by simp
  show ?thesis
  proof (cases x)
    case (MInit i)
    obtain M where M: "mset ms = add_mset (ms ! i) M" "\<forall>x. mset (ms[i := x]) = add_mset x M"
      using mset_update_split[of i ms] legal MInit by auto
    show ?thesis using M(2) closed[OF M(1)] I(2-4) legal MInit set_update_checked[OF I(4), of "msg_init (ms ! i)" i]
      by simp
  next
    case (MInitDelimiter i)
    obtain M where M: "mset ms = add_mset (ms ! i) M" "\<forall>x. mset (ms[i := x]) = add_mset x M"
      using mset_update_split[of i ms] legal MInitDelimiter by auto
    show ?thesis using M(2) closed[OF M(1)] I(2-4) legal MInitDelimiter
        set_update_checked[OF I(4), of "msg_init_delimiter (ms ! i)" i]
      by simp
  next
    case (MInitSize i sz)
    obtain M where M: "mset ms = add_mset (ms ! i) M" "\<forall>x. mset (ms[i := x]) = add_mset x M"
      using mset_update_split[of i ms] legal MInitSize by auto
    have inv0: "refs_inv M h" using closed[OF M(1)] legal MInitSize by simp
    obtain rc m' h' where r: "msg_init_size sz (ms ! i) h = Some (rc, m', h')"
      "case rc of Inl e \<Rightarrow> e = ENOMEM \<and> h' = h
       | Inr _ \<Rightarrow> msg_check m' \<and> mflags m' = 0 \<and> msg_size m' h' = Some sz \<and>
         refs_inv (add_mset m' M) h' \<and> mem_ext h' h \<and> all_ffns h' = all_ffns h"
      using msg_init_size_ok[OF inv0, of sz "ms ! i"] legal MInitSize by auto
    have "refs_inv (add_mset (retry_init rc m') M) h'" "msg_check (retry_init rc m')" "all_ffns h' = all_ffns h"
      using r(2) inv0 by (auto simp: retry_init_def split: sum.splits)
    then show ?thesis using r(1) M(2) I(2-4) MInitSize set_update_checked[OF I(4), of "retry_init rc m'" i]
      by simp
  next
    case (MInitData i bs user ffn hint)
    obtain M where M: "mset ms = add_mset (ms ! i) M" "\<forall>x. mset (ms[i := x]) = add_mset x M"
      using mset_update_split[of i ms] legal MInitData by auto
    have inv0: "refs_inv M h" using closed[OF M(1)] legal MInitData by simp
    obtain rc m' h' where r: "msg_init_data bs user ffn hint (ms ! i) h = (rc, m', h')" by (metis prod_cases3)
    note ok = msg_init_data_ok[OF inv0, where bs = bs and user = user and ffn = ffn and hint = hint and m = "ms ! i", unfolded r split_conv]
    let ?r = "if rc = Inr () \<and> ffn \<noteq> 0 then r @ [(ffn, user, hint)] else r"
    have "refs_inv (add_mset (retry_init rc m') M) h'" "msg_check (retry_init rc m')" "all_ffns h' = mset ?r"
      using ok inv0 I(2) by (auto simp: retry_init_def split: sum.splits)
    then show ?thesis using r M(2) I(3,4) MInitData set_update_checked[OF I(4), of "retry_init rc m'" i]
      by (simp add: Let_def)
  next
    case (MClose i)
    obtain M where M: "mset ms = add_mset (ms ! i) M" "\<forall>x. mset (ms[i := x]) = add_mset x M"
      using mset_update_split[of i ms] legal MClose by auto
    obtain h' where "msg_close (ms ! i) h = Some (Inr (), (ms ! i)\<lparr>mtype := 0\<rparr>, h')" "refs_inv M h'"
      "all_ffns h' = all_ffns h"
      using msg_close_ok[of "ms ! i" M h] I(1) legal MClose unfolding M(1) by auto
    then show ?thesis using M(2) I(2-4) MClose set_update_checked[OF I(4), of "(ms ! i)\<lparr>mtype := 0\<rparr>" i]
      by simp
  next
    case (MMove i j)
    obtain M where M: "mset ms = add_mset (ms ! i) (add_mset (ms ! j) M)"
      "\<forall>x y. mset (ms[i := x, j := y]) = add_mset x (add_mset y M)"
      using mset_update_split2[of i ms j] legal MMove by auto
    have chk: "msg_check (ms ! i)" "msg_check (ms ! j)" using legal MMove by simp_all
    obtain h' where "msg_move (ms ! i) (ms ! j) h = Some (Inr (), ms ! j, msg_init (ms ! j), h')"
      "refs_inv (add_mset (ms ! j) M) h'" "all_ffns h' = all_ffns h"
      using msg_move_ok[of "ms ! i" "ms ! j" M h] I(1) chk unfolding M(1) by auto
    moreover have "\<forall>m \<in> set (ms[i := ms ! j, j := msg_init (ms ! j)]). ?P m"
      using chk by (intro set_update_checked I(4)) simp_all
    moreover from calculation have "refs_inv (add_mset (ms ! j) (add_mset (msg_init (ms ! j)) M)) h'"
      by (subst add_mset_commute) simp
    ultimately show ?thesis using M(2) I(2-4) MMove by simp
  next
    case (MCopy i j)
    obtain M where M: "mset ms = add_mset (ms ! i) (add_mset (ms ! j) M)" "size M + 2 = length ms"
      "\<forall>x y. mset (ms[i := x, j := y]) = add_mset x (add_mset y M)"
      using mset_update_split2[of i ms j] legal MCopy by auto
    have chk: "msg_check (ms ! i)" "msg_check (ms ! j)" using legal MCopy by simp_all
    obtain h' where "msg_copy (ms ! i) (ms ! j) h = Some (Inr (), mark_shared (ms ! j), mark_shared (ms ! j), h')"
      "refs_inv (add_mset (mark_shared (ms ! j)) (add_mset (mark_shared (ms ! j)) M)) h'" "all_ffns h' = all_ffns h"
      using msg_copy_ok[of "ms ! i" "ms ! j" M h] I(1,3) chk M(2) unfolding M(1) by auto
    moreover have "\<forall>m \<in> set (ms[i := mark_shared (ms ! j), j := mark_shared (ms ! j)]). ?P m"
      using chk by (intro set_update_checked I(4)) simp_all
    ultimately show ?thesis using M(3) I(2-4) MCopy by simp
  qed
qed

lemma pool_run_ok:
  "pool_inv s \<Longrightarrow> pool_obeys xs s \<Longrightarrow> \<exists>s'. pool_run xs s = Some s' \<and> pool_inv s'"
proof (induction xs arbitrary: s)
  case (Cons x xs)
  obtain ms h r where s: "s = (ms, h, r)" by (cases s)
  then obtain s' where s': "pool_step x s = Some s'" "pool_inv s'"
    using pool_step_ok[of ms h r x] Cons.prems by auto
  then show ?case using Cons.IH[of s'] Cons.prems(2) by simp
qed simp

text \<open>When every message is closed, no block is left and every deallocation function has run.\<close>

lemma pool_closed:
  assumes "pool_inv (ms, h, r)" "\<forall>m \<in> set ms. \<not> msg_check m"
  shows "contents h = (\<lambda>_. None)" "mset (ffn_calls h) = mset r"
proof -
  have nil: "filter_mset (holds a) (mset ms) = {#}" for a
    using assms(2) by (auto simp: filter_mset_eq_mempty_iff holds_def msg_check_def)
  have blk: "block_ok (contents h a) (filter_mset (holds a) (mset ms))" for a
    using assms(1) unfolding pool_inv.simps refs_inv_def by blast
  have none: "contents h a = None" for a
    using blk[of a] unfolding nil by (cases "contents h a") (simp_all add: block_ok_def)
  then show "contents h = (\<lambda>_. None)" by (simp add: fun_eq_iff)
  show "mset (ffn_calls h) = mset r"
    using assms(1) by (simp add: none all_ffns_def block_ffn_def)
qed


subsection \<open>Properties\<close>

definition mem_new :: "(addr \<Rightarrow> u64 \<Rightarrow> bool) \<Rightarrow> (nat \<Rightarrow> u8) \<Rightarrow> mem" where
  "mem_new ok jk = \<lparr>contents = (\<lambda>_. None), next_content = 1, malloc_ok = ok, junk = jk, ffn_calls = []\<rparr>"

definition msg_closed :: msg where
  "msg_closed = \<lparr>mtype = 0, mflags = 0, vsize = 0, vdata = replicate max_vsm_size 0, content_ptr = 0\<rparr>"

lemma pool_new_inv: "n < 2 ^ 32 \<Longrightarrow> pool_inv (replicate n msg_closed, mem_new ok jk, [])"
  by (simp add: refs_inv_def mem_new_def msg_closed_def block_ok_def all_ffns_def block_ffn_def filter_replicate)

text \<open>C9: A client that starts with closed messages, initialises closed ones only, and closes,
  moves and copies initialised ones never makes a message operation touch a freed content block
  (every operation returns), and when it has closed all its messages every block has been
  freed and every deallocation function it registered has run exactly once.\<close>

theorem msg_no_leak:
  assumes "n < 2 ^ 32" "pool_obeys xs (replicate n msg_closed, mem_new ok jk, [])"
  shows "\<exists>ms h r. pool_run xs (replicate n msg_closed, mem_new ok jk, []) = Some (ms, h, r) \<and>
    ((\<forall>m \<in> set ms. \<not> msg_check m) \<longrightarrow> contents h = (\<lambda>_. None) \<and> mset (ffn_calls h) = mset r)"
proof -
  obtain ms h r where s': "pool_run xs (replicate n msg_closed, mem_new ok jk, []) = Some (ms, h, r)"
    "pool_inv (ms, h, r)"
    using pool_run_ok[OF pool_new_inv[OF assms(1), of ok jk] assms(2)] by auto
  then show ?thesis using pool_closed[OF s'(2)] by blast
qed

theorem msg_no_leak_witness:
  "\<exists>ms h r. pool_run [MInitData 0 [1, 2] 6 5 7, MInit 1, MCopy 1 0, MClose 0, MClose 1]
      (replicate 2 msg_closed, mem_new (\<lambda>_ _. True) (\<lambda>_. 0), []) = Some (ms, h, r) \<and>
    ((\<forall>m \<in> set ms. \<not> msg_check m) \<longrightarrow> contents h = (\<lambda>_. None) \<and> mset (ffn_calls h) = mset r)"
proof (rule msg_no_leak)
  have two: "replicate 2 x = [x, x]" for x :: msg by (simp add: numeral_2_eq_2)
  show "pool_obeys [MInitData 0 [1, 2] 6 5 7, MInit 1, MCopy 1 0, MClose 0, MClose 1]
      (replicate 2 msg_closed, mem_new (\<lambda>_ _. True) (\<lambda>_. 0), [])"
    by (simp add: two msg_closed_def mem_new_def msg_init_data_def content_alloc_def retry_init_def
      msg_init_def msg_copy_def msg_close_def msg_check_def content_set_def content_sub_def content_free_def
      counter_sub_def Let_def)
qed simp

text \<open>C10: \<^verbatim>\<open>copy\<close> gives the destination the bytes of the source, keeps those of the source and of
  every other message, and leaves exactly one block reference per message.\<close>

theorem msg_copy_shares:
  assumes "refs_inv (add_mset dst (add_mset src M)) h" "msg_check dst" "msg_check src" "size M + 2 < 2 ^ 32"
  shows "\<exists>dst' src' h'. msg_copy dst src h = Some (Inr (), dst', src', h') \<and>
    refs_inv (add_mset dst' (add_mset src' M)) h' \<and>
    msg_data dst' h' = msg_data src h \<and> msg_data src' h' = msg_data src h \<and>
    (\<forall>m \<in># M. msg_data m h' = msg_data m h)"
proof -
  obtain h' where h': "msg_copy dst src h = Some (Inr (), mark_shared src, mark_shared src, h')"
    "refs_inv (add_mset (mark_shared src) (add_mset (mark_shared src) M)) h'" "mem_sub h' h"
    using msg_copy_ok[OF assms] by blast
  note data = msg_data_sub(1)[OF h'(3,2)]
  have "msg_data (mark_shared src) h' = msg_data src h" using data[of "mark_shared src"] by simp
  moreover have "\<forall>m \<in># M. msg_data m h' = msg_data m h" using data by simp
  ultimately show ?thesis using h'(1,2) by blast
qed

theorem msg_copy_shares_witness:
  "\<exists>dst' src' h'. msg_copy (msg_init msg_closed) (msg_init msg_closed) (mem_new (\<lambda>_ _. True) (\<lambda>_. 0))
    = Some (Inr (), dst', src', h')"
proof -
  have "refs_inv (add_mset (msg_init msg_closed) (add_mset (msg_init msg_closed) {#})) (mem_new (\<lambda>_ _. True) (\<lambda>_. 0))"
    by (simp add: refs_inv_def mem_new_def block_ok_def)
  from msg_copy_shares[OF this] show ?thesis by auto
qed

text \<open>C11: \<^verbatim>\<open>init_size\<close> has undefined behaviour exactly for the 40 largest sizes, for which
  \<^verbatim>\<open>sizeof (content_t) + size_\<close> wraps around and \<^verbatim>\<open>malloc\<close> is asked for less than the header
  that is then written; every other size gives a message of that size, or \<^verbatim>\<open>ENOMEM\<close>.\<close>

theorem msg_init_size_wraps:
  "if malloc_ok h (next_content h) (content_size + sz) \<and> 2 ^ 64 - 40 \<le> unat sz
   then msg_init_size sz m h = None
   else (\<exists>m' h'. msg_init_size sz m h = Some (Inr (), m', h') \<and> msg_size m' h' = Some sz) \<or>
     (\<exists>m'. msg_init_size sz m h = Some (Inl ENOMEM, m', h))"
proof (cases "unat sz \<le> max_vsm_size")
  case True
  then have "unat (ucast (ucast sz :: u8) :: u64) = unat sz"
    by (simp add: unsigned_ucast_eq unsigned_take_bit_eq take_bit_nat_eq_self)
  then have "ucast (ucast sz :: u8) = sz" by (simp only: word_unat_eq_iff)
  then show ?thesis using True by (simp add: msg_init_size_def msg_size_def msg_check_def)
next
  case False
  have lt: "unat sz < 2 ^ 64" using unsigned_less[of sz] by simp
  have sum: "unat (content_size + sz) = (40 + unat sz) mod 2 ^ 64" by (simp add: unat_word_ariths)
  have "content_size + sz < content_size \<longleftrightarrow> 2 ^ 64 - 40 \<le> unat sz"
  proof (cases "2 ^ 64 - 40 \<le> unat sz")
    case True
    then have "(40 + unat sz) mod 2 ^ 64 = 40 + unat sz - 2 ^ 64" using lt by (subst le_mod_geq) auto
    then show ?thesis using True lt sum by (simp add: word_less_nat_alt)
  next
    case False
    then have "(40 + unat sz) mod 2 ^ 64 = 40 + unat sz" by (intro mod_less) linarith
    then show ?thesis using False sum by (simp add: word_less_nat_alt)
  qed
  then show ?thesis using False
    by (simp add: msg_init_size_def Let_def content_alloc_def msg_size_def msg_check_def)
qed

end
