(* ===== verification/Wire.thy ===== *)
theory Wire
  imports Prelude
begin

text \<open>
  Network byte order: src/wire.hpp. A buffer is the list of the bytes stored from its start;
  reading too short a buffer is out of bounds, \<open>None\<close>. The lemmas show that every pair of
  functions is a bijection between words and buffers of the right length.
\<close>

unbundle bit_operations_syntax

definition put_uint8 :: "u8 \<Rightarrow> u8 list" where
  "put_uint8 v = [v]"

definition get_uint8 :: "u8 list \<Rightarrow> u8 option" where
  "get_uint8 b = elem b 0"

definition put_uint16 :: "16 word \<Rightarrow> u8 list" where
  "put_uint16 v = [ucast (drop_bit 8 v AND 255), ucast (v AND 255)]"

definition get_uint16 :: "u8 list \<Rightarrow> 16 word option" where
  "get_uint16 b = do {
     b0 \<leftarrow> elem b 0; b1 \<leftarrow> elem b 1;
     Some (push_bit 8 (ucast b0) OR ucast b1) }"

definition put_uint32 :: "u32 \<Rightarrow> u8 list" where
  "put_uint32 v = [ucast (drop_bit 24 v AND 255), ucast (drop_bit 16 v AND 255),
     ucast (drop_bit 8 v AND 255), ucast (v AND 255)]"

definition get_uint32 :: "u8 list \<Rightarrow> u32 option" where
  "get_uint32 b = do {
     b0 \<leftarrow> elem b 0; b1 \<leftarrow> elem b 1; b2 \<leftarrow> elem b 2; b3 \<leftarrow> elem b 3;
     Some (push_bit 24 (ucast b0) OR push_bit 16 (ucast b1) OR push_bit 8 (ucast b2) OR ucast b3) }"

definition put_uint64 :: "u64 \<Rightarrow> u8 list" where
  "put_uint64 v = [ucast (drop_bit 56 v AND 255), ucast (drop_bit 48 v AND 255),
     ucast (drop_bit 40 v AND 255), ucast (drop_bit 32 v AND 255), ucast (drop_bit 24 v AND 255),
     ucast (drop_bit 16 v AND 255), ucast (drop_bit 8 v AND 255), ucast (v AND 255)]"

definition get_uint64 :: "u8 list \<Rightarrow> u64 option" where
  "get_uint64 b = do {
     b0 \<leftarrow> elem b 0; b1 \<leftarrow> elem b 1; b2 \<leftarrow> elem b 2; b3 \<leftarrow> elem b 3;
     b4 \<leftarrow> elem b 4; b5 \<leftarrow> elem b 5; b6 \<leftarrow> elem b 6; b7 \<leftarrow> elem b 7;
     Some (push_bit 56 (ucast b0) OR push_bit 48 (ucast b1) OR push_bit 40 (ucast b2) OR
       push_bit 32 (ucast b3) OR push_bit 24 (ucast b4) OR push_bit 16 (ucast b5) OR
       push_bit 8 (ucast b6) OR ucast b7) }"

subsection \<open>Round trips\<close>

text \<open>The low byte of a word, and joining a word from its bytes, the highest first.\<close>

lemma low_byte: "ucast (w AND 255) = (ucast w :: u8)" for w :: "'a::len word"
proof -
  have m: "(255 :: 'a word) = mask 8" by (simp add: mask_eq_exp_minus_1)
  show ?thesis unfolding m
    by (rule bit_word_eqI) (auto simp: bit_unsigned_iff bit_and_iff bit_mask_iff dest: bit_imp_le_length)
qed

lemma byte_join:
  fixes w :: "'a::len word"
  assumes "m = n + 8" "m \<le> LENGTH('a)"
  shows "push_bit m (drop_bit m w) OR push_bit n (ucast (ucast (drop_bit n w) :: u8)) = push_bit n (drop_bit n w)"
proof (rule bit_word_eqI)
  fix k assume k: "k < LENGTH('a)"
  show "bit (push_bit m (drop_bit m w) OR push_bit n (ucast (ucast (drop_bit n w) :: u8))) k =
      bit (push_bit n (drop_bit n w)) k"
    using k assms by (cases "n \<le> k"; cases "m \<le> k")
      (auto simp: bit_or_iff bit_push_bit_iff bit_unsigned_iff bit_drop_bit_eq)
qed

lemma byte_top:
  fixes w :: "'a::len word"
  assumes "n + 8 = LENGTH('a)"
  shows "push_bit n (ucast (ucast (drop_bit n w) :: u8)) = push_bit n (drop_bit n w)"
proof (rule bit_word_eqI)
  fix k assume k: "k < LENGTH('a)"
  show "bit (push_bit n (ucast (ucast (drop_bit n w) :: u8)) :: 'a word) k = bit (push_bit n (drop_bit n w)) k"
    using k assms by (cases "n \<le> k") (auto simp: bit_push_bit_iff bit_unsigned_iff bit_drop_bit_eq)
qed

lemma length_put_uint64 [simp]: "length (put_uint64 v) = 8"
  by (simp add: put_uint64_def)

lemma put_uint64_neq_Nil [simp]: "put_uint64 v \<noteq> []"
  by (simp add: put_uint64_def)

lemma wire_uint16: "get_uint16 (put_uint16 v @ r) = Some v"
proof -
  have "push_bit 8 (ucast (ucast (drop_bit 8 v) :: u8)) OR ucast (ucast v :: u8) = v"
    using byte_top[of 8 v] byte_join[of 8 0 v] by simp
  then show ?thesis by (simp add: get_uint16_def put_uint16_def low_byte)
qed

lemma wire_uint32: "get_uint32 (put_uint32 v @ r) = Some v"
proof -
  have "((push_bit 24 (ucast (ucast (drop_bit 24 v) :: u8)) OR push_bit 16 (ucast (ucast (drop_bit 16 v) :: u8))) OR
      push_bit 8 (ucast (ucast (drop_bit 8 v) :: u8))) OR ucast (ucast v :: u8) = v"
    using byte_top[of 24 v] byte_join[of 24 16 v] byte_join[of 16 8 v] byte_join[of 8 0 v] by simp
  then show ?thesis by (simp add: get_uint32_def put_uint32_def low_byte elem_def or.assoc)
qed

lemma wire_uint64: "get_uint64 (put_uint64 v @ r) = Some v"
proof -
  have "((((((push_bit 56 (ucast (ucast (drop_bit 56 v) :: u8)) OR push_bit 48 (ucast (ucast (drop_bit 48 v) :: u8))) OR
      push_bit 40 (ucast (ucast (drop_bit 40 v) :: u8))) OR push_bit 32 (ucast (ucast (drop_bit 32 v) :: u8))) OR
      push_bit 24 (ucast (ucast (drop_bit 24 v) :: u8))) OR push_bit 16 (ucast (ucast (drop_bit 16 v) :: u8))) OR
      push_bit 8 (ucast (ucast (drop_bit 8 v) :: u8))) OR ucast (ucast v :: u8) = v"
    using byte_top[of 56 v] byte_join[of 56 48 v] byte_join[of 48 40 v] byte_join[of 40 32 v]
      byte_join[of 32 24 v] byte_join[of 24 16 v] byte_join[of 16 8 v] byte_join[of 8 0 v] by simp
  then show ?thesis by (simp add: get_uint64_def put_uint64_def low_byte elem_def or.assoc)
qed

end
