(* ===== verification/Decoder.thy ===== *)
theory Decoder
  imports Msg Wire
begin

text \<open>
  The decoders: \<^verbatim>\<open>decoder_base_t\<close> and \<^verbatim>\<open>decoder_t\<close> (src/decoder.hpp, src/decoder.cpp) and
  \<^verbatim>\<open>v1_decoder_t\<close> (src/v1_decoder.cpp). One record holds the members of the base and of both
  derived classes. A step of the state machine is its name, \<^verbatim>\<open>NULL\<close> is \<open>None\<close>; \<^verbatim>\<open>read_pos\<close> is
  an offset into \<^verbatim>\<open>tmpbuf\<close> or into the data of \<^verbatim>\<open>in_progress\<close>. The message sink is a function
  on messages, the heap and a state \<open>'k\<close> of its own; \<^verbatim>\<open>(size_t) -1\<close> is \<open>Inl ()\<close>. The lemmas
  show that a decoder reads the same messages however the byte stream is cut into buffers, with
  or without the zero-copy path, and that it inverts the framing of its version.
\<close>

unbundle bit_operations_syntax

datatype dstep = One_byte_size_ready | Eight_byte_size_ready | Flags_ready | Message_ready

datatype rpos = RNull | Tmp nat | Body nat

record 'k decoder =
  dnext :: "dstep option"
  read_pos :: rpos
  to_read :: nat
  dbufsize :: nat
  dtmpbuf :: "u8 list"
  msg_flags :: u8
  in_progress :: msg
  maxmsgsize :: int
  dmem :: mem
  has_sink :: bool
  sink :: 'k

type_synonym 'k push = "msg \<Rightarrow> mem \<Rightarrow> 'k \<Rightarrow> (rc \<times> msg \<times> mem \<times> 'k) option"
type_synonym 'k act = "dstep \<Rightarrow> 'k decoder \<Rightarrow> (bool \<times> 'k decoder) option"

subsection \<open>The base class\<close>

definition dec_next_step :: "rpos \<Rightarrow> nat \<Rightarrow> dstep \<Rightarrow> 'k decoder \<Rightarrow> 'k decoder" where
  "dec_next_step r n st d = d\<lparr>read_pos := r, to_read := n, dnext := Some st\<rparr>"

definition decoding_error :: "'k decoder \<Rightarrow> 'k decoder" where
  "decoding_error d = d\<lparr>dnext := None\<rparr>"

text \<open>The buffer handed out: the decoder's own, or the place the data finally goes.\<close>

datatype bufptr = Own | At rpos

definition get_buffer :: "'k decoder \<Rightarrow> bufptr \<times> nat" where
  "get_buffer d = (if to_read d \<ge> dbufsize d then (At (read_pos d), to_read d) else (Own, dbufsize d))"

text \<open>\<^verbatim>\<open>memcpy (read_pos, ..)\<close>, and \<^verbatim>\<open>read_pos += size\<close>.\<close>

definition dec_write :: "u8 list \<Rightarrow> 'k decoder \<Rightarrow> 'k decoder option" where
  "dec_write bs d = (case read_pos d of
     RNull \<Rightarrow> if bs = [] then Some d else None
   | Tmp i \<Rightarrow> if i + length bs \<le> length (dtmpbuf d)
       then Some (d\<lparr>dtmpbuf := take i (dtmpbuf d) @ bs @ drop (i + length bs) (dtmpbuf d)\<rparr>) else None
   | Body i \<Rightarrow> do {
       (m, h) \<leftarrow> msg_put i bs (in_progress d) (dmem d);
       Some (d\<lparr>in_progress := m, dmem := h\<rparr>) })"

definition dec_advance :: "nat \<Rightarrow> 'k decoder \<Rightarrow> 'k decoder option" where
  "dec_advance n d = (if to_read d < n then None else
     Some (d\<lparr>read_pos := (case read_pos d of RNull \<Rightarrow> RNull | Tmp i \<Rightarrow> Tmp (i + n) | Body i \<Rightarrow> Body (i + n)),
             to_read := to_read d - n\<rparr>))"

text \<open>\<^verbatim>\<open>while (!to_read) if (!next ()) ..\<close>: whether the loop ended with something to read.\<close>

partial_function (option) dec_settle :: "'k act \<Rightarrow> 'k decoder \<Rightarrow> (bool \<times> 'k decoder) option" where
  "dec_settle act d =
    (if to_read d \<noteq> 0 then Some (True, d)
     else do {
       st \<leftarrow> dnext d;
       (ok, d) \<leftarrow> act st d;
       if ok then dec_settle act d else Some (False, d) })"

partial_function (option) dec_loop :: "'k act \<Rightarrow> u8 list \<Rightarrow> nat \<Rightarrow> 'k decoder \<Rightarrow> ((unit + nat) \<times> 'k decoder) option" where
  "dec_loop act data pos d = do {
     (ok, d) \<leftarrow> dec_settle act d;
     if \<not> ok then Some (if dnext d = None then Inl () else Inr pos, d)
     else if pos = length data then Some (Inr pos, d)
     else do {
       let n = min (to_read d) (length data - pos);
       d \<leftarrow> dec_write (take n (drop pos data)) d;
       d \<leftarrow> dec_advance n d;
       dec_loop act data (pos + n) d } }"

definition process_buffer :: "'k act \<Rightarrow> bufptr \<Rightarrow> u8 list \<Rightarrow> 'k decoder \<Rightarrow> ((unit + nat) \<times> 'k decoder) option" where
  "process_buffer act p data d =
    (if dnext d = None then Some (Inl (), d)
     else if p = At (read_pos d) then do {
       d \<leftarrow> dec_advance (length data) d;
       (ok, d) \<leftarrow> dec_settle act d;
       Some (if \<not> ok \<and> dnext d = None then Inl () else Inr (length data), d) }
     else dec_loop act data 0 d)"

definition stalled :: "'k act \<Rightarrow> 'k decoder \<Rightarrow> (bool \<times> 'k decoder) option" where
  "stalled act d =
    (if dnext d = None then Some (False, d)
     else do {
       (ok, d) \<leftarrow> dec_settle act d;
       Some (\<not> ok \<and> dnext d \<noteq> None, d) })"

text \<open>
  What the engine does with a decoder: it reads into the buffer it was handed and passes it on.
  In the zero-copy case the bytes are read straight into the message.
\<close>

definition dec_feed :: "'k act \<Rightarrow> u8 list \<Rightarrow> 'k decoder \<Rightarrow> ((unit + nat) \<times> 'k decoder) option" where
  "dec_feed act data d = do {
     let (p, sz) = get_buffer d;
     zmq_assert (length data \<le> sz);
     d \<leftarrow> (case p of Own \<Rightarrow> Some d | At _ \<Rightarrow> dec_write data d);
     process_buffer act p data d }"

subsection \<open>Version 0\<close>

definition decoder_init :: "nat \<Rightarrow> int \<Rightarrow> msg \<Rightarrow> mem \<Rightarrow> 'k \<Rightarrow> 'k decoder" where
  "decoder_init bufsize maxsize m h k = dec_next_step (Tmp 0) 1 One_byte_size_ready
     \<lparr>dnext = None, read_pos = RNull, to_read = 0, dbufsize = bufsize, dtmpbuf = replicate 8 0, msg_flags = 0,
      in_progress = msg_init m, maxmsgsize = maxsize, dmem = h, has_sink = False, sink = k\<rparr>"

definition set_msg_sink :: "'k \<Rightarrow> 'k decoder \<Rightarrow> 'k decoder" where
  "set_msg_sink k d = d\<lparr>has_sink := True, sink := k\<rparr>"

definition one_byte_size_ready :: "'k decoder \<Rightarrow> (bool \<times> 'k decoder) option" where
  "one_byte_size_ready d = do {
     b \<leftarrow> elem (dtmpbuf d) 0;
     if b = 255 then Some (True, dec_next_step (Tmp 0) 8 Eight_byte_size_ready d)
     else if b = 0 then Some (False, decoding_error d)
     else do {
       (rc, m, h) \<leftarrow> (if maxmsgsize d \<ge> 0 \<and> uint b - 1 > maxmsgsize d
                       then Some (Inl ENOMEM, in_progress d, dmem d)
                       else msg_init_size (ucast b - 1) (in_progress d) (dmem d));
       case rc of
         Inl e \<Rightarrow> do {
           zmq_assert (e = ENOMEM);
           Some (False, decoding_error (d\<lparr>in_progress := msg_init m, dmem := h\<rparr>)) }
       | Inr _ \<Rightarrow> Some (True, dec_next_step (Tmp 0) 1 Flags_ready (d\<lparr>in_progress := m, dmem := h\<rparr>)) } }"

definition eight_byte_size_ready :: "'k decoder \<Rightarrow> (bool \<times> 'k decoder) option" where
  "eight_byte_size_ready d = do {
     payload_length \<leftarrow> get_uint64 (dtmpbuf d);
     if payload_length = 0 then Some (False, decoding_error d)
     else if maxmsgsize d \<ge> 0 \<and> payload_length - 1 > word_of_int (maxmsgsize d) then Some (False, decoding_error d)
     else if payload_length - 1 > - 1 then Some (False, decoding_error d)
     else do {
       (rc, m, h) \<leftarrow> msg_init_size (payload_length - 1) (in_progress d) (dmem d);
       case rc of
         Inl e \<Rightarrow> do {
           zmq_assert (e = ENOMEM);
           Some (False, decoding_error (d\<lparr>in_progress := msg_init m, dmem := h\<rparr>)) }
       | Inr _ \<Rightarrow> Some (True, dec_next_step (Tmp 0) 1 Flags_ready (d\<lparr>in_progress := m, dmem := h\<rparr>)) } }"

definition flags_ready :: "'k decoder \<Rightarrow> (bool \<times> 'k decoder) option" where
  "flags_ready d = do {
     b \<leftarrow> elem (dtmpbuf d) 0;
     let m = msg_set_flags (b AND flag_more) (in_progress d);
     sz \<leftarrow> msg_size m (dmem d);
     Some (True, dec_next_step (Body 0) (unat sz) Message_ready (d\<lparr>in_progress := m\<rparr>)) }"

text \<open>\<^verbatim>\<open>message_ready\<close> of both versions; \<open>first\<close> is the step of the next frame.\<close>

definition message_ready :: "'k push \<Rightarrow> dstep \<Rightarrow> 'k decoder \<Rightarrow> (bool \<times> 'k decoder) option" where
  "message_ready push first d =
    (if \<not> has_sink d then Some (False, d)
     else do {
       (rc, m, h, k) \<leftarrow> push (in_progress d) (dmem d) (sink d);
       let d = d\<lparr>in_progress := m, dmem := h, sink := k\<rparr>;
       case rc of
         Inl e \<Rightarrow> Some (False, if e \<noteq> EAGAIN then decoding_error d else d)
       | Inr _ \<Rightarrow> Some (True, dec_next_step (Tmp 0) 1 first d) })"

fun v0_act :: "'k push \<Rightarrow> 'k act" where
  "v0_act push One_byte_size_ready d = one_byte_size_ready d"
| "v0_act push Eight_byte_size_ready d = eight_byte_size_ready d"
| "v0_act push Flags_ready d = flags_ready d"
| "v0_act push Message_ready d = message_ready push One_byte_size_ready d"

subsection \<open>Version 1\<close>

abbreviation "more_flag \<equiv> (1 :: u8)"
abbreviation "large_flag \<equiv> (2 :: u8)"

definition v1_decoder_init :: "nat \<Rightarrow> int \<Rightarrow> msg \<Rightarrow> mem \<Rightarrow> 'k \<Rightarrow> 'k decoder" where
  "v1_decoder_init bufsize maxsize m h k = dec_next_step (Tmp 0) 1 Flags_ready
     \<lparr>dnext = None, read_pos = RNull, to_read = 0, dbufsize = bufsize, dtmpbuf = replicate 8 0, msg_flags = 0,
      in_progress = msg_init m, maxmsgsize = maxsize, dmem = h, has_sink = True, sink = k\<rparr>"

definition v1_flags_ready :: "'k decoder \<Rightarrow> (bool \<times> 'k decoder) option" where
  "v1_flags_ready d = do {
     b \<leftarrow> elem (dtmpbuf d) 0;
     let d = d\<lparr>msg_flags := (if b AND more_flag \<noteq> 0 then flag_more else 0)\<rparr>;
     Some (True, if b AND large_flag \<noteq> 0 then dec_next_step (Tmp 0) 8 Eight_byte_size_ready d
                 else dec_next_step (Tmp 0) 1 One_byte_size_ready d) }"

text \<open>The common part of \<^verbatim>\<open>one_byte_size_ready\<close> and \<^verbatim>\<open>eight_byte_size_ready\<close>.\<close>

definition v1_size_ready :: "u64 \<Rightarrow> 'k decoder \<Rightarrow> (bool \<times> 'k decoder) option" where
  "v1_size_ready sz d =
    (if maxmsgsize d \<ge> 0 \<and> sz > word_of_int (maxmsgsize d) then Some (False, decoding_error d)
     else do {
       (rc, m, h) \<leftarrow> msg_init_size sz (in_progress d) (dmem d);
       case rc of
         Inl e \<Rightarrow> do {
           zmq_assert (e = ENOMEM);
           Some (False, decoding_error (d\<lparr>in_progress := msg_init m, dmem := h\<rparr>)) }
       | Inr _ \<Rightarrow> do {
           let m = msg_set_flags (msg_flags d) m;
           n \<leftarrow> msg_size m h;
           Some (True, dec_next_step (Body 0) (unat n) Message_ready (d\<lparr>in_progress := m, dmem := h\<rparr>)) } })"

definition v1_one_byte_size_ready :: "'k decoder \<Rightarrow> (bool \<times> 'k decoder) option" where
  "v1_one_byte_size_ready d = do {
     b \<leftarrow> elem (dtmpbuf d) 0;
     v1_size_ready (ucast b) d }"

definition v1_eight_byte_size_ready :: "'k decoder \<Rightarrow> (bool \<times> 'k decoder) option" where
  "v1_eight_byte_size_ready d = do {
     sz \<leftarrow> get_uint64 (dtmpbuf d);
     v1_size_ready sz d }"

fun v1_act :: "'k push \<Rightarrow> 'k act" where
  "v1_act push Flags_ready d = v1_flags_ready d"
| "v1_act push One_byte_size_ready d = v1_one_byte_size_ready d"
| "v1_act push Eight_byte_size_ready d = v1_eight_byte_size_ready d"
| "v1_act push Message_ready d = message_ready push Flags_ready d"


subsection \<open>Reading byte by byte\<close>

text \<open>
  \<open>dec_bytes\<close> feeds one byte at a time and insists that the state machine can go on after
  each; \<open>dec_go\<close> first lets it take the steps that need no data. Reading in larger pieces is
  shown to be the same, so the framing is proved once, for these two.
\<close>

definition dec_take :: "u8 list \<Rightarrow> 'k decoder \<Rightarrow> 'k decoder option" where
  "dec_take bs d = do { d \<leftarrow> dec_write bs d; dec_advance (length bs) d }"

fun dec_bytes :: "'k act \<Rightarrow> u8 list \<Rightarrow> 'k decoder \<Rightarrow> 'k decoder option" where
  "dec_bytes act [] d = Some d"
| "dec_bytes act (b # bs) d = do {
     d \<leftarrow> dec_take [b] d;
     (ok, d) \<leftarrow> dec_settle act d;
     zmq_assert ok;
     dec_bytes act bs d }"

definition dec_go :: "'k act \<Rightarrow> u8 list \<Rightarrow> 'k decoder \<Rightarrow> 'k decoder option" where
  "dec_go act bs d = do { (ok, d) \<leftarrow> dec_settle act d; zmq_assert ok; dec_bytes act bs d }"

lemma dec_settle_nz: "to_read d \<noteq> 0 \<Longrightarrow> dec_settle act d = Some (True, d)"
  by (subst dec_settle.simps) simp

lemma dec_settle_0: "to_read d = 0 \<Longrightarrow> dec_settle act d = do {
    st \<leftarrow> dnext d; (ok, d) \<leftarrow> act st d; if ok then dec_settle act d else Some (False, d) }"
  by (subst dec_settle.simps) simp

lemma dec_settle_True:
  assumes "dec_settle act d = Some (ok, d')" "ok" shows "to_read d' \<noteq> 0"
proof -
  have "fst r \<longrightarrow> to_read (snd r) \<noteq> 0" if "dec_settle act d = Some r" for r
    using that
    by (rule dec_settle.raw_induct[of "\<lambda>act d r. fst r \<longrightarrow> to_read (snd r) \<noteq> 0", rotated 1])
      (auto simp: bind_Some_iff split: if_splits prod.splits)
  from this[OF assms(1)] assms(2) show ?thesis by simp
qed

lemma dec_go_nz: "to_read d \<noteq> 0 \<Longrightarrow> dec_go act bs d = dec_bytes act bs d"
  by (simp add: dec_go_def dec_settle_nz)

lemma dec_go_step:
  assumes "to_read d = 0" "dnext d = Some st" "act st d = Some (True, d1)"
  shows "dec_go act bs d = dec_go act bs d1"
  using assms by (simp add: dec_go_def dec_settle_0)

lemma splice_append:
  assumes "i + length xs \<le> length v"
  shows "take (i + length xs) (take i v @ xs @ drop (i + length xs) v) = take i v @ xs"
    "drop (i + (length xs + n)) (take i v @ xs @ drop (i + length xs) v) = drop (i + (length xs + n)) v"
proof -
  have len: "length (take i v @ xs) = i + length xs" using assms by simp
  have "take (length a) (a @ b) = a" for a b :: "'a list" by simp
  from this[of "take i v @ xs" "drop (i + length xs) v", unfolded len]
  show "take (i + length xs) (take i v @ xs @ drop (i + length xs) v) = take i v @ xs" by (simp only: append_assoc)
  have "drop (i + (length xs + n)) ((take i v @ xs) @ drop (i + length xs) v) = drop n (drop (i + length xs) v)"
    unfolding drop_append len using assms by simp
  then show "drop (i + (length xs + n)) (take i v @ xs @ drop (i + length xs) v) = drop (i + (length xs + n)) v"
    by (simp add: ac_simps)
qed

lemma msg_put_append:
  "msg_put i (xs @ ys) m h = do { (m, h) \<leftarrow> msg_put i xs m h; msg_put (i + length xs) ys m h }"
proof -
  note splice = splice_append
  show ?thesis
  proof (cases "msg_check m")
    case True
    consider "mtype m = type_vsm" | "mtype m = type_lmsg" | "mtype m \<noteq> type_vsm" "mtype m \<noteq> type_lmsg" by blast
    then show ?thesis
    proof cases
      case 1
      show ?thesis using True 1 splice[of i xs "vdata m"] by (auto simp: msg_put_def msg_check_def add.assoc)
    next
      case 2
      show ?thesis
      proof (cases "contents h (content_ptr m)")
        case (Some c)
        show ?thesis using True 2 Some splice[of i xs "cdata c"] by (auto simp: msg_put_def msg_check_def add.assoc)
      qed (use True 2 in \<open>simp add: msg_put_def\<close>)
    qed (use True in \<open>simp add: msg_put_def\<close>)
  qed (simp add: msg_put_def)
qed

lemma dec_take_append: "dec_take (xs @ ys) d = do { d \<leftarrow> dec_take xs d; dec_take ys d }"
proof (cases "read_pos d")
  case RNull
  then show ?thesis by (cases xs) (auto simp: dec_take_def dec_write_def dec_advance_def)
next
  case (Tmp i)
  show ?thesis using Tmp splice_append[of i xs "dtmpbuf d"] by (auto simp: dec_take_def dec_write_def dec_advance_def add.assoc)
next
  case (Body i)
  show ?thesis
  proof (cases "msg_put i xs (in_progress d) (dmem d)")
    case (Some p)
    then show ?thesis using Body
      by (cases "msg_put (i + length xs) ys (fst p) (snd p)")
        (auto simp: dec_take_def dec_write_def dec_advance_def msg_put_append add.assoc split: prod.splits)
  qed (simp add: Body dec_take_def dec_write_def msg_put_append)
qed

lemma dec_write_keeps:
  "dec_write bs d = Some d' \<Longrightarrow> to_read d' = to_read d \<and> dnext d' = dnext d \<and> read_pos d' = read_pos d \<and>
    dbufsize d' = dbufsize d"
  by (auto simp: dec_write_def bind_Some_iff split: rpos.splits if_splits)

lemma dec_take_keeps:
  assumes "dec_take bs d = Some d'"
  shows "length bs \<le> to_read d" "to_read d' = to_read d - length bs" "dnext d' = dnext d" "dbufsize d' = dbufsize d"
proof -
  obtain dw where dw: "dec_write bs d = Some dw" "dec_advance (length bs) dw = Some d'"
    using assms by (auto simp: dec_take_def bind_Some_iff)
  then show "length bs \<le> to_read d" "to_read d' = to_read d - length bs" "dnext d' = dnext d" "dbufsize d' = dbufsize d"
    using dec_write_keeps[OF dw(1)] by (auto simp: dec_advance_def split: if_splits)
qed

lemma dec_bytes_block:
  assumes "bs \<noteq> []" "length bs \<le> to_read d"
  shows "dec_bytes act (bs @ rest) d = do { d \<leftarrow> dec_take bs d; dec_go act rest d }"
  using assms
proof (induction bs arbitrary: d)
  case (Cons b bs)
  show ?case
  proof (cases "bs = []")
    case True
    then show ?thesis by (simp add: dec_go_def)
  next
    case False
    have split: "dec_take (b # bs) d = do { d \<leftarrow> dec_take [b] d; dec_take bs d }"
      using dec_take_append[of "[b]" bs d] by simp
    show ?thesis
    proof (cases "dec_take [b] d")
      case None
      then show ?thesis by (simp add: split)
    next
      case (Some d1)
      have "to_read d1 = to_read d - 1" using dec_take_keeps(2)[OF Some] by simp
      moreover have "length bs > 0" "Suc (length bs) \<le> to_read d" using False Cons.prems(2) by simp_all
      ultimately have "to_read d1 \<noteq> 0" "length bs \<le> to_read d1" by linarith+
      then show ?thesis using Some Cons.IH[OF False, of d1] by (simp add: split dec_settle_nz)
    qed
  qed
qed simp

lemma dec_go_block:
  assumes "bs \<noteq> []" "length bs \<le> to_read d" "dec_take bs d = Some d1"
  shows "dec_go act (bs @ rest) d = dec_go act rest d1"
proof -
  have "to_read d \<noteq> 0" using assms(1,2) by (cases bs) auto
  then show ?thesis using dec_bytes_block[OF assms(1,2), of act rest] assms(3) by (simp add: dec_go_nz)
qed

subsection \<open>Reading in pieces\<close>

lemma dec_go_Some:
  assumes "dec_go act bs d = Some d'"
  obtains d1 where "dec_settle act d = Some (True, d1)" "dec_bytes act bs d1 = Some d'" "to_read d1 \<noteq> 0"
  using assms dec_settle_True[of act d True] by (auto simp: dec_go_def bind_Some_iff)

lemma dec_loop_settled:
  assumes "dec_settle act d = Some (True, d1)" shows "dec_loop act data pos d = dec_loop act data pos d1"
  using assms dec_settle_True[OF assms] by (subst (1 2) dec_loop.simps) (simp add: dec_settle_nz)

lemma dec_loop_bytes:
  "dec_bytes act bs d = Some d' \<Longrightarrow> to_read d \<noteq> 0 \<Longrightarrow>
    dec_loop act (pre @ bs) (length pre) d = Some (Inr (length pre + length bs), d') \<and> to_read d' \<noteq> 0"
proof (induction "length bs" arbitrary: bs d pre rule: less_induct)
  case less
  show ?case
  proof (cases "bs = []")
    case True
    then show ?thesis using less.prems by (subst dec_loop.simps) (simp add: dec_settle_nz)
  next
    case False
    let ?n = "min (to_read d) (length bs)"
    let ?x = "take ?n bs" and ?y = "drop ?n bs"
    have n: "0 < ?n" using False less.prems(2) by simp
    have x: "?x \<noteq> []" "length ?x \<le> to_read d" "length ?x = ?n" using n by auto
    have "dec_bytes act (?x @ ?y) d = Some d'" using less.prems(1) by simp
    then obtain d1 where d1: "dec_take ?x d = Some d1" "dec_go act ?y d1 = Some d'"
      unfolding dec_bytes_block[OF x(1,2)] by (auto simp: bind_Some_iff)
    obtain d2 where d2: "dec_settle act d1 = Some (True, d2)" "dec_bytes act ?y d2 = Some d'" "to_read d2 \<noteq> 0"
      by (rule dec_go_Some[OF d1(2)])
    have "length ?y < length bs" using n False by simp
    from less.hyps[OF this d2(2,3), of "pre @ ?x"] have
      rec: "dec_loop act (pre @ bs) (length pre + ?n) d2 = Some (Inr (length pre + length bs), d')" "to_read d' \<noteq> 0"
      using x(3) by (simp_all add: min_def split: if_splits)
    have "dec_loop act (pre @ bs) (length pre) d = dec_loop act (pre @ bs) (length pre + ?n) d1"
      using d1(1) x(3) False less.prems(2)
      by (subst dec_loop.simps) (auto simp: dec_settle_nz dec_take_def bind_Some_iff Let_def)
    then show ?thesis using rec dec_loop_settled[OF d2(1)] by simp
  qed
qed

lemma dec_feed_bytes:
  assumes "dec_bytes act bs d = Some d'" "to_read d \<noteq> 0" "dnext d \<noteq> None" "bs \<noteq> []" "length bs \<le> snd (get_buffer d)"
  shows "dec_feed act bs d = Some (Inr (length bs), d') \<and> to_read d' \<noteq> 0"
proof (cases "to_read d \<ge> dbufsize d")
  case False
  then show ?thesis using assms dec_loop_bytes[OF assms(1,2), of "[]"]
    by (simp add: dec_feed_def get_buffer_def process_buffer_def)
next
  case True
  have le: "length bs \<le> to_read d" using True assms(5) by (simp add: get_buffer_def)
  have "(dec_take bs d \<bind> dec_go act []) = Some d'"
    using dec_bytes_block[OF assms(4) le, of act "[]"] assms(1) by simp
  then obtain d1 where d1: "dec_take bs d = Some d1" "dec_go act [] d1 = Some d'"
    by (auto simp: bind_Some_iff)
  obtain d2 where d2: "dec_settle act d1 = Some (True, d2)" "d2 = d'" "to_read d2 \<noteq> 0"
    using dec_go_Some[OF d1(2)] by auto
  obtain dw where dw: "dec_write bs d = Some dw" "dec_advance (length bs) dw = Some d1"
    using d1(1) by (auto simp: dec_take_def bind_Some_iff)
  have "read_pos dw = read_pos d" "dnext dw = dnext d" using dec_write_keeps[OF dw(1)] by simp_all
  then show ?thesis using True le dw d2 assms(3) by (simp add: dec_feed_def get_buffer_def process_buffer_def)
qed


subsection \<open>Message buffers\<close>

text \<open>A message of \<open>n\<close> bytes, ready to be filled.\<close>

definition body_buf :: "msg \<Rightarrow> mem \<Rightarrow> nat \<Rightarrow> bool" where
  "body_buf m h n \<longleftrightarrow> length (vdata m) = max_vsm_size \<and>
     (mtype m = type_vsm \<and> unat (vsize m) = n \<and> n \<le> max_vsm_size \<or>
      mtype m = type_lmsg \<and> (\<exists>c. contents h (content_ptr m) = Some c \<and> length (cdata c) = n))"

lemma body_buf_put:
  assumes "body_buf m h (length bs)"
  shows "\<exists>m' h'. msg_put 0 bs m h = Some (m', h') \<and> msg_data m' h' = Some bs \<and> mflags m' = mflags m \<and>
    length (vdata m') = max_vsm_size \<and> malloc_ok h' = malloc_ok h"
proof -
  consider "mtype m = type_vsm" "unat (vsize m) = length bs" "length bs \<le> max_vsm_size" "length (vdata m) = max_vsm_size"
    | c where "mtype m = type_lmsg" "contents h (content_ptr m) = Some c" "length (cdata c) = length bs"
      "length (vdata m) = max_vsm_size"
    using assms by (auto simp: body_buf_def)
  then show ?thesis
  proof cases
    case 1
    let ?m = "m\<lparr>vdata := bs @ drop (length bs) (vdata m)\<rparr>"
    show ?thesis
      by (rule exI[of _ ?m], rule exI[of _ h]) (use 1 in \<open>simp add: msg_put_def msg_data_def msg_check_def\<close>)
  next
    case 2
    let ?h = "h\<lparr>contents := (contents h)(content_ptr m \<mapsto> c\<lparr>cdata := bs\<rparr>)\<rparr>"
    show ?thesis
      by (rule exI[of _ m], rule exI[of _ ?h]) (use 2 in \<open>simp add: msg_put_def msg_data_def msg_check_def\<close>)
  qed
qed

lemma body_buf_init:
  assumes "length (vdata m) = max_vsm_size" "n < 2 ^ 64 - 41" "\<forall>a k. malloc_ok h a k" "sz = word_of_nat n"
  shows "\<exists>m' h'. msg_init_size sz m h = Some (Inr (), m', h') \<and> body_buf m' h' n \<and> msg_size m' h' = Some sz \<and>
    mflags m' = 0 \<and> malloc_ok h' = malloc_ok h"
proof -
  have n: "unat sz = n" using assms(2,4) by (simp add: unsigned_of_nat take_bit_nat_eq_self)
  show ?thesis
  proof (cases "n \<le> max_vsm_size")
    case True
    have "unat (ucast (ucast sz :: u8) :: u64) = unat sz"
      using True n by (simp add: unsigned_ucast_eq unsigned_take_bit_eq take_bit_nat_eq_self)
    then have "ucast (ucast sz :: u8) = sz" by (simp only: word_unat_eq_iff)
    moreover have "unat (ucast sz :: u8) = n" using True n by (simp add: unsigned_ucast_eq take_bit_nat_eq_self)
    ultimately show ?thesis using True n assms(1) by (simp add: msg_init_size_def body_buf_def msg_size_def msg_check_def)
  next
    case False
    have "unat (content_size + sz) = 40 + unat sz" using assms(2) n by (subst unat_add_lem[THEN iffD1]) auto
    then have "\<not> content_size + sz < content_size" by (simp add: word_less_nat_alt)
    then show ?thesis using False n assms(1,3)
      by (simp add: msg_init_size_def Let_def content_alloc_def body_buf_def msg_size_def msg_check_def)
  qed
qed

lemma set_flags_simps [simp]:
  "body_buf (msg_set_flags f m) h n = body_buf m h n" "msg_size (msg_set_flags f m) h = msg_size m h"
  "mflags (msg_set_flags f m) = mflags m OR f"
  by (simp_all add: body_buf_def msg_set_flags_def msg_size_def msg_check_def)

subsection \<open>Frames\<close>

text \<open>What is on the wire for a message: its \<^verbatim>\<open>more\<close> flag and its bytes.\<close>

type_synonym frame = "bool \<times> u8 list"

definition v0_frame :: "frame \<Rightarrow> u8 list" where
  "v0_frame f = (let n = length (snd f) + 1; flags = (if fst f then flag_more else 0)
     in if n < 255 then [word_of_nat n, flags] @ snd f
        else 255 # put_uint64 (word_of_nat n) @ flags # snd f)"

definition v1_frame :: "frame \<Rightarrow> u8 list" where
  "v1_frame f = (let n = length (snd f); mo = (if fst f then more_flag else 0)
     in if n > 255 then (mo OR large_flag) # put_uint64 (word_of_nat n) @ snd f
        else [mo, word_of_nat n] @ snd f)"

definition frame_fits :: "int \<Rightarrow> frame \<Rightarrow> bool" where
  "frame_fits maxsize f \<longleftrightarrow> length (snd f) < 2 ^ 64 - 41 \<and> maxsize < 2 ^ 63 \<and>
     (maxsize \<ge> 0 \<longrightarrow> int (length (snd f)) \<le> maxsize)"

text \<open>Between two frames.\<close>

definition dec_ready :: "dstep \<Rightarrow> 'k decoder \<Rightarrow> bool" where
  "dec_ready first d \<longleftrightarrow> dnext d = Some first \<and> read_pos d = Tmp 0 \<and> to_read d = 1 \<and> length (dtmpbuf d) = 8 \<and>
     length (vdata (in_progress d)) = max_vsm_size \<and> has_sink d \<and> (\<forall>a n. malloc_ok (dmem d) a n)"

lemma dec_take_tmp:
  assumes "read_pos d = Tmp 0" "to_read d = length bs" "length bs \<le> length (dtmpbuf d)"
  shows "dec_take bs d = Some (d\<lparr>dtmpbuf := bs @ drop (length bs) (dtmpbuf d), read_pos := Tmp (length bs), to_read := 0\<rparr>)"
  using assms by (simp add: dec_take_def dec_write_def dec_advance_def)

text \<open>
  A sink that takes every message and logs it; and a decoder, which turns the bytes of a frame into
  one more entry of the log.
\<close>

locale msg_sink =
  fixes push :: "'k push" and log :: "'k \<Rightarrow> frame list"
  assumes push_law: "msg_data m h = Some bs \<Longrightarrow> \<exists>m' h' k'. push m h k = Some (Inr (), m', h', k') \<and>
    length (vdata m') = length (vdata m) \<and> malloc_ok h' = malloc_ok h \<and>
    log k' = log k @ [(mflags m AND flag_more \<noteq> 0, bs)]"
begin

definition took :: "dstep \<Rightarrow> 'k decoder \<Rightarrow> frame \<Rightarrow> 'k decoder \<Rightarrow> bool" where
  "took first d f d' \<longleftrightarrow> dec_ready first d' \<and> maxmsgsize d' = maxmsgsize d \<and> dbufsize d' = dbufsize d \<and>
     log (sink d') = log (sink d) @ [f]"

lemma body_law:
  assumes act: "\<And>d. act Message_ready d = message_ready push first d"
    and d: "dnext d = Some Message_ready" "read_pos d = Body 0" "to_read d = length bs"
      "body_buf (in_progress d) (dmem d) (length bs)" "length (dtmpbuf d) = 8" "has_sink d"
      "\<forall>a n. malloc_ok (dmem d) a n"
  shows "\<exists>d'. dec_go act bs d = Some d' \<and> took first d (mflags (in_progress d) AND flag_more \<noteq> 0, bs) d'"
proof -
  have step: "\<exists>d'. act Message_ready e = Some (True, d') \<and> took first d (mflags (in_progress d) AND flag_more \<noteq> 0, bs) d'"
    if "msg_data (in_progress e) (dmem e) = Some bs" "mflags (in_progress e) = mflags (in_progress d)"
      "length (vdata (in_progress e)) = max_vsm_size" "malloc_ok (dmem e) = malloc_ok (dmem d)"
      "length (dtmpbuf e) = 8" "has_sink e" "sink e = sink d" "maxmsgsize e = maxmsgsize d" "dbufsize e = dbufsize d" for e
    using push_law[OF that(1), of "sink e"] that(2-) d(7)
    by (auto simp: act message_ready_def took_def dec_ready_def dec_next_step_def Let_def)
  obtain m' h' where put: "msg_put 0 bs (in_progress d) (dmem d) = Some (m', h')" "msg_data m' h' = Some bs"
    "mflags m' = mflags (in_progress d)" "length (vdata m') = max_vsm_size" "malloc_ok h' = malloc_ok (dmem d)"
    using body_buf_put[OF d(4)] by blast
  have go: "\<exists>d'. dec_go act [] e = Some d' \<and> took first d (mflags (in_progress d) AND flag_more \<noteq> 0, bs) d'"
    if "act Message_ready e = Some (True, d')" "took first d (mflags (in_progress d) AND flag_more \<noteq> 0, bs) d'"
      "to_read e = 0" "dnext e = Some Message_ready" for e d'
  proof -
    have "to_read d' \<noteq> 0" using that(2) by (simp add: took_def dec_ready_def)
    then have "dec_go act [] e = Some d'"
      using dec_go_step[where act = act and st = Message_ready, OF that(3,4,1), of "[]"] by (simp add: dec_go_nz)
    with that(2) show ?thesis by blast
  qed
  show ?thesis
  proof (cases "bs = []")
    case True
    have "msg_data (in_progress d) (dmem d) = Some bs" using d(4) True by (auto simp: body_buf_def msg_data_def msg_check_def)
    from step[OF this] d True obtain d' where "act Message_ready d = Some (True, d')"
      "took first d (mflags (in_progress d) AND flag_more \<noteq> 0, bs) d'" by (auto simp: body_buf_def)
    from go[OF this] show ?thesis using d(1,3) True by simp
  next
    case False
    let ?e = "d\<lparr>in_progress := m', dmem := h', read_pos := Body (length bs), to_read := 0\<rparr>"
    have take: "dec_take bs d = Some ?e"
      using put(1) d(2,3) by (simp add: dec_take_def dec_write_def dec_advance_def)
    obtain d' where "act Message_ready ?e = Some (True, d')"
      "took first d (mflags (in_progress d) AND flag_more \<noteq> 0, bs) d'"
      using step[of ?e] put(2-5) d(5,6) by auto
    from go[OF this] show ?thesis using dec_go_block[OF False _ take, of act "[]"] d(1,3) by simp
  qed
qed

end


lemma dec_go_tmp:
  assumes "read_pos d = Tmp 0" "to_read d = length bs" "bs \<noteq> []" "length bs \<le> length (dtmpbuf d)" "dnext d = Some st"
    and "act st (d\<lparr>dtmpbuf := bs @ drop (length bs) (dtmpbuf d), read_pos := Tmp (length bs), to_read := 0\<rparr>) = Some (True, d')"
  shows "dec_go act (bs @ rest) d = dec_go act rest d'"
  using dec_go_block[OF assms(3) _ dec_take_tmp[OF assms(1,2,4)], of act rest] assms
    dec_go_step[where act = act and st = st, OF _ _ assms(6)] by simp

context msg_sink
begin

lemma v0_flags_tail:
  assumes "dnext d = Some Flags_ready" "read_pos d = Tmp 0" "to_read d = 1" "length (dtmpbuf d) = 8" "has_sink d"
    "\<forall>a n. malloc_ok (dmem d) a n" "body_buf (in_progress d) (dmem d) (length bs)" "mflags (in_progress d) = 0"
    "msg_size (in_progress d) (dmem d) = Some (word_of_nat (length bs))" "length bs < 2 ^ 64"
  shows "\<exists>d'. dec_go (v0_act push) ((if mo then flag_more else 0) # bs) d = Some d' \<and>
    took One_byte_size_ready d (mo, bs) d'"
proof -
  let ?fl = "if mo then flag_more else 0"
  let ?m = "msg_set_flags (?fl AND flag_more) (in_progress d)"
  let ?e = "d\<lparr>dtmpbuf := [?fl] @ drop 1 (dtmpbuf d), read_pos := Tmp 1, to_read := 0\<rparr>"
  let ?e' = "dec_next_step (Body 0) (length bs) Message_ready (?e\<lparr>in_progress := ?m\<rparr>)"
  have sz: "unat (word_of_nat (length bs) :: u64) = length bs"
    using assms(10) by (simp add: unsigned_of_nat take_bit_nat_eq_self)
  have "v0_act push Flags_ready ?e = Some (True, ?e')"
    using assms(9) sz by (simp add: flags_ready_def Let_def)
  then have "dec_go (v0_act push) ([?fl] @ bs) d = dec_go (v0_act push) bs ?e'"
    using assms(1-4) by (intro dec_go_tmp[where st = Flags_ready]) simp_all
  moreover have "\<exists>d'. dec_go (v0_act push) bs ?e' = Some d' \<and>
      took One_byte_size_ready ?e' (mflags (in_progress ?e') AND flag_more \<noteq> 0, bs) d'"
    by (rule body_law) (use assms in \<open>simp_all add: dec_next_step_def\<close>)
  moreover have "(mflags (in_progress ?e') AND flag_more \<noteq> 0) = mo" using assms(8) by (simp add: dec_next_step_def)
  ultimately show ?thesis by (simp add: took_def dec_next_step_def)
qed

lemma v0_frame_law:
  assumes d: "dec_ready One_byte_size_ready d" and fit: "frame_fits (maxmsgsize d) f"
  shows "\<exists>d'. dec_bytes (v0_act push) (v0_frame f) d = Some d' \<and> took One_byte_size_ready d f d'"
proof -
  obtain mo bs where f: "f = (mo, bs)" by (cases f)
  let ?n = "length bs"
  have n: "?n < 2 ^ 64 - 41" "maxmsgsize d < 2 ^ 63" "maxmsgsize d \<ge> 0 \<Longrightarrow> int ?n \<le> maxmsgsize d"
    using fit by (simp_all add: f frame_fits_def)
  note r = d[unfolded dec_ready_def]
  have go: "dec_bytes (v0_act push) xs d = dec_go (v0_act push) xs d" for xs using r by (simp add: dec_go_nz)
  obtain m h where init: "msg_init_size (word_of_nat ?n) (in_progress d) (dmem d) = Some (Inr (), m, h)"
    "body_buf m h ?n" "msg_size m h = Some (word_of_nat ?n)" "mflags m = 0" "malloc_ok h = malloc_ok (dmem d)"
    using body_buf_init[of "in_progress d" ?n "dmem d"] r n(1) by auto
  have tail: "\<exists>d'. dec_go (v0_act push) ((if mo then flag_more else 0) # bs)
      (dec_next_step (Tmp 0) 1 Flags_ready (d\<lparr>dtmpbuf := tb, read_pos := p, to_read := 0, in_progress := m, dmem := h\<rparr>)) = Some d' \<and>
      took One_byte_size_ready d f d'" if "length tb = 8" for tb p
    using v0_flags_tail[of "dec_next_step (Tmp 0) 1 Flags_ready
      (d\<lparr>dtmpbuf := tb, read_pos := p, to_read := 0, in_progress := m, dmem := h\<rparr>)" bs mo] that init r n(1)
    by (simp add: dec_next_step_def took_def f)
  show ?thesis
  proof (cases "?n + 1 < 255")
    case True
    define b where "b = (word_of_nat (?n + 1) :: u8)"
    have b: "unat b = ?n + 1" unfolding b_def using True
      by (simp only: unsigned_of_nat take_bit_nat_eq_self) (simp add: take_bit_nat_eq_self)
    have "ucast b = (word_of_nat (unat b) :: u64)"
      using unsigned_less[of b] by (simp add: word_unat_eq_iff unsigned_ucast_eq unsigned_of_nat take_bit_nat_eq_self)
    then have b1: "ucast b = (word_of_nat ?n :: u64) + 1" unfolding b by simp
    have b0: "b \<noteq> 255" "b \<noteq> 0" using True b by auto
    have nm: "maxmsgsize d \<ge> 0 \<longrightarrow> \<not> maxmsgsize d < int ?n" using n(3) by auto
    have b2: "uint b = int ?n + 1" using b by (metis int_ops(2) of_nat_add uint_nat)
    let ?e = "d\<lparr>dtmpbuf := [b] @ drop 1 (dtmpbuf d), read_pos := Tmp 1, to_read := 0\<rparr>"
    have "v0_act push One_byte_size_ready ?e =
        Some (True, dec_next_step (Tmp 0) 1 Flags_ready (?e\<lparr>in_progress := m, dmem := h\<rparr>))"
      using b0 b1 b2 nm init(1) by (simp add: one_byte_size_ready_def)
    then have "dec_go (v0_act push) ([b] @ (if mo then flag_more else 0) # bs) d =
        dec_go (v0_act push) ((if mo then flag_more else 0) # bs)
          (dec_next_step (Tmp 0) 1 Flags_ready (?e\<lparr>in_progress := m, dmem := h\<rparr>))"
      using r by (intro dec_go_tmp[where st = One_byte_size_ready]) simp_all
    moreover have "v0_frame f = [b] @ (if mo then flag_more else 0) # bs"
      using True by (simp add: v0_frame_def f Let_def b_def)
    ultimately show ?thesis using tail[of "[b] @ drop 1 (dtmpbuf d)" "Tmp 1"] r unfolding go by simp
  next
    case False
    let ?p = "put_uint64 (word_of_nat (?n + 1))"
    let ?e = "d\<lparr>dtmpbuf := [255] @ drop 1 (dtmpbuf d), read_pos := Tmp 1, to_read := 0\<rparr>"
    let ?e1 = "dec_next_step (Tmp 0) 8 Eight_byte_size_ready ?e"
    let ?e2 = "?e1\<lparr>dtmpbuf := ?p @ drop 8 (dtmpbuf ?e1), read_pos := Tmp 8, to_read := 0\<rparr>"
    have "v0_act push One_byte_size_ready ?e = Some (True, ?e1)" by (simp add: one_byte_size_ready_def)
    then have 1: "dec_go (v0_act push) ([255] @ rest) d = dec_go (v0_act push) rest ?e1" for rest
      using r by (intro dec_go_tmp[where st = One_byte_size_ready]) simp_all
    have sz: "unat (word_of_nat (?n + 1) :: u64) = ?n + 1"
      using n(1) by (simp only: unsigned_of_nat) (simp add: take_bit_nat_eq_self)
    have nz: "(word_of_nat (?n + 1) :: u64) \<noteq> 0" using sz by (metis add_is_0 one_neq_zero unat_0)
    have max: "\<not> (word_of_nat ?n :: u64) > word_of_int (maxmsgsize d)" if "maxmsgsize d \<ge> 0"
    proof -
      have "unat (word_of_int (maxmsgsize d) :: u64) = nat (maxmsgsize d)"
        using that n(2) by (simp add: unat_eq_nat_uint uint_word_of_int_eq take_bit_int_eq_self)
      moreover have "unat (word_of_nat ?n :: u64) = ?n" using n(1) by (simp add: unsigned_of_nat take_bit_nat_eq_self)
      ultimately show ?thesis using n(3)[OF that] that by (simp add: word_less_nat_alt)
    qed
    have "v0_act push Eight_byte_size_ready ?e2 =
        Some (True, dec_next_step (Tmp 0) 1 Flags_ready (?e2\<lparr>in_progress := m, dmem := h\<rparr>))"
      using wire_uint64[of "word_of_nat (?n + 1)" "drop 8 (dtmpbuf ?e1)"] nz max init(1)
      by (simp add: eight_byte_size_ready_def dec_next_step_def word_order.extremum_strict)
    then have 2: "dec_go (v0_act push) (?p @ rest) ?e1 =
        dec_go (v0_act push) rest (dec_next_step (Tmp 0) 1 Flags_ready (?e2\<lparr>in_progress := m, dmem := h\<rparr>))" for rest
      using r by (intro dec_go_tmp[where st = Eight_byte_size_ready]) (simp_all add: dec_next_step_def)
    have frame: "v0_frame f = [255] @ ?p @ (if mo then flag_more else 0) # bs"
      using False by (simp add: v0_frame_def f Let_def)
    show ?thesis using tail[of ?p "Tmp 8"] r unfolding go frame 1 2 by (simp add: dec_next_step_def)
  qed
qed

lemma v1_size_tail:
  assumes "read_pos d = Tmp 0" "to_read d = length sb" "sb \<noteq> []" "length sb \<le> 8" "length (dtmpbuf d) = 8" "has_sink d"
    "\<forall>a n. malloc_ok (dmem d) a n" "length (vdata (in_progress d)) = max_vsm_size"
    "msg_flags d = (if mo then flag_more else 0)" "frame_fits (maxmsgsize d) (mo, bs)" "dnext d = Some st"
    and st: "\<And>e. dtmpbuf e = sb @ drop (length sb) (dtmpbuf d) \<Longrightarrow>
      v1_act push st e = v1_size_ready (word_of_nat (length bs)) e"
  shows "\<exists>d'. dec_go (v1_act push) (sb @ bs) d = Some d' \<and> took Flags_ready d (mo, bs) d'"
proof -
  let ?n = "length bs"
  have n: "?n < 2 ^ 64 - 41" "maxmsgsize d < 2 ^ 63" "maxmsgsize d \<ge> 0 \<Longrightarrow> int ?n \<le> maxmsgsize d"
    using assms(10) by (simp_all add: frame_fits_def)
  have sz: "unat (word_of_nat ?n :: u64) = ?n" using n(1) by (simp add: unsigned_of_nat take_bit_nat_eq_self)
  have max: "\<not> (word_of_nat ?n :: u64) > word_of_int (maxmsgsize d)" if "maxmsgsize d \<ge> 0"
  proof -
    have "unat (word_of_int (maxmsgsize d) :: u64) = nat (maxmsgsize d)"
      using that n(2) by (simp add: unat_eq_nat_uint uint_word_of_int_eq take_bit_int_eq_self)
    then show ?thesis using n(3)[OF that] that sz by (simp add: word_less_nat_alt)
  qed
  obtain m h where init: "msg_init_size (word_of_nat ?n) (in_progress d) (dmem d) = Some (Inr (), m, h)"
    "body_buf m h ?n" "msg_size m h = Some (word_of_nat ?n)" "mflags m = 0" "malloc_ok h = malloc_ok (dmem d)"
    using body_buf_init[of "in_progress d" ?n "dmem d"] assms(7,8) n(1) by auto
  let ?e = "d\<lparr>dtmpbuf := sb @ drop (length sb) (dtmpbuf d), read_pos := Tmp (length sb), to_read := 0\<rparr>"
  let ?m = "msg_set_flags (msg_flags d) m"
  let ?e' = "dec_next_step (Body 0) ?n Message_ready (?e\<lparr>in_progress := ?m, dmem := h\<rparr>)"
  have "v1_act push st ?e = Some (True, ?e')"
    using st[of ?e] max init(1,3) sz by (simp add: v1_size_ready_def Let_def)
  then have "dec_go (v1_act push) (sb @ bs) d = dec_go (v1_act push) bs ?e'"
    using assms(1-5,11) by (intro dec_go_tmp[where st = st]) simp_all
  moreover have "\<exists>d'. dec_go (v1_act push) bs ?e' = Some d' \<and>
      took Flags_ready ?e' (mflags (in_progress ?e') AND flag_more \<noteq> 0, bs) d'"
    by (rule body_law) (use assms init in \<open>simp_all add: dec_next_step_def\<close>)
  moreover have "(mflags (in_progress ?e') AND flag_more \<noteq> 0) = mo"
    using assms(9) init(4) by (simp add: dec_next_step_def)
  ultimately show ?thesis by (simp add: took_def dec_next_step_def)
qed

lemma v1_frame_law:
  assumes d: "dec_ready Flags_ready d" and fit: "frame_fits (maxmsgsize d) f"
  shows "\<exists>d'. dec_bytes (v1_act push) (v1_frame f) d = Some d' \<and> took Flags_ready d f d'"
proof -
  obtain mo bs where f: "f = (mo, bs)" by (cases f)
  let ?n = "length bs"
  let ?mo = "if mo then more_flag else 0"
  note r = d[unfolded dec_ready_def]
  have go: "dec_bytes (v1_act push) xs d = dec_go (v1_act push) xs d" for xs using r by (simp add: dec_go_nz)
  have n64: "?n < 2 ^ 64" using fit by (simp add: f frame_fits_def)
  let ?e = "\<lambda>b. d\<lparr>dtmpbuf := [b] @ drop 1 (dtmpbuf d), read_pos := Tmp 1, to_read := 0, msg_flags := ?mo\<rparr>"
  let ?e1 = "\<lambda>b n st. dec_next_step (Tmp 0) n st (?e b)"
  have flags: "dec_go (v1_act push) ([b] @ rest) d = dec_go (v1_act push) rest (?e1 b n st)"
    if "(b AND more_flag \<noteq> 0) = mo" "(n, st) = (if b AND large_flag \<noteq> 0 then (8, Eight_byte_size_ready) else (1, One_byte_size_ready))"
    for b rest n st
    by (rule dec_go_tmp[where st = Flags_ready]) (use r that in \<open>auto simp: v1_flags_ready_def Let_def split: if_splits\<close>)
  have took: "took Flags_ready d f d'" if "took Flags_ready (?e1 b n st) (mo, bs) d'" for b n st d'
    using that by (simp add: took_def dec_next_step_def f)
  show ?thesis
  proof (cases "?n > 255")
    case True
    let ?p = "put_uint64 (word_of_nat ?n)"
    let ?d1 = "?e1 (?mo OR large_flag) 8 Eight_byte_size_ready"
    have "\<exists>d'. dec_go (v1_act push) (?p @ bs) ?d1 = Some d' \<and> took Flags_ready ?d1 (mo, bs) d'"
    proof (rule v1_size_tail[where st = Eight_byte_size_ready])
      fix e :: "'k decoder" assume "dtmpbuf e = ?p @ drop (length ?p) (dtmpbuf ?d1)"
      then show "v1_act push Eight_byte_size_ready e = v1_size_ready (word_of_nat ?n) e"
        using wire_uint64[of "word_of_nat ?n" "drop (length ?p) (dtmpbuf ?d1)"] by (simp add: v1_eight_byte_size_ready_def)
    qed (use r fit f in \<open>simp_all add: dec_next_step_def\<close>)
    moreover have "v1_frame f = [?mo OR large_flag] @ ?p @ bs" using True by (simp add: v1_frame_def f Let_def)
    moreover have "((?mo OR large_flag) AND more_flag \<noteq> 0) = mo" "(?mo OR large_flag) AND large_flag \<noteq> 0" by simp_all
    ultimately show ?thesis using flags[of "?mo OR large_flag" 8 Eight_byte_size_ready "?p @ bs"] took unfolding go by auto
  next
    case False
    define b where "b = (word_of_nat ?n :: u8)"
    have b: "unat b = ?n" unfolding b_def using False by (simp add: unsigned_of_nat take_bit_nat_eq_self)
    have "ucast b = (word_of_nat (unat b) :: u64)"
      using unsigned_less[of b] by (simp add: word_unat_eq_iff unsigned_ucast_eq unsigned_of_nat take_bit_nat_eq_self)
    then have ub: "ucast b = (word_of_nat ?n :: u64)" unfolding b .
    let ?d1 = "?e1 ?mo 1 One_byte_size_ready"
    have "\<exists>d'. dec_go (v1_act push) ([b] @ bs) ?d1 = Some d' \<and> took Flags_ready ?d1 (mo, bs) d'"
    proof (rule v1_size_tail[where st = One_byte_size_ready])
      fix e :: "'k decoder" assume "dtmpbuf e = [b] @ drop (length [b]) (dtmpbuf ?d1)"
      then show "v1_act push One_byte_size_ready e = v1_size_ready (word_of_nat ?n) e"
        using ub by (simp add: v1_one_byte_size_ready_def)
    qed (use r fit f in \<open>simp_all add: dec_next_step_def\<close>)
    moreover have "v1_frame f = [?mo] @ [b] @ bs" using False by (simp add: v1_frame_def f Let_def b_def)
    moreover have "(?mo AND more_flag \<noteq> 0) = mo" "\<not> ?mo AND large_flag \<noteq> 0" by simp_all
    ultimately show ?thesis using flags[of ?mo 1 One_byte_size_ready "[b] @ bs"] took unfolding go by auto
  qed
qed

end

subsection \<open>Streams of frames\<close>

text \<open>A decoder that turns any sequence of frames, cut into buffers in any way, into messages.\<close>

locale frame_reader =
  fixes act :: "'k act" and first :: dstep and enc :: "frame \<Rightarrow> u8 list" and log :: "'k \<Rightarrow> frame list"
  assumes frame_law: "dec_ready first d \<Longrightarrow> frame_fits (maxmsgsize d) f \<Longrightarrow>
    \<exists>d'. dec_bytes act (enc f) d = Some d' \<and> dec_ready first d' \<and> maxmsgsize d' = maxmsgsize d \<and>
      dbufsize d' = dbufsize d \<and> log (sink d') = log (sink d) @ [f]"
    and act_live: "act st d = Some (True, d') \<Longrightarrow> dnext d' \<noteq> None \<and> dbufsize d' = dbufsize d"

text \<open>Feeding buffers one after the other; each has to be processed completely.\<close>

fun dec_feeds :: "'k act \<Rightarrow> u8 list list \<Rightarrow> 'k decoder \<Rightarrow> 'k decoder option" where
  "dec_feeds act [] d = Some d"
| "dec_feeds act (c # cs) d = do {
     (r, d) \<leftarrow> dec_feed act c d;
     zmq_assert (r = Inr (length c));
     dec_feeds act cs d }"

lemma dec_bytes_append: "dec_bytes act (xs @ ys) d = do { d \<leftarrow> dec_bytes act xs d; dec_bytes act ys d }"
proof (induction xs arbitrary: d)
  case (Cons x xs)
  show ?case
  proof (cases "dec_take [x] d")
    case (Some d1)
    show ?thesis
    proof (cases "dec_settle act d1")
      case (Some p)
      with \<open>dec_take [x] d = Some d1\<close> show ?thesis using Cons.IH by (cases p) (simp add: assert_bind)
    qed (use Some in simp)
  qed simp
qed simp

context frame_reader
begin

lemma settle_live:
  assumes "dec_settle act d = Some (ok, d')" "dnext d \<noteq> None" "ok"
  shows "dnext d' \<noteq> None \<and> dbufsize d' = dbufsize d"
proof -
  have "a = act \<longrightarrow> dnext d \<noteq> None \<longrightarrow> fst r \<longrightarrow> dnext (snd r) \<noteq> None \<and> dbufsize (snd r) = dbufsize d"
    if "dec_settle a d = Some r" for a r and d :: "'k decoder"
    using that
  proof (rule dec_settle.raw_induct[of "\<lambda>a d r. a = act \<longrightarrow> dnext d \<noteq> None \<longrightarrow> fst r \<longrightarrow>
      dnext (snd r) \<noteq> None \<and> dbufsize (snd r) = dbufsize d", rotated 1])
  qed (use act_live in \<open>fastforce simp: bind_Some_iff split: if_splits prod.splits\<close>)
  from this[OF assms(1)] assms(2,3) show ?thesis by simp
qed

lemma bytes_live:
  "dec_bytes act bs d = Some d' \<Longrightarrow> dnext d \<noteq> None \<Longrightarrow> dnext d' \<noteq> None \<and> dbufsize d' = dbufsize d"
proof (induction bs arbitrary: d)
  case (Cons b bs)
  then obtain d1 d2 where d: "dec_take [b] d = Some d1" "dec_settle act d1 = Some (True, d2)" "dec_bytes act bs d2 = Some d'"
    by (auto simp: bind_Some_iff)
  then show ?case using Cons.IH[OF d(3)] settle_live[OF d(2)] dec_take_keeps(3,4)[OF d(1)] Cons.prems(2) by simp
qed simp

lemma feeds_bytes:
  assumes "dec_bytes act (concat cs) d = Some d'" "to_read d \<noteq> 0" "dnext d \<noteq> None"
    "\<forall>c \<in> set cs. c \<noteq> [] \<and> length c \<le> dbufsize d"
  shows "dec_feeds act cs d = Some d'"
  using assms
proof (induction cs arbitrary: d)
  case (Cons c cs)
  obtain d1 where d1: "dec_bytes act c d = Some d1" "dec_bytes act (concat cs) d1 = Some d'"
    using Cons.prems(1) by (auto simp: dec_bytes_append bind_Some_iff)
  have "length c \<le> snd (get_buffer d)" "c \<noteq> []" using Cons.prems(4) by (auto simp: get_buffer_def)
  note feed = dec_feed_bytes[OF d1(1) Cons.prems(2,3) this(2,1)]
  note live = bytes_live[OF d1(1) Cons.prems(3)]
  show ?case using feed Cons.IH[OF d1(2)] live Cons.prems(4) by simp
qed simp

lemma frames_bytes:
  assumes "dec_ready first d" "\<forall>f \<in> set fs. frame_fits (maxmsgsize d) f"
  shows "\<exists>d'. dec_bytes act (concat (map enc fs)) d = Some d' \<and> dec_ready first d' \<and> log (sink d') = log (sink d) @ fs"
  using assms
proof (induction fs arbitrary: d)
  case (Cons f fs)
  obtain d1 where d1: "dec_bytes act (enc f) d = Some d1" "dec_ready first d1" "maxmsgsize d1 = maxmsgsize d"
    "log (sink d1) = log (sink d) @ [f]"
    using frame_law[OF Cons.prems(1), of f] Cons.prems(2) by auto
  then show ?case using Cons.IH[OF d1(2)] Cons.prems(2) by (auto simp: dec_bytes_append)
qed simp

lemma reads_frames:
  assumes "dec_ready first d" "\<forall>f \<in> set fs. frame_fits (maxmsgsize d) f"
    "concat cs = concat (map enc fs)" "\<forall>c \<in> set cs. c \<noteq> [] \<and> length c \<le> dbufsize d"
  shows "\<exists>d'. dec_feeds act cs d = Some d' \<and> dec_ready first d' \<and> log (sink d') = log (sink d) @ fs"
proof -
  obtain d' where d': "dec_bytes act (concat cs) d = Some d'" "dec_ready first d'" "log (sink d') = log (sink d) @ fs"
    using frames_bytes[OF assms(1,2)] assms(3) by auto
  have "to_read d \<noteq> 0" "dnext d \<noteq> None" using assms(1) by (simp_all add: dec_ready_def)
  from feeds_bytes[OF d'(1) this assms(4)] d'(2,3) show ?thesis by blast
qed

end

lemma v0_act_live: "v0_act push st d = Some (True, d') \<Longrightarrow> dnext d' \<noteq> None \<and> dbufsize d' = dbufsize d"
  by (cases st) (auto simp: one_byte_size_ready_def eight_byte_size_ready_def flags_ready_def message_ready_def
      dec_next_step_def bind_Some_iff Let_def split: if_splits sum.splits)

lemma v1_act_live: "v1_act push st d = Some (True, d') \<Longrightarrow> dnext d' \<noteq> None \<and> dbufsize d' = dbufsize d"
  by (cases st) (auto simp: v1_flags_ready_def v1_one_byte_size_ready_def v1_eight_byte_size_ready_def v1_size_ready_def
      message_ready_def dec_next_step_def bind_Some_iff Let_def split: if_splits sum.splits)

sublocale msg_sink \<subseteq> v0: frame_reader "v0_act push" One_byte_size_ready v0_frame log
proof
  show "\<exists>d'. dec_bytes (v0_act push) (v0_frame f) d = Some d' \<and> dec_ready One_byte_size_ready d' \<and>
      maxmsgsize d' = maxmsgsize d \<and> dbufsize d' = dbufsize d \<and> log (sink d') = log (sink d) @ [f]"
    if "dec_ready One_byte_size_ready d" "frame_fits (maxmsgsize d) f" for d f
    using v0_frame_law[OF that] by (auto simp: took_def)
qed (fact v0_act_live)

sublocale msg_sink \<subseteq> v1: frame_reader "v1_act push" Flags_ready v1_frame log
proof
  show "\<exists>d'. dec_bytes (v1_act push) (v1_frame f) d = Some d' \<and> dec_ready Flags_ready d' \<and>
      maxmsgsize d' = maxmsgsize d \<and> dbufsize d' = dbufsize d \<and> log (sink d') = log (sink d) @ [f]"
    if "dec_ready Flags_ready d" "frame_fits (maxmsgsize d) f" for d f
    using v1_frame_law[OF that] by (auto simp: took_def)
qed (fact v1_act_live)

end
