(* ===== verification/Encoder.thy ===== *)
theory Encoder
  imports Decoder
begin

text \<open>
  The encoders: \<^verbatim>\<open>encoder_base_t\<close> and \<^verbatim>\<open>encoder_t\<close> (src/encoder.hpp, src/encoder.cpp) and
  \<^verbatim>\<open>v1_encoder_t\<close> (src/v1_encoder.cpp), in the style of the decoders: \<^verbatim>\<open>write_pos\<close> is an
  offset into \<^verbatim>\<open>tmpbuf\<close> or into the data of \<^verbatim>\<open>in_progress\<close>, the message source is a function
  on a state \<open>'k\<close> of its own. The lemmas show that the concatenation of the buffers an encoder
  returns is the concatenation of the frames of the messages it pulls, whatever the buffer size
  and with or without the zero-copy path; with the decoders this gives the round trips.
\<close>

unbundle bit_operations_syntax

datatype estep = Size_ready | Msg_ready

record 'k encoder =
  write_pos :: rpos
  to_write :: nat
  enext :: estep
  beginning :: bool
  ebufsize :: nat
  etmpbuf :: "u8 list"
  e_in_progress :: msg
  emem :: mem
  has_source :: bool
  source :: 'k

type_synonym 'k pull = "msg \<Rightarrow> mem \<Rightarrow> 'k \<Rightarrow> (rc \<times> msg \<times> mem \<times> 'k) option"
type_synonym 'k eact = "estep \<Rightarrow> 'k encoder \<Rightarrow> (bool \<times> 'k encoder) option"

subsection \<open>The base class\<close>

definition enc_next_step :: "rpos \<Rightarrow> nat \<Rightarrow> estep \<Rightarrow> bool \<Rightarrow> 'k encoder \<Rightarrow> 'k encoder" where
  "enc_next_step w n st b e = e\<lparr>write_pos := w, to_write := n, enext := st, beginning := b\<rparr>"

text \<open>
  The \<open>n\<close> bytes at \<^verbatim>\<open>write_pos\<close>; reading outside the buffer is undefined, copying no bytes
  does nothing.
\<close>

definition enc_read :: "nat \<Rightarrow> 'k encoder \<Rightarrow> u8 list option" where
  "enc_read n e = (if n = 0 then Some [] else case write_pos e of
     RNull \<Rightarrow> None
   | Tmp i \<Rightarrow> if i + n \<le> length (etmpbuf e) then Some (take n (drop i (etmpbuf e))) else None
   | Body i \<Rightarrow> do {
       bs \<leftarrow> msg_data (e_in_progress e) (emem e);
       if i + n \<le> length bs then Some (take n (drop i bs)) else None })"

definition enc_advance :: "nat \<Rightarrow> 'k encoder \<Rightarrow> 'k encoder" where
  "enc_advance n e = e\<lparr>write_pos := (case write_pos e of RNull \<Rightarrow> RNull | Tmp i \<Rightarrow> Tmp (i + n) | Body i \<Rightarrow> Body (i + n)),
     to_write := to_write e - n\<rparr>"

text \<open>
  The loop of \<^verbatim>\<open>get_data\<close>: \<open>own\<close> when no buffer was supplied, \<open>size\<close> the size of the buffer, \<open>buf\<close>
  what it already holds (\<^verbatim>\<open>pos\<close> bytes), \<open>off\<close> the offset of the first message that begins in it.
\<close>

partial_function (option) enc_loop :: "'k eact \<Rightarrow> bool \<Rightarrow> nat \<Rightarrow> u8 list \<Rightarrow> int \<Rightarrow> 'k encoder
    \<Rightarrow> (u8 list \<times> int \<times> 'k encoder) option" where
  "enc_loop act own sz buf off e =
    (if length buf \<ge> sz then Some (buf, off, e)
     else do {
       (ok, off, e) \<leftarrow>
         (if to_write e = 0 then do {
            let off = (if beginning e \<and> off = -1 then int (length buf) else off);
            (ok, e) \<leftarrow> act (enext e) e;
            Some (ok, off, e) }
          else Some (True, off, e));
       if \<not> ok then Some (buf, off, e)
       else if buf = [] \<and> own \<and> to_write e \<ge> sz then do {
         bs \<leftarrow> enc_read (to_write e) e;
         Some (bs, off, e\<lparr>write_pos := RNull, to_write := 0\<rparr>) }
       else do {
         let n = min (to_write e) (sz - length buf);
         bs \<leftarrow> enc_read n e;
         enc_loop act own sz (buf @ bs) off (enc_advance n e) } })"

text \<open>\<open>None\<close>: no buffer supplied, the encoder uses its own; the offset is computed either way.\<close>

definition get_data :: "'k eact \<Rightarrow> nat option \<Rightarrow> 'k encoder \<Rightarrow> (u8 list \<times> int \<times> 'k encoder) option" where
  "get_data act user e = enc_loop act (user = None) (case user of None \<Rightarrow> ebufsize e | Some n \<Rightarrow> n) [] (-1) e"

subsection \<open>Both versions\<close>

definition encoder_init :: "nat \<Rightarrow> nat \<Rightarrow> msg \<Rightarrow> mem \<Rightarrow> bool \<Rightarrow> 'k \<Rightarrow> 'k encoder" where
  "encoder_init tmpsize bufsize m h src k = enc_next_step RNull 0 Msg_ready True
     \<lparr>write_pos = RNull, to_write = 0, enext = Msg_ready, beginning = True, ebufsize = bufsize,
      etmpbuf = replicate tmpsize 0, e_in_progress = msg_init m, emem = h, has_source = src, source = k\<rparr>"

definition set_msg_source :: "'k \<Rightarrow> 'k encoder \<Rightarrow> 'k encoder" where
  "set_msg_source k e = e\<lparr>has_source := True, source := k\<rparr>"

definition enc_size_ready :: "'k encoder \<Rightarrow> (bool \<times> 'k encoder) option" where
  "enc_size_ready e = do {
     n \<leftarrow> msg_size (e_in_progress e) (emem e);
     Some (True, enc_next_step (Body 0) (unat n) Msg_ready (mflags (e_in_progress e) AND flag_more = 0) e) }"

text \<open>Closing the old message and pulling the next, the first half of \<^verbatim>\<open>message_ready\<close>.\<close>

definition enc_pull :: "'k pull \<Rightarrow> 'k encoder \<Rightarrow> (bool \<times> 'k encoder) option" where
  "enc_pull pull e = do {
     (rc, m, h) \<leftarrow> msg_close (e_in_progress e) (emem e);
     zmq_assert (rc = Inr ());
     if \<not> has_source e then Some (False, e\<lparr>e_in_progress := msg_init m, emem := h\<rparr>)
     else do {
       (rc, m, h, k) \<leftarrow> pull m h (source e);
       case rc of
         Inl err \<Rightarrow> do {
           zmq_assert (err = EAGAIN);
           Some (False, e\<lparr>e_in_progress := msg_init m, emem := h, source := k\<rparr>) }
       | Inr _ \<Rightarrow> Some (True, e\<lparr>e_in_progress := m, emem := h, source := k\<rparr>) } }"

text \<open>Storing bytes at the start of \<^verbatim>\<open>tmpbuf\<close>.\<close>

definition tmp_store :: "u8 list \<Rightarrow> 'k encoder \<Rightarrow> 'k encoder option" where
  "tmp_store bs e = (if length bs \<le> length (etmpbuf e)
     then Some (e\<lparr>etmpbuf := bs @ drop (length bs) (etmpbuf e)\<rparr>) else None)"

definition enc_message_ready :: "'k pull \<Rightarrow> 'k encoder \<Rightarrow> (bool \<times> 'k encoder) option" where
  "enc_message_ready pull e = do {
     (ok, e) \<leftarrow> enc_pull pull e;
     if \<not> ok then Some (False, e)
     else do {
       n \<leftarrow> msg_size (e_in_progress e) (emem e);
       let (sz, flags) = (n + 1, mflags (e_in_progress e) AND flag_more);
       if sz < 255 then do {
         e \<leftarrow> tmp_store [ucast sz, flags] e;
         Some (True, enc_next_step (Tmp 0) 2 Size_ready False e) }
       else do {
         e \<leftarrow> tmp_store (255 # put_uint64 sz @ [flags]) e;
         Some (True, enc_next_step (Tmp 0) 10 Size_ready False e) } } }"

fun v0_eact :: "'k pull \<Rightarrow> 'k eact" where
  "v0_eact pull Size_ready e = enc_size_ready e"
| "v0_eact pull Msg_ready e = enc_message_ready pull e"

definition v1_message_ready :: "'k pull \<Rightarrow> 'k encoder \<Rightarrow> (bool \<times> 'k encoder) option" where
  "v1_message_ready pull e = do {
     (ok, e) \<leftarrow> enc_pull pull e;
     if \<not> ok then Some (False, e)
     else do {
       sz \<leftarrow> msg_size (e_in_progress e) (emem e);
       let protocol_flags = (if mflags (e_in_progress e) AND flag_more \<noteq> 0 then more_flag else 0);
       let protocol_flags = (if sz > 255 then protocol_flags OR large_flag else protocol_flags);
       if sz > 255 then do {
         e \<leftarrow> tmp_store (protocol_flags # put_uint64 sz) e;
         Some (True, enc_next_step (Tmp 0) 9 Size_ready False e) }
       else do {
         e \<leftarrow> tmp_store [protocol_flags, ucast sz] e;
         Some (True, enc_next_step (Tmp 0) 2 Size_ready False e) } } }"

fun v1_eact :: "'k pull \<Rightarrow> 'k eact" where
  "v1_eact pull Size_ready e = enc_size_ready e"
| "v1_eact pull Msg_ready e = v1_message_ready pull e"


subsection \<open>The stream of bytes an encoder still has to write\<close>

text \<open>A source of messages: the frames it still holds, and its invariant with the message in progress.\<close>

locale msg_source =
  fixes pull :: "'k pull" and frames :: "mem \<Rightarrow> 'k \<Rightarrow> frame list" and ok :: "msg \<Rightarrow> mem \<Rightarrow> 'k \<Rightarrow> bool"
  assumes pull_law: "ok m h k \<Longrightarrow> \<exists>h1 rc m' h2 k'. msg_close m h = Some (Inr (), m\<lparr>mtype := 0\<rparr>, h1) \<and>
    pull (m\<lparr>mtype := 0\<rparr>) h1 k = Some (rc, m', h2, k') \<and>
    (case rc of Inl err \<Rightarrow> err = EAGAIN \<and> frames h k = [] \<and> frames h2 k' = [] \<and> ok (msg_init m') h2 k'
     | Inr _ \<Rightarrow> ok m' h2 k' \<and> (\<exists>mo bs. frames h k = (mo, bs) # frames h2 k' \<and> msg_data m' h2 = Some bs \<and>
         msg_size m' h2 = Some (word_of_nat (length bs)) \<and> length bs < 2 ^ 64 - 1 \<and>
         (mflags m' AND flag_more \<noteq> 0) = mo))"

definition pend :: "'k encoder \<Rightarrow> u8 list option" where
  "pend e = do {
     w \<leftarrow> enc_read (to_write e) e;
     if enext e = Size_ready then do {
       bs \<leftarrow> msg_data (e_in_progress e) (emem e);
       n \<leftarrow> msg_size (e_in_progress e) (emem e);
       if unat n = length bs then Some (w @ bs) else None }
     else Some w }"

lemma enc_read_split:
  assumes "enc_read (to_write e) e = Some w" "n \<le> to_write e"
  shows "enc_read n e = Some (take n w)" "enc_read (to_write e - n) (enc_advance n e) = Some (drop n w)"
    "length w = to_write e"
proof -
  have sl: "take n (take k (drop i v)) = take n (drop i v)" "take (k - n) (drop (i + n) v) = drop n (take k (drop i v))"
    if "n \<le> k" for i k and v :: "u8 list"
    using that by (simp_all add: min_def drop_take ac_simps)
  have "enc_read n e = Some (take n w) \<and> enc_read (to_write e - n) (enc_advance n e) = Some (drop n w) \<and>
    length w = to_write e"
  proof (cases "to_write e = 0")
    case True
    then show ?thesis using assms by (simp add: enc_read_def)
  next
    case nz: False
    show ?thesis
  proof (cases "write_pos e")
    case (Body i)
    then obtain bs where "msg_data (e_in_progress e) (emem e) = Some bs" "i + to_write e \<le> length bs"
      "w = take (to_write e) (drop i bs)"
      using assms(1) nz by (auto simp: enc_read_def bind_Some_iff split: if_splits)
    then show ?thesis using assms(2) Body sl by (auto simp: enc_read_def enc_advance_def)
  qed (use assms sl nz in \<open>auto simp: enc_read_def enc_advance_def split: if_splits\<close>)
  qed
  then show "enc_read n e = Some (take n w)" "enc_read (to_write e - n) (enc_advance n e) = Some (drop n w)"
    "length w = to_write e" by blast+
qed

lemma pend_advance:
  assumes "pend e = Some p" "n \<le> to_write e"
  obtains bs where "enc_read n e = Some bs" "length bs = n" "pend (enc_advance n e) = Some (drop n p)" "p = bs @ drop n p"
proof -
  obtain w where w: "enc_read (to_write e) e = Some w" using assms(1) by (auto simp: pend_def bind_Some_iff)
  note s = enc_read_split[OF w assms(2)]
  have f: "to_write (enc_advance n e) = to_write e - n" "enext (enc_advance n e) = enext e"
    "e_in_progress (enc_advance n e) = e_in_progress e" "emem (enc_advance n e) = emem e"
    by (simp_all add: enc_advance_def)
  obtain q where q: "p = w @ q" using assms(1) w by (auto simp: pend_def bind_Some_iff split: if_splits)
  have d: "drop n p = drop n w @ q" using q s(3) assms(2) by simp
  have "pend (enc_advance n e) = Some (drop n p)"
    using assms(1) w s(2) d q unfolding pend_def f by (auto simp: bind_Some_iff split: if_splits)
  moreover have "p = take n w @ drop n p" using q d by simp
  moreover have "length (take n w) = n" using s(3) assms(2) by simp
  ultimately show thesis using that s(1) by blast
qed


text \<open>
  An encoder as a writer of a byte stream: its invariant, the stream it still has to write, and
  what its steps do to it. The lemma is that the buffers it returns cut the stream into pieces.
\<close>

locale frame_writer =
  fixes eact :: "'k eact" and inv :: "'k encoder \<Rightarrow> bool" and stream :: "'k encoder \<Rightarrow> u8 list"
  assumes step_law: "inv e \<Longrightarrow> to_write e = 0 \<Longrightarrow> \<exists>ok e'. eact (enext e) e = Some (ok, e') \<and> inv e' \<and>
      stream e' = stream e \<and> (if ok then (if enext e = Msg_ready then to_write e' \<noteq> 0 else enext e' = Msg_ready)
        else stream e = [])"
    and write_law: "inv e \<Longrightarrow> n \<le> to_write e \<Longrightarrow> \<exists>bs. enc_read n e = Some bs \<and> length bs = n \<and>
      inv (enc_advance n e) \<and> stream e = bs @ stream (enc_advance n e)"
    and zero_copy_law: "inv e \<Longrightarrow> \<exists>bs. enc_read (to_write e) e = Some bs \<and> length bs = to_write e \<and>
      inv (e\<lparr>write_pos := RNull, to_write := 0\<rparr>) \<and> stream e = bs @ stream (e\<lparr>write_pos := RNull, to_write := 0\<rparr>)"
    and bufsize_law: "inv e \<Longrightarrow> 0 < ebufsize e"
begin

lemma loop_ok:
  assumes "inv e" "length buf \<le> sz"
  shows "\<exists>out off' e'. enc_loop eact own sz buf off e = Some (buf @ out, off', e') \<and> inv e' \<and>
    stream e = out @ stream e' \<and> (length buf < sz \<longrightarrow> out = [] \<longrightarrow> stream e = [])"
  using assms
proof (induction "2 * (sz - length buf) + (if enext e = Size_ready then 1 else 0)" arbitrary: e buf off rule: less_induct)
  case less
  show ?case
  proof (cases "length buf < sz")
    case False
    then show ?thesis using less.prems by (subst enc_loop.simps) auto
  next
    case True
    obtain ok off1 e1 where run: "(if to_write e = 0 then do {
            let off = (if beginning e \<and> off = -1 then int (length buf) else off);
            (ok, e) \<leftarrow> eact (enext e) e;
            Some (ok, off, e) }
          else Some (True, off, e)) = Some (ok, off1, e1)"
      and e1: "inv e1" "stream e1 = stream e" "\<not> ok \<Longrightarrow> stream e = []"
        "ok \<Longrightarrow> to_write e1 \<noteq> 0 \<or> (enext e = Size_ready \<and> enext e1 = Msg_ready)"
      using step_law[OF less.prems(1)] less.prems(1)
      by (cases "to_write e = 0"; cases "enext e") (fastforce simp: Let_def split: if_splits)+
    show ?thesis
    proof (cases ok)
      case False
      have "enc_loop eact own sz buf off e = Some (buf, off1, e1)"
        by (subst enc_loop.simps) (use True run False in simp)
      then show ?thesis using e1(1-3) False by simp
    next
      case ok: True
      show ?thesis
      proof (cases "buf = [] \<and> own \<and> to_write e1 \<ge> sz")
        case True
        obtain bs where bs: "enc_read (to_write e1) e1 = Some bs" "length bs = to_write e1"
          "inv (e1\<lparr>write_pos := RNull, to_write := 0\<rparr>)" "stream e1 = bs @ stream (e1\<lparr>write_pos := RNull, to_write := 0\<rparr>)"
          using zero_copy_law[OF e1(1)] by blast
        have "enc_loop eact own sz buf off e = Some (buf @ bs, off1, e1\<lparr>write_pos := RNull, to_write := 0\<rparr>)"
          by (subst enc_loop.simps) (use \<open>length buf < sz\<close> run ok True bs(1) in simp)
        moreover have "bs \<noteq> []" using bs(2) True \<open>length buf < sz\<close> by auto
        ultimately show ?thesis using bs(3,4) e1(2) by auto
      next
        case False
        let ?n = "min (to_write e1) (sz - length buf)"
        obtain bs where bs: "enc_read ?n e1 = Some bs" "length bs = ?n" "inv (enc_advance ?n e1)"
          "stream e1 = bs @ stream (enc_advance ?n e1)"
          using write_law[OF e1(1), of ?n] by auto
        have eq: "enc_loop eact own sz buf off e = enc_loop eact own sz (buf @ bs) off1 (enc_advance ?n e1)"
          by (subst enc_loop.simps) (use \<open>length buf < sz\<close> run ok False bs(1) in \<open>auto simp: Let_def\<close>)
        have nx: "enext (enc_advance ?n e1) = enext e1" by (simp add: enc_advance_def)
        have "2 * (sz - length (buf @ bs)) + (if enext (enc_advance ?n e1) = Size_ready then 1 else 0)
          < 2 * (sz - length buf) + (if enext e = Size_ready then 1 else 0)"
        proof (cases "to_write e1 = 0")
          case True
          then show ?thesis using e1(4)[OF ok] bs(2) unfolding nx by simp
        next
          case False
          then have "0 < ?n" using \<open>length buf < sz\<close> by simp
          then have "sz - length (buf @ bs) < sz - length buf" using bs(2) \<open>length buf < sz\<close> by simp
          then show ?thesis by simp
        qed
        moreover have "length (buf @ bs) \<le> sz" using bs(2) \<open>length buf < sz\<close> by simp
        ultimately obtain out off' e' where ih: "enc_loop eact own sz (buf @ bs) off1 (enc_advance ?n e1) =
            Some ((buf @ bs) @ out, off', e')" "inv e'" "stream (enc_advance ?n e1) = out @ stream e'"
          "length (buf @ bs) < sz \<longrightarrow> out = [] \<longrightarrow> stream (enc_advance ?n e1) = []"
          using less.hyps[OF _ bs(3)] by blast
        have "length buf < sz \<longrightarrow> bs @ out = [] \<longrightarrow> stream e = []" using ih(4) bs(4) e1(2) by auto
        moreover have "stream e = (bs @ out) @ stream e'" using bs(4) e1(2) ih(3) by simp
        ultimately show ?thesis using eq ih(1,2) by auto
      qed
    qed
  qed
qed

lemma get_data_ok:
  assumes "inv e" "user \<noteq> Some 0"
  shows "\<exists>out off e'. get_data eact user e = Some (out, off, e') \<and> inv e' \<and>
    stream e = out @ stream e' \<and> (out = [] \<longrightarrow> stream e = [])"
proof -
  let ?sz = "case user of None \<Rightarrow> ebufsize e | Some n \<Rightarrow> n"
  have "0 < ?sz" using assms bufsize_law by (auto split: option.splits)
  then show ?thesis using loop_ok[OF assms(1), of "[]" ?sz "user = None" "-1"] by (auto simp: get_data_def)
qed

end

text \<open>Draining an encoder: \<open>k\<close> calls of \<^verbatim>\<open>get_data\<close> with the encoder's own buffer.\<close>

fun enc_drain :: "'k eact \<Rightarrow> nat \<Rightarrow> 'k encoder \<Rightarrow> (u8 list list \<times> 'k encoder) option" where
  "enc_drain act 0 e = Some ([], e)"
| "enc_drain act (Suc k) e = do {
     (c, off, e) \<leftarrow> get_data act None e;
     (cs, e) \<leftarrow> enc_drain act k e;
     Some (c # cs, e) }"

context frame_writer
begin

lemma drain_ok:
  assumes "inv e"
  shows "\<exists>cs e'. enc_drain eact k e = Some (cs, e') \<and> inv e' \<and> stream e = concat cs @ stream e' \<and>
    (length (stream e) \<le> k \<longrightarrow> stream e' = [])"
  using assms
proof (induction k arbitrary: e)
  case (Suc k)
  obtain c off e1 where c: "get_data eact None e = Some (c, off, e1)" "inv e1" "stream e = c @ stream e1"
    "c = [] \<longrightarrow> stream e = []"
    using get_data_ok[OF Suc.prems, of None] by auto
  obtain cs e' where cs: "enc_drain eact k e1 = Some (cs, e')" "inv e'" "stream e1 = concat cs @ stream e'"
    "length (stream e1) \<le> k \<longrightarrow> stream e' = []"
    using Suc.IH[OF c(2)] by auto
  have "length (stream e) \<le> Suc k \<longrightarrow> stream e' = []"
  proof
    assume "length (stream e) \<le> Suc k"
    then have "length (stream e1) \<le> k" using c(3,4) by (cases c) auto
    then show "stream e' = []" using cs(4) by simp
  qed
  then show ?case using c cs by auto
qed simp

end


subsection \<open>The two encoders write frames\<close>

lemma and_more: "f AND flag_more = (if f AND flag_more \<noteq> 0 then flag_more else 0)" for f :: u8
proof -
  have "f AND flag_more = (if bit f 0 then 1 else 0)"
    by (rule bit_word_eqI) (auto simp: bit_and_iff bit_1_iff intro: gr0I)
  then show ?thesis by auto
qed

text \<open>The message body after the header.\<close>

lemma pend_body:
  assumes "enext e = Msg_ready" "write_pos e = Body 0" "to_write e = length bs"
    "msg_data (e_in_progress e) (emem e) = Some bs"
  shows "pend e = Some bs"
  using assms by (simp add: pend_def enc_read_def)

lemma pend_header:
  assumes "enext e = Size_ready" "write_pos e = Tmp 0" "to_write e = length hb" "etmpbuf e = hb @ tb"
    "msg_data (e_in_progress e) (emem e) = Some bs" "msg_size (e_in_progress e) (emem e) = Some n" "unat n = length bs"
  shows "pend e = Some (hb @ bs)"
  using assms by (simp add: pend_def enc_read_def)

context msg_source
begin

definition enc_inv :: "nat \<Rightarrow> 'k encoder \<Rightarrow> bool" where
  "enc_inv tmp e \<longleftrightarrow> has_source e \<and> 0 < ebufsize e \<and> tmp \<le> length (etmpbuf e) \<and>
     ok (e_in_progress e) (emem e) (source e) \<and> pend e \<noteq> None"

definition enc_stream :: "(frame \<Rightarrow> u8 list) \<Rightarrow> 'k encoder \<Rightarrow> u8 list" where
  "enc_stream frame e = the (pend e) @ concat (map frame (frames (emem e) (source e)))"

lemma enc_write_law:
  assumes "enc_inv tmp e" "n \<le> to_write e"
  shows "\<exists>bs. enc_read n e = Some bs \<and> length bs = n \<and> enc_inv tmp (enc_advance n e) \<and>
    enc_stream frame e = bs @ enc_stream frame (enc_advance n e)"
proof -
  obtain p where p: "pend e = Some p" using assms(1) by (auto simp: enc_inv_def)
  obtain bs where bs: "enc_read n e = Some bs" "length bs = n" "pend (enc_advance n e) = Some (drop n p)" "p = bs @ drop n p"
    by (rule pend_advance[OF p assms(2)])
  have "enc_stream frame e = bs @ enc_stream frame (enc_advance n e)"
    using p bs(3) arg_cong[OF bs(4), of "\<lambda>x. x @ concat (map frame (frames (emem e) (source e)))"]
    by (simp add: enc_stream_def enc_advance_def)
  moreover have "enc_inv tmp (enc_advance n e)" using assms(1) bs(3) by (simp add: enc_inv_def enc_advance_def)
  ultimately show ?thesis using bs(1,2) by blast
qed

lemma enc_zero_copy_law:
  assumes "enc_inv tmp e"
  shows "\<exists>bs. enc_read (to_write e) e = Some bs \<and> length bs = to_write e \<and>
    enc_inv tmp (e\<lparr>write_pos := RNull, to_write := 0\<rparr>) \<and>
    enc_stream frame e = bs @ enc_stream frame (e\<lparr>write_pos := RNull, to_write := 0\<rparr>)"
proof -
  let ?e = "e\<lparr>write_pos := RNull, to_write := 0\<rparr>"
  obtain p where p: "pend e = Some p" using assms by (auto simp: enc_inv_def)
  then obtain bs where bs: "enc_read (to_write e) e = Some bs" by (auto simp: pend_def bind_Some_iff)
  note len = enc_read_split(3)[OF bs order_refl]
  have "pend ?e = Some (drop (to_write e) p) \<and> p = bs @ drop (to_write e) p"
    using p bs len by (auto simp: pend_def enc_read_def bind_Some_iff split: if_splits)
  then show ?thesis using assms bs len p
    by (auto simp: enc_inv_def enc_stream_def intro!: exI[of _ bs])
qed

lemma size_ready_law:
  assumes "enc_inv tmp e" "to_write e = 0" "enext e = Size_ready"
  shows "\<exists>e'. enc_size_ready e = Some (True, e') \<and> enc_inv tmp e' \<and> enc_stream frame e' = enc_stream frame e \<and>
    enext e' = Msg_ready"
proof -
  obtain bs n where bs: "msg_data (e_in_progress e) (emem e) = Some bs" "msg_size (e_in_progress e) (emem e) = Some n"
    "unat n = length bs" "pend e = Some bs"
    using assms by (auto simp: enc_inv_def pend_def enc_read_def bind_Some_iff split: if_splits rpos.splits)
  let ?e = "enc_next_step (Body 0) (unat n) Msg_ready (mflags (e_in_progress e) AND flag_more = 0) e"
  have "pend ?e = Some bs" using bs by (intro pend_body) (simp_all add: enc_next_step_def)
  then show ?thesis using assms(1) bs
    by (intro exI[of _ ?e]) (simp add: enc_size_ready_def enc_inv_def enc_stream_def enc_next_step_def)
qed

text \<open>Pulling a message, with the header that is stored for it.\<close>

lemma pull_ready_law:
  assumes inv: "enc_inv tmp e" "to_write e = 0" "enext e = Msg_ready"
    and hdr: "\<And>m h mo bs e1. msg_size (e_in_progress e1) (emem e1) = Some (word_of_nat (length bs)) \<Longrightarrow>
      length bs < 2 ^ 64 - 1 \<Longrightarrow> (mflags (e_in_progress e1) AND flag_more \<noteq> 0) = mo \<Longrightarrow> tmp \<le> length (etmpbuf e1) \<Longrightarrow>
      \<exists>hb tb. rest e1 = Some (True, enc_next_step (Tmp 0) (length hb) Size_ready False (e1\<lparr>etmpbuf := hb @ tb\<rparr>)) \<and>
        hb \<noteq> [] \<and> frame (mo, bs) = hb @ bs \<and> tmp \<le> length (hb @ tb)"
  shows "\<exists>b e'. do { (ok, e) \<leftarrow> enc_pull pull e; if \<not> ok then Some (False, e) else rest e } = Some (b, e') \<and>
    enc_inv tmp e' \<and> enc_stream frame e' = enc_stream frame e \<and> (if b then to_write e' \<noteq> 0 else enc_stream frame e = [])"
proof -
  have I: "has_source e" "0 < ebufsize e" "tmp \<le> length (etmpbuf e)" "ok (e_in_progress e) (emem e) (source e)"
    using inv(1) by (simp_all add: enc_inv_def)
  have p0: "pend e = Some []" using inv by (auto simp: enc_inv_def pend_def enc_read_def bind_Some_iff split: rpos.splits if_splits)
  obtain h1 rc m' h2 k' where r: "msg_close (e_in_progress e) (emem e) = Some (Inr (), e_in_progress e\<lparr>mtype := 0\<rparr>, h1)"
    "pull (e_in_progress e\<lparr>mtype := 0\<rparr>) h1 (source e) = Some (rc, m', h2, k')"
    "case rc of Inl err \<Rightarrow> err = EAGAIN \<and> frames (emem e) (source e) = [] \<and> frames h2 k' = [] \<and> ok (msg_init m') h2 k'
     | Inr _ \<Rightarrow> ok m' h2 k' \<and> (\<exists>mo bs. frames (emem e) (source e) = (mo, bs) # frames h2 k' \<and> msg_data m' h2 = Some bs \<and>
         msg_size m' h2 = Some (word_of_nat (length bs)) \<and> length bs < 2 ^ 64 - 1 \<and>
         (mflags m' AND flag_more \<noteq> 0) = mo)"
    using pull_law[OF I(4)] by blast
  show ?thesis
  proof (cases rc)
    case (Inl err)
    let ?e = "e\<lparr>e_in_progress := msg_init m', emem := h2, source := k'\<rparr>"
    have "enc_pull pull e = Some (False, ?e)" using r Inl I(1) by (simp add: enc_pull_def)
    moreover have "pend ?e = Some []"
      using p0 inv(2,3) by (auto simp: pend_def enc_read_def bind_Some_iff split: rpos.splits if_splits)
    ultimately show ?thesis using r(3) Inl I p0
      by (intro exI[of _ False] exI[of _ ?e]) (simp add: enc_inv_def enc_stream_def)
  next
    case (Inr u)
    then obtain mo bs where f: "ok m' h2 k'" "frames (emem e) (source e) = (mo, bs) # frames h2 k'" "msg_data m' h2 = Some bs"
      "msg_size m' h2 = Some (word_of_nat (length bs))" "length bs < 2 ^ 64 - 1" "(mflags m' AND flag_more \<noteq> 0) = mo"
      using r(3) by auto
    let ?e1 = "e\<lparr>e_in_progress := m', emem := h2, source := k'\<rparr>"
    have "enc_pull pull e = Some (True, ?e1)" using r Inr I(1) by (simp add: enc_pull_def)
    moreover obtain hb tb where ht: "rest ?e1 = Some (True, enc_next_step (Tmp 0) (length hb) Size_ready False (?e1\<lparr>etmpbuf := hb @ tb\<rparr>))"
      "hb \<noteq> []" "frame (mo, bs) = hb @ bs" "tmp \<le> length (hb @ tb)"
      using hdr[of ?e1 bs mo] f I(3) by auto
    let ?e2 = "enc_next_step (Tmp 0) (length hb) Size_ready False (?e1\<lparr>etmpbuf := hb @ tb\<rparr>)"
    have "unat (word_of_nat (length bs) :: u64) = length bs" using f(5) by (simp add: unsigned_of_nat take_bit_nat_eq_self)
    then have "pend ?e2 = Some (hb @ bs)"
      using f(3,4) by (intro pend_header[of _ _ tb]) (simp_all add: enc_next_step_def)
    ultimately show ?thesis using f(1,2) ht I(1,2) p0
      by (intro exI[of _ True] exI[of _ ?e2]) (simp add: enc_inv_def enc_stream_def enc_next_step_def)
  qed
qed

text \<open>The headers of the two versions.\<close>

lemma v0_header:
  assumes "msg_size (e_in_progress e) (emem e) = Some (word_of_nat (length bs))" "length bs < 2 ^ 64 - 1"
    "(mflags (e_in_progress e) AND flag_more \<noteq> 0) = mo" "10 \<le> length (etmpbuf e)"
  shows "\<exists>hb tb. (do {
       n \<leftarrow> msg_size (e_in_progress e) (emem e);
       let (sz, flags) = (n + 1, mflags (e_in_progress e) AND flag_more);
       if sz < 255 then do {
         e \<leftarrow> tmp_store [ucast sz, flags] e;
         Some (True, enc_next_step (Tmp 0) 2 Size_ready False e) }
       else do {
         e \<leftarrow> tmp_store (255 # put_uint64 sz @ [flags]) e;
         Some (True, enc_next_step (Tmp 0) 10 Size_ready False e) } }) =
      Some (True, enc_next_step (Tmp 0) (length hb) Size_ready False (e\<lparr>etmpbuf := hb @ tb\<rparr>)) \<and>
    hb \<noteq> [] \<and> v0_frame (mo, bs) = hb @ bs \<and> 10 \<le> length (hb @ tb)"
proof -
  let ?w = "word_of_nat (length bs) + 1 :: u64"
  let ?fl = "if mo then flag_more else 0"
  have w: "unat ?w = length bs + 1"
  proof -
    have "unat (word_of_nat (length bs + 1) :: u64) = length bs + 1"
      using assms(2) by (simp only: unsigned_of_nat) (simp add: take_bit_nat_eq_self)
    then show ?thesis by (simp add: add.commute)
  qed
  have fl: "mflags (e_in_progress e) AND flag_more = ?fl" using and_more[of "mflags (e_in_progress e)"] assms(3) by simp
  have c: "?w < 255 \<longleftrightarrow> length bs + 1 < 255" using w by (simp add: word_less_nat_alt)
  show ?thesis
  proof (cases "length bs + 1 < 255")
    case True
    have "(ucast ?w :: u8) = word_of_nat (unat ?w)" by (simp add: word_unat_eq_iff unsigned_ucast_eq unsigned_of_nat)
    then have b: "(ucast ?w :: u8) = word_of_nat (length bs + 1)" unfolding w .
    show ?thesis
      by (rule exI[of _ "[ucast ?w, ?fl]"], rule exI[of _ "drop 2 (etmpbuf e)"])
        (use True c assms(1,4) fl b in \<open>auto simp: tmp_store_def v0_frame_def Let_def simp flip: numeral_2_eq_2\<close>)
  next
    case False
    show ?thesis
      by (rule exI[of _ "255 # put_uint64 ?w @ [?fl]"], rule exI[of _ "drop 10 (etmpbuf e)"])
        (use False c assms(1,4) fl in \<open>simp add: tmp_store_def v0_frame_def Let_def add.commute\<close>)
  qed
qed

lemma v1_header:
  assumes "msg_size (e_in_progress e) (emem e) = Some (word_of_nat (length bs))" "length bs < 2 ^ 64 - 1"
    "(mflags (e_in_progress e) AND flag_more \<noteq> 0) = mo" "9 \<le> length (etmpbuf e)"
  shows "\<exists>hb tb. (do {
       sz \<leftarrow> msg_size (e_in_progress e) (emem e);
       let protocol_flags = (if mflags (e_in_progress e) AND flag_more \<noteq> 0 then more_flag else 0);
       let protocol_flags = (if sz > 255 then protocol_flags OR large_flag else protocol_flags);
       if sz > 255 then do {
         e \<leftarrow> tmp_store (protocol_flags # put_uint64 sz) e;
         Some (True, enc_next_step (Tmp 0) 9 Size_ready False e) }
       else do {
         e \<leftarrow> tmp_store [protocol_flags, ucast sz] e;
         Some (True, enc_next_step (Tmp 0) 2 Size_ready False e) } }) =
      Some (True, enc_next_step (Tmp 0) (length hb) Size_ready False (e\<lparr>etmpbuf := hb @ tb\<rparr>)) \<and>
    hb \<noteq> [] \<and> v1_frame (mo, bs) = hb @ bs \<and> 9 \<le> length (hb @ tb)"
proof -
  let ?w = "word_of_nat (length bs) :: u64"
  let ?fl = "if mo then more_flag else 0"
  have w: "unat ?w = length bs" using assms(2) by (simp add: unsigned_of_nat take_bit_nat_eq_self)
  have c: "?w > 255 \<longleftrightarrow> length bs > 255" using w by (simp add: word_less_nat_alt)
  show ?thesis
  proof (cases "length bs > 255")
    case True
    show ?thesis
      by (rule exI[of _ "(?fl OR large_flag) # put_uint64 ?w"], rule exI[of _ "drop 9 (etmpbuf e)"])
        (use True c assms(1,3,4) in \<open>simp add: tmp_store_def v1_frame_def Let_def\<close>)
  next
    case False
    have "(ucast ?w :: u8) = word_of_nat (unat ?w)" by (simp add: word_unat_eq_iff unsigned_ucast_eq unsigned_of_nat)
    then have b: "(ucast ?w :: u8) = word_of_nat (length bs)" unfolding w .
    show ?thesis
      by (rule exI[of _ "[?fl, ucast ?w]"], rule exI[of _ "drop 2 (etmpbuf e)"])
        (use False c assms(1,3,4) b in \<open>auto simp: tmp_store_def v1_frame_def Let_def simp flip: numeral_2_eq_2\<close>)
  qed
qed

end

sublocale msg_source \<subseteq> v0: frame_writer "v0_eact pull" "enc_inv 10" "enc_stream v0_frame"
proof
  fix e :: "'k encoder" and n :: nat
  show "\<exists>ok e'. v0_eact pull (enext e) e = Some (ok, e') \<and> enc_inv 10 e' \<and> enc_stream v0_frame e' = enc_stream v0_frame e \<and>
      (if ok then if enext e = Msg_ready then to_write e' \<noteq> 0 else enext e' = Msg_ready else enc_stream v0_frame e = [])"
    if e: "enc_inv 10 e" "to_write e = 0"
  proof (cases "enext e")
    case Size_ready
    then show ?thesis using size_ready_law[OF e, of v0_frame] by auto
  next
    case Msg_ready
    have "\<exists>b e'. v0_eact pull Msg_ready e = Some (b, e') \<and> enc_inv 10 e' \<and> enc_stream v0_frame e' = enc_stream v0_frame e \<and>
        (if b then to_write e' \<noteq> 0 else enc_stream v0_frame e = [])"
      unfolding v0_eact.simps enc_message_ready_def by (rule pull_ready_law[OF e Msg_ready]) (rule v0_header)
    then show ?thesis unfolding Msg_ready by (simp only: refl if_True)
  qed
qed (fact enc_write_law enc_zero_copy_law | simp add: enc_inv_def)+

sublocale msg_source \<subseteq> v1: frame_writer "v1_eact pull" "enc_inv 9" "enc_stream v1_frame"
proof
  fix e :: "'k encoder" and n :: nat
  show "\<exists>ok e'. v1_eact pull (enext e) e = Some (ok, e') \<and> enc_inv 9 e' \<and> enc_stream v1_frame e' = enc_stream v1_frame e \<and>
      (if ok then if enext e = Msg_ready then to_write e' \<noteq> 0 else enext e' = Msg_ready else enc_stream v1_frame e = [])"
    if e: "enc_inv 9 e" "to_write e = 0"
  proof (cases "enext e")
    case Size_ready
    then show ?thesis using size_ready_law[OF e, of v1_frame] by auto
  next
    case Msg_ready
    have "\<exists>b e'. v1_eact pull Msg_ready e = Some (b, e') \<and> enc_inv 9 e' \<and> enc_stream v1_frame e' = enc_stream v1_frame e \<and>
        (if b then to_write e' \<noteq> 0 else enc_stream v1_frame e = [])"
      unfolding v1_eact.simps v1_message_ready_def by (rule pull_ready_law[OF e Msg_ready]) (rule v1_header)
    then show ?thesis unfolding Msg_ready by (simp only: refl if_True)
  qed
qed (fact enc_write_law enc_zero_copy_law | simp add: enc_inv_def)+

end
