(* ===== verification/Codec.thy ===== *)
theory Codec
  imports Encoder
begin

text \<open>
  Both ends of a connection. To an engine a pipe is a queue of messages (what \<^verbatim>\<open>ypipe_t\<close>
  refines): \<open>queue_pull\<close> is the source that hands out the messages of a list, \<open>queue_push\<close> the
  sink that takes every message. With them the locales of the encoders and the decoders are
  interpreted, and what one side of a connection encodes the other side decodes.
\<close>

unbundle bit_operations_syntax

fun queue_pull :: "msg list pull" where
  "queue_pull m h [] = Some (Inl EAGAIN, m, h, [])"
| "queue_pull m h (x # xs) = Some (Inr (), x, h, xs)"

definition queue_push :: "frame list push" where
  "queue_push m h k = do {
     bs \<leftarrow> msg_data m h;
     Some (Inr (), msg_init m, h, k @ [(mflags m AND flag_more \<noteq> 0, bs)]) }"

interpretation queue: msg_sink queue_push "\<lambda>k. k"
  by unfold_locales (simp add: queue_push_def msg_init_def)

text \<open>The frame of a message, for a message that has one (not a delimiter).\<close>

definition frame_of :: "mem \<Rightarrow> msg \<Rightarrow> frame" where
  "frame_of h m = (mflags m AND flag_more \<noteq> 0, the (msg_data m h))"

definition sendable :: "mem \<Rightarrow> msg \<Rightarrow> bool" where
  "sendable h m \<longleftrightarrow> msg_check m \<and> (\<exists>bs. msg_data m h = Some bs \<and> length bs < 2 ^ 64 - 1 \<and>
     msg_size m h = Some (word_of_nat (length bs)))"

definition queue_ok :: "msg \<Rightarrow> mem \<Rightarrow> msg list \<Rightarrow> bool" where
  "queue_ok m h ms \<longleftrightarrow> refs_inv (add_mset m (mset ms)) h \<and> msg_check m \<and> (\<forall>x \<in> set ms. sendable h x)"

lemma queue_pull_law:
  assumes ok: "queue_ok m h k"
  shows "\<exists>h1 rc m' h2 k'. msg_close m h = Some (Inr (), m\<lparr>mtype := 0\<rparr>, h1) \<and>
    queue_pull (m\<lparr>mtype := 0\<rparr>) h1 k = Some (rc, m', h2, k') \<and>
    (case rc of Inl err \<Rightarrow> err = EAGAIN \<and> map (frame_of h) k = [] \<and> map (frame_of h2) k' = [] \<and> queue_ok (msg_init m') h2 k'
     | Inr _ \<Rightarrow> queue_ok m' h2 k' \<and> (\<exists>mo bs. map (frame_of h) k = (mo, bs) # map (frame_of h2) k' \<and> msg_data m' h2 = Some bs \<and>
         msg_size m' h2 = Some (word_of_nat (length bs)) \<and> length bs < 2 ^ 64 - 1 \<and>
         (mflags m' AND flag_more \<noteq> 0) = mo))"
proof -
  obtain h1 where h1: "msg_close m h = Some (Inr (), m\<lparr>mtype := 0\<rparr>, h1)" "refs_inv (mset k) h1" "mem_sub h1 h"
    using msg_close_ok[of m "mset k" h] ok by (auto simp: queue_ok_def)
  have data: "msg_data x h1 = msg_data x h" "msg_size x h1 = msg_size x h" if "x \<in> set k" for x
    using msg_data_sub[OF h1(3,2), of x] that by simp_all
  have fr: "frame_of h1 x = frame_of h x" "sendable h1 x = sendable h x" if "x \<in> set k" for x
    using data[OF that] by (simp_all add: frame_of_def sendable_def)
  show ?thesis
  proof (cases k)
    case Nil
    then show ?thesis using h1(1,2) by (simp add: queue_ok_def)
  next
    case (Cons x xs)
    have x: "sendable h x" using ok Cons by (simp add: queue_ok_def)
    then obtain bs where bs: "msg_data x h = Some bs" "length bs < 2 ^ 64 - 1" "msg_size x h = Some (word_of_nat (length bs))"
      by (auto simp: sendable_def)
    have "map (frame_of h1) xs = map (frame_of h) xs" using fr(1) Cons by (simp cong: map_cong)
    then have "map (frame_of h) k = (mflags x AND flag_more \<noteq> 0, bs) # map (frame_of h1) xs"
      using Cons bs(1) by (simp add: frame_of_def)
    moreover have "queue_ok x h1 xs"
      using h1(2) ok fr(2) x Cons by (simp add: queue_ok_def) (simp add: sendable_def)
    ultimately show ?thesis using h1(1) Cons data[of x] bs by simp
  qed
qed

interpretation queue: msg_source queue_pull "\<lambda>h. map (frame_of h)" queue_ok
  by unfold_locales (rule queue_pull_law)

subsection \<open>Properties\<close>

lemma queue_start:
  assumes "refs_inv (mset ms) h" "\<forall>m \<in> set ms. sendable h m" "0 < bufsize" "tmp \<le> n"
  shows "queue.enc_inv tmp (encoder_init n bufsize m0 h True ms)"
    "queue.enc_stream f (encoder_init n bufsize m0 h True ms) = concat (map f (map (frame_of h) ms))"
  using assms
  by (simp_all add: queue.enc_inv_def queue.enc_stream_def encoder_init_def enc_next_step_def pend_def enc_read_def
      queue_ok_def)

text \<open>C12: Version 0 of the wire protocol: whatever messages an encoder is given and whatever its
  buffer size, its buffers make up a byte stream which a decoder turns back into the same messages,
  in order, with their \<^verbatim>\<open>more\<close> flags, however the network cuts the stream into buffers. No
  assertion fails and no byte is written outside a buffer on either side.\<close>

theorem v0_roundtrip:
  assumes "refs_inv (mset ms) h" "\<forall>m \<in> set ms. sendable h m" "0 < bufsize"
    and "dec_ready One_byte_size_ready d" "\<forall>m \<in> set ms. frame_fits (maxmsgsize d) (frame_of h m)"
    and "length (concat (map (v0_frame \<circ> frame_of h) ms)) \<le> k"
  shows "\<exists>bufs e. enc_drain (v0_eact queue_pull) k (encoder_init 10 bufsize m0 h True ms) = Some (bufs, e) \<and>
    (\<forall>cs. concat cs = concat bufs \<longrightarrow> (\<forall>c \<in> set cs. c \<noteq> [] \<and> length c \<le> dbufsize d) \<longrightarrow>
      (\<exists>d'. dec_feeds (v0_act queue_push) cs d = Some d' \<and> sink d' = sink d @ map (frame_of h) ms))"
proof -
  note start = queue_start[OF assms(1-3), of 10 10, simplified]
  obtain bufs e where e: "enc_drain (v0_eact queue_pull) k (encoder_init 10 bufsize m0 h True ms) = Some (bufs, e)"
    "concat bufs = concat (map v0_frame (map (frame_of h) ms))"
    using queue.v0.drain_ok[OF start(1), of k m0] assms(6) start(2)[of v0_frame m0] by auto
  have fits: "\<forall>f \<in> set (map (frame_of h) ms). frame_fits (maxmsgsize d) f" using assms(5) by simp
  have "\<exists>d'. dec_feeds (v0_act queue_push) cs d = Some d' \<and> sink d' = sink d @ map (frame_of h) ms"
    if "concat cs = concat bufs" "\<forall>c \<in> set cs. c \<noteq> [] \<and> length c \<le> dbufsize d" for cs
    using queue.v0.reads_frames[OF assms(4) fits _ that(2)] that(1) e(2) by auto
  then show ?thesis using e(1) by blast
qed

theorem v0_roundtrip_witness:
  "let h = mem_new (\<lambda>_ _. True) (\<lambda>_. 0); m = msg_init msg_closed;
       ms = [m\<lparr>mflags := 1, vsize := 2, vdata := 104 # 105 # replicate 27 0\<rparr>, m];
       d = set_msg_sink [] (decoder_init 8192 (-1) msg_closed h [])
   in \<exists>bufs e. enc_drain (v0_eact queue_pull) 10 (encoder_init 10 8192 m h True ms) = Some (bufs, e) \<and>
     (\<forall>cs. concat cs = concat bufs \<longrightarrow> (\<forall>c \<in> set cs. c \<noteq> [] \<and> length c \<le> dbufsize d) \<longrightarrow>
       (\<exists>d'. dec_feeds (v0_act queue_push) cs d = Some d' \<and> sink d' = sink d @ map (frame_of h) ms))"
  unfolding Let_def
  by (rule v0_roundtrip)
    (auto simp: refs_inv_def mem_new_def block_ok_def msg_init_def msg_closed_def sendable_def msg_data_def msg_size_def
      msg_check_def dec_ready_def set_msg_sink_def decoder_init_def dec_next_step_def frame_fits_def frame_of_def
      v0_frame_def Let_def holds_def)

text \<open>C13: The same for version 1 of the wire protocol.\<close>

theorem v1_roundtrip:
  assumes "refs_inv (mset ms) h" "\<forall>m \<in> set ms. sendable h m" "0 < bufsize"
    and "dec_ready Flags_ready d" "\<forall>m \<in> set ms. frame_fits (maxmsgsize d) (frame_of h m)"
    and "length (concat (map (v1_frame \<circ> frame_of h) ms)) \<le> k"
  shows "\<exists>bufs e. enc_drain (v1_eact queue_pull) k (encoder_init 9 bufsize m0 h True ms) = Some (bufs, e) \<and>
    (\<forall>cs. concat cs = concat bufs \<longrightarrow> (\<forall>c \<in> set cs. c \<noteq> [] \<and> length c \<le> dbufsize d) \<longrightarrow>
      (\<exists>d'. dec_feeds (v1_act queue_push) cs d = Some d' \<and> sink d' = sink d @ map (frame_of h) ms))"
proof -
  note start = queue_start[OF assms(1-3), of 9 9, simplified]
  obtain bufs e where e: "enc_drain (v1_eact queue_pull) k (encoder_init 9 bufsize m0 h True ms) = Some (bufs, e)"
    "concat bufs = concat (map v1_frame (map (frame_of h) ms))"
    using queue.v1.drain_ok[OF start(1), of k m0] assms(6) start(2)[of v1_frame m0] by auto
  have fits: "\<forall>f \<in> set (map (frame_of h) ms). frame_fits (maxmsgsize d) f" using assms(5) by simp
  have "\<exists>d'. dec_feeds (v1_act queue_push) cs d = Some d' \<and> sink d' = sink d @ map (frame_of h) ms"
    if "concat cs = concat bufs" "\<forall>c \<in> set cs. c \<noteq> [] \<and> length c \<le> dbufsize d" for cs
    using queue.v1.reads_frames[OF assms(4) fits _ that(2)] that(1) e(2) by auto
  then show ?thesis using e(1) by blast
qed

theorem v1_roundtrip_witness:
  "let h = mem_new (\<lambda>_ _. True) (\<lambda>_. 0); m = msg_init msg_closed;
       ms = [m\<lparr>mflags := 1, vsize := 2, vdata := 104 # 105 # replicate 27 0\<rparr>, m];
       d = v1_decoder_init 8192 (-1) msg_closed h []
   in \<exists>bufs e. enc_drain (v1_eact queue_pull) 10 (encoder_init 9 8192 m h True ms) = Some (bufs, e) \<and>
     (\<forall>cs. concat cs = concat bufs \<longrightarrow> (\<forall>c \<in> set cs. c \<noteq> [] \<and> length c \<le> dbufsize d) \<longrightarrow>
       (\<exists>d'. dec_feeds (v1_act queue_push) cs d = Some d' \<and> sink d' = sink d @ map (frame_of h) ms))"
  unfolding Let_def
  by (rule v1_roundtrip)
    (auto simp: refs_inv_def mem_new_def block_ok_def msg_init_def msg_closed_def sendable_def msg_data_def msg_size_def
      msg_check_def dec_ready_def v1_decoder_init_def dec_next_step_def frame_fits_def frame_of_def
      v1_frame_def Let_def holds_def)



end
