(* ===== verification/Pipe.thy ===== *)
theory Pipe
  imports Msg Ypipe "HOL-Library.Signed_Division"
begin

text \<open>
  \<^verbatim>\<open>pipe_t\<close> of src/pipe.cpp: one end of a bidirectional message pipe, over two lock-free pipes.
  A \<open>world\<close> holds what the ends share: the pipe objects and the lock-free pipes by address
  (\<open>None\<close> once deleted, so a use after \<^verbatim>\<open>delete\<close> is \<open>None\<close>), the message heap, the commands
  sent to pipe objects (\<^verbatim>\<open>send_activate_read\<close> and the like of src/object.cpp, in the order they
  were sent) and the state \<open>'s\<close> of the owner of the pipes. The event sink is a function on
  the world, called where the code calls the \<^verbatim>\<open>i_pipe_events\<close> interface. Every operation is
  a state transformer in the option monad: \<open>None\<close> is a failed assertion or undefined behaviour.
\<close>

unbundle bit_operations_syntax

datatype pipe_state = Active | Delimited | Pending | Terminating | Terminated | Double_terminated

datatype pipe_cmd = Activate_read | Activate_write u64 | Hiccup addr | Pipe_term | Pipe_term_ack

datatype pipe_event = Read_activated | Write_activated | Hiccuped | Pipe_terminated

record pipe =
  inpipe :: addr
  outpipe :: addr
  in_active :: bool
  out_active :: bool
  hwm :: int
  lwm :: int
  msgs_read :: u64
  msgs_written :: u64
  peers_msgs_read :: u64
  peer :: addr
  pipe_sink :: bool
  pstate :: pipe_state
  delay :: bool
  identity :: "u8 list"

record 's world =
  wpipes :: "addr \<Rightarrow> pipe option"
  upipes :: "addr \<Rightarrow> msg ypipe option"
  next_addr :: addr
  wmem :: mem
  wcmds :: "(addr \<times> pipe_cmd) list"
  sock :: 's

type_synonym 's pipe_sink = "pipe_event \<Rightarrow> addr \<Rightarrow> 's world \<Rightarrow> 's world option"

abbreviation "message_pipe_granularity \<equiv> (256 :: nat)"
abbreviation "max_wm_delta \<equiv> (1024 :: int)"

subsection \<open>Access to the objects\<close>

definition get_pipe :: "addr \<Rightarrow> 's world \<Rightarrow> pipe option" where
  "get_pipe p w = wpipes w p"

definition set_pipe :: "addr \<Rightarrow> pipe \<Rightarrow> 's world \<Rightarrow> 's world" where
  "set_pipe p x w = w\<lparr>wpipes := (wpipes w)(p \<mapsto> x)\<rparr>"

definition set_upipe :: "addr \<Rightarrow> msg ypipe \<Rightarrow> 's world \<Rightarrow> 's world" where
  "set_upipe u y w = w\<lparr>upipes := (upipes w)(u \<mapsto> y)\<rparr>"

definition delete_upipe :: "addr \<Rightarrow> 's world \<Rightarrow> 's world option" where
  "delete_upipe u w = do { _ \<leftarrow> upipes w u; Some (w\<lparr>upipes := (upipes w)(u := None)\<rparr>) }"

definition new_upipe :: "'s world \<Rightarrow> addr \<times> 's world" where
  "new_upipe w = (next_addr w, w\<lparr>upipes := (upipes w)(next_addr w \<mapsto> ypipe_new message_pipe_granularity),
     next_addr := next_addr w + 1\<rparr>)"

definition send_cmd :: "addr \<Rightarrow> pipe_cmd \<Rightarrow> 's world \<Rightarrow> 's world" where
  "send_cmd dest c w = w\<lparr>wcmds := wcmds w @ [(dest, c)]\<rparr>"

subsection \<open>Construction\<close>

definition compute_lwm :: "int \<Rightarrow> int" where
  "compute_lwm h = (if h > max_wm_delta * 2 then h - max_wm_delta else (h + 1) sdiv 2)"

definition pipe_init :: "addr \<Rightarrow> addr \<Rightarrow> int \<Rightarrow> int \<Rightarrow> bool \<Rightarrow> pipe" where
  "pipe_init inp outp inhwm outhwm dly = \<lparr>inpipe = inp, outpipe = outp, in_active = True, out_active = True,
     hwm = outhwm, lwm = compute_lwm inhwm, msgs_read = 0, msgs_written = 0, peers_msgs_read = 0, peer = 0,
     pipe_sink = False, pstate = Active, delay = dly, identity = []\<rparr>"

definition set_peer :: "addr \<Rightarrow> addr \<Rightarrow> 's world \<Rightarrow> 's world option" where
  "set_peer p q w = do {
     x \<leftarrow> get_pipe p w;
     zmq_assert (peer x = 0);
     Some (set_pipe p (x\<lparr>peer := q\<rparr>) w) }"

definition set_event_sink :: "addr \<Rightarrow> 's world \<Rightarrow> 's world option" where
  "set_event_sink p w = do {
     x \<leftarrow> get_pipe p w;
     zmq_assert (\<not> pipe_sink x);
     Some (set_pipe p (x\<lparr>pipe_sink := True\<rparr>) w) }"

definition set_identity :: "addr \<Rightarrow> u8 list \<Rightarrow> 's world \<Rightarrow> 's world option" where
  "set_identity p i w = do { x \<leftarrow> get_pipe p w; Some (set_pipe p (x\<lparr>identity := i\<rparr>) w) }"

definition get_identity :: "addr \<Rightarrow> 's world \<Rightarrow> u8 list option" where
  "get_identity p w = do { x \<leftarrow> get_pipe p w; Some (identity x) }"

definition new_pipe :: "pipe \<Rightarrow> 's world \<Rightarrow> addr \<times> 's world" where
  "new_pipe x w = (next_addr w, (set_pipe (next_addr w) x w)\<lparr>next_addr := next_addr w + 1\<rparr>)"

definition pipepair :: "int \<times> int \<Rightarrow> bool \<times> bool \<Rightarrow> 's world \<Rightarrow> (addr \<times> addr \<times> 's world) option" where
  "pipepair hwms delays w = do {
     let (u1, w) = new_upipe w;
     let (u2, w) = new_upipe w;
     let (p0, w) = new_pipe (pipe_init u1 u2 (snd hwms) (fst hwms) (fst delays)) w;
     let (p1, w) = new_pipe (pipe_init u2 u1 (fst hwms) (snd hwms) (snd delays)) w;
     w \<leftarrow> set_peer p0 p1 w;
     w \<leftarrow> set_peer p1 p0 w;
     Some (p0, p1, w) }"

subsection \<open>Reading\<close>

text \<open>\<^verbatim>\<open>delimit\<close>: the delimiter was read from the inbound pipe.\<close>

definition pipe_delimit :: "addr \<Rightarrow> 's world \<Rightarrow> 's world option" where
  "pipe_delimit p w = do {
     x \<leftarrow> get_pipe p w;
     if pstate x = Active then Some (set_pipe p (x\<lparr>pstate := Delimited\<rparr>) w)
     else if pstate x = Pending then
       Some (send_cmd (peer x) Pipe_term_ack (set_pipe p (x\<lparr>outpipe := 0, pstate := Terminating\<rparr>) w))
     else None }"

definition pipe_readable :: "pipe \<Rightarrow> bool" where
  "pipe_readable x = (in_active x \<and> (pstate x = Active \<or> pstate x = Pending))"

definition pipe_check_read :: "addr \<Rightarrow> 's world \<Rightarrow> (bool \<times> 's world) option" where
  "pipe_check_read p w = do {
     x \<leftarrow> get_pipe p w;
     if \<not> pipe_readable x then Some (False, w)
     else do {
       u \<leftarrow> upipes w (inpipe x);
       let (ok, u) = ypipe_check_read u;
       let w = set_upipe (inpipe x) u w;
       if \<not> ok then Some (False, set_pipe p (x\<lparr>in_active := False\<rparr>) w)
       else do {
         (is_delim, u) \<leftarrow> ypipe_probe msg_is_delimiter u;
         let w = set_upipe (inpipe x) u w;
         if is_delim then do {
           (m, u) \<leftarrow> ypipe_read message_pipe_granularity u;
           let w = set_upipe (inpipe x) u w;
           zmq_assert (m \<noteq> None);
           w \<leftarrow> pipe_delimit p w;
           Some (False, w) }
         else Some (True, w) } } }"

text \<open>The message read, or \<open>None\<close> when \<^verbatim>\<open>read\<close> returns false.\<close>

definition pipe_read :: "addr \<Rightarrow> 's world \<Rightarrow> (msg option \<times> 's world) option" where
  "pipe_read p w = do {
     x \<leftarrow> get_pipe p w;
     if \<not> pipe_readable x then Some (None, w)
     else do {
       u \<leftarrow> upipes w (inpipe x);
       (m, u) \<leftarrow> ypipe_read message_pipe_granularity u;
       let w = set_upipe (inpipe x) u w;
       case m of
         None \<Rightarrow> Some (None, set_pipe p (x\<lparr>in_active := False\<rparr>) w)
       | Some m \<Rightarrow>
           if msg_is_delimiter m then do { w \<leftarrow> pipe_delimit p w; Some (None, w) }
           else do {
             let x = (if mflags m AND flag_more = 0 then x\<lparr>msgs_read := msgs_read x + 1\<rparr> else x);
             let w = set_pipe p x w;
             let w = (if lwm x > 0 \<and> msgs_read x mod word_of_int (lwm x) = 0
                      then send_cmd (peer x) (Activate_write (msgs_read x)) w else w);
             Some (Some m, w) } } }"

subsection \<open>Writing\<close>

definition pipe_check_write :: "addr \<Rightarrow> 's world \<Rightarrow> (bool \<times> 's world) option" where
  "pipe_check_write p w = do {
     x \<leftarrow> get_pipe p w;
     if \<not> out_active x \<or> pstate x \<noteq> Active then Some (False, w)
     else if hwm x > 0 \<and> msgs_written x - peers_msgs_read x = word_of_int (hwm x)
     then Some (False, set_pipe p (x\<lparr>out_active := False\<rparr>) w)
     else Some (True, w) }"

definition pipe_write :: "addr \<Rightarrow> msg \<Rightarrow> 's world \<Rightarrow> (bool \<times> 's world) option" where
  "pipe_write p m w = do {
     (ok, w) \<leftarrow> pipe_check_write p w;
     if \<not> ok then Some (False, w)
     else do {
       x \<leftarrow> get_pipe p w;
       let more = (mflags m AND flag_more \<noteq> 0);
       u \<leftarrow> upipes w (outpipe x);
       u \<leftarrow> ypipe_write message_pipe_granularity m more u;
       let w = set_upipe (outpipe x) u w;
       Some (True, if \<not> more then set_pipe p (x\<lparr>msgs_written := msgs_written x + 1\<rparr>) w else w) } }"

partial_function (option) rollback_loop :: "addr \<Rightarrow> 's world \<Rightarrow> 's world option" where
  "rollback_loop a w = do {
     u \<leftarrow> upipes w a;
     (m, u) \<leftarrow> ypipe_unwrite message_pipe_granularity u;
     let w = set_upipe a u w;
     case m of
       None \<Rightarrow> Some w
     | Some m \<Rightarrow> do {
         zmq_assert (mflags m AND flag_more \<noteq> 0);
         (rc, m, h) \<leftarrow> msg_close m (wmem w);
         zmq_assert (rc = Inr ());
         rollback_loop a (w\<lparr>wmem := h\<rparr>) } }"

definition pipe_rollback :: "addr \<Rightarrow> 's world \<Rightarrow> 's world option" where
  "pipe_rollback p w = do {
     x \<leftarrow> get_pipe p w;
     if outpipe x \<noteq> 0 then rollback_loop (outpipe x) w else Some w }"

definition pipe_flush :: "addr \<Rightarrow> 's world \<Rightarrow> 's world option" where
  "pipe_flush p w = do {
     x \<leftarrow> get_pipe p w;
     if pstate x = Terminating then Some w
     else if outpipe x \<noteq> 0 then do {
       u \<leftarrow> upipes w (outpipe x);
       let (ok, u) = ypipe_flush u;
       let w = set_upipe (outpipe x) u w;
       Some (if \<not> ok then send_cmd (peer x) Activate_read w else w) }
     else Some w }"

subsection \<open>Commands\<close>

definition process_activate_read :: "'s pipe_sink \<Rightarrow> addr \<Rightarrow> 's world \<Rightarrow> 's world option" where
  "process_activate_read sink p w = do {
     x \<leftarrow> get_pipe p w;
     if \<not> in_active x \<and> (pstate x = Active \<or> pstate x = Pending)
     then do { zmq_assert (pipe_sink x); sink Read_activated p (set_pipe p (x\<lparr>in_active := True\<rparr>) w) }
     else Some w }"

definition process_activate_write :: "'s pipe_sink \<Rightarrow> u64 \<Rightarrow> addr \<Rightarrow> 's world \<Rightarrow> 's world option" where
  "process_activate_write sink n p w = do {
     x \<leftarrow> get_pipe p w;
     let x = x\<lparr>peers_msgs_read := n\<rparr>;
     if \<not> out_active x \<and> pstate x = Active
     then do { zmq_assert (pipe_sink x); sink Write_activated p (set_pipe p (x\<lparr>out_active := True\<rparr>) w) }
     else Some (set_pipe p x w) }"

text \<open>Reading and closing every message that is left in a lock-free pipe.\<close>

partial_function (option) drain_loop :: "addr \<Rightarrow> 's world \<Rightarrow> 's world option" where
  "drain_loop a w = do {
     u \<leftarrow> upipes w a;
     (m, u) \<leftarrow> ypipe_read message_pipe_granularity u;
     let w = set_upipe a u w;
     case m of
       None \<Rightarrow> Some w
     | Some m \<Rightarrow> do {
         (rc, m, h) \<leftarrow> msg_close m (wmem w);
         zmq_assert (rc = Inr ());
         drain_loop a (w\<lparr>wmem := h\<rparr>) } }"

definition process_hiccup :: "'s pipe_sink \<Rightarrow> addr \<Rightarrow> addr \<Rightarrow> 's world \<Rightarrow> 's world option" where
  "process_hiccup sink newp p w = do {
     x \<leftarrow> get_pipe p w;
     zmq_assert (outpipe x \<noteq> 0);
     u \<leftarrow> upipes w (outpipe x);
     let w = set_upipe (outpipe x) (snd (ypipe_flush u)) w;
     w \<leftarrow> drain_loop (outpipe x) w;
     w \<leftarrow> delete_upipe (outpipe x) w;
     zmq_assert (newp \<noteq> 0);
     let x = x\<lparr>outpipe := newp, out_active := True\<rparr>;
     let w = set_pipe p x w;
     if pstate x = Active then do { zmq_assert (pipe_sink x); sink Hiccuped p w } else Some w }"

definition process_pipe_term :: "addr \<Rightarrow> 's world \<Rightarrow> 's world option" where
  "process_pipe_term p w = do {
     x \<leftarrow> get_pipe p w;
     if pstate x = Active then
       (if \<not> delay x
        then Some (send_cmd (peer x) Pipe_term_ack (set_pipe p (x\<lparr>pstate := Terminating, outpipe := 0\<rparr>) w))
        else Some (set_pipe p (x\<lparr>pstate := Pending\<rparr>) w))
     else if pstate x = Delimited then
       Some (send_cmd (peer x) Pipe_term_ack (set_pipe p (x\<lparr>pstate := Terminating, outpipe := 0\<rparr>) w))
     else if pstate x = Terminated then
       Some (send_cmd (peer x) Pipe_term_ack (set_pipe p (x\<lparr>pstate := Double_terminated, outpipe := 0\<rparr>) w))
     else None }"

definition process_pipe_term_ack :: "'s pipe_sink \<Rightarrow> addr \<Rightarrow> 's world \<Rightarrow> 's world option" where
  "process_pipe_term_ack sink p w = do {
     x \<leftarrow> get_pipe p w;
     zmq_assert (pipe_sink x);
     w \<leftarrow> sink Pipe_terminated p w;
     x \<leftarrow> get_pipe p w;
     w \<leftarrow> (if pstate x = Terminated
           then Some (send_cmd (peer x) Pipe_term_ack (set_pipe p (x\<lparr>outpipe := 0\<rparr>) w))
           else do { zmq_assert (pstate x = Terminating \<or> pstate x = Double_terminated); Some w });
     w \<leftarrow> drain_loop (inpipe x) w;
     w \<leftarrow> delete_upipe (inpipe x) w;
     Some (w\<lparr>wpipes := (wpipes w)(p := None)\<rparr>) }"

definition process_pipe_cmd :: "'s pipe_sink \<Rightarrow> pipe_cmd \<Rightarrow> addr \<Rightarrow> 's world \<Rightarrow> 's world option" where
  "process_pipe_cmd sink c p w = (case c of
     Activate_read \<Rightarrow> process_activate_read sink p w
   | Activate_write n \<Rightarrow> process_activate_write sink n p w
   | Hiccup u \<Rightarrow> process_hiccup sink u p w
   | Pipe_term \<Rightarrow> process_pipe_term p w
   | Pipe_term_ack \<Rightarrow> process_pipe_term_ack sink p w)"

subsection \<open>Termination and reconnection\<close>

definition pipe_terminate :: "bool \<Rightarrow> addr \<Rightarrow> 's world \<Rightarrow> 's world option" where
  "pipe_terminate dly p w = do {
     x \<leftarrow> get_pipe p w;
     let x = x\<lparr>delay := dly\<rparr>;
     let w = set_pipe p x w;
     if pstate x = Terminated \<or> pstate x = Double_terminated then Some w
     else if pstate x = Terminating then Some w
     else do {
       let (x, w) =
         (if pstate x = Active \<or> pstate x = Delimited then
            (let x' = x\<lparr>pstate := Terminated\<rparr> in (x', set_pipe p x' (send_cmd (peer x) Pipe_term w)))
          else if pstate x = Pending \<and> \<not> delay x then
            (let x' = x\<lparr>outpipe := 0, pstate := Terminating\<rparr> in (x', set_pipe p x' (send_cmd (peer x) Pipe_term_ack w)))
          else (x, w));
       let x = x\<lparr>out_active := False\<rparr>;
       let w = set_pipe p x w;
       if outpipe x \<noteq> 0 then do {
         w \<leftarrow> pipe_rollback p w;
         u \<leftarrow> upipes w (outpipe x);
         u \<leftarrow> ypipe_write message_pipe_granularity (msg_init_delimiter msg_closed) False u;
         pipe_flush p (set_upipe (outpipe x) u w) }
       else Some w } }"

definition pipe_hiccup :: "addr \<Rightarrow> 's world \<Rightarrow> 's world option" where
  "pipe_hiccup p w = do {
     x \<leftarrow> get_pipe p w;
     if pstate x \<noteq> Active then Some w
     else do {
       let (u, w) = new_upipe w;
       Some (send_cmd (peer x) (Hiccup u) (set_pipe p (x\<lparr>inpipe := u, in_active := True\<rparr>) w)) } }"

end
