(* ===== verification/Pipe_World.thy ===== *)
theory Pipe_World
  imports Pipe
begin

text \<open>
  The world of a set of pipes whose user keeps its messages in a multiset: the lock-free pipes
  are well-formed, the parts of an unfinished message carry the \<^verbatim>\<open>more\<close> flag, and the message
  heap counts exactly the messages of the user, those in the pipes, and those lost when a pipe
  was deleted with messages nobody flushed. The lemmas say what the loops of the pipe and each
  access to a lock-free pipe do to such a world; in particular the loops end.
\<close>

unbundle bit_operations_syntax

type_synonym pworld = "msg multiset world"

abbreviation uabs :: "msg ypipe \<Rightarrow> msg apipe" where
  "uabs \<equiv> yp_abs message_pipe_granularity"

abbreviation uinv :: "msg ypipe \<Rightarrow> bool" where
  "uinv \<equiv> yp_inv message_pipe_granularity"

definition more_part :: "msg \<Rightarrow> bool" where
  "more_part m \<longleftrightarrow> mflags m AND flag_more \<noteq> 0"

definition umsgs :: "msg ypipe option \<Rightarrow> msg multiset" where
  "umsgs u = (case u of None \<Rightarrow> {#} | Some y \<Rightarrow> mset (ap_all (uabs y)))"

definition all_msgs :: "pworld \<Rightarrow> msg multiset" where
  "all_msgs w = (\<Sum>u < next_addr w. umsgs (upipes w u))"

definition upipe_ok :: "msg ypipe \<Rightarrow> bool" where
  "upipe_ok y \<longleftrightarrow> uinv y \<and> (\<forall>m \<in> set (partial (uabs y)). more_part m) \<and> (\<forall>m \<in> set (ap_all (uabs y)). msg_check m)"

definition world_ok :: "msg multiset \<Rightarrow> pworld \<Rightarrow> bool" where
  "world_ok L w \<longleftrightarrow> 0 < next_addr w \<and> (\<forall>u y. upipes w u = Some y \<longrightarrow> u < next_addr w \<and> upipe_ok y) \<and>
     refs_inv (L + sock w + all_msgs w) (wmem w)"

lemma world_ok_upipe: "world_ok L w \<Longrightarrow> upipes w u = Some y \<Longrightarrow> u < next_addr w \<and> upipe_ok y"
  by (simp add: world_ok_def)

text \<open>The messages of a world with one pipe replaced.\<close>

lemma all_msgs_split:
  assumes "u < next_addr w"
  shows "all_msgs w = umsgs (upipes w u) + (\<Sum>v \<in> {..<next_addr w} - {u}. umsgs (upipes w v))"
  unfolding all_msgs_def using assms by (intro sum.remove) auto

lemma all_msgs_upd:
  assumes "u < next_addr w"
  shows "all_msgs (w\<lparr>upipes := (upipes w)(u := x)\<rparr>) + umsgs (upipes w u) = all_msgs w + umsgs x"
proof -
  let ?w = "w\<lparr>upipes := (upipes w)(u := x)\<rparr>"
  have "(\<Sum>v \<in> {..<next_addr w} - {u}. umsgs (upipes ?w v)) = (\<Sum>v \<in> {..<next_addr w} - {u}. umsgs (upipes w v))"
    by (intro sum.cong) auto
  then show ?thesis using all_msgs_split[of u w] all_msgs_split[of u ?w] assms by (simp add: ac_simps)
qed

lemma all_msgs_cong:
  "next_addr w' = next_addr w \<Longrightarrow> upipes w' = upipes w \<Longrightarrow> all_msgs w' = all_msgs w"
  by (simp add: all_msgs_def)

text \<open>A change of one pipe that moves messages between the pipe and the user (or the lost ones).\<close>

lemma world_ok_change:
  assumes ok: "world_ok L w" and u: "upipes w u = Some y" and y': "upipe_ok y'"
    and w': "upipes w' = (upipes w)(u \<mapsto> y')" "next_addr w' = next_addr w"
    and refs: "\<And>R. refs_inv (L + sock w + mset (ap_all (uabs y)) + R) (wmem w) \<Longrightarrow>
      refs_inv (L + sock w' + mset (ap_all (uabs y')) + R) (wmem w')"
  shows "world_ok L w'"
proof -
  have lt: "u < next_addr w" using world_ok_upipe[OF ok u] by simp
  let ?R = "\<Sum>v \<in> {..<next_addr w} - {u}. umsgs (upipes w v)"
  have 1: "all_msgs w = mset (ap_all (uabs y)) + ?R" using all_msgs_split[OF lt] u by (simp add: umsgs_def)
  have "(\<Sum>v \<in> {..<next_addr w} - {u}. umsgs (upipes w' v)) = ?R" by (intro sum.cong) (auto simp: w')
  then have 2: "all_msgs w' = mset (ap_all (uabs y')) + ?R"
    using all_msgs_split[of u w'] lt w' by (simp add: umsgs_def)
  have "refs_inv (L + sock w + mset (ap_all (uabs y)) + ?R) (wmem w)"
    using ok unfolding world_ok_def 1 by (simp add: add.assoc)
  from refs[OF this] have "refs_inv (L + sock w' + all_msgs w') (wmem w')" unfolding 2 by (simp add: add.assoc)
  then show ?thesis using ok w' y' lt by (auto simp: world_ok_def)
qed

lemma world_ok_same:
  assumes "world_ok L w" "upipes w' = upipes w" "next_addr w' = next_addr w" "wmem w' = wmem w" "sock w' = sock w"
  shows "world_ok L w'"
  using assms all_msgs_cong[of w' w] by (simp add: world_ok_def)

lemma world_ok_set_pipe [simp]: "world_ok L (set_pipe p x w) = world_ok L w"
  by (auto simp: set_pipe_def elim!: world_ok_same)

lemma world_ok_send [simp]: "world_ok L (send_cmd p c w) = world_ok L w"
  by (auto simp: send_cmd_def elim!: world_ok_same)

subsection \<open>One access to a lock-free pipe\<close>

lemmas ap_simps = ap_all_def ap_write_def ap_unwrite_def ap_flush_def ap_check_read_def ap_read_def

lemma upipe_new_ok [simp]: "upipe_ok (ypipe_new message_pipe_granularity)"
  using ypipe_new_refines[of message_pipe_granularity, where ?'a = msg] by (simp add: upipe_ok_def ap_new_def ap_all_def)

lemma upipe_new_abs: "uabs (ypipe_new message_pipe_granularity) = ap_new"
  using ypipe_new_refines[of message_pipe_granularity, where ?'a = msg] by simp

lemma upipe_write_ok:
  assumes "upipe_ok y" "msg_check m" "inc \<longleftrightarrow> more_part m"
  shows "\<exists>y'. ypipe_write message_pipe_granularity m inc y = Some y' \<and> upipe_ok y' \<and>
    uabs y' = ap_write m inc (uabs y) \<and> mset (ap_all (uabs y')) = add_mset m (mset (ap_all (uabs y)))"
  using ypipe_write_refines[of message_pipe_granularity y m inc] assms
  by (auto simp: upipe_ok_def ap_simps)

lemma upipe_unwrite_ok:
  assumes "upipe_ok y"
  shows "\<exists>m y'. ypipe_unwrite message_pipe_granularity y = Some (m, y') \<and> upipe_ok y' \<and>
    (case m of None \<Rightarrow> uabs y' = uabs y \<and> partial (uabs y) = []
     | Some m \<Rightarrow> more_part m \<and> msg_check m \<and> partial (uabs y) = partial (uabs y') @ [m] \<and>
         flushed (uabs y') = flushed (uabs y) \<and> complete (uabs y') = complete (uabs y))"
proof -
  obtain y' where y': "ypipe_unwrite message_pipe_granularity y = Some (fst (ap_unwrite (uabs y)), y')" "uinv y'"
    "uabs y' = snd (ap_unwrite (uabs y))"
    using ypipe_unwrite_refines[of message_pipe_granularity y] assms by (auto simp: upipe_ok_def)
  show ?thesis
  proof (cases "partial (uabs y)" rule: rev_cases)
    case Nil
    then show ?thesis using y' assms by (simp add: ap_unwrite_def upipe_ok_def)
  next
    case (snoc xs m)
    then show ?thesis using y' assms by (simp add: ap_unwrite_def upipe_ok_def ap_all_def)
  qed
qed

lemma upipe_flush_ok:
  assumes "upipe_ok y"
  shows "upipe_ok (snd (ypipe_flush y)) \<and> ap_all (uabs (snd (ypipe_flush y))) = ap_all (uabs y) \<and>
    uabs (snd (ypipe_flush y)) = snd (ap_flush (uabs y)) \<and> fst (ypipe_flush y) = fst (ap_flush (uabs y))"
  using ypipe_flush_refines[of message_pipe_granularity y] assms by (auto simp: upipe_ok_def ap_simps)

lemma upipe_check_read_ok:
  assumes "upipe_ok y"
  shows "upipe_ok (snd (ypipe_check_read y)) \<and> ap_all (uabs (snd (ypipe_check_read y))) = ap_all (uabs y) \<and>
    uabs (snd (ypipe_check_read y)) = snd (ap_check_read (uabs y)) \<and> fst (ypipe_check_read y) = (flushed (uabs y) \<noteq> [])"
  using ypipe_check_read_refines[of message_pipe_granularity y] assms by (auto simp: upipe_ok_def ap_simps)

lemma upipe_read_ok:
  assumes "upipe_ok y"
  shows "\<exists>m y'. ypipe_read message_pipe_granularity y = Some (m, y') \<and> upipe_ok y' \<and>
    (case m of None \<Rightarrow> flushed (uabs y) = [] \<and> uabs y' = (uabs y)\<lparr>asleep := True\<rparr>
     | Some m \<Rightarrow> msg_check m \<and> flushed (uabs y) = m # flushed (uabs y') \<and>
         uabs y' = (uabs y)\<lparr>flushed := flushed (uabs y')\<rparr>)"
proof -
  obtain y' where y': "ypipe_read message_pipe_granularity y = Some (fst (ap_read (uabs y)), y')" "uinv y'"
    "uabs y' = snd (ap_read (uabs y))"
    using ypipe_read_refines[of message_pipe_granularity y] assms by (auto simp: upipe_ok_def)
  show ?thesis
  proof (cases "flushed (uabs y)")
    case Nil
    then show ?thesis using y' assms by (simp add: ap_read_def upipe_ok_def ap_all_def)
  next
    case (Cons m xs)
    then show ?thesis using y' assms by (simp add: ap_read_def upipe_ok_def ap_all_def)
  qed
qed

end
