(* ===== verification/Pipe_Pair.thy ===== *)
theory Pipe_Pair
  imports Pipe_World
begin

text \<open>
  The two ends of a pipe, connected by two lock-free pipes and by the commands they send to each
  other. The termination protocol of src/pipe.hpp (the states \<^verbatim>\<open>active\<close> to \<^verbatim>\<open>double_terminated\<close>)
  is stated as the control commands that may be on their way to an end, given the states of both
  ends; the lemmas show that every step of the protocol keeps it.
\<close>

subsection \<open>Commands on their way\<close>

definition inflight :: "'s world \<Rightarrow> addr \<Rightarrow> pipe_cmd list" where
  "inflight w p = map snd (filter (\<lambda>c. fst c = p) (wcmds w))"

fun is_ctl :: "pipe_cmd \<Rightarrow> bool" where
  "is_ctl Activate_read = False"
| "is_ctl (Activate_write n) = False"
| "is_ctl (Hiccup a) = True"
| "is_ctl Pipe_term = True"
| "is_ctl Pipe_term_ack = True"

fun hics :: "pipe_cmd list \<Rightarrow> addr list" where
  "hics [] = []"
| "hics (Hiccup a # cs) = a # hics cs"
| "hics (_ # cs) = hics cs"

lemma hics_append [simp]: "hics (cs @ ds) = hics cs @ hics ds"
  by (induction cs rule: hics.induct) auto

lemma hics_not_ctl: "\<not> is_ctl c \<Longrightarrow> hics (c # cs) = hics cs"
  by (cases c) auto

lemma inflight_set_pipe [simp]: "inflight (set_pipe p x w) = inflight w"
  by (simp add: inflight_def set_pipe_def fun_eq_iff)

lemma inflight_send [simp]: "inflight (send_cmd d c w) p = inflight w p @ (if d = p then [c] else [])"
  by (simp add: inflight_def send_cmd_def)

lemma wpipes_set_pipe [simp]: "wpipes (set_pipe p x w) = (wpipes w)(p \<mapsto> x)"
  by (simp add: set_pipe_def)

lemma set_pipe_sel [simp]:
  "upipes (set_pipe p x w) = upipes w" "next_addr (set_pipe p x w) = next_addr w"
  "wmem (set_pipe p x w) = wmem w" "sock (set_pipe p x w) = sock w" "wcmds (set_pipe p x w) = wcmds w"
  by (simp_all add: set_pipe_def)

lemma send_cmd_sel [simp]:
  "wpipes (send_cmd d c w) = wpipes w" "upipes (send_cmd d c w) = upipes w"
  "next_addr (send_cmd d c w) = next_addr w" "wmem (send_cmd d c w) = wmem w" "sock (send_cmd d c w) = sock w"
  by (simp_all add: send_cmd_def)

lemma set_upipe_sel [simp]:
  "wpipes (set_upipe u y w) = wpipes w" "upipes (set_upipe u y w) = (upipes w)(u \<mapsto> y)"
  "next_addr (set_upipe u y w) = next_addr w" "wmem (set_upipe u y w) = wmem w" "sock (set_upipe u y w) = sock w"
  "wcmds (set_upipe u y w) = wcmds w" "inflight (set_upipe u y w) = inflight w"
  by (simp_all add: set_upipe_def inflight_def fun_eq_iff)

lemma get_pipe_eq [simp]: "get_pipe p w = wpipes w p"
  by (simp add: get_pipe_def)

subsection \<open>The protocol\<close>

text \<open>
  The control commands on their way to an end in the first state whose peer is in the second:
  whether there may be hiccups, and what comes after them. \<open>None\<close> is a deleted end; a pair
  of states that cannot occur has no value.
\<close>

fun expect :: "pipe_state option \<Rightarrow> pipe_state option \<Rightarrow> (bool \<times> pipe_cmd list) option" where
  "expect (Some Active) (Some Active) = Some (True, [])"
| "expect (Some Active) (Some Terminated) = Some (True, [Pipe_term])"
| "expect (Some Delimited) (Some Terminated) = Some (True, [Pipe_term])"
| "expect (Some Pending) (Some Terminated) = Some (False, [])"
| "expect (Some Terminating) (Some Terminated) = Some (False, [])"
| "expect (Some Terminating) None = Some (False, [Pipe_term_ack])"
| "expect (Some Terminated) (Some Active) = Some (True, [])"
| "expect (Some Terminated) (Some Delimited) = Some (True, [])"
| "expect (Some Terminated) (Some Pending) = Some (True, [])"
| "expect (Some Terminated) (Some Terminating) = Some (True, [Pipe_term_ack])"
| "expect (Some Terminated) (Some Terminated) = Some (True, [Pipe_term])"
| "expect (Some Terminated) (Some Double_terminated) = Some (True, [Pipe_term, Pipe_term_ack])"
| "expect (Some Double_terminated) (Some Terminated) = Some (False, [])"
| "expect (Some Double_terminated) (Some Double_terminated) = Some (False, [Pipe_term_ack])"
| "expect (Some Double_terminated) None = Some (False, [Pipe_term_ack])"
| "expect None (Some Terminating) = Some (False, [])"
| "expect None (Some Double_terminated) = Some (False, [])"
| "expect None None = Some (False, [])"
| "expect _ _ = None"

definition on_way :: "pipe_state option \<Rightarrow> pipe_state option \<Rightarrow> pipe_cmd list \<Rightarrow> bool" where
  "on_way s s' cs \<longleftrightarrow> (case expect s s' of None \<Rightarrow> False
     | Some (h, t) \<Rightarrow> filter is_ctl cs = map Hiccup (hics cs) @ t \<and> (h \<or> hics cs = []) \<and>
         (s = None \<longrightarrow> cs = []) \<and> Pipe_term_ack \<notin> set (butlast cs))"

text \<open>The lock-free pipes that lead to an end: the one its peer writes, then those announced by hiccups.\<close>

definition chain :: "pipe option \<Rightarrow> pipe option \<Rightarrow> pipe_cmd list \<Rightarrow> addr list" where
  "chain xo yo cs = (case xo of None \<Rightarrow> []
     | Some x \<Rightarrow> (case yo of None \<Rightarrow> [inpipe x]
         | Some y \<Rightarrow> if outpipe y = 0 then [inpipe x] else outpipe y # hics cs))"

definition end_ok :: "addr \<Rightarrow> pipe option \<Rightarrow> pipe option \<Rightarrow> pipe_cmd list \<Rightarrow> bool" where
  "end_ok q xo yo cs \<longleftrightarrow> (case xo of None \<Rightarrow> True
     | Some x \<Rightarrow> peer x = q \<and> pipe_sink x \<and> (outpipe x = 0 \<longleftrightarrow> pstate x = Terminating \<or> pstate x = Double_terminated) \<and>
         last (chain xo yo cs) = inpipe x)"

definition no_delim :: "msg ypipe option \<Rightarrow> bool" where
  "no_delim u \<longleftrightarrow> (\<forall>m \<in># umsgs u. \<not> msg_is_delimiter m)"

text \<open>An active peer has not written a delimiter.\<close>

definition undelimited :: "pipe option \<Rightarrow> pipe option \<Rightarrow> pipe_cmd list \<Rightarrow> (addr \<Rightarrow> msg ypipe option) \<Rightarrow> bool" where
  "undelimited xo yo cs U \<longleftrightarrow> (case yo of None \<Rightarrow> True
     | Some y \<Rightarrow> pstate y = Active \<longrightarrow> (\<forall>u \<in> set (chain xo yo cs). no_delim (U u)))"

definition pair_ok :: "addr \<Rightarrow> addr \<Rightarrow> pipe option \<Rightarrow> pipe option \<Rightarrow> pipe_cmd list \<Rightarrow> pipe_cmd list \<Rightarrow>
    (addr \<Rightarrow> msg ypipe option) \<Rightarrow> bool" where
  "pair_ok p q xo yo ix iy U \<longleftrightarrow>
     on_way (map_option pstate xo) (map_option pstate yo) ix \<and> on_way (map_option pstate yo) (map_option pstate xo) iy \<and>
     end_ok q xo yo iy \<and> end_ok p yo xo ix \<and> undelimited xo yo iy U \<and> undelimited yo xo ix U \<and>
     distinct (chain xo yo iy @ chain yo xo ix) \<and> 0 \<notin> set (chain xo yo iy @ chain yo xo ix) \<and>
     (\<forall>u. U u \<noteq> None \<longleftrightarrow> u \<in> set (chain xo yo iy @ chain yo xo ix))"

lemma pair_ok_sym: "pair_ok p q xo yo ix iy U \<longleftrightarrow> pair_ok q p yo xo iy ix U"
  unfolding pair_ok_def by (auto simp: Int_commute)

lemma expect_cases:
  assumes "expect s s' \<noteq> None"
  shows "(s = Some Active \<and> s' = Some Active) \<or> (s = Some Active \<and> s' = Some Terminated) \<or>
    (s = Some Delimited \<and> s' = Some Terminated) \<or> (s = Some Pending \<and> s' = Some Terminated) \<or>
    (s = Some Terminating \<and> s' = Some Terminated) \<or> (s = Some Terminating \<and> s' = None) \<or>
    (s = Some Terminated \<and> s' = Some Active) \<or> (s = Some Terminated \<and> s' = Some Delimited) \<or>
    (s = Some Terminated \<and> s' = Some Pending) \<or> (s = Some Terminated \<and> s' = Some Terminating) \<or>
    (s = Some Terminated \<and> s' = Some Terminated) \<or> (s = Some Terminated \<and> s' = Some Double_terminated) \<or>
    (s = Some Double_terminated \<and> s' = Some Terminated) \<or> (s = Some Double_terminated \<and> s' = Some Double_terminated) \<or>
    (s = Some Double_terminated \<and> s' = None) \<or> (s = None \<and> s' = Some Terminating) \<or>
    (s = None \<and> s' = Some Double_terminated) \<or> (s = None \<and> s' = None)"
  using assms by (cases "(s, s')" rule: expect.cases) auto

text \<open>Nothing follows an acknowledgement, so an end that has not acknowledged may send.\<close>

lemma on_way_ctl:
  assumes "on_way s s' cs" "expect s s' = Some (h, t)" "is_ctl c" "\<And>a. c \<noteq> Hiccup a"
  shows "c \<in> set cs \<longleftrightarrow> c \<in> set t"
proof -
  have f: "filter is_ctl cs = map Hiccup (hics cs) @ t" using assms(1,2) by (auto simp: on_way_def)
  have "c \<in> set cs \<longleftrightarrow> c \<in> set (filter is_ctl cs)" using assms(3) by simp
  also have "\<dots> \<longleftrightarrow> c \<in> set t" unfolding f using assms(4) by auto
  finally show ?thesis .
qed

lemma on_way_no_ack:
  assumes "on_way s s' cs" "s' \<in> Some ` {Active, Delimited, Pending, Terminated}"
  shows "Pipe_term_ack \<notin> set cs" "s \<noteq> None"
proof -
  obtain h t where e: "expect s s' = Some (h, t)" using assms(1) by (auto simp: on_way_def split: option.splits)
  have t: "Pipe_term_ack \<notin> set t" "s \<noteq> None"
    using e assms(2) by (cases "(s, s')" rule: expect.cases; auto)+
  then show "Pipe_term_ack \<notin> set cs" "s \<noteq> None" using on_way_ctl[OF assms(1) e, of Pipe_term_ack] by simp_all
qed

lemma on_way_send:
  assumes "on_way s s' cs" "\<not> is_ctl c" "s' \<in> Some ` {Active, Delimited, Pending, Terminated}"
  shows "on_way s s' (cs @ [c])"
proof -
  have "hics [c] = []" using assms(2) by (cases c) auto
  then show ?thesis using assms(1,2) on_way_no_ack[OF assms(1,3)] by (auto simp: on_way_def split: option.splits)
qed

subsection \<open>Steps of the protocol\<close>

text \<open>A step that changes no state of the protocol.\<close>

lemma pair_ok_same:
  assumes "pair_ok p q (Some x) yo ix iy U"
    and x': "inpipe x' = inpipe x" "outpipe x' = outpipe x" "peer x' = peer x" "pipe_sink x' = pipe_sink x"
      "pstate x' = pstate x"
    and U': "\<And>u. U' u \<noteq> None \<longleftrightarrow> U u \<noteq> None" "\<And>u. no_delim (U u) \<Longrightarrow> pstate x = Active \<or> u \<noteq> outpipe x \<Longrightarrow> no_delim (U' u)"
  shows "pair_ok p q (Some x') yo ix iy U'"
proof -
  have c: "chain (Some x') yo iy = chain (Some x) yo iy" "chain yo (Some x') ix = chain yo (Some x) ix"
    using x' by (auto simp: chain_def split: option.splits)
  have d: "distinct (chain (Some x) yo iy @ chain yo (Some x) ix)" using assms(1) by (simp add: pair_ok_def)
  have "undelimited (Some x') yo iy U'"
  proof (cases yo)
    case None
    then show ?thesis by (simp add: undelimited_def)
  next
    case (Some y)
    have "outpipe x \<notin> set (chain (Some x) yo iy)" if "pstate y = Active"
    proof -
      have "on_way (Some (pstate y)) (Some (pstate x)) iy" "outpipe x = 0 \<longleftrightarrow> pstate x = Terminating \<or> pstate x = Double_terminated"
        using assms(1) Some by (auto simp: pair_ok_def end_ok_def)
      then have "outpipe x \<noteq> 0" using that by (auto simp: on_way_def split: option.splits)
      then have "outpipe x \<in> set (chain yo (Some x) ix)" using Some by (simp add: chain_def)
      with d show ?thesis by auto
    qed
    then show ?thesis using assms(1) Some U'(2) c unfolding pair_ok_def undelimited_def
      by (auto simp: Ball_def)
  qed
  moreover have "undelimited yo (Some x') ix U'"
    using assms(1) U'(2) c x' by (auto simp: undelimited_def pair_ok_def)
  moreover have "end_ok q (Some x') yo iy" "end_ok p yo (Some x') ix"
    using assms(1) c x' by (auto simp: end_ok_def pair_ok_def split: option.splits)
  ultimately show ?thesis using assms(1) c x' U'(1) by (simp add: pair_ok_def)
qed

lemma chain_not_ctl:
  assumes "\<not> is_ctl c"
  shows "chain xo yo (cs @ [c]) = chain xo yo cs" "chain xo yo (c # cs) = chain xo yo cs"
  using assms by (cases c; simp add: chain_def split: option.splits)+

lemma pair_ok_send:
  assumes "pair_ok p q (Some x) yo ix iy U" "\<not> is_ctl c" "pstate x \<in> {Active, Delimited, Pending, Terminated}"
  shows "pair_ok p q (Some x) yo ix (iy @ [c]) U"
  using assms on_way_send[of "map_option pstate yo" "Some (pstate x)" iy c]
  by (simp add: pair_ok_def end_ok_def undelimited_def chain_not_ctl split: option.splits)

lemma on_way_tail:
  assumes "on_way s s' (c # cs)" "\<not> is_ctl c"
  shows "on_way s s' cs"
  using assms hics_not_ctl[of c cs] by (auto simp: on_way_def split: option.splits if_splits)

lemma pair_ok_receive:
  assumes "pair_ok p q (Some x) yo (c # ix) iy U" "\<not> is_ctl c"
  shows "pair_ok p q (Some x) yo ix iy U"
  using assms on_way_tail[of "Some (pstate x)" "map_option pstate yo" c ix]
  by (simp add: pair_ok_def end_ok_def undelimited_def chain_not_ctl split: option.splits)

text \<open>The delimiter is read.\<close>

lemma pair_ok_peer:
  assumes "pair_ok p q (Some x) yo ix iy U"
  shows "(pstate x = Active \<longrightarrow> (\<exists>y. yo = Some y \<and> (pstate y = Active \<or> pstate y = Terminated))) \<and>
    (pstate x \<in> {Delimited, Pending} \<longrightarrow> (\<exists>y. yo = Some y \<and> pstate y = Terminated))"
  using assms by (cases "pstate x"; cases yo; cases "pstate (the yo)")
    (auto simp: pair_ok_def on_way_def split: option.splits)

lemma pair_ok_delimited:
  assumes ok: "pair_ok p q (Some x) yo ix iy U" and x: "pstate x = Active"
    and d: "\<not> no_delim (U (inpipe x))"
  shows "pair_ok p q (Some (x\<lparr>pstate := Delimited\<rparr>)) yo ix iy U"
proof -
  obtain y where y: "yo = Some y" "pstate y = Active \<or> pstate y = Terminated" using pair_ok_peer[OF ok] x by auto
  have c: "chain (Some (x\<lparr>pstate := Delimited\<rparr>)) yo iy = chain (Some x) yo iy"
    "chain yo (Some (x\<lparr>pstate := Delimited\<rparr>)) ix = chain yo (Some x) ix"
    using y by (auto simp: chain_def)
  have l: "last (chain (Some x) yo iy) = inpipe x" using ok by (simp add: pair_ok_def end_ok_def)
  have "chain (Some x) yo iy \<noteq> []" using y by (simp add: chain_def)
  with l have "inpipe x \<in> set (chain (Some x) yo iy)" using last_in_set by metis
  then have "pstate y \<noteq> Active" using ok d y by (auto simp: pair_ok_def undelimited_def)
  with y have y': "pstate y = Terminated" by simp
  then show ?thesis using ok x y(1) c by (simp add: pair_ok_def on_way_def end_ok_def undelimited_def)
qed

text \<open>An end gives up its outbound pipe and acknowledges.\<close>

lemma pair_ok_ack:
  assumes ok: "pair_ok p q (Some x) yo ix iy U" and x: "pstate x = Pending"
  shows "pair_ok p q (Some (x\<lparr>outpipe := 0, pstate := Terminating\<rparr>)) yo ix (iy @ [Pipe_term_ack]) U"
proof -
  obtain y where y: "yo = Some y" "pstate y = Terminated" using pair_ok_peer[OF ok] x by auto
  have h: "hics ix = []" "filter is_ctl ix = []" using ok x y by (auto simp: pair_ok_def on_way_def)
  have w: "on_way (Some Terminated) (Some Pending) iy" using ok x y by (simp add: pair_ok_def)
  have k: "Pipe_term_ack \<notin> set iy" by (rule on_way_no_ack(1)[OF w]) simp
  have o: "outpipe x = inpipe y" "outpipe x \<noteq> 0" using ok x y h by (auto simp: pair_ok_def end_ok_def chain_def split: if_splits)
  have "chain (Some (x\<lparr>outpipe := 0, pstate := Terminating\<rparr>)) yo (iy @ [Pipe_term_ack]) = chain (Some x) yo iy"
    using y by (simp add: chain_def)
  moreover have "chain yo (Some (x\<lparr>outpipe := 0, pstate := Terminating\<rparr>)) ix = chain yo (Some x) ix"
    using y h o by (simp add: chain_def)
  ultimately show ?thesis using ok x y h k by (simp add: pair_ok_def on_way_def end_ok_def undelimited_def)
qed

text \<open>An end announces its termination.\<close>

lemma pair_ok_terminate:
  assumes ok: "pair_ok p q (Some x) yo ix iy U" and x: "pstate x \<in> {Active, Delimited}"
  shows "pair_ok p q (Some (x\<lparr>pstate := Terminated\<rparr>)) yo ix (iy @ [Pipe_term]) U"
proof -
  obtain y where y: "yo = Some y" "pstate y = Active \<or> pstate y = Terminated" "pstate x = Delimited \<longrightarrow> pstate y = Terminated"
    using pair_ok_peer[OF ok] x by auto
  have w: "on_way (Some (pstate y)) (Some (pstate x)) iy" using ok y by (simp add: pair_ok_def)
  have k: "Pipe_term_ack \<notin> set iy" by (rule on_way_no_ack(1)[OF w]) (use x in auto)
  have c: "chain (Some (x\<lparr>pstate := Terminated\<rparr>)) yo (iy @ [Pipe_term]) = chain (Some x) yo iy"
    "chain yo (Some (x\<lparr>pstate := Terminated\<rparr>)) ix = chain yo (Some x) ix"
    by (simp_all add: chain_def split: option.splits)
  have "on_way (Some Terminated) (Some (pstate y)) ix \<and> on_way (Some (pstate y)) (Some Terminated) (iy @ [Pipe_term])"
  proof (cases "pstate x = Active")
    case True
    with ok y k show ?thesis by (auto simp: pair_ok_def on_way_def)
  next
    case False
    with ok x y k show ?thesis by (auto simp: pair_ok_def on_way_def)
  qed
  moreover have "end_ok q (Some (x\<lparr>pstate := Terminated\<rparr>)) yo (iy @ [Pipe_term])" "end_ok p yo (Some (x\<lparr>pstate := Terminated\<rparr>)) ix"
    using ok c x y(1) by (auto simp: pair_ok_def end_ok_def)
  moreover have "undelimited (Some (x\<lparr>pstate := Terminated\<rparr>)) yo (iy @ [Pipe_term]) U" "undelimited yo (Some (x\<lparr>pstate := Terminated\<rparr>)) ix U"
    using ok c y(1) by (simp_all add: pair_ok_def undelimited_def)
  ultimately show ?thesis using ok c y(1) by (simp add: pair_ok_def)
qed

text \<open>A new inbound pipe is announced, and taken by the peer.\<close>

lemma pair_ok_hiccup:
  assumes ok: "pair_ok p q (Some x) yo ix iy U" and x: "pstate x = Active" and u: "U u = None" "u \<noteq> 0"
    and n: "no_delim (Some n)"
  shows "pair_ok p q (Some (x\<lparr>inpipe := u\<rparr>)) yo ix (iy @ [Hiccup u]) (U(u \<mapsto> n))"
proof -
  obtain y where y: "yo = Some y" "pstate y = Active \<or> pstate y = Terminated" using pair_ok_peer[OF ok] x by auto
  have w: "on_way (Some (pstate y)) (Some (pstate x)) iy" using ok y by (simp add: pair_ok_def)
  have k: "Pipe_term_ack \<notin> set iy" by (rule on_way_no_ack(1)[OF w]) (use x in auto)
  have "outpipe y \<noteq> 0" using ok y by (auto simp: pair_ok_def end_ok_def)
  then have c: "chain (Some (x\<lparr>inpipe := u\<rparr>)) yo (iy @ [Hiccup u]) = chain (Some x) yo iy @ [u]"
    "chain yo (Some (x\<lparr>inpipe := u\<rparr>)) ix = chain yo (Some x) ix"
    using y by (simp_all add: chain_def)
  have "u \<notin> set (chain (Some x) yo iy @ chain yo (Some x) ix)" using ok u unfolding pair_ok_def by metis
  moreover have "set (chain (Some x) yo iy @ [u]) = insert u (set (chain (Some x) yo iy))" by simp
  moreover have "on_way (Some (pstate y)) (Some (pstate x)) (iy @ [Hiccup u])"
    using w x y k by (auto simp: on_way_def)
  moreover have "undelimited (Some (x\<lparr>inpipe := u\<rparr>)) yo (iy @ [Hiccup u]) (U(u \<mapsto> n))"
    using ok c n y by (simp add: pair_ok_def undelimited_def)
  moreover have "undelimited yo (Some (x\<lparr>inpipe := u\<rparr>)) ix (U(u \<mapsto> n))"
    using ok c n x by (simp add: pair_ok_def undelimited_def)
  ultimately show ?thesis using ok x y c u unfolding pair_ok_def by (simp add: end_ok_def)
qed

lemma pair_ok_hiccuped:
  assumes ok: "pair_ok p q (Some x) yo (Hiccup a # ix) iy U"
  shows "pair_ok p q (Some (x\<lparr>outpipe := a\<rparr>)) yo ix iy (U(outpipe x := None))" and "outpipe x \<noteq> 0" and "a \<noteq> 0"
    and "outpipe x \<noteq> inpipe x"
proof -
  have w: "on_way (Some (pstate x)) (map_option pstate yo) (Hiccup a # ix)" using ok by (simp add: pair_ok_def)
  have s: "pstate x \<in> {Active, Delimited, Terminated}" "yo \<noteq> None"
    using w by (cases "pstate x"; cases yo; cases "pstate (the yo)"; auto simp: on_way_def)+
  then obtain y where y: "yo = Some y" by auto
  show o: "outpipe x \<noteq> 0" using ok s by (auto simp: pair_ok_def end_ok_def)
  have c: "chain yo (Some x) (Hiccup a # ix) = outpipe x # a # hics ix" using y o by (simp add: chain_def)
  show a: "a \<noteq> 0" using ok c by (auto simp: pair_ok_def)
  have c': "chain yo (Some (x\<lparr>outpipe := a\<rparr>)) ix = a # hics ix" using y a by (simp add: chain_def)
  have d: "chain (Some (x\<lparr>outpipe := a\<rparr>)) yo iy = chain (Some x) yo iy" by (simp add: chain_def split: option.splits)
  have n: "outpipe x \<notin> set (chain (Some x) yo iy)" "outpipe x \<notin> set (a # hics ix)"
    using ok c unfolding pair_ok_def by auto
  have "chain (Some x) yo iy \<noteq> []" by (simp add: chain_def split: option.splits)
  moreover have "last (chain (Some x) yo iy) = inpipe x" using ok by (simp add: pair_ok_def end_ok_def)
  ultimately show "outpipe x \<noteq> inpipe x" using n(1) last_in_set by metis
  show "pair_ok p q (Some (x\<lparr>outpipe := a\<rparr>)) yo ix iy (U(outpipe x := None))"
    using ok s y o a c c' d n by (auto simp: pair_ok_def on_way_def end_ok_def undelimited_def split: option.splits if_splits)
qed

text \<open>The peer's termination arrives.\<close>

lemma pair_ok_term_peer:
  assumes ok: "pair_ok p q (Some x) yo (Pipe_term # ix) iy U"
  obtains y where "yo = Some y" "hics ix = []"
    "pstate x = Active \<or> pstate x = Delimited \<Longrightarrow> pstate y = Terminated \<and> filter is_ctl ix = []"
    "pstate x = Terminated \<Longrightarrow> pstate y = Terminated \<and> filter is_ctl ix = [] \<or>
       pstate y = Double_terminated \<and> filter is_ctl ix = [Pipe_term_ack]"
    "pstate x = Active \<or> pstate x = Delimited \<or> pstate x = Terminated"
proof -
  have w: "on_way (Some (pstate x)) (map_option pstate yo) (Pipe_term # ix)" using ok by (simp add: pair_ok_def)
  then obtain h t where e: "expect (Some (pstate x)) (map_option pstate yo) = Some (h, t)"
    by (auto simp: on_way_def split: option.splits)
  have f: "Pipe_term # filter is_ctl ix = map Hiccup (hics ix) @ t" using w e by (simp add: on_way_def)
  then have h: "hics ix = []" by (cases "hics ix") auto
  with f have t: "t = Pipe_term # filter is_ctl ix" by simp
  obtain y where y: "yo = Some y" using e t by (cases yo; cases "pstate x") auto
  have "(pstate x = Active \<or> pstate x = Delimited) \<and> pstate y = Terminated \<and> filter is_ctl ix = [] \<or>
    pstate x = Terminated \<and> (pstate y = Terminated \<and> filter is_ctl ix = [] \<or>
       pstate y = Double_terminated \<and> filter is_ctl ix = [Pipe_term_ack])"
    using e t y by (cases "pstate x"; cases "pstate y") auto
  then show ?thesis using that[of y] y h by auto
qed

lemma pair_ok_term_ack:
  assumes ok: "pair_ok p q (Some x) yo (Pipe_term # ix) iy U"
    and s: "s = (if pstate x = Terminated then Double_terminated else Terminating)"
  shows "pair_ok p q (Some (x\<lparr>pstate := s, outpipe := 0\<rparr>)) yo ix (iy @ [Pipe_term_ack]) U"
proof -
  let ?x = "x\<lparr>pstate := s, outpipe := 0\<rparr>"
  obtain y where y: "yo = Some y" "hics ix = []"
    and 1: "pstate x = Active \<or> pstate x = Delimited \<Longrightarrow> pstate y = Terminated \<and> filter is_ctl ix = []"
    and 2: "pstate x = Terminated \<Longrightarrow> pstate y = Terminated \<and> filter is_ctl ix = [] \<or>
       pstate y = Double_terminated \<and> filter is_ctl ix = [Pipe_term_ack]"
    and 3: "pstate x = Active \<or> pstate x = Delimited \<or> pstate x = Terminated"
    by (rule pair_ok_term_peer[OF ok]) blast
  have wx: "on_way (Some (pstate x)) (Some (pstate y)) (Pipe_term # ix)" and wy: "on_way (Some (pstate y)) (Some (pstate x)) iy"
    using ok y by (simp_all add: pair_ok_def)
  have k: "Pipe_term_ack \<notin> set iy" by (rule on_way_no_ack(1)[OF wy]) (use 3 in auto)
  have o: "outpipe x = inpipe y" "outpipe x \<noteq> 0" using ok y 3 by (auto simp: pair_ok_def end_ok_def chain_def split: if_splits)
  have c: "chain (Some ?x) yo (iy @ [Pipe_term_ack]) = chain (Some x) yo iy" "chain yo (Some ?x) ix = chain yo (Some x) (Pipe_term # ix)"
    using y o by (simp_all add: chain_def)
  have "on_way (Some s) (Some (pstate y)) ix \<and> on_way (Some (pstate y)) (Some s) (iy @ [Pipe_term_ack])"
    using 3
  proof (elim disjE)
    assume "pstate x = Terminated"
    with 2 wx wy k y s show ?thesis by (auto simp: on_way_def split: if_splits)
  qed (use 1 wx wy k y s in \<open>auto simp: on_way_def split: if_splits\<close>)
  moreover have "end_ok q (Some ?x) yo (iy @ [Pipe_term_ack])" "end_ok p yo (Some ?x) ix"
    using ok c s y(1) by (auto simp: pair_ok_def end_ok_def)
  moreover have "undelimited (Some ?x) yo (iy @ [Pipe_term_ack]) U" "undelimited yo (Some ?x) ix U"
    using ok c s y(1) by (simp_all add: pair_ok_def undelimited_def)
  ultimately show ?thesis using ok c y(1) by (simp add: pair_ok_def)
qed

lemma pair_ok_pending:
  assumes ok: "pair_ok p q (Some x) yo (Pipe_term # ix) iy U" and x: "pstate x = Active"
  shows "pair_ok p q (Some (x\<lparr>pstate := Pending\<rparr>)) yo ix iy U"
proof -
  let ?x = "x\<lparr>pstate := Pending\<rparr>"
  obtain y where y: "yo = Some y" "hics ix = []" "pstate y = Terminated" "filter is_ctl ix = []"
    by (rule pair_ok_term_peer[OF ok]) (use x in blast)
  have c: "chain (Some ?x) yo iy = chain (Some x) yo iy" "chain yo (Some ?x) ix = chain yo (Some x) (Pipe_term # ix)"
    using y by (simp_all add: chain_def)
  have "on_way (Some Pending) (Some (pstate y)) ix \<and> on_way (Some (pstate y)) (Some Pending) iy"
    using ok y x by (auto simp: pair_ok_def on_way_def split: if_splits)
  moreover have "end_ok q (Some ?x) yo iy" "end_ok p yo (Some ?x) ix"
    using ok c x y(1) by (auto simp: pair_ok_def end_ok_def)
  moreover have "undelimited (Some ?x) yo iy U" "undelimited yo (Some ?x) ix U"
    using ok c y(1) by (simp_all add: pair_ok_def undelimited_def)
  ultimately show ?thesis using ok c y(1) by (simp add: pair_ok_def)
qed

text \<open>The acknowledgement arrives and the end is deleted, with its inbound pipe.\<close>

lemma pair_ok_dead:
  assumes ok: "pair_ok p q (Some x) yo (Pipe_term_ack # ix) iy U"
  shows "ix = []" and "pstate x = Terminated \<or> pstate x = Terminating \<or> pstate x = Double_terminated"
    and "pair_ok p q None yo [] (iy @ (if pstate x = Terminated then [Pipe_term_ack] else [])) (U(inpipe x := None))"
proof -
  let ?iy = "iy @ (if pstate x = Terminated then [Pipe_term_ack] else [])"
  have w: "on_way (Some (pstate x)) (map_option pstate yo) (Pipe_term_ack # ix)" and wy: "on_way (map_option pstate yo) (Some (pstate x)) iy"
    using ok by (simp_all add: pair_ok_def)
  then obtain h t where e: "expect (Some (pstate x)) (map_option pstate yo) = Some (h, t)"
    by (auto simp: on_way_def split: option.splits)
  have f: "Pipe_term_ack # filter is_ctl ix = map Hiccup (hics ix) @ t" and b: "Pipe_term_ack \<notin> set (butlast (Pipe_term_ack # ix))"
    using w e by (simp_all add: on_way_def)
  from f have h: "hics ix = []" by (cases "hics ix") auto
  with f have t: "t = Pipe_term_ack # filter is_ctl ix" by simp
  show ix: "ix = []" using b by (auto split: if_splits)
  have s: "pstate x = Terminated \<and> (\<exists>y. yo = Some y \<and> pstate y = Terminating) \<or>
      pstate x = Terminating \<and> yo = None \<or>
      pstate x = Double_terminated \<and> (yo = None \<or> (\<exists>y. yo = Some y \<and> pstate y = Double_terminated))"
    using e t ix by (cases "pstate x"; cases yo; cases "pstate (the yo)") auto
  then show "pstate x = Terminated \<or> pstate x = Terminating \<or> pstate x = Double_terminated" by auto
  have k: "filter is_ctl iy = [] \<Longrightarrow> Pipe_term_ack \<notin> set iy" by (metis filter_empty_conv is_ctl.simps(5))
  have o: "\<And>y. yo = Some y \<Longrightarrow> outpipe y = 0" using ok s by (auto simp: pair_ok_def end_ok_def)
  have c: "chain (Some x) yo iy = [inpipe x]" using o by (simp add: chain_def split: option.splits)
  have c': "chain yo None [] = chain yo (Some x) (Pipe_term_ack # ix)"
    using ok ix by (auto simp: pair_ok_def end_ok_def chain_def split: option.splits if_splits)
  have "on_way None (map_option pstate yo) [] \<and> on_way (map_option pstate yo) None ?iy"
    using s wy k by (auto simp: on_way_def split: if_splits)
  moreover have "end_ok p yo None []" using ok c' by (auto simp: pair_ok_def end_ok_def split: option.splits)
  moreover have "undelimited None yo ?iy (U(inpipe x := None))" "undelimited yo None [] (U(inpipe x := None))"
    by (auto simp: undelimited_def chain_def split: option.splits)
  moreover have "inpipe x \<notin> set (chain yo (Some x) (Pipe_term_ack # ix))" using ok c by (auto simp: pair_ok_def)
  ultimately show "pair_ok p q None yo [] ?iy (U(inpipe x := None))"
    using ok c c' by (auto simp: pair_ok_def end_ok_def chain_def)
qed

end
