(* ===== verification/Pipe_Run.thy ===== *)
theory Pipe_Run
  imports Pipe_Pair
begin

text \<open>
  The operations of src/pipe.cpp on the two ends of a pipe: whatever the users of the two ends
  call and in whatever order the commands arrive, no assertion fails, nothing deleted is used, and
  the invariant of the protocol, of the lock-free pipes and of the message heap is kept.
\<close>

unbundle bit_operations_syntax

subsection \<open>The loops end\<close>

lemma umsgs_Some [simp]: "umsgs (Some y) = mset (ap_all (uabs y))"
  by (simp add: umsgs_def)

lemma world_ok_set_upipe:
  assumes "world_ok L w" "upipes w u = Some y" "upipe_ok y'" "mset (ap_all (uabs y')) = mset (ap_all (uabs y))"
  shows "world_ok L (set_upipe u y' w)"
  by (rule world_ok_change[OF assms(1,2,3)]) (simp_all add: assms(4))

definition same_but_upipe :: "addr \<Rightarrow> 's world \<Rightarrow> 's world \<Rightarrow> bool" where
  "same_but_upipe a w w' \<longleftrightarrow> wpipes w' = wpipes w \<and> next_addr w' = next_addr w \<and> wcmds w' = wcmds w \<and> sock w' = sock w \<and>
     (\<forall>b. b \<noteq> a \<longrightarrow> upipes w' b = upipes w b)"

lemma same_but_upipe_trans: "same_but_upipe a w1 w2 \<Longrightarrow> same_but_upipe a w2 w3 \<Longrightarrow> same_but_upipe a w1 w3"
  by (simp add: same_but_upipe_def)

text \<open>A message taken out of a lock-free pipe is closed.\<close>

lemma world_close:
  assumes ok: "world_ok L w" "upipes w a = Some y" and y': "upipe_ok y'" "msg_check m"
    "mset (ap_all (uabs y)) = add_mset m (mset (ap_all (uabs y')))"
  obtains h' where "msg_close m (wmem w) = Some (Inr (), m\<lparr>mtype := 0\<rparr>, h')"
    "world_ok L ((set_upipe a y' w)\<lparr>wmem := h'\<rparr>)"
proof -
  let ?w1 = "set_upipe a y' w"
  have lt: "a < next_addr w" using world_ok_upipe[OF ok] by simp
  have "add_mset m (all_msgs ?w1) = all_msgs w"
    using all_msgs_upd[OF lt, of "Some y'"] ok(2) y'(3) by (simp add: set_upipe_def)
  then have "L + sock w + all_msgs w = add_mset m (L + sock w + all_msgs ?w1)" by (metis union_mset_add_mset_right)
  then have "refs_inv (add_mset m (L + sock w + all_msgs ?w1)) (wmem w)" using ok(1) by (simp add: world_ok_def)
  from msg_close_ok[OF this y'(2)]
  obtain h' where h': "msg_close m (wmem w) = Some (Inr (), m\<lparr>mtype := 0\<rparr>, h')" "refs_inv (L + sock w + all_msgs ?w1) h'"
    by blast
  have "all_msgs (?w1\<lparr>wmem := h'\<rparr>) = all_msgs ?w1" by (rule all_msgs_cong) simp_all
  then have "world_ok L (?w1\<lparr>wmem := h'\<rparr>)" using ok(1) h'(2) y'(1) lt unfolding world_ok_def by simp
  with h'(1) show ?thesis by (rule that)
qed

lemma drain_loop_ok:
  assumes "world_ok L w" "upipes w a = Some y"
  shows "\<exists>w' y'. drain_loop a w = Some w' \<and> world_ok L w' \<and> same_but_upipe a w w' \<and> upipes w' a = Some y' \<and>
    uabs y' = (uabs y)\<lparr>flushed := [], asleep := True\<rparr>"
  using assms
proof (induction "flushed (uabs y)" arbitrary: w y)
  case Nil
  have ok: "upipe_ok y" using world_ok_upipe Nil.prems by blast
  obtain m y' where y': "ypipe_read message_pipe_granularity y = Some (m, y')" "upipe_ok y'"
    "m = None" "uabs y' = (uabs y)\<lparr>asleep := True\<rparr>"
    using upipe_read_ok[OF ok] Nil.hyps by (auto split: option.splits)
  have "world_ok L (set_upipe a y' w)" by (rule world_ok_set_upipe[OF Nil.prems y'(2)]) (simp add: y'(4) ap_all_def)
  then show ?case using Nil.prems(2) Nil.hyps y' by (subst drain_loop.simps) (simp add: same_but_upipe_def)
next
  case (Cons m ms)
  have ok: "upipe_ok y" using world_ok_upipe Cons.prems by blast
  obtain y' where y': "ypipe_read message_pipe_granularity y = Some (Some m, y')" "upipe_ok y'" "msg_check m"
    "flushed (uabs y') = ms" "uabs y' = (uabs y)\<lparr>flushed := ms\<rparr>"
    using upipe_read_ok[OF ok] Cons.hyps(2)[symmetric] by (auto split: option.splits)
  have all: "mset (ap_all (uabs y)) = add_mset m (mset (ap_all (uabs y')))"
    using Cons.hyps(2)[symmetric] y'(5) by (simp add: ap_all_def)
  obtain h' where h': "msg_close m (wmem w) = Some (Inr (), m\<lparr>mtype := 0\<rparr>, h')"
    "world_ok L ((set_upipe a y' w)\<lparr>wmem := h'\<rparr>)"
    by (rule world_close[OF Cons.prems y'(2,3) all])
  define w2 where "w2 = (set_upipe a y' w)\<lparr>wmem := h'\<rparr>"
  have "world_ok L w2" using h'(2) by (simp add: w2_def)
  moreover have "upipes w2 a = Some y'" by (simp add: w2_def)
  ultimately obtain w' y'' where w': "drain_loop a w2 = Some w'" "world_ok L w'" "same_but_upipe a w2 w'" "upipes w' a = Some y''"
    "uabs y'' = (uabs y')\<lparr>flushed := [], asleep := True\<rparr>"
    using Cons.hyps(1)[of y' w2] y'(4) by blast
  have "same_but_upipe a w w2" by (simp add: same_but_upipe_def w2_def)
  moreover have "drain_loop a w = drain_loop a w2"
    using Cons.prems(2) y'(1) h'(1) by (subst drain_loop.simps) (simp add: w2_def)
  ultimately show ?case using w' y'(5) same_but_upipe_trans[of a w w2 w'] by auto
qed

lemma rollback_ok:
  assumes "world_ok L w" "upipes w a = Some y"
  shows "\<exists>w' y'. rollback_loop a w = Some w' \<and> world_ok L w' \<and> same_but_upipe a w w' \<and> upipes w' a = Some y' \<and>
    partial (uabs y') = [] \<and> flushed (uabs y') = flushed (uabs y) \<and> complete (uabs y') = complete (uabs y)"
  using assms
proof (induction "length (partial (uabs y))" arbitrary: w y)
  case 0
  have ok: "upipe_ok y" using world_ok_upipe 0 by blast
  obtain y' where y': "ypipe_unwrite message_pipe_granularity y = Some (None, y')" "upipe_ok y'" "uabs y' = uabs y"
    using upipe_unwrite_ok[OF ok] 0(1) by (auto split: option.splits)
  have "world_ok L (set_upipe a y' w)" by (rule world_ok_set_upipe[OF 0(2,3) y'(2)]) (simp add: y'(3))
  then show ?case using 0 y' by (subst rollback_loop.simps) (simp add: same_but_upipe_def)
next
  case (Suc n)
  have ok: "upipe_ok y" using world_ok_upipe Suc.prems by blast
  obtain m y' where y': "ypipe_unwrite message_pipe_granularity y = Some (Some m, y')" "upipe_ok y'" "more_part m" "msg_check m"
    "partial (uabs y) = partial (uabs y') @ [m]" "flushed (uabs y') = flushed (uabs y)" "complete (uabs y') = complete (uabs y)"
    using upipe_unwrite_ok[OF ok] Suc.hyps(2) by (auto split: option.splits)
  have all: "mset (ap_all (uabs y)) = add_mset m (mset (ap_all (uabs y')))"
    using y'(5,6,7) by (simp add: ap_all_def)
  obtain h' where h': "msg_close m (wmem w) = Some (Inr (), m\<lparr>mtype := 0\<rparr>, h')"
    "world_ok L ((set_upipe a y' w)\<lparr>wmem := h'\<rparr>)"
    by (rule world_close[OF Suc.prems y'(2,4) all])
  define w2 where "w2 = (set_upipe a y' w)\<lparr>wmem := h'\<rparr>"
  have "world_ok L w2" using h'(2) by (simp add: w2_def)
  moreover have "upipes w2 a = Some y'" by (simp add: w2_def)
  moreover have "n = length (partial (uabs y'))" using Suc.hyps(2) y'(5) by simp
  ultimately obtain w' y'' where w': "rollback_loop a w2 = Some w'" "world_ok L w'" "same_but_upipe a w2 w'" "upipes w' a = Some y''"
    "partial (uabs y'') = []" "flushed (uabs y'') = flushed (uabs y')" "complete (uabs y'') = complete (uabs y')"
    using Suc.hyps(1)[of y' w2] by blast
  have "same_but_upipe a w w2" by (simp add: same_but_upipe_def w2_def)
  moreover have "rollback_loop a w = rollback_loop a w2"
    using Suc.prems(2) y'(1,3) h'(1) by (subst rollback_loop.simps) (simp add: w2_def more_part_def)
  ultimately show ?case using w' y' same_but_upipe_trans[of a w w2 w'] by auto
qed

lemma delete_ok:
  assumes "world_ok L w" "upipes w a = Some y"
  shows "\<exists>w'. delete_upipe a w = Some w' \<and> world_ok (L + mset (ap_all (uabs y))) w' \<and> upipes w' = (upipes w)(a := None) \<and>
    wpipes w' = wpipes w \<and> next_addr w' = next_addr w \<and> wcmds w' = wcmds w \<and> sock w' = sock w"
proof -
  have lt: "a < next_addr w" using world_ok_upipe[OF assms] by simp
  let ?w = "w\<lparr>upipes := (upipes w)(a := None)\<rparr>"
  have "all_msgs w = mset (ap_all (uabs y)) + all_msgs ?w"
    using all_msgs_upd[OF lt, of None] assms(2) by (simp add: umsgs_def add.commute)
  then have "refs_inv (L + mset (ap_all (uabs y)) + sock w + all_msgs ?w) (wmem w)"
    using assms(1) unfolding world_ok_def by (simp add: ac_simps)
  then show ?thesis using assms by (auto simp: delete_upipe_def world_ok_def)
qed

subsection \<open>The invariant of the two ends\<close>

definition pair_inv :: "addr \<Rightarrow> addr \<Rightarrow> pworld \<Rightarrow> bool" where
  "pair_inv p q w \<longleftrightarrow> p \<noteq> q \<and> (\<exists>L. world_ok L w) \<and>
     pair_ok p q (wpipes w p) (wpipes w q) (inflight w p) (inflight w q) (upipes w)"

lemma pair_inv_sym: "pair_inv p q w \<longleftrightarrow> pair_inv q p w"
  unfolding pair_inv_def using pair_ok_sym by metis

lemma pair_invI:
  "p \<noteq> q \<Longrightarrow> world_ok L w \<Longrightarrow> pair_ok p q (wpipes w p) (wpipes w q) (inflight w p) (inflight w q) (upipes w) \<Longrightarrow> pair_inv p q w"
  by (auto simp: pair_inv_def)

lemma pair_inv_outpipe:
  assumes "pair_inv p q w" "wpipes w p = Some x"
  shows "outpipe x = 0 \<longleftrightarrow> pstate x = Terminating \<or> pstate x = Double_terminated"
  using assms by (simp add: pair_inv_def pair_ok_def end_ok_def)

lemma pair_inv_alive:
  assumes inv: "pair_inv p q w" and x: "wpipes w p = Some x"
  obtains L u where "p \<noteq> q" "world_ok L w"
    "pair_ok p q (Some x) (wpipes w q) (inflight w p) (inflight w q) (upipes w)"
    "upipes w (inpipe x) = Some u" "upipe_ok u" "inpipe x < next_addr w" "peer x = q" "pipe_sink x"
proof -
  obtain L where L: "world_ok L w" using inv by (auto simp: pair_inv_def)
  have ok: "pair_ok p q (Some x) (wpipes w q) (inflight w p) (inflight w q) (upipes w)"
    using inv x by (simp add: pair_inv_def)
  let ?c = "chain (Some x) (wpipes w q) (inflight w q)"
  have "last ?c = inpipe x" using ok by (simp add: pair_ok_def end_ok_def)
  moreover have "?c \<noteq> []" by (simp add: chain_def split: option.splits)
  ultimately have "inpipe x \<in> set ?c" using last_in_set by metis
  then have "upipes w (inpipe x) \<noteq> None" using ok unfolding pair_ok_def by simp
  then obtain u where u: "upipes w (inpipe x) = Some u" by auto
  have "p \<noteq> q" using inv by (simp add: pair_inv_def)
  then show ?thesis using that[OF _ L ok u] world_ok_upipe[OF L u] ok by (simp add: pair_ok_def end_ok_def)
qed

lemma pair_inv_out:
  assumes inv: "pair_inv p q w" and x: "wpipes w p = Some x" and nz: "outpipe x \<noteq> 0"
  obtains v where "upipes w (outpipe x) = Some v" "upipe_ok v" "outpipe x \<noteq> inpipe x"
proof -
  have ok: "pair_ok p q (Some x) (wpipes w q) (inflight w p) (inflight w q) (upipes w)" and L: "\<exists>L. world_ok L w"
    using inv x by (simp_all add: pair_inv_def)
  have "wpipes w q \<noteq> None"
    using ok nz by (cases "pstate x") (auto simp: pair_ok_def on_way_def end_ok_def)
  then have o: "outpipe x \<in> set (chain (wpipes w q) (Some x) (inflight w p))" using nz by (auto simp: chain_def)
  then have "upipes w (outpipe x) \<noteq> None" using ok by (simp add: pair_ok_def)
  then obtain v where v: "upipes w (outpipe x) = Some v" by auto
  let ?c = "chain (Some x) (wpipes w q) (inflight w q)"
  have "last ?c = inpipe x" using ok by (simp add: pair_ok_def end_ok_def)
  moreover have "?c \<noteq> []" by (simp add: chain_def split: option.splits)
  ultimately have "inpipe x \<in> set ?c" using last_in_set by metis
  with o have "outpipe x \<noteq> inpipe x" using ok by (auto simp: pair_ok_def)
  then show ?thesis using that v world_ok_upipe L by blast
qed

lemma no_delim_sub:
  assumes "no_delim (Some y)" "\<And>m. m \<in># mset (ap_all (uabs y')) \<Longrightarrow> m \<in># mset (ap_all (uabs y)) \<or> \<not> msg_is_delimiter m"
  shows "no_delim (Some y')"
  using assms by (auto simp: no_delim_def)

subsection \<open>Reading\<close>

text \<open>An end whose inbound pipe lost messages only.\<close>

lemma pair_ok_upipe:
  assumes ok: "pair_ok p q (Some x) yo ix iy U" and u: "U u = Some v"
    and sub: "set (ap_all (uabs v')) \<subseteq> set (ap_all (uabs v))"
  shows "pair_ok p q (Some x) yo ix iy (U(u \<mapsto> v'))"
  by (rule pair_ok_same[OF ok]) (use u sub in \<open>auto simp: no_delim_def\<close>)

lemma pair_ok_fields:
  assumes ok: "pair_ok p q (Some x) yo ix iy U"
    and x': "inpipe x' = inpipe x" "outpipe x' = outpipe x" "peer x' = peer x" "pipe_sink x' = pipe_sink x"
      "pstate x' = pstate x"
  shows "pair_ok p q (Some x') yo ix iy U"
  by (rule pair_ok_same[OF ok x']) simp_all

text \<open>The delimiter at the front of the inbound pipe is taken out.\<close>

lemma delimit_ok:
  assumes inv: "pair_inv p q w" and x: "wpipes w p = Some x" and r: "pipe_readable x"
    and u: "upipes w (inpipe x) = Some u" and v: "upipe_ok v" "mset (ap_all (uabs u)) = add_mset m (mset (ap_all (uabs v)))"
    and m: "msg_is_delimiter m"
  shows "\<exists>w'. pipe_delimit p (set_upipe (inpipe x) v w) = Some w' \<and> pair_inv p q w' \<and> sock w' = sock w"
proof -
  obtain L where pq: "p \<noteq> q" and L: "world_ok L w" and ok: "pair_ok p q (Some x) (wpipes w q) (inflight w p) (inflight w q) (upipes w)"
    and peer: "peer x = q"
    by (rule pair_inv_alive[OF inv x]) blast
  have L': "world_ok L (set_upipe (inpipe x) v w)"
  proof (rule world_ok_change[OF L u v(1)])
    fix R assume "refs_inv (L + sock w + mset (ap_all (uabs u)) + R) (wmem w)"
    then have "refs_inv (add_mset m (L + sock w + mset (ap_all (uabs v)) + R)) (wmem w)" unfolding v(2) by simp
    then show "refs_inv (L + sock (set_upipe (inpipe x) v w) + mset (ap_all (uabs v)) + R) (wmem (set_upipe (inpipe x) v w))"
      using m refs_inv_skip[of m] by (simp add: msg_is_delimiter_def)
  qed simp_all
  have sub: "set (ap_all (uabs v)) \<subseteq> set (ap_all (uabs u))" using v(2) by (metis set_mset_mset set_mset_add_mset_insert subset_insertI)
  have d: "\<not> no_delim (upipes w (inpipe x))" unfolding u no_delim_def using v(2) m by auto
  show ?thesis
  proof (cases "pstate x = Active")
    case True
    note pair_ok_upipe[OF pair_ok_delimited[OF ok True d] u sub]
    with L' True pq show ?thesis
      by (auto simp: pipe_delimit_def x intro!: pair_invI)
  next
    case False
    with r have P: "pstate x = Pending" by (simp add: pipe_readable_def)
    note pair_ok_upipe[OF pair_ok_ack[OF ok P] u sub]
    with L' P pq peer show ?thesis
      by (auto simp: pipe_delimit_def x intro!: pair_invI)
  qed
qed

lemma check_read_ok:
  assumes inv: "pair_inv p q w" and x: "wpipes w p = Some x"
  shows "\<exists>b w'. pipe_check_read p w = Some (b, w') \<and> pair_inv p q w'"
proof (cases "pipe_readable x")
  case False
  then show ?thesis using inv x by (auto simp: pipe_check_read_def)
next
  case r: True
  obtain L u where pq: "p \<noteq> q" and L: "world_ok L w" and ok: "pair_ok p q (Some x) (wpipes w q) (inflight w p) (inflight w q) (upipes w)"
    and u: "upipes w (inpipe x) = Some u" "upipe_ok u"
    by (rule pair_inv_alive[OF inv x]) blast
  obtain b u1 where b: "ypipe_check_read u = (b, u1)" by fastforce
  have u1: "upipe_ok u1" "ap_all (uabs u1) = ap_all (uabs u)" "b \<longleftrightarrow> flushed (uabs u) \<noteq> []" "flushed (uabs u1) = flushed (uabs u)"
    using upipe_check_read_ok[OF u(2)] b by (auto simp: ap_check_read_def)
  have L1: "world_ok L (set_upipe (inpipe x) u1 w)" by (rule world_ok_set_upipe[OF L u(1) u1(1)]) (simp add: u1)
  have p1: "pair_ok p q (Some x) (wpipes w q) (inflight w p) (inflight w q) ((upipes w)(inpipe x \<mapsto> u1))"
    by (rule pair_ok_upipe[OF ok u(1)]) (simp add: u1)
  have inv1: "pair_inv p q (set_upipe (inpipe x) u1 w)" by (rule pair_invI[OF pq L1]) (simp add: p1 x)
  show ?thesis
  proof (cases b)
    case False
    have "pair_ok p q (Some (x\<lparr>in_active := False\<rparr>)) (wpipes w q) (inflight w p) (inflight w q) ((upipes w)(inpipe x \<mapsto> u1))"
      by (rule pair_ok_fields[OF p1]) simp_all
    then have "pair_inv p q (set_pipe p (x\<lparr>in_active := False\<rparr>) (set_upipe (inpipe x) u1 w))"
      using L1 pq by (auto intro!: pair_invI)
    then show ?thesis using r u b False by (auto simp: pipe_check_read_def x)
  next
    case True
    then have ne: "flushed (uabs u1) \<noteq> []" using u1 by simp
    obtain u2 where u2: "ypipe_probe msg_is_delimiter u1 = Some (msg_is_delimiter (hd (flushed (uabs u1))), u2)" "uinv u2" "uabs u2 = uabs u1"
      using ypipe_probe_refines[of message_pipe_granularity u1 msg_is_delimiter] ne u1(1) by (auto simp: upipe_ok_def)
    have u2': "upipe_ok u2" using u1(1) u2 by (simp add: upipe_ok_def)
    have L2: "world_ok L (set_upipe (inpipe x) u2 w)" by (rule world_ok_set_upipe[OF L u(1) u2']) (simp add: u1 u2)
    have p2: "pair_ok p q (Some x) (wpipes w q) (inflight w p) (inflight w q) ((upipes w)(inpipe x \<mapsto> u2))"
      by (rule pair_ok_upipe[OF ok u(1)]) (simp add: u1 u2)
    have inv2: "pair_inv p q (set_upipe (inpipe x) u2 w)" by (rule pair_invI[OF pq L2]) (simp add: p2 x)
    show ?thesis
    proof (cases "msg_is_delimiter (hd (flushed (uabs u1)))")
      case False
      then show ?thesis using r u b True u2 inv2
        by (auto simp: pipe_check_read_def x set_upipe_def)
    next
      case D: True
      obtain m u3 where u3: "ypipe_read message_pipe_granularity u2 = Some (Some m, u3)" "upipe_ok u3"
        "flushed (uabs u2) = m # flushed (uabs u3)" "uabs u3 = (uabs u2)\<lparr>flushed := flushed (uabs u3)\<rparr>"
        using upipe_read_ok[OF u2'] ne u2(3) by (auto split: option.splits)
      have m: "msg_is_delimiter m" using D u3(3) u2(3) by simp
      have "complete (uabs u3) = complete (uabs u2)" "partial (uabs u3) = partial (uabs u2)"
        by (subst u3(4), simp)+
      then have all: "mset (ap_all (uabs u2)) = add_mset m (mset (ap_all (uabs u3)))"
        using u3(3) by (simp add: ap_all_def)
      obtain w' where "pipe_delimit p (set_upipe (inpipe x) u3 (set_upipe (inpipe x) u2 w)) = Some w'" "pair_inv p q w'"
        using delimit_ok[OF inv2 _ r _ u3(2) all m] x by auto
      then show ?thesis using r u b True D u2 u3
        by (auto simp: pipe_check_read_def x set_upipe_def)
    qed
  qed
qed

definition give :: "msg option \<Rightarrow> pworld \<Rightarrow> pworld" where
  "give m w = (case m of None \<Rightarrow> w | Some m \<Rightarrow> w\<lparr>sock := add_mset m (sock w)\<rparr>)"

lemma give_simps [simp]: "give None w = w"
  "wpipes (give m w) = wpipes w" "upipes (give m w) = upipes w" "inflight (give m w) = inflight w"
  by (auto simp: give_def inflight_def fun_eq_iff split: option.splits)

text \<open>An end that is not acknowledging sends a notification.\<close>

lemma pair_inv_notify:
  assumes inv: "pair_inv p q w" and x: "wpipes w p = Some x" and c: "\<not> is_ctl c"
    and s: "pstate x \<in> {Active, Delimited, Pending, Terminated}"
  shows "pair_inv p q (send_cmd q c w)"
proof -
  obtain L where pq: "p \<noteq> q" and L: "world_ok L w" and ok: "pair_ok p q (Some x) (wpipes w q) (inflight w p) (inflight w q) (upipes w)"
    by (rule pair_inv_alive[OF inv x]) blast
  show ?thesis using pair_ok_send[OF ok c s] pq L x by (auto intro!: pair_invI)
qed

lemma pair_inv_fields:
  assumes inv: "pair_inv p q w" and x: "wpipes w p = Some x"
    and x': "inpipe x' = inpipe x" "outpipe x' = outpipe x" "peer x' = peer x" "pipe_sink x' = pipe_sink x"
      "pstate x' = pstate x"
  shows "pair_inv p q (set_pipe p x' w)"
proof -
  obtain L where pq: "p \<noteq> q" and L: "world_ok L w" and ok: "pair_ok p q (Some x) (wpipes w q) (inflight w p) (inflight w q) (upipes w)"
    by (rule pair_inv_alive[OF inv x]) blast
  show ?thesis using pair_ok_fields[OF ok x'] pq L by (auto intro!: pair_invI)
qed

lemma flushed_upd: "a = b\<lparr>flushed := f\<rparr> \<Longrightarrow> complete a = complete b \<and> partial a = partial b"
  by simp

lemma read_ok:
  assumes inv: "pair_inv p q w" and x: "wpipes w p = Some x"
  shows "\<exists>m w'. pipe_read p w = Some (m, w') \<and> pair_inv p q (give m w')"
proof (cases "pipe_readable x")
  case False
  then show ?thesis using inv x by (simp add: pipe_read_def)
next
  case r: True
  obtain L u where pq: "p \<noteq> q" and L: "world_ok L w" and ok: "pair_ok p q (Some x) (wpipes w q) (inflight w p) (inflight w q) (upipes w)"
    and u: "upipes w (inpipe x) = Some u" "upipe_ok u" and peer: "peer x = q"
    by (rule pair_inv_alive[OF inv x]) blast
  obtain m u1 where u1: "ypipe_read message_pipe_granularity u = Some (m, u1)" "upipe_ok u1"
    "case m of None \<Rightarrow> flushed (uabs u) = [] \<and> uabs u1 = (uabs u)\<lparr>asleep := True\<rparr>
     | Some m \<Rightarrow> msg_check m \<and> flushed (uabs u) = m # flushed (uabs u1) \<and> uabs u1 = (uabs u)\<lparr>flushed := flushed (uabs u1)\<rparr>"
    using upipe_read_ok[OF u(2)] by blast
  let ?w1 = "set_upipe (inpipe x) u1 w"
  show ?thesis
  proof (cases m)
    case None
    then have all: "ap_all (uabs u1) = ap_all (uabs u)" using u1 by (simp add: ap_all_def)
    have L1: "world_ok L ?w1" by (rule world_ok_set_upipe[OF L u(1) u1(2)]) (simp add: all)
    have p1: "pair_ok p q (Some x) (wpipes w q) (inflight w p) (inflight w q) ((upipes w)(inpipe x \<mapsto> u1))"
      by (rule pair_ok_upipe[OF ok u(1)]) (simp add: all)
    have "pair_inv p q ?w1" by (rule pair_invI[OF pq L1]) (simp add: p1 x)
    then have "pair_inv p q (set_pipe p (x\<lparr>in_active := False\<rparr>) ?w1)" by (rule pair_inv_fields) (simp_all add: x)
    then show ?thesis using r u u1 None by (simp add: pipe_read_def x)
  next
    case (Some m')
    have "complete (uabs u1) = complete (uabs u)" "partial (uabs u1) = partial (uabs u)"
      using u1(3) unfolding Some option.case(2) by (blast dest: flushed_upd)+
    then have all: "mset (ap_all (uabs u)) = add_mset m' (mset (ap_all (uabs u1)))"
      using u1(3) Some by (simp add: ap_all_def)
    show ?thesis
    proof (cases "msg_is_delimiter m'")
      case True
      obtain w' where "pipe_delimit p ?w1 = Some w'" "pair_inv p q w'"
        using delimit_ok[OF inv x r u(1) u1(2) all True] by blast
      then show ?thesis using r u u1 Some True by (auto simp: pipe_read_def x)
    next
      case False
      define w2 where "w2 = ?w1\<lparr>sock := add_mset m' (sock w)\<rparr>"
      have L2: "world_ok L w2"
      proof (rule world_ok_change[OF L u(1) u1(2)])
        fix R assume "refs_inv (L + sock w + mset (ap_all (uabs u)) + R) (wmem w)"
        then show "refs_inv (L + sock w2 + mset (ap_all (uabs u1)) + R) (wmem w2)" unfolding all by (simp add: w2_def)
      qed (simp_all add: w2_def)
      have sub: "set (ap_all (uabs u1)) \<subseteq> set (ap_all (uabs u))" using all by (metis set_mset_mset set_mset_add_mset_insert subset_insertI)
      have p2: "pair_ok p q (Some x) (wpipes w q) (inflight w p) (inflight w q) ((upipes w)(inpipe x \<mapsto> u1))"
        by (rule pair_ok_upipe[OF ok u(1) sub])
      have i2: "inflight w2 = inflight w" by (simp add: w2_def inflight_def fun_eq_iff)
      have inv2: "pair_inv p q w2" by (rule pair_invI[OF pq L2]) (use p2 x i2 in \<open>simp add: w2_def\<close>)
      have sel2: "wpipes w2 p = Some x" by (simp add: w2_def x)
      define x' where "x' = (if mflags m' AND flag_more = 0 then x\<lparr>msgs_read := msgs_read x + 1\<rparr> else x)"
      define b where "b \<longleftrightarrow> lwm x' > 0 \<and> msgs_read x' mod word_of_int (lwm x') = 0"
      have x': "inpipe x' = inpipe x" "outpipe x' = outpipe x" "peer x' = peer x" "pipe_sink x' = pipe_sink x"
        "pstate x' = pstate x" by (simp_all add: x'_def)
      have inv3: "pair_inv p q (set_pipe p x' w2)" by (rule pair_inv_fields[OF inv2 sel2 x'])
      have "pair_inv p q (send_cmd q (Activate_write (msgs_read x')) (set_pipe p x' w2))"
        by (rule pair_inv_notify[OF inv3, of x']) (use r x' in \<open>auto simp: pipe_readable_def\<close>)
      with inv3 have fin: "pair_inv p q (if b then send_cmd q (Activate_write (msgs_read x')) (set_pipe p x' w2) else set_pipe p x' w2)"
        by simp
      let ?w' = "if b then send_cmd (peer x') (Activate_write (msgs_read x')) (set_pipe p x' ?w1) else set_pipe p x' ?w1"
      have "pipe_read p w = Some (Some m', ?w')"
        using r u u1 Some False by (simp add: pipe_read_def x x'_def b_def)
      moreover have "give (Some m') ?w' = (if b then send_cmd q (Activate_write (msgs_read x')) (set_pipe p x' w2) else set_pipe p x' w2)"
        using peer x' by (simp add: give_def w2_def send_cmd_def set_pipe_def set_upipe_def)
      ultimately show ?thesis using fin by auto
    qed
  qed
qed

subsection \<open>Writing\<close>

lemma check_write_ok:
  assumes inv: "pair_inv p q w" and x: "wpipes w p = Some x"
  shows "\<exists>b w'. pipe_check_write p w = Some (b, w') \<and> pair_inv p q w' \<and> sock w' = sock w \<and>
    (b \<longrightarrow> w' = w \<and> pstate x = Active)"
proof -
  have "pair_inv p q (set_pipe p (x\<lparr>out_active := False\<rparr>) w)" by (rule pair_inv_fields[OF inv x]) simp_all
  then show ?thesis using inv x by (auto simp: pipe_check_write_def)
qed

lemma write_ok:
  assumes inv: "pair_inv p q w" and x: "wpipes w p = Some x"
    and m: "m \<in># sock w" "msg_check m" "\<not> msg_is_delimiter m"
  shows "\<exists>b w'. pipe_write p m w = Some (b, w') \<and> sock w' = sock w \<and>
    pair_inv p q (if b then w'\<lparr>sock := sock w' - {#m#}\<rparr> else w')"
proof -
  obtain b w1 where w1: "pipe_check_write p w = Some (b, w1)" "pair_inv p q w1" "b \<longrightarrow> w1 = w \<and> pstate x = Active" "sock w1 = sock w"
    using check_write_ok[OF inv x] by blast
  show ?thesis
  proof (cases b)
    case False
    then show ?thesis using w1 by (auto simp: pipe_write_def)
  next
    case True
    then have w: "w1 = w" and act: "pstate x = Active" using w1 by simp_all
    obtain L where pq: "p \<noteq> q" and L: "world_ok L w" and ok: "pair_ok p q (Some x) (wpipes w q) (inflight w p) (inflight w q) (upipes w)"
      by (rule pair_inv_alive[OF inv x]) blast
    have nz: "outpipe x \<noteq> 0" using pair_inv_outpipe[OF inv x] act by simp
    obtain u where u: "upipes w (outpipe x) = Some u" "upipe_ok u"
      by (rule pair_inv_out[OF inv x nz]) blast
    define more where "more \<longleftrightarrow> mflags m AND flag_more \<noteq> 0"
    obtain u' where u': "ypipe_write message_pipe_granularity m more u = Some u'" "upipe_ok u'"
      "mset (ap_all (uabs u')) = add_mset m (mset (ap_all (uabs u)))"
      using upipe_write_ok[OF u(2) m(2), of more] by (auto simp: more_def more_part_def)
    define w2 where "w2 = (set_upipe (outpipe x) u' w)\<lparr>sock := sock w - {#m#}\<rparr>"
    have L2: "world_ok L w2"
    proof (rule world_ok_change[OF L u(1) u'(2)])
      fix R assume "refs_inv (L + sock w + mset (ap_all (uabs u)) + R) (wmem w)"
      moreover have "sock w = add_mset m (sock w - {#m#})" using m(1) by simp
      ultimately show "refs_inv (L + sock w2 + mset (ap_all (uabs u')) + R) (wmem w2)"
        unfolding u'(3) by (simp add: w2_def) (metis union_mset_add_mset_left union_mset_add_mset_right)
    qed (simp_all add: w2_def)
    have p2: "pair_ok p q (Some x) (wpipes w q) (inflight w p) (inflight w q) ((upipes w)(outpipe x \<mapsto> u'))"
    proof (rule pair_ok_same[OF ok])
      fix v assume "no_delim (upipes w v)"
      then show "no_delim (((upipes w)(outpipe x \<mapsto> u')) v)"
        using u(1) u'(3) m(3) by (auto simp: no_delim_def split: if_splits)
    qed (use u in simp_all)
    have i2: "inflight w2 = inflight w" by (simp add: w2_def inflight_def fun_eq_iff)
    have inv2: "pair_inv p q w2" by (rule pair_invI[OF pq L2]) (use p2 x i2 in \<open>simp add: w2_def\<close>)
    have "wpipes w2 p = Some x" by (simp add: w2_def x)
    then have inv3: "pair_inv p q (set_pipe p (x\<lparr>msgs_written := msgs_written x + 1\<rparr>) w2)"
      by (rule pair_inv_fields[OF inv2]) simp_all
    define w' where "w' = (if \<not> more then set_pipe p (x\<lparr>msgs_written := msgs_written x + 1\<rparr>) (set_upipe (outpipe x) u' w)
      else set_upipe (outpipe x) u' w)"
    have r: "pipe_write p m w = Some (True, w')"
      using w1(1) True w x u u' by (simp add: pipe_write_def more_def w'_def)
    have "w'\<lparr>sock := sock w' - {#m#}\<rparr> =
        (if \<not> more then set_pipe p (x\<lparr>msgs_written := msgs_written x + 1\<rparr>) w2 else w2)"
      by (simp add: w2_def w'_def set_pipe_def set_upipe_def)
    then have i: "pair_inv p q (w'\<lparr>sock := sock w' - {#m#}\<rparr>)" using inv2 inv3 by simp
    have sw: "sock w' = sock w" by (simp add: w'_def)
    have i2: "pair_inv p q (w'\<lparr>sock := sock w - {#m#}\<rparr>)" using i by (simp add: sw)
    show ?thesis using r True sw i2 by (intro exI[of _ b] exI[of _ w']) simp
  qed
qed

lemma flush_ok:
  assumes inv: "pair_inv p q w" and x: "wpipes w p = Some x"
  shows "\<exists>w'. pipe_flush p w = Some w' \<and> pair_inv p q w' \<and> sock w' = sock w"
proof (cases "pstate x = Terminating \<or> outpipe x = 0")
  case True
  then show ?thesis using inv x by (auto simp: pipe_flush_def)
next
  case False
  obtain L where pq: "p \<noteq> q" and L: "world_ok L w" and ok: "pair_ok p q (Some x) (wpipes w q) (inflight w p) (inflight w q) (upipes w)"
    and peer: "peer x = q"
    by (rule pair_inv_alive[OF inv x]) blast
  note o = pair_inv_outpipe[OF inv x]
  obtain u where u: "upipes w (outpipe x) = Some u" "upipe_ok u"
    by (rule pair_inv_out[OF inv x]) (use False in blast)+
  obtain b u' where f: "ypipe_flush u = (b, u')" by fastforce
  have u': "upipe_ok u'" "ap_all (uabs u') = ap_all (uabs u)" using upipe_flush_ok[OF u(2)] f by auto
  have L': "world_ok L (set_upipe (outpipe x) u' w)" by (rule world_ok_set_upipe[OF L u(1) u'(1)]) (simp add: u')
  have "pair_ok p q (Some x) (wpipes w q) (inflight w p) (inflight w q) ((upipes w)(outpipe x \<mapsto> u'))"
    by (rule pair_ok_upipe[OF ok u(1)]) (simp add: u')
  then have inv1: "pair_inv p q (set_upipe (outpipe x) u' w)" using L' pq x by (auto intro!: pair_invI)
  have "pstate x \<in> {Active, Delimited, Pending, Terminated}" using False o by (cases "pstate x") auto
  then have "pair_inv p q (send_cmd q Activate_read (set_upipe (outpipe x) u' w))"
    by (intro pair_inv_notify[OF inv1, of x]) (simp_all add: x)
  then show ?thesis using inv1 False u f x peer by (auto simp: pipe_flush_def Let_def)
qed

lemma rollback_inv:
  assumes inv: "pair_inv p q w" and x: "wpipes w p = Some x"
  shows "\<exists>w'. pipe_rollback p w = Some w' \<and> pair_inv p q w' \<and> wpipes w' = wpipes w \<and> sock w' = sock w"
proof (cases "outpipe x = 0")
  case True
  then show ?thesis using inv x by (simp add: pipe_rollback_def)
next
  case False
  obtain L where pq: "p \<noteq> q" and L: "world_ok L w" and ok: "pair_ok p q (Some x) (wpipes w q) (inflight w p) (inflight w q) (upipes w)"
    by (rule pair_inv_alive[OF inv x]) blast
  obtain u where u: "upipes w (outpipe x) = Some u" by (rule pair_inv_out[OF inv x False]) blast
  obtain w' u' where w': "rollback_loop (outpipe x) w = Some w'" "world_ok L w'" "same_but_upipe (outpipe x) w w'"
    "upipes w' (outpipe x) = Some u'" "partial (uabs u') = []" "flushed (uabs u') = flushed (uabs u)" "complete (uabs u') = complete (uabs u)"
    using rollback_ok[OF L u] by blast
  have U: "upipes w' = (upipes w)(outpipe x \<mapsto> u')" using w'(3,4) by (auto simp: same_but_upipe_def fun_eq_iff)
  have "pair_ok p q (Some x) (wpipes w q) (inflight w p) (inflight w q) ((upipes w)(outpipe x \<mapsto> u'))"
    by (rule pair_ok_upipe[OF ok u]) (use w' in \<open>auto simp: ap_all_def\<close>)
  then have "pair_inv p q w'" using w' U pq x by (auto simp: same_but_upipe_def inflight_def intro!: pair_invI)
  then show ?thesis using w' False x by (auto simp: pipe_rollback_def same_but_upipe_def)
qed

lemma write_delimiter_ok:
  assumes inv: "pair_inv p q w" and x: "wpipes w p = Some x" and nz: "outpipe x \<noteq> 0" and s: "pstate x \<noteq> Active"
  obtains u u' where "upipes w (outpipe x) = Some u"
    "ypipe_write message_pipe_granularity (msg_init_delimiter msg_closed) False u = Some u'"
    "pair_inv p q (set_upipe (outpipe x) u' w)"
proof -
  let ?m = "msg_init_delimiter msg_closed"
  obtain L where pq: "p \<noteq> q" and L: "world_ok L w" and ok: "pair_ok p q (Some x) (wpipes w q) (inflight w p) (inflight w q) (upipes w)"
    by (rule pair_inv_alive[OF inv x]) blast
  obtain u where u: "upipes w (outpipe x) = Some u" "upipe_ok u" by (rule pair_inv_out[OF inv x nz]) blast
  have "msg_check ?m" "\<not> more_part ?m" by (simp_all add: msg_check_def msg_init_delimiter_def more_part_def)
  then obtain u' where u': "ypipe_write message_pipe_granularity ?m False u = Some u'" "upipe_ok u'"
    "mset (ap_all (uabs u')) = add_mset ?m (mset (ap_all (uabs u)))"
    using upipe_write_ok[OF u(2), of ?m False] by auto
  have L': "world_ok L (set_upipe (outpipe x) u' w)"
    by (rule world_ok_change[OF L u(1) u'(2)]) (simp_all add: u'(3))
  have "pair_ok p q (Some x) (wpipes w q) (inflight w p) (inflight w q) ((upipes w)(outpipe x \<mapsto> u'))"
    by (rule pair_ok_same[OF ok]) (use u s in \<open>auto split: if_splits\<close>)
  then have "pair_inv p q (set_upipe (outpipe x) u' w)" using L' pq x by (auto intro!: pair_invI)
  with u u' show ?thesis using that by blast
qed

subsection \<open>Termination and reconnection\<close>

lemma terminate_ok:
  assumes inv: "pair_inv p q w" and x: "wpipes w p = Some x"
  shows "\<exists>w'. pipe_terminate d p w = Some w' \<and> pair_inv p q w' \<and> sock w' = sock w"
proof -
  define x0 where "x0 = x\<lparr>delay := d\<rparr>"
  define w0 where "w0 = set_pipe p x0 w"
  have s0: "pstate x0 = pstate x" "outpipe x0 = outpipe x" "peer x0 = peer x" "delay x0 = d" by (simp_all add: x0_def)
  have inv0: "pair_inv p q w0" unfolding w0_def x0_def by (rule pair_inv_fields[OF inv x]) simp_all
  have g0: "wpipes w0 p = Some x0" "sock w0 = sock w" by (simp_all add: w0_def)
  obtain L where pq: "p \<noteq> q" and L: "world_ok L w0" and ok: "pair_ok p q (Some x0) (wpipes w0 q) (inflight w0 p) (inflight w0 q) (upipes w0)"
    and peer: "peer x0 = q"
    by (rule pair_inv_alive[OF inv0 g0(1)]) blast
  note o = pair_inv_outpipe[OF inv0 g0(1)]
  have fin: "\<exists>w'. (do { w2 \<leftarrow> pipe_rollback p w1; u \<leftarrow> upipes w2 (outpipe x1);
      u \<leftarrow> ypipe_write message_pipe_granularity (msg_init_delimiter msg_closed) False u;
      pipe_flush p (set_upipe (outpipe x1) u w2) }) = Some w' \<and> pair_inv p q w' \<and> sock w' = sock w1"
    if inv1: "pair_inv p q w1" and x1: "wpipes w1 p = Some x1" "outpipe x1 \<noteq> 0" "pstate x1 \<noteq> Active" for w1 x1
  proof -
    obtain w2 where w2: "pipe_rollback p w1 = Some w2" "pair_inv p q w2" "wpipes w2 = wpipes w1" "sock w2 = sock w1"
      using rollback_inv[OF inv1 x1(1)] by blast
    have g2: "wpipes w2 p = Some x1" using w2 x1 by simp
    obtain u u' where u: "upipes w2 (outpipe x1) = Some u"
      "ypipe_write message_pipe_granularity (msg_init_delimiter msg_closed) False u = Some u'"
      "pair_inv p q (set_upipe (outpipe x1) u' w2)"
      by (rule write_delimiter_ok[OF w2(2) g2 x1(2,3)])
    obtain w' where "pipe_flush p (set_upipe (outpipe x1) u' w2) = Some w'" "pair_inv p q w'"
      "sock w' = sock (set_upipe (outpipe x1) u' w2)"
      using flush_ok[OF u(3), of x1] g2 by auto
    then show ?thesis using w2 u by simp
  qed
  show ?thesis
  proof (cases "pstate x \<in> {Terminated, Double_terminated, Terminating}")
    case True
    then show ?thesis using inv0 x by (auto simp: pipe_terminate_def Let_def w0_def x0_def)
  next
    case False
    then have "outpipe x0 \<noteq> 0" using o s0 by auto
    consider (act) "pstate x \<in> {Active, Delimited}" | (pend) "pstate x = Pending" "\<not> d" | (stay) "pstate x = Pending" "d"
      using False by (cases "pstate x") auto
    then show ?thesis
    proof cases
      case act
      define x1 where "x1 = x0\<lparr>pstate := Terminated\<rparr>"
      define w1 where "w1 = set_pipe p x1 (send_cmd q Pipe_term w0)"
      have "pair_ok p q (Some x1) (wpipes w0 q) (inflight w0 p) (inflight w0 q @ [Pipe_term]) (upipes w0)"
        unfolding x1_def by (rule pair_ok_terminate[OF ok]) (use act s0 in simp)
      then have inv1: "pair_inv p q w1" using L pq by (auto simp: w1_def intro!: pair_invI)
      define x2 where "x2 = x1\<lparr>out_active := False\<rparr>"
      have "pair_inv p q (set_pipe p x2 w1)"
        by (rule pair_inv_fields[OF inv1, of x1]) (simp_all add: x2_def w1_def)
      from fin[OF this, of x2] obtain w' where
        "(do { w2 \<leftarrow> pipe_rollback p (set_pipe p x2 w1); u \<leftarrow> upipes w2 (outpipe x2);
          u \<leftarrow> ypipe_write message_pipe_granularity (msg_init_delimiter msg_closed) False u;
          pipe_flush p (set_upipe (outpipe x2) u w2) }) = Some w'" "pair_inv p q w'" "sock w' = sock w"
        using \<open>outpipe x0 \<noteq> 0\<close> by (auto simp: x2_def x1_def w1_def g0)
      then show ?thesis using x act peer \<open>outpipe x0 \<noteq> 0\<close> s0
        by (auto simp: pipe_terminate_def Let_def w0_def[symmetric] x0_def[symmetric] x1_def[symmetric] x2_def[symmetric]
            w1_def[symmetric] cong: if_cong) (auto simp: x2_def x1_def)
    next
      case pend
      define x1 where "x1 = x0\<lparr>outpipe := 0, pstate := Terminating\<rparr>"
      define w1 where "w1 = set_pipe p x1 (send_cmd q Pipe_term_ack w0)"
      have "pair_ok p q (Some x1) (wpipes w0 q) (inflight w0 p) (inflight w0 q @ [Pipe_term_ack]) (upipes w0)"
        unfolding x1_def by (rule pair_ok_ack[OF ok]) (use pend s0 in simp)
      then have inv1: "pair_inv p q w1" using L pq by (auto simp: w1_def intro!: pair_invI)
      define x2 where "x2 = x1\<lparr>out_active := False\<rparr>"
      have "pair_inv p q (set_pipe p x2 w1)"
        by (rule pair_inv_fields[OF inv1, of x1]) (simp_all add: x2_def w1_def)
      then show ?thesis using x pend peer by (auto simp: pipe_terminate_def Let_def x2_def x1_def x0_def w1_def w0_def)
    next
      case stay
      define x2 where "x2 = x0\<lparr>out_active := False\<rparr>"
      have "pair_inv p q (set_pipe p x2 w0)"
        by (rule pair_inv_fields[OF inv0 g0(1)]) (simp_all add: x2_def)
      from fin[OF this, of x2] obtain w' where
        "(do { w2 \<leftarrow> pipe_rollback p (set_pipe p x2 w0); u \<leftarrow> upipes w2 (outpipe x2);
          u \<leftarrow> ypipe_write message_pipe_granularity (msg_init_delimiter msg_closed) False u;
          pipe_flush p (set_upipe (outpipe x2) u w2) }) = Some w'" "pair_inv p q w'" "sock w' = sock w"
        using \<open>outpipe x0 \<noteq> 0\<close> stay s0 by (auto simp: x2_def g0)
      then show ?thesis using x stay peer \<open>outpipe x0 \<noteq> 0\<close> s0
        by (auto simp: pipe_terminate_def Let_def x2_def x0_def w0_def)
    qed
  qed
qed

lemma hiccup_ok:
  assumes inv: "pair_inv p q w" and x: "wpipes w p = Some x"
  shows "\<exists>w'. pipe_hiccup p w = Some w' \<and> pair_inv p q w' \<and> sock w' = sock w"
proof (cases "pstate x = Active")
  case False
  then show ?thesis using inv x by (simp add: pipe_hiccup_def)
next
  case True
  obtain L where pq: "p \<noteq> q" and L: "world_ok L w" and ok: "pair_ok p q (Some x) (wpipes w q) (inflight w p) (inflight w q) (upipes w)"
    and peer: "peer x = q"
    by (rule pair_inv_alive[OF inv x]) blast
  define n where "n = next_addr w"
  define y where "y = (ypipe_new message_pipe_granularity :: msg ypipe)"
  define w1 where "w1 = w\<lparr>upipes := (upipes w)(n \<mapsto> y), next_addr := n + 1\<rparr>"
  have y: "upipe_ok y" "uabs y = ap_new" unfolding y_def by (rule upipe_new_ok) (rule upipe_new_abs)
  have free: "upipes w n = None" using L unfolding world_ok_def n_def by (metis less_irrefl not_None_eq)
  have n0: "n \<noteq> 0" using L by (simp add: world_ok_def n_def)
  have "(\<Sum>u < n. umsgs (upipes w1 u)) = (\<Sum>u < n. umsgs (upipes w u))" by (intro sum.cong) (auto simp: w1_def)
  then have "all_msgs w1 = all_msgs w" using y by (simp add: all_msgs_def w1_def n_def ap_new_def ap_all_def)
  then have L1: "world_ok L w1" using L y by (auto simp: world_ok_def w1_def n_def less_Suc_eq)
  have nd: "no_delim (Some y)" using y by (simp add: no_delim_def ap_new_def ap_all_def)
  have i1: "inflight w1 = inflight w" "wpipes w1 = wpipes w" "upipes w1 = (upipes w)(n \<mapsto> y)" "sock w1 = sock w"
    by (simp_all add: w1_def inflight_def fun_eq_iff)
  have "pair_ok p q (Some (x\<lparr>inpipe := n, in_active := True\<rparr>)) (wpipes w q) (inflight w p) (inflight w q @ [Hiccup n]) ((upipes w)(n \<mapsto> y))"
    by (rule pair_ok_fields[OF pair_ok_hiccup[OF ok True free n0 nd]]) simp_all
  then have "pair_inv p q (send_cmd q (Hiccup n) (set_pipe p (x\<lparr>inpipe := n, in_active := True\<rparr>) w1))"
    using L1 pq i1 by (auto intro!: pair_invI)
  moreover have "new_upipe w = (n, w1)" by (simp add: new_upipe_def n_def w1_def y_def)
  ultimately show ?thesis using x True peer i1 by (simp add: pipe_hiccup_def)
qed

subsection \<open>Commands\<close>

text \<open>The owner that reacts to the events by later calls.\<close>

definition no_sink :: "'s pipe_sink" where
  "no_sink e p w = Some w"

lemma no_sink [simp]: "no_sink e p w = Some w"
  by (simp add: no_sink_def)

fun state_rank :: "pipe option \<Rightarrow> nat" where
  "state_rank None = 0"
| "state_rank (Some x) = (case pstate x of Active \<Rightarrow> 3 | Delimited \<Rightarrow> 2 | Pending \<Rightarrow> 2 | Terminated \<Rightarrow> 2
     | Terminating \<Rightarrow> 1 | Double_terminated \<Rightarrow> 1)"

definition pair_rank :: "addr \<Rightarrow> addr \<Rightarrow> 's world \<Rightarrow> nat" where
  "pair_rank p q w = length (inflight w p) + length (inflight w q) + 2 * (state_rank (wpipes w p) + state_rank (wpipes w q))"

lemma deliver_note:
  assumes pq: "p \<noteq> q" and L: "world_ok L w" and x: "wpipes w p = Some x" and n: "\<not> is_ctl c"
    and ok: "pair_ok p q (Some x) (wpipes w q) (c # inflight w p) (inflight w q) (upipes w)"
  shows "\<exists>w'. process_pipe_cmd no_sink c p w = Some w' \<and> pair_inv p q w' \<and> sock w' = sock w \<and> pair_rank p q w' \<le> pair_rank p q w"
proof -
  have inv: "pair_inv p q w" by (rule pair_invI[OF pq L]) (simp add: x pair_ok_receive[OF ok n])
  have snk: "pipe_sink x" using ok by (simp add: pair_ok_def end_ok_def)
  have f: "pair_inv p q (set_pipe p x' w) \<and> pair_rank p q (set_pipe p x' w) = pair_rank p q w"
    if "inpipe x' = inpipe x" "outpipe x' = outpipe x" "peer x' = peer x" "pipe_sink x' = pipe_sink x" "pstate x' = pstate x" for x'
    using pair_inv_fields[OF inv x that] that pq by (simp add: pair_rank_def x)
  show ?thesis
  proof (cases c)
    case Activate_read
    then show ?thesis using inv f[of "x\<lparr>in_active := True\<rparr>"] snk by (auto simp: process_pipe_cmd_def process_activate_read_def x)
  next
    case (Activate_write k)
    then show ?thesis using f[of "x\<lparr>peers_msgs_read := k\<rparr>"] f[of "x\<lparr>peers_msgs_read := k, out_active := True\<rparr>"] snk
      by (auto simp: process_pipe_cmd_def process_activate_write_def x Let_def)
  qed (use n in simp_all)
qed

lemma deliver_hiccup:
  assumes pq: "p \<noteq> q" and L: "world_ok L w" and x: "wpipes w p = Some x"
    and ok: "pair_ok p q (Some x) (wpipes w q) (Hiccup a # inflight w p) (inflight w q) (upipes w)"
  shows "\<exists>w'. process_hiccup no_sink a p w = Some w' \<and> pair_inv p q w' \<and> sock w' = sock w \<and> pair_rank p q w' \<le> pair_rank p q w"
proof -
  note h = pair_ok_hiccuped[OF ok]
  have "wpipes w q \<noteq> None" using ok by (cases "pstate x") (auto simp: pair_ok_def on_way_def)
  then have "upipes w (outpipe x) \<noteq> None" using ok h(2) by (auto simp: pair_ok_def chain_def)
  then obtain u where u: "upipes w (outpipe x) = Some u" by auto
  have uok: "upipe_ok u" using world_ok_upipe[OF L u] by simp
  define w1 where "w1 = set_upipe (outpipe x) (snd (ypipe_flush u)) w"
  have L1: "world_ok L w1" unfolding w1_def
    by (rule world_ok_set_upipe[OF L u]) (metis upipe_flush_ok[OF uok])+
  have u1: "upipes w1 (outpipe x) = Some (snd (ypipe_flush u))" by (simp add: w1_def)
  obtain w2 u2 where w2: "drain_loop (outpipe x) w1 = Some w2" "world_ok L w2" "same_but_upipe (outpipe x) w1 w2"
    "upipes w2 (outpipe x) = Some u2"
    using drain_loop_ok[OF L1 u1] by blast
  obtain w3 where w3: "delete_upipe (outpipe x) w2 = Some w3" "world_ok (L + mset (ap_all (uabs u2))) w3"
    "upipes w3 = (upipes w2)(outpipe x := None)" "wpipes w3 = wpipes w2" "wcmds w3 = wcmds w2" "sock w3 = sock w2"
    using delete_ok[OF w2(2,4)] by blast
  have U: "upipes w3 = (upipes w)(outpipe x := None)"
    using w3(3) w2(3) by (auto simp: same_but_upipe_def w1_def fun_eq_iff)
  have sel: "wpipes w3 = wpipes w" "wcmds w3 = wcmds w" "sock w3 = sock w" using w2(3) w3 by (simp_all add: same_but_upipe_def w1_def)
  then have infl: "inflight w3 = inflight w" by (simp add: inflight_def fun_eq_iff)
  define x' where "x' = x\<lparr>outpipe := a, out_active := True\<rparr>"
  have "pair_ok p q (Some x') (wpipes w q) (inflight w p) (inflight w q) ((upipes w)(outpipe x := None))"
    unfolding x'_def by (rule pair_ok_fields[OF h(1)]) simp_all
  then have inv: "pair_inv p q (set_pipe p x' w3)" using w3(2) pq U sel infl by (auto intro!: pair_invI)
  have snk: "pipe_sink x" using ok by (simp add: pair_ok_def end_ok_def)
  have "process_hiccup no_sink a p w = Some (set_pipe p x' w3)"
    using x h u w2 w3 snk by (simp add: process_hiccup_def w1_def[symmetric] x'_def Let_def)
  moreover have "pair_rank p q (set_pipe p x' w3) = pair_rank p q w" using pq infl sel x by (simp add: pair_rank_def x'_def)
  ultimately show ?thesis using inv sel by simp
qed

lemma deliver_term:
  assumes pq: "p \<noteq> q" and L: "world_ok L w" and x: "wpipes w p = Some x"
    and ok: "pair_ok p q (Some x) (wpipes w q) (Pipe_term # inflight w p) (inflight w q) (upipes w)"
  shows "\<exists>w'. process_pipe_term p w = Some w' \<and> pair_inv p q w' \<and> sock w' = sock w \<and> pair_rank p q w' \<le> pair_rank p q w"
proof -
  have peer: "peer x = q" using ok by (simp add: pair_ok_def end_ok_def)
  have s: "pstate x = Active \<or> pstate x = Delimited \<or> pstate x = Terminated" by (rule pair_ok_term_peer[OF ok]) blast
  have ack: "pair_inv p q (send_cmd q Pipe_term_ack (set_pipe p (x\<lparr>pstate := s, outpipe := 0\<rparr>) w)) \<and>
    pair_rank p q (send_cmd q Pipe_term_ack (set_pipe p (x\<lparr>pstate := s, outpipe := 0\<rparr>) w)) \<le> pair_rank p q w"
    if "s = (if pstate x = Terminated then Double_terminated else Terminating)" for s
    using pair_ok_term_ack[OF ok that] pq L s that
    by (auto simp: pair_rank_def x intro!: pair_invI split: pipe_state.splits)
  have pen: "pair_inv p q (set_pipe p (x\<lparr>pstate := Pending\<rparr>) w) \<and>
    pair_rank p q (set_pipe p (x\<lparr>pstate := Pending\<rparr>) w) \<le> pair_rank p q w" if "pstate x = Active"
    using pair_ok_pending[OF ok that] pq L that by (auto simp: pair_rank_def x intro!: pair_invI)
  from s show ?thesis
  proof (elim disjE)
    assume "pstate x = Active"
    then show ?thesis using ack[OF refl] pen peer by (cases "delay x") (simp_all add: process_pipe_term_def x)
  qed (use ack[OF refl] peer in \<open>simp_all add: process_pipe_term_def x\<close>)
qed

lemma deliver_term_ack:
  assumes pq: "p \<noteq> q" and L: "world_ok L w" and x: "wpipes w p = Some x"
    and ok: "pair_ok p q (Some x) (wpipes w q) (Pipe_term_ack # inflight w p) (inflight w q) (upipes w)"
  shows "\<exists>w'. process_pipe_term_ack no_sink p w = Some w' \<and> pair_inv p q w' \<and> sock w' = sock w \<and> pair_rank p q w' \<le> pair_rank p q w"
proof -
  note d = pair_ok_dead[OF ok]
  have peer: "peer x = q" and snk: "pipe_sink x" using ok by (simp_all add: pair_ok_def end_ok_def)
  let ?c = "chain (Some x) (wpipes w q) (inflight w q)"
  have "last ?c = inpipe x" using ok by (simp add: pair_ok_def end_ok_def)
  moreover have "?c \<noteq> []" by (simp add: chain_def split: option.splits)
  ultimately have "inpipe x \<in> set ?c" using last_in_set by metis
  then have "upipes w (inpipe x) \<noteq> None" using ok by (simp add: pair_ok_def)
  then obtain u where u: "upipes w (inpipe x) = Some u" by auto
  define w1 where "w1 = (if pstate x = Terminated then send_cmd q Pipe_term_ack (set_pipe p (x\<lparr>outpipe := 0\<rparr>) w) else w)"
  have L1: "world_ok L w1" and u1: "upipes w1 (inpipe x) = Some u" using L u by (simp_all add: w1_def)
  obtain w2 u2 where w2: "drain_loop (inpipe x) w1 = Some w2" "world_ok L w2" "same_but_upipe (inpipe x) w1 w2"
    "upipes w2 (inpipe x) = Some u2"
    using drain_loop_ok[OF L1 u1] by blast
  obtain w3 where w3: "delete_upipe (inpipe x) w2 = Some w3" "world_ok (L + mset (ap_all (uabs u2))) w3"
    "upipes w3 = (upipes w2)(inpipe x := None)" "wpipes w3 = wpipes w2" "wcmds w3 = wcmds w2" "sock w3 = sock w2"
    using delete_ok[OF w2(2,4)] by blast
  define w4 where "w4 = w3\<lparr>wpipes := (wpipes w3)(p := None)\<rparr>"
  have U: "upipes w4 = (upipes w)(inpipe x := None)"
    using w3(3) w2(3) by (auto simp: same_but_upipe_def w1_def w4_def fun_eq_iff)
  have sel: "wpipes w4 p = None" "wpipes w4 q = wpipes w q" "sock w4 = sock w" "wcmds w4 = wcmds w1"
    using w2(3) w3 pq by (auto simp: same_but_upipe_def w1_def w4_def)
  have infl: "inflight w4 = inflight w1" using sel(4) by (simp add: inflight_def fun_eq_iff)
  have i1: "inflight w1 p = inflight w p" "inflight w1 q = inflight w q @ (if pstate x = Terminated then [Pipe_term_ack] else [])"
    using pq by (simp_all add: w1_def)
  have L4: "world_ok (L + mset (ap_all (uabs u2))) w4" by (rule world_ok_same[OF w3(2)]) (simp_all add: w4_def)
  have inv: "pair_inv p q w4" by (rule pair_invI[OF pq L4]) (use d(3) U sel infl i1 d(1) in simp)
  have "process_pipe_term_ack no_sink p w = Some w4"
  proof (cases "pstate x = Terminated")
    case True
    then show ?thesis using x peer snk w2 w3 by (simp add: process_pipe_term_ack_def w1_def w4_def)
  next
    case False
    then show ?thesis using x d(2) snk w2 w3 by (auto simp: process_pipe_term_ack_def w1_def w4_def)
  qed
  moreover have "pair_rank p q w4 \<le> pair_rank p q w" using sel infl i1 d(2) by (auto simp: pair_rank_def x)
  ultimately show ?thesis using inv sel by simp
qed

end
