(* ===== verification/Pipe_Protocol.thy ===== *)
theory Pipe_Protocol
  imports Pipe_Run
begin

text \<open>
  A pair of pipes in use: the users of the two ends call the operations of src/pipe.cpp in any
  order and the commands to each end arrive in the order they were sent, at any time. The
  properties are those of every reachable state: no operation fails, the termination protocol
  ends, and what it deletes is everything.
\<close>

unbundle bit_operations_syntax

subsection \<open>The operations of one end\<close>

text \<open>The next command to an end, in the order of its mailbox.\<close>

definition take_cmd :: "addr \<Rightarrow> 's world \<Rightarrow> (pipe_cmd \<times> 's world) option" where
  "take_cmd p w = (case dropWhile (\<lambda>c. fst c \<noteq> p) (wcmds w) of [] \<Rightarrow> None
     | c # cs \<Rightarrow> Some (snd c, w\<lparr>wcmds := takeWhile (\<lambda>c. fst c \<noteq> p) (wcmds w) @ cs\<rparr>))"

lemma take_cmd_None: "inflight w p = [] \<Longrightarrow> take_cmd p w = None"
proof -
  assume "inflight w p = []"
  then have "filter (\<lambda>c. fst c = p) (wcmds w) = []" by (simp add: inflight_def)
  then have "dropWhile (\<lambda>c. fst c \<noteq> p) (wcmds w) = []" by (simp add: filter_empty_conv dropWhile_eq_Nil_conv)
  then show ?thesis by (simp only: take_cmd_def list.case)
qed

lemma take_cmd_Some:
  assumes "inflight w p = c # cs"
  obtains w' where "take_cmd p w = Some (c, w')" "inflight w' p = cs" "\<And>q. q \<noteq> p \<Longrightarrow> inflight w' q = inflight w q"
    "wpipes w' = wpipes w" "upipes w' = upipes w" "next_addr w' = next_addr w" "wmem w' = wmem w" "sock w' = sock w"
proof -
  let ?P = "\<lambda>c :: addr \<times> pipe_cmd. fst c \<noteq> p"
  let ?t = "takeWhile ?P (wcmds w)"
  have t: "\<forall>d \<in> set ?t. fst d \<noteq> p" using set_takeWhileD by fastforce
  have "dropWhile ?P (wcmds w) \<noteq> []"
  proof
    assume "dropWhile ?P (wcmds w) = []"
    then have "filter (\<lambda>c. fst c = p) (wcmds w) = []" by (simp add: filter_empty_conv dropWhile_eq_Nil_conv)
    then show False using assms by (simp add: inflight_def)
  qed
  then obtain d ds where d: "dropWhile ?P (wcmds w) = d # ds" by (cases "dropWhile ?P (wcmds w)") auto
  have dp: "fst d = p" using hd_dropWhile[of ?P "wcmds w"] d by simp
  have split: "wcmds w = ?t @ d # ds" using takeWhile_dropWhile_id[of ?P "wcmds w"] d by simp
  have ft: "filter (\<lambda>c. fst c = p) ?t = []" using t by (simp add: filter_empty_conv)
  have "inflight w p = map snd (filter (\<lambda>c. fst c = p) (?t @ d # ds))" unfolding inflight_def using split by simp
  then have "inflight w p = snd d # map snd (filter (\<lambda>c. fst c = p) ds)" using ft dp by simp
  then have c: "snd d = c" "map snd (filter (\<lambda>c. fst c = p) ds) = cs" using assms by auto
  let ?w' = "w\<lparr>wcmds := ?t @ ds\<rparr>"
  have "take_cmd p w = Some (c, ?w')" using d c by (simp add: take_cmd_def)
  moreover have "inflight ?w' p = cs" using ft c by (simp add: inflight_def)
  moreover have "inflight ?w' q = inflight w q" if "q \<noteq> p" for q
  proof -
    have "inflight w q = map snd (filter (\<lambda>c. fst c = q) (?t @ d # ds))" unfolding inflight_def using split by simp
    then show ?thesis using that dp by (simp add: inflight_def)
  qed
  ultimately show ?thesis using that by simp
qed

datatype side_op = SRead | SCheck_read | SWrite msg | SCheck_write | SRollback | SFlush
  | STerminate bool | SHiccup | SDeliver

fun side_step :: "side_op \<Rightarrow> addr \<Rightarrow> pworld \<Rightarrow> pworld option" where
  "side_step SRead p w = do { (m, w) \<leftarrow> pipe_read p w; Some (give m w) }"
| "side_step SCheck_read p w = do { (_, w) \<leftarrow> pipe_check_read p w; Some w }"
| "side_step (SWrite m) p w = do { (ok, w) \<leftarrow> pipe_write p m w;
     Some (if ok then w\<lparr>sock := sock w - {#m#}\<rparr> else w) }"
| "side_step SCheck_write p w = do { (_, w) \<leftarrow> pipe_check_write p w; Some w }"
| "side_step SRollback p w = pipe_rollback p w"
| "side_step SFlush p w = pipe_flush p w"
| "side_step (STerminate d) p w = pipe_terminate d p w"
| "side_step SHiccup p w = pipe_hiccup p w"
| "side_step SDeliver p w = (case take_cmd p w of None \<Rightarrow> Some w
     | Some (c, w) \<Rightarrow> process_pipe_cmd no_sink c p w)"

text \<open>The user writes initialised messages that it owns, and lets go of an end that is deleted.\<close>

fun side_legal :: "side_op \<Rightarrow> addr \<Rightarrow> pworld \<Rightarrow> bool" where
  "side_legal SDeliver p w = True"
| "side_legal (SWrite m) p w = (wpipes w p \<noteq> None \<and> m \<in># sock w \<and> msg_check m \<and> \<not> msg_is_delimiter m)"
| "side_legal _ p w = (wpipes w p \<noteq> None)"

lemma deliver_ok:
  assumes inv: "pair_inv p q w" and c: "inflight w p = c # cs"
  shows "\<exists>w'. side_step SDeliver p w = Some w' \<and> pair_inv p q w' \<and> pair_rank p q w' < pair_rank p q w"
proof -
  obtain w1 where w1: "take_cmd p w = Some (c, w1)" "inflight w1 p = cs" "\<And>q. q \<noteq> p \<Longrightarrow> inflight w1 q = inflight w q"
    "wpipes w1 = wpipes w" "upipes w1 = upipes w" "next_addr w1 = next_addr w" "wmem w1 = wmem w" "sock w1 = sock w"
    by (rule take_cmd_Some[OF c]) blast
  obtain L where pq: "p \<noteq> q" and L: "world_ok L w"
    and ok: "pair_ok p q (wpipes w p) (wpipes w q) (inflight w p) (inflight w q) (upipes w)"
    using inv by (auto simp: pair_inv_def)
  have "wpipes w p \<noteq> None" using ok c by (auto simp: pair_ok_def on_way_def split: option.splits)
  then obtain x where x: "wpipes w p = Some x" by auto
  have L1: "world_ok L w1" by (rule world_ok_same[OF L]) (simp_all add: w1)
  have x1: "wpipes w1 p = Some x" by (simp add: w1 x)
  have ok1: "pair_ok p q (Some x) (wpipes w1 q) (c # inflight w1 p) (inflight w1 q) (upipes w1)"
    using ok c x pq by (simp add: w1)
  have rank: "pair_rank p q w1 < pair_rank p q w" using c pq by (simp add: pair_rank_def w1)
  have "\<exists>w'. process_pipe_cmd no_sink c p w1 = Some w' \<and> pair_inv p q w' \<and> sock w' = sock w1 \<and> pair_rank p q w' \<le> pair_rank p q w1"
  proof (cases c)
    case (Hiccup a)
    then show ?thesis using deliver_hiccup[OF pq L1 x1, of a] ok1 by (simp add: process_pipe_cmd_def)
  next
    case Pipe_term
    then show ?thesis using deliver_term[OF pq L1 x1] ok1 by (simp add: process_pipe_cmd_def)
  next
    case Pipe_term_ack
    then show ?thesis using deliver_term_ack[OF pq L1 x1] ok1 by (simp add: process_pipe_cmd_def)
  qed (use deliver_note[OF pq L1 x1 _ ok1] in simp_all)
  then show ?thesis using w1(1) rank by auto
qed

lemma side_step_ok:
  assumes inv: "pair_inv p q w" and legal: "side_legal a p w"
  shows "\<exists>w'. side_step a p w = Some w' \<and> pair_inv p q w'"
proof (cases "a = SDeliver")
  case True
  then show ?thesis using deliver_ok[OF inv] inv by (cases "inflight w p") (auto simp: take_cmd_None)
next
  case False
  then have "wpipes w p \<noteq> None" using legal by (cases a) auto
  then obtain x where x: "wpipes w p = Some x" by auto
  show ?thesis
  proof (cases a)
    case (SWrite m)
    then have "m \<in># sock w" "msg_check m" "\<not> msg_is_delimiter m" using legal by simp_all
    from write_ok[OF inv x this] obtain b w' where "pipe_write p m w = Some (b, w')"
      "pair_inv p q (if b then w'\<lparr>sock := sock w' - {#m#}\<rparr> else w')" by blast
    then show ?thesis using SWrite by simp
  qed (use read_ok[OF inv x] check_read_ok[OF inv x] check_write_ok[OF inv x] rollback_inv[OF inv x] flush_ok[OF inv x]
        terminate_ok[OF inv x] hiccup_ok[OF inv x] False in auto)
qed

subsection \<open>Reachable states\<close>

definition world_new :: "mem \<Rightarrow> 's \<Rightarrow> 's world" where
  "world_new h s = \<lparr>wpipes = (\<lambda>_. None), upipes = (\<lambda>_. None), next_addr = 1, wmem = h, wcmds = [], sock = s\<rparr>"

definition pair_new :: "int \<times> int \<Rightarrow> bool \<times> bool \<Rightarrow> 's world \<Rightarrow> (addr \<times> addr \<times> 's world) option" where
  "pair_new hwms delays w = do {
     (p, q, w) \<leftarrow> pipepair hwms delays w;
     w \<leftarrow> set_event_sink p w;
     w \<leftarrow> set_event_sink q w;
     Some (p, q, w) }"

lemma pair_new_ok:
  assumes "refs_inv S h"
  shows "\<exists>w. pair_new hwms delays (world_new h S) = Some (3, 4, w) \<and> pair_inv 3 4 w \<and> sock w = S \<and>
    wpipes w 3 \<noteq> None \<and> wpipes w 4 \<noteq> None"
proof -
  let ?y = "ypipe_new message_pipe_granularity :: msg ypipe"
  define x3 where "x3 = (pipe_init 1 2 (snd hwms) (fst hwms) (fst delays))\<lparr>peer := 4, pipe_sink := True\<rparr>"
  define x4 where "x4 = (pipe_init 2 1 (fst hwms) (snd hwms) (snd delays))\<lparr>peer := 3, pipe_sink := True\<rparr>"
  define w where "w = \<lparr>wpipes = (\<lambda>_. None)(3 \<mapsto> x3, 4 \<mapsto> x4), upipes = (\<lambda>_. None)(1 \<mapsto> ?y, 2 \<mapsto> ?y),
    next_addr = 5, wmem = h, wcmds = [], sock = S\<rparr>"
  have run: "pair_new hwms delays (world_new h S) = Some (3, 4, w)"
    by (simp add: pair_new_def pipepair_def new_upipe_def new_pipe_def world_new_def set_peer_def set_event_sink_def
        get_pipe_def set_pipe_def pipe_init_def w_def x3_def x4_def numeral_3_eq_3 numeral_2_eq_2 fun_eq_iff)
  have emp: "ap_all (uabs ?y) = []" using upipe_new_abs by (simp add: ap_new_def ap_all_def)
  have am: "all_msgs w = {#}" unfolding all_msgs_def by (intro sum.neutral) (simp add: w_def umsgs_def emp)
  have ok: "world_ok {#} w" using assms am by (auto simp: world_ok_def w_def)
  have i: "inflight w a = []" for a by (simp add: inflight_def w_def)
  have "pair_ok 3 4 (wpipes w 3) (wpipes w 4) [] [] (upipes w)"
    by (auto simp: pair_ok_def w_def x3_def x4_def pipe_init_def on_way_def end_ok_def chain_def undelimited_def
        no_delim_def emp split: if_splits)
  then have "pair_inv 3 4 w" using ok by (auto simp: i intro!: pair_invI)
  then show ?thesis using run by (simp add: w_def)
qed

inductive reach :: "addr \<Rightarrow> addr \<Rightarrow> pworld \<Rightarrow> bool" where
  start: "refs_inv S h \<Longrightarrow> pair_new hwms delays (world_new h S) = Some (p, q, w) \<Longrightarrow> reach p q w"
| first: "reach p q w \<Longrightarrow> side_legal a p w \<Longrightarrow> side_step a p w = Some w' \<Longrightarrow> reach p q w'"
| second: "reach p q w \<Longrightarrow> side_legal a q w \<Longrightarrow> side_step a q w = Some w' \<Longrightarrow> reach p q w'"

lemma reach_inv: "reach p q w \<Longrightarrow> pair_inv p q w"
proof (induction rule: reach.induct)
  case (start S h hwms delays p q w)
  then show ?case using pair_new_ok[of S h hwms delays] by auto
next
  case (first p q w a w')
  then show ?case using side_step_ok[of p q w a] by auto
next
  case (second p q w a w')
  then show ?case using side_step_ok[of q p w a] pair_inv_sym[of p q] by auto
qed

subsection \<open>What a delivery changes\<close>

lemma drain_frame: "drain_loop a w = Some w' \<Longrightarrow> wpipes w' = wpipes w"
  by (rule drain_loop.raw_induct[of "\<lambda>a w w'. wpipes w' = wpipes w", rotated 1])
    (fastforce simp: bind_Some_iff Let_def split: option.splits prod.splits)+

lemma rollback_frame: "rollback_loop a w = Some w' \<Longrightarrow> wpipes w' = wpipes w"
  by (rule rollback_loop.raw_induct[of "\<lambda>a w w'. wpipes w' = wpipes w", rotated 1])
    (fastforce simp: bind_Some_iff Let_def split: option.splits prod.splits)+

definition closing :: "pipe option \<Rightarrow> bool" where
  "closing xo \<longleftrightarrow> (case xo of None \<Rightarrow> True
     | Some x \<Rightarrow> pstate x = Terminated \<or> pstate x = Double_terminated \<or> pstate x = Terminating)"

lemma process_frame:
  assumes "process_pipe_cmd no_sink c p w = Some w'" "q \<noteq> p"
  shows "wpipes w' q = wpipes w q \<and> (closing (wpipes w p) \<longrightarrow> closing (wpipes w' p))"
proof (cases c)
  case Activate_read
  then show ?thesis using assms
    by (auto simp: process_pipe_cmd_def process_activate_read_def run_simps closing_def split: if_splits)
next
  case (Activate_write n)
  then show ?thesis using assms
    by (auto simp: process_pipe_cmd_def process_activate_write_def run_simps closing_def Let_def split: if_splits)
next
  case (Hiccup a)
  then show ?thesis using assms
    by (auto simp: process_pipe_cmd_def process_hiccup_def run_simps closing_def Let_def delete_upipe_def dest!: drain_frame split: if_splits)
next
  case Pipe_term
  then show ?thesis using assms
    by (auto simp: process_pipe_cmd_def process_pipe_term_def run_simps closing_def split: if_splits)
next
  case Pipe_term_ack
  then show ?thesis using assms
    by (auto simp: process_pipe_cmd_def process_pipe_term_ack_def run_simps closing_def delete_upipe_def dest!: drain_frame split: if_splits)
qed

lemma deliver_frame:
  assumes "side_step SDeliver p w = Some w'" "q \<noteq> p"
  shows "wpipes w' q = wpipes w q \<and> (closing (wpipes w p) \<longrightarrow> closing (wpipes w' p))"
proof (cases "take_cmd p w")
  case None
  then show ?thesis using assms(1) by simp
next
  case (Some cw)
  then obtain c w1 where cw: "take_cmd p w = Some (c, w1)" by (cases cw) auto
  then have "wpipes w1 = wpipes w" by (auto simp: take_cmd_def split: list.splits)
  then show ?thesis using process_frame[of c p w1 w' q] assms cw by simp
qed

lemma flush_frame: "pipe_flush p w = Some w' \<Longrightarrow> wpipes w' = wpipes w"
proof -
  have "wpipes (let (ok, u) = b in (let w = set_upipe a u w in if \<not> ok then send_cmd q c w else w)) = wpipes w" for b a q c
    by (simp add: Let_def split: prod.splits)
  then show "pipe_flush p w = Some w' \<Longrightarrow> wpipes w' = wpipes w"
    by (auto simp: pipe_flush_def run_simps Let_def case_prod_beta split: if_splits)
qed

lemma terminate_frame:
  assumes "pipe_terminate d p w = Some w'" "q \<noteq> p"
  shows "wpipes w' q = wpipes w q" and "\<not> d \<Longrightarrow> closing (wpipes w' p)"
proof -
  have r: "wpipes w2 = wpipes w1" if "pipe_rollback p w1 = Some w2" for w1 w2
    using that by (auto simp: pipe_rollback_def run_simps dest: rollback_frame split: if_splits)
  show "wpipes w' q = wpipes w q"
    using assms by (auto simp: pipe_terminate_def run_simps Let_def dest!: r flush_frame split: if_splits)
  show "closing (wpipes w' p)" if "\<not> d"
    using assms that by (cases "wpipes w p"; cases "pstate (the (wpipes w p))")
      (auto simp: pipe_terminate_def run_simps Let_def closing_def dest!: r flush_frame split: if_splits)
qed

subsection \<open>Deliveries without further calls\<close>

text \<open>Delivering what is on its way, to the end a scheduler picks.\<close>

fun settle :: "(pworld \<Rightarrow> bool) \<Rightarrow> nat \<Rightarrow> addr \<Rightarrow> addr \<Rightarrow> pworld \<Rightarrow> pworld option" where
  "settle sch 0 p q w = Some w"
| "settle sch (Suc n) p q w = do {
     w \<leftarrow> side_step SDeliver (if sch w \<and> inflight w p \<noteq> [] \<or> inflight w q = [] then p else q) w;
     settle sch n p q w }"

lemma pair_rank_sym: "pair_rank p q w = pair_rank q p w"
  by (simp add: pair_rank_def)

lemma settle_ok:
  assumes "pair_inv p q w" "pair_rank p q w \<le> n"
  shows "\<exists>w'. settle sch n p q w = Some w' \<and> pair_inv p q w' \<and> inflight w' p = [] \<and> inflight w' q = [] \<and>
    (closing (wpipes w p) \<longrightarrow> closing (wpipes w' p)) \<and> (closing (wpipes w q) \<longrightarrow> closing (wpipes w' q))"
  using assms
proof (induction n arbitrary: w)
  case 0
  then show ?case by (simp add: pair_rank_def)
next
  case (Suc n)
  have pq: "p \<noteq> q" using Suc.prems by (simp add: pair_inv_def)
  let ?a = "if sch w \<and> inflight w p \<noteq> [] \<or> inflight w q = [] then p else q"
  have "\<exists>w1. side_step SDeliver ?a w = Some w1 \<and> pair_inv p q w1 \<and> pair_rank p q w1 \<le> n \<and>
      (closing (wpipes w p) \<longrightarrow> closing (wpipes w1 p)) \<and> (closing (wpipes w q) \<longrightarrow> closing (wpipes w1 q))"
    if ne: "inflight w p \<noteq> [] \<or> inflight w q \<noteq> []"
  proof (cases "?a = p")
    case True
    then have "inflight w p \<noteq> []" using ne pq by (auto split: if_splits)
    then obtain c cs where "inflight w p = c # cs" by (cases "inflight w p") auto
    from deliver_ok[OF Suc.prems(1) this] obtain w1 where w1: "side_step SDeliver p w = Some w1" "pair_inv p q w1"
      "pair_rank p q w1 < pair_rank p q w" by blast
    show ?thesis unfolding True using w1 deliver_frame[OF w1(1), of q] pq Suc.prems(2) by auto
  next
    case False
    then have a: "?a = q" and "inflight w q \<noteq> []" by (auto split: if_splits)
    then obtain c cs where c: "inflight w q = c # cs" by (cases "inflight w q") auto
    have "pair_inv q p w" using Suc.prems(1) pair_inv_sym by blast
    from deliver_ok[OF this c] obtain w1 where w1: "side_step SDeliver q w = Some w1" "pair_inv q p w1"
      "pair_rank q p w1 < pair_rank q p w" by blast
    show ?thesis unfolding a using w1 deliver_frame[OF w1(1), of p] pq Suc.prems(2) pair_inv_sym[of p q w1]
        pair_rank_sym[of p q w1] pair_rank_sym[of p q w] by auto
  qed
  moreover have "\<exists>w1. side_step SDeliver ?a w = Some w1 \<and> pair_inv p q w1 \<and> pair_rank p q w1 \<le> n + 1 \<and> w1 = w"
    if e: "inflight w p = []" "inflight w q = []"
    using e Suc.prems by (simp add: take_cmd_None)
  ultimately show ?case
  proof (cases "inflight w p = [] \<and> inflight w q = []")
    case False
    then obtain w1 where w1: "side_step SDeliver ?a w = Some w1" "pair_inv p q w1" "pair_rank p q w1 \<le> n"
      "closing (wpipes w p) \<longrightarrow> closing (wpipes w1 p)" "closing (wpipes w q) \<longrightarrow> closing (wpipes w1 q)"
      using \<open>inflight w p \<noteq> [] \<or> inflight w q \<noteq> [] \<Longrightarrow> _\<close> by blast
    from Suc.IH[OF w1(2,3)] w1 show ?thesis by (auto simp del: side_step.simps)
  next
    case True
    have idle: "settle sch k p q w = Some w" for k
      by (induction k) (use True in \<open>simp_all add: take_cmd_None\<close>)
    show ?thesis using idle[of "Suc n"] Suc.prems True by simp
  qed
qed

lemma quiet_states:
  assumes inv: "pair_inv p q w" and e: "inflight w p = []" "inflight w q = []"
  shows "(wpipes w p = None \<and> wpipes w q = None) \<or>
    (\<exists>x y. wpipes w p = Some x \<and> wpipes w q = Some y \<and> (pstate x, pstate y) \<in>
      {(Active, Active), (Terminated, Pending), (Pending, Terminated)})"
proof -
  have "on_way (map_option pstate (wpipes w p)) (map_option pstate (wpipes w q)) []"
    "on_way (map_option pstate (wpipes w q)) (map_option pstate (wpipes w p)) []"
    using inv e by (simp_all add: pair_inv_def pair_ok_def)
  then show ?thesis
    by (cases "wpipes w p"; cases "wpipes w q"; cases "pstate (the (wpipes w p))"; cases "pstate (the (wpipes w q))")
      (auto simp: on_way_def)
qed

lemma pair_dead:
  assumes inv: "pair_inv p q w" and d: "wpipes w p = None" "wpipes w q = None"
  shows "inflight w p = []" "inflight w q = []" "upipes w u = None"
  using inv d by (auto simp: pair_inv_def pair_ok_def on_way_def chain_def split: option.splits)

text \<open>A live pair for the witnesses: one end has reconnected, the other one has terminated.\<close>

lemma reach_example: "\<exists>w. reach 3 4 w \<and> wpipes w 3 \<noteq> None \<and> wpipes w 4 \<noteq> None \<and> sock w = {#}"
proof -
  have "refs_inv {#} (mem_new (\<lambda>_ _. True) (\<lambda>_. 0))" by (simp add: refs_inv_def mem_new_def block_ok_def)
  from pair_new_ok[OF this, of "(1, 2)" "(True, False)"] obtain w where w: "reach 3 4 w" "pair_inv 3 4 w" "sock w = {#}"
    "wpipes w 3 \<noteq> None" "wpipes w 4 \<noteq> None"
    using reach.start[OF \<open>refs_inv {#} (mem_new (\<lambda>_ _. True) (\<lambda>_. 0))\<close>] by blast
  then obtain x y where x: "wpipes w 3 = Some x" "wpipes w 4 = Some y" by auto
  obtain w1 where w1: "pipe_hiccup 3 w = Some w1" "pair_inv 3 4 w1" "sock w1 = sock w" using hiccup_ok[OF w(2) x(1)] by blast
  have "wpipes w1 3 \<noteq> None" "wpipes w1 4 \<noteq> None"
    using w1(1) x by (auto simp: pipe_hiccup_def new_upipe_def split: if_splits)
  moreover have "reach 3 4 w1" using reach.first[OF w(1), of SHiccup w1] w1(1) w(4) by simp
  ultimately show ?thesis using w(3) w1(3) by auto
qed

subsection \<open>The properties\<close>

text \<open>C15: Whatever the users of the two ends of a pipe do (read, write, check, roll back, flush,
  terminate, reconnect, in any order) and whenever the commands between the ends arrive, the
  next operation and the next delivery at either end return: no \<^verbatim>\<open>zmq_assert\<close> of src/pipe.cpp
  fails, no deleted end, lock-free pipe or message content is used, and the loops that drain and
  roll back a pipe end.\<close>

theorem pipe_never_fails:
  assumes "reach p q w"
  shows "(side_legal a p w \<longrightarrow> side_step a p w \<noteq> None) \<and> (side_legal a q w \<longrightarrow> side_step a q w \<noteq> None)"
  using side_step_ok[of p q w a] side_step_ok[of q p w a] reach_inv[OF assms] pair_inv_sym[of p q] by auto

theorem pipe_never_fails_witness:
  "\<exists>w. reach 3 4 w \<and> side_step (STerminate True) 3 w \<noteq> None \<and> side_step SHiccup 4 w \<noteq> None"
proof -
  obtain w where w: "reach 3 4 w" "wpipes w 3 \<noteq> None" "wpipes w 4 \<noteq> None" using reach_example by blast
  then show ?thesis using pipe_never_fails[OF w(1), of "STerminate True"] pipe_never_fails[OF w(1), of SHiccup]
    by (auto simp del: side_step.simps)
qed

text \<open>C16: The termination protocol never gets stuck on the way: from every reachable state, when
  the users do nothing more, delivering the commands in any order ends within
  \<^verbatim>\<open>pair_rank\<close> deliveries, and then both ends are alive and active, or both are deleted, or
  one has terminated and the other has still to read up to the delimiter.\<close>

theorem pipe_settles:
  assumes "reach p q w" "pair_rank p q w \<le> n"
  shows "\<exists>w'. settle sch n p q w = Some w' \<and> inflight w' p = [] \<and> inflight w' q = [] \<and>
    ((wpipes w' p = None \<and> wpipes w' q = None) \<or>
     (\<exists>x y. wpipes w' p = Some x \<and> wpipes w' q = Some y \<and> (pstate x, pstate y) \<in>
        {(Active, Active), (Terminated, Pending), (Pending, Terminated)}))"
  using settle_ok[OF reach_inv[OF assms(1)] assms(2)] quiet_states[of p q] by blast

theorem pipe_settles_witness:
  "\<exists>w w'. reach 3 4 w \<and> settle (\<lambda>_. True) (pair_rank 3 4 w) 3 4 w = Some w' \<and> inflight w' 3 = []"
proof -
  obtain w where w: "reach 3 4 w" using reach_example by blast
  then show ?thesis using pipe_settles[OF w order_refl] by blast
qed

text \<open>C17: When both ends are terminated without delay (\<^verbatim>\<open>terminate (false)\<close>), whatever was going on
  before, the protocol deletes both ends and every lock-free pipe of the pair, and no command to
  a deleted end is left on its way.\<close>

theorem pipe_shutdown:
  assumes "reach p q w" "wpipes w p \<noteq> None" "wpipes w q \<noteq> None"
  shows "\<exists>w1 w2. pipe_terminate False p w = Some w1 \<and> pipe_terminate False q w1 = Some w2 \<and>
    (\<forall>n \<ge> pair_rank p q w2. \<exists>w3. settle sch n p q w2 = Some w3 \<and>
       wpipes w3 p = None \<and> wpipes w3 q = None \<and> (\<forall>u. upipes w3 u = None) \<and>
       inflight w3 p = [] \<and> inflight w3 q = [])"
proof -
  have inv: "pair_inv p q w" and pq: "p \<noteq> q" using reach_inv[OF assms(1)] by (simp_all add: pair_inv_def)
  obtain x y where x: "wpipes w p = Some x" "wpipes w q = Some y" using assms by auto
  obtain w1 where w1: "pipe_terminate False p w = Some w1" "pair_inv p q w1" using terminate_ok[OF inv x(1)] by blast
  have y1: "wpipes w1 q = Some y" using terminate_frame(1)[OF w1(1)] pq x by simp
  have c1: "closing (wpipes w1 p)" by (rule terminate_frame(2)[OF w1(1)]) (use pq in auto)
  have "pair_inv q p w1" using w1(2) pair_inv_sym by blast
  from terminate_ok[OF this y1] obtain w2 where w2: "pipe_terminate False q w1 = Some w2" "pair_inv q p w2" by blast
  have inv2: "pair_inv p q w2" using w2(2) pair_inv_sym by blast
  have c2: "closing (wpipes w2 p)" "closing (wpipes w2 q)"
    using terminate_frame[OF w2(1), of p] c1 pq by auto
  have "\<exists>w3. settle sch n p q w2 = Some w3 \<and> wpipes w3 p = None \<and> wpipes w3 q = None \<and> (\<forall>u. upipes w3 u = None) \<and>
      inflight w3 p = [] \<and> inflight w3 q = []" if n: "pair_rank p q w2 \<le> n" for n
  proof -
    obtain w3 where w3: "settle sch n p q w2 = Some w3" "pair_inv p q w3" "inflight w3 p = []" "inflight w3 q = []"
      "closing (wpipes w3 p)" "closing (wpipes w3 q)"
      using settle_ok[OF inv2 n] c2 by blast
    then have "wpipes w3 p = None \<and> wpipes w3 q = None"
      using quiet_states[OF w3(2,3,4)] by (auto simp: closing_def)
    then show ?thesis using w3 pair_dead(3)[OF w3(2)] by simp
  qed
  then show ?thesis using w1 w2 by blast
qed

theorem pipe_shutdown_witness:
  "\<exists>w w1 w2. reach 3 4 w \<and> pipe_terminate False 3 w = Some w1 \<and> pipe_terminate False 4 w1 = Some w2 \<and>
    (\<forall>n \<ge> pair_rank 3 4 w2. \<exists>w3. settle (\<lambda>_. False) n 3 4 w2 = Some w3 \<and> wpipes w3 3 = None)"
proof -
  obtain w where w: "reach 3 4 w" "wpipes w 3 \<noteq> None" "wpipes w 4 \<noteq> None" using reach_example by blast
  show ?thesis using pipe_shutdown[OF w, of "\<lambda>_. False"] w(1) by blast
qed

end
