(* ===== verification/Pipe_Flow.thy ===== *)
theory Pipe_Flow
  imports Pipe_Protocol
begin

text \<open>
  Flow control of a pipe: the marks, and what a reconnection does to the writer's credit.
\<close>

lemma compute_lwm_eq: "0 \<le> h \<Longrightarrow> compute_lwm h = (if h > 2048 then h - 1024 else (h + 1) div 2)"
  by (simp add: compute_lwm_def signed_divide_int_def)

text \<open>
  The low water mark of a positive high water mark is positive, so a reader that empties the pipe
  always notifies the writer. It is less than the high water mark except when that is 1.
\<close>

lemma lwm_bounds:
  assumes "0 < h"
  shows "0 < compute_lwm h \<and> compute_lwm h \<le> h \<and> (compute_lwm h = h \<longleftrightarrow> h = 1) \<and> h - compute_lwm h \<le> max_wm_delta"
  using assms by (auto simp: compute_lwm_eq)

lemma drain_keeps: "drain_loop a w = Some w' \<Longrightarrow> wcmds w' = wcmds w \<and> (\<forall>b. b \<noteq> a \<longrightarrow> upipes w' b = upipes w b)"
  by (rule drain_loop.raw_induct[of "\<lambda>a w w'. wcmds w' = wcmds w \<and> (\<forall>b. b \<noteq> a \<longrightarrow> upipes w' b = upipes w b)", rotated 1])
    (fastforce simp: bind_Some_iff Let_def split: option.splits prod.splits)+

text \<open>A reconnection loses the writer's credit: \<^verbatim>\<open>process_hiccup\<close> deletes the outbound pipe with every
  message in it but leaves \<^verbatim>\<open>msgs_written\<close> as it was, so when the pipe was full, the new and empty
  pipe is full as well. No \<^verbatim>\<open>activate_write\<close> can come for messages that nobody will read: the
  writer is blocked for good.\<close>

lemma hiccup_keeps_pipe_full:
  assumes "process_hiccup no_sink a p w = Some w'" "wpipes w p = Some x" "0 < hwm x"
    "msgs_written x - peers_msgs_read x = word_of_int (hwm x)"
  shows "upipes w' (outpipe x) = None \<and> (\<exists>x'. wpipes w' p = Some x' \<and> outpipe x' = a \<and>
    msgs_written x' = msgs_written x \<and> peers_msgs_read x' = peers_msgs_read x) \<and>
    (\<exists>w2. pipe_check_write p w' = Some (False, w2))"
proof -
  define x' where "x' = x\<lparr>outpipe := a, out_active := True\<rparr>"
  obtain u w1 w2 where "upipes w (outpipe x) = Some u"
    "drain_loop (outpipe x) (set_upipe (outpipe x) (snd (ypipe_flush u)) w) = Some w1"
    and w2: "delete_upipe (outpipe x) w1 = Some w2" "w' = set_pipe p x' w2"
    using assms(1,2) by (auto simp: process_hiccup_def run_simps Let_def x'_def split: if_splits)
  then have "upipes w' (outpipe x) = None" "wpipes w' p = Some x'" by (auto simp: delete_upipe_def run_simps)
  then show ?thesis using assms(3,4) by (auto simp: x'_def pipe_check_write_def)
qed

theorem hiccup_keeps_pipe_full_witness:
  "\<exists>(w :: pworld) x w'. wpipes w 3 = Some x \<and> hwm x = 1 \<and> process_hiccup no_sink 5 3 w = Some w' \<and> upipes w' 1 = None \<and>
    (\<exists>w2. pipe_check_write 3 w' = Some (False, w2))"
proof -
  define m where "m = msg_init msg_closed"
  let ?n = "ypipe_new message_pipe_granularity :: msg ypipe"
  have "msg_check m" "False \<longleftrightarrow> more_part m" by (simp_all add: m_def msg_init_def msg_check_def more_part_def)
  from upipe_write_ok[OF upipe_new_ok this] obtain y where y: "upipe_ok y" "mset (ap_all (uabs y)) = {#m#}"
    unfolding upipe_new_abs by (auto simp: ap_new_def ap_all_def ap_write_def)
  define x where "x = (pipe_init 2 1 1 1 True)\<lparr>peer := 4, pipe_sink := True, msgs_written := 1\<rparr>"
  define w :: pworld where "w = \<lparr>wpipes = (\<lambda>_. None)(3 \<mapsto> x), upipes = (\<lambda>_. None)(1 \<mapsto> y), next_addr = 6,
    wmem = mem_new (\<lambda>_ _. True) (\<lambda>_. 0), wcmds = [], sock = {#}\<rparr>"
  have "refs_inv {#m#} (mem_new (\<lambda>_ _. True) (\<lambda>_. 0))" by (simp add: m_def) (simp add: refs_inv_def mem_new_def block_ok_def)
  moreover have "all_msgs w = {#m#}"
  proof -
    have "all_msgs (w\<lparr>upipes := (upipes w)(1 := None)\<rparr>) = {#}" unfolding all_msgs_def by (intro sum.neutral) (simp add: w_def umsgs_def)
    with all_msgs_upd[of 1 w None] y show ?thesis by (simp add: w_def umsgs_def)
  qed
  ultimately have ok: "world_ok {#} w" using y by (auto simp: world_ok_def w_def)
  have u: "upipes w 1 = Some y" by (simp add: w_def)
  have ok1: "world_ok {#} (set_upipe 1 (snd (ypipe_flush y)) w)"
    by (rule world_ok_set_upipe[OF ok u]) (metis upipe_flush_ok[OF y(1)])+
  have "upipes (set_upipe 1 (snd (ypipe_flush y)) w) 1 = Some (snd (ypipe_flush y))" by simp
  from drain_loop_ok[OF ok1 this] obtain w1 y1 where w1: "drain_loop 1 (set_upipe 1 (snd (ypipe_flush y)) w) = Some w1" "upipes w1 1 = Some y1"
    by blast
  have x: "wpipes w 3 = Some x" "outpipe x = 1" "hwm x = 1" "pipe_sink x" "msgs_written x - peers_msgs_read x = word_of_int (hwm x)"
    by (simp_all add: w_def x_def pipe_init_def)
  then obtain w' where w': "process_hiccup no_sink 5 3 w = Some w'"
    using u w1 by (simp add: process_hiccup_def delete_upipe_def Let_def)
  have "upipes w' (outpipe x) = None \<and> (\<exists>w2. pipe_check_write 3 w' = Some (False, w2))"
    using hiccup_keeps_pipe_full[OF w' x(1)] x(3,5) by simp
  then have "upipes w' 1 = None \<and> (\<exists>w2. pipe_check_write 3 w' = Some (False, w2))" unfolding x(2) .
  with w' x(1,3) show ?thesis by blast
qed

end
