(* ===== verification/Array.thy ===== *)
theory Array
  imports Prelude
begin

text \<open>
  \<^verbatim>\<open>array_t<T, ID>\<close> and \<^verbatim>\<open>array_item_t<ID>\<close> of src/array.hpp: a vector of pointers in which
  every item stores its own index, so that an item is found and removed in constant time. The
  \<^verbatim>\<open>array_index\<close> members of the items (one per \<^verbatim>\<open>ID\<close>, all set by the one array with that
  \<^verbatim>\<open>ID\<close> the item is stored in) are the map \<open>array_index\<close>. Pointers are natural numbers with
  0 for \<^verbatim>\<open>NULL\<close>; an index outside the vector is undefined behaviour, \<open>None\<close>.
\<close>

record array =
  items :: "addr list"
  array_index :: "addr \<Rightarrow> int"

definition array_new :: array where
  "array_new = \<lparr>items = [], array_index = (\<lambda>_. -1)\<rparr>"

definition array_size :: "array \<Rightarrow> nat" where
  "array_size a = length (items a)"

definition array_empty :: "array \<Rightarrow> bool" where
  "array_empty a = (items a = [])"

definition array_at :: "array \<Rightarrow> nat \<Rightarrow> addr option" where
  "array_at a i = elem (items a) i"

definition set_array_index :: "addr \<Rightarrow> int \<Rightarrow> array \<Rightarrow> array" where
  "set_array_index x i a = a\<lparr>array_index := (array_index a)(x := i)\<rparr>"

definition array_push_back :: "addr \<Rightarrow> array \<Rightarrow> array" where
  "array_push_back x a =
    (let a = (if x \<noteq> 0 then set_array_index x (int (length (items a))) a else a)
     in a\<lparr>items := items a @ [x]\<rparr>)"

definition array_erase_at :: "nat \<Rightarrow> array \<Rightarrow> array option" where
  "array_erase_at i a =
    (if items a = [] then None
     else let b = last (items a);
              a = (if b \<noteq> 0 then set_array_index b (int i) a else a)
       in if i < length (items a) then Some (a\<lparr>items := butlast ((items a)[i := b])\<rparr>) else None)"

text \<open>The index is converted to \<^verbatim>\<open>size_type\<close>; a negative one is out of every range.\<close>

definition array_ix :: "addr \<Rightarrow> array \<Rightarrow> nat option" where
  "array_ix x a = (if 0 \<le> array_index a x then Some (nat (array_index a x)) else None)"

definition array_erase :: "addr \<Rightarrow> array \<Rightarrow> array option" where
  "array_erase x a = do { i \<leftarrow> array_ix x a; array_erase_at i a }"

definition array_swap :: "nat \<Rightarrow> nat \<Rightarrow> array \<Rightarrow> array option" where
  "array_swap i j a = do {
     x \<leftarrow> elem (items a) i;
     y \<leftarrow> elem (items a) j;
     let a = (if x \<noteq> 0 then set_array_index x (int j) a else a);
     let a = (if y \<noteq> 0 then set_array_index y (int i) a else a);
     Some (a\<lparr>items := list_swap i j (items a)\<rparr>) }"

definition array_clear :: "array \<Rightarrow> array" where
  "array_clear a = a\<lparr>items := []\<rparr>"

subsection \<open>The invariant: every item knows its place\<close>

definition array_inv :: "array \<Rightarrow> bool" where
  "array_inv a \<longleftrightarrow> 0 \<notin> set (items a) \<and> distinct (items a) \<and>
     (\<forall>i < length (items a). array_index a (items a ! i) = int i)"

lemma array_new_inv [simp]: "array_inv array_new"
  by (simp add: array_inv_def array_new_def)

lemma items_new [simp]: "items array_new = []"
  by (simp add: array_new_def)

lemma array_ix_member:
  assumes "array_inv a" "x \<in> set (items a)"
  obtains i where "array_ix x a = Some i" "i < length (items a)" "items a ! i = x"
proof -
  obtain i where i: "i < length (items a)" "items a ! i = x"
    using assms(2) by (auto simp: in_set_conv_nth)
  then have "array_index a x = int i" using assms(1) by (auto simp: array_inv_def)
  then show ?thesis using that[of i] i by (simp add: array_ix_def)
qed

lemma array_ix_unique:
  assumes "array_inv a" "i < length (items a)" "array_ix (items a ! i) a = Some j"
  shows "i = j"
  using assms by (auto simp: array_inv_def array_ix_def)

lemma items_push_back [simp]: "items (array_push_back x a) = items a @ [x]"
  by (simp add: array_push_back_def Let_def set_array_index_def)

lemma array_push_back_inv:
  assumes "array_inv a" "x \<noteq> 0" "x \<notin> set (items a)"
  shows "array_inv (array_push_back x a)"
  using assms unfolding array_inv_def
  by (auto simp: array_push_back_def Let_def set_array_index_def nth_append)

lemma array_swap_ok:
  assumes inv: "array_inv a" and i: "i < length (items a)" and j: "j < length (items a)"
  obtains a' where "array_swap i j a = Some a'" "array_inv a'" "items a' = list_swap i j (items a)"
proof -
  let ?x = "items a ! i" and ?y = "items a ! j"
  have nz: "?x \<noteq> 0" "?y \<noteq> 0" using inv i j nth_mem unfolding array_inv_def by metis+
  let ?a = "a\<lparr>items := list_swap i j (items a),
    array_index := (array_index a)(?x := int j, ?y := int i)\<rparr>"
  have res: "array_swap i j a = Some ?a"
    using i j nz by (simp add: array_swap_def set_array_index_def)
  have inj: "items a ! k = items a ! l \<longleftrightarrow> k = l" if "k < length (items a)" "l < length (items a)" for k l
    using inv that by (simp add: array_inv_def nth_eq_iff_index_eq)
  have "array_inv ?a"
    using inv i j inj unfolding array_inv_def by (auto simp: nth_list_swap)
  then show ?thesis using that res by simp
qed

lemma array_erase_ok:
  assumes inv: "array_inv a" and x: "x \<in> set (items a)"
  obtains a' i where "array_erase x a = Some a'" "array_inv a'" "array_ix x a = Some i"
    "items a' = butlast ((items a)[i := last (items a)])" "set (items a') = set (items a) - {x}"
proof -
  obtain i where i: "array_ix x a = Some i" "i < length (items a)" "items a ! i = x"
    by (rule array_ix_member[OF inv x])
  let ?xs = "items a" and ?n = "length (items a) - 1"
  have ne: "?xs \<noteq> []" using x by auto
  then have lastn: "last ?xs = ?xs ! ?n" and n: "?n < length ?xs" by (auto simp: last_conv_nth)
  then have nz: "last ?xs \<noteq> 0" using inv ne last_in_set unfolding array_inv_def by metis
  let ?a = "a\<lparr>items := butlast (?xs[i := last ?xs]), array_index := (array_index a)(last ?xs := int i)\<rparr>"
  have res: "array_erase x a = Some ?a"
    using i ne nz by (simp add: array_erase_def array_erase_at_def set_array_index_def Let_def)
  have sw: "butlast (?xs[i := last ?xs]) = take ?n (list_swap i ?n ?xs)"
    using i n lastn ne
    by (intro nth_equalityI) (auto simp: nth_butlast nth_list_update nth_list_swap)
  have d: "distinct ?xs" using inv by (simp add: array_inv_def)
  have s: "set (take ?n (list_swap i ?n ?xs)) = set (take (Suc ?n) ?xs) - {?xs ! i}"
    using i n d by (intro set_take_swap_drop) auto
  have inj: "?xs ! k = ?xs ! l \<longleftrightarrow> k = l" if "k < length ?xs" "l < length ?xs" for k l
    using d that by (simp add: nth_eq_iff_index_eq)
  have "array_inv ?a"
    unfolding array_inv_def
  proof (intro conjI allI impI)
    show "0 \<notin> set (items ?a)" using inv s sw by (auto simp: array_inv_def)
    show "distinct (items ?a)" using d i n sw by (simp add: distinct_take)
    fix k assume "k < length (items ?a)"
    then have k: "k < ?n" by simp
    then show "array_index ?a (items ?a ! k) = int k"
      using inv i n inj lastn by (auto simp: array_inv_def nth_butlast nth_list_update)
  qed
  moreover have "set (items ?a) = set ?xs - {x}" using s sw i n by simp
  ultimately show ?thesis using that[OF res] i by simp
qed

subsection \<open>The first part of an array\<close>

text \<open>
  Users of the array keep the items of one kind in a prefix: an item is moved in or out of it by an
  exchange at its end.
\<close>

lemma array_ix_nth: "array_inv a \<Longrightarrow> i < length (items a) \<Longrightarrow> array_ix (items a ! i) a = Some i"
  by (auto simp: array_inv_def array_ix_def)

lemma array_ix_front:
  assumes "array_inv a" "p \<in> set (items a)" "array_ix p a = Some i"
  shows "i < length (items a)" "items a ! i = p" "p \<in> set (take n (items a)) \<longleftrightarrow> i < n"
proof -
  obtain j where j: "array_ix p a = Some j" "j < length (items a)" "items a ! j = p"
    by (rule array_ix_member[OF assms(1,2)])
  with assms(3) show i: "i < length (items a)" "items a ! i = p" by auto
  have d: "distinct (items a)" using assms(1) by (simp add: array_inv_def)
  show "p \<in> set (take n (items a)) \<longleftrightarrow> i < n"
  proof
    assume "p \<in> set (take n (items a))"
    then obtain k where k: "k < n" "k < length (items a)" "items a ! k = p" by (auto simp: in_set_conv_nth)
    then have "k = i" using i d by (metis nth_eq_iff_index_eq)
    with k show "i < n" by simp
  next
    assume n: "i < n"
    have "take n (items a) ! i \<in> set (take n (items a))" by (rule nth_mem) (use i n in simp)
    then show "p \<in> set (take n (items a))" using i n by simp
  qed
qed

lemma array_move_in:
  assumes inv: "array_inv a" and i: "n \<le> i" "i < length (items a)"
  obtains a' where "array_swap i n a = Some a'" "array_swap n i a = Some a'" "array_inv a'" "items a' = list_swap i n (items a)"
    "set (items a') = set (items a)" "set (take (Suc n) (items a')) = insert (items a ! i) (set (take n (items a)))"
proof -
  have n: "n < length (items a)" using i by simp
  obtain a' where a': "array_swap i n a = Some a'" "array_inv a'" "items a' = list_swap i n (items a)"
    by (rule array_swap_ok[OF inv i(2) n])
  obtain a'' where a'': "array_swap n i a = Some a''" "array_inv a''" "items a'' = list_swap n i (items a)"
    by (rule array_swap_ok[OF inv n i(2)])
  have "array_swap n i a = array_swap i n a"
  proof (cases "i = n")
    case False
    then have "items a ! i \<noteq> items a ! n" using inv i n by (simp add: array_inv_def nth_eq_iff_index_eq)
    then show ?thesis using i n
      by (simp add: array_swap_def set_array_index_def Let_def list_swap_commute[of n _ i] fun_upd_twist)
  qed simp
  moreover have "set (take (Suc n) (items a')) = insert (items a ! i) (set (take n (items a)))"
    unfolding a'(3) by (rule set_take_Suc_swap[OF i])
  moreover have "set (items a') = set (items a)" unfolding a'(3) using i n by simp
  ultimately show ?thesis using that a' by simp
qed

lemma array_move_out:
  assumes inv: "array_inv a" and i: "i < n" "n \<le> length (items a)"
  obtains a' where "array_swap i (n - 1) a = Some a'" "array_inv a'" "items a' = list_swap i (n - 1) (items a)"
    "set (items a') = set (items a)" "set (take (n - 1) (items a')) = set (take n (items a)) - {items a ! i}"
proof -
  have n: "n - 1 < length (items a)" "i < length (items a)" using i by simp_all
  obtain a' where a': "array_swap i (n - 1) a = Some a'" "array_inv a'" "items a' = list_swap i (n - 1) (items a)"
    by (rule array_swap_ok[OF inv n(2,1)])
  have d: "distinct (items a)" using inv by (simp add: array_inv_def)
  have "set (take (n - 1) (items a')) = set (take (Suc (n - 1)) (items a)) - {items a ! i}"
    unfolding a'(3) using i n d by (intro set_take_swap_drop) auto
  moreover have "set (items a') = set (items a)" unfolding a'(3) using n by simp
  ultimately show ?thesis using that[OF a'] i by simp
qed

text \<open>Erasing an item behind the prefix.\<close>

lemma array_erase_behind:
  assumes inv: "array_inv a" and p: "p \<in> set (items a)" "p \<notin> set (take n (items a))"
  obtains a' where "array_erase p a = Some a'" "array_inv a'" "set (items a') = set (items a) - {p}"
    "take n (items a') = take n (items a)"
proof -
  obtain a' j where a': "array_erase p a = Some a'" "array_inv a'" "array_ix p a = Some j"
    "items a' = butlast ((items a)[j := last (items a)])" "set (items a') = set (items a) - {p}"
    by (rule array_erase_ok[OF inv p(1)])
  have j: "j < length (items a)" "n \<le> j" using array_ix_front(1,2)[OF inv p(1) a'(3)] array_ix_front(3)[OF inv p(1) a'(3), of n] p(2) by auto
  have "take n (items a') = take n (items a)" unfolding a'(4) using j by (simp add: take_butlast)
  then show ?thesis using that a' by simp
qed

end
