(* ===== verification/Pipe_Ends.thy ===== *)
theory Pipe_Ends
  imports Pipe_Run
begin

text \<open>
  What the users of pipes rely on: the interface to the pipes a socket reads from and to those it
  writes to. A set of pipes is good for reading when every one is alive with an inbound pipe of
  its own, and good for writing when every active one has an outbound pipe of its own. The pipes
  of src/pipe.cpp keep the laws, by the interpretations at the end.
\<close>

unbundle bit_operations_syntax

definition has_more :: "msg \<Rightarrow> bool" where
  "has_more m \<longleftrightarrow> mflags m AND flag_more \<noteq> 0"

text \<open>\<^verbatim>\<open>int rc = msg_->close (); errno_assert (rc == 0);\<close>\<close>

definition close_msg :: "msg \<Rightarrow> 's world \<Rightarrow> (msg \<times> 's world) option" where
  "close_msg m w = do {
     (rc, m, h) \<leftarrow> msg_close m (wmem w);
     zmq_assert (rc = Inr ());
     Some (m, w\<lparr>wmem := h\<rparr>) }"

subsection \<open>The interfaces\<close>

text \<open>The messages that can be read from a pipe at once are \<open>avail\<close>.\<close>

locale inbound =
  fixes rd :: "addr \<Rightarrow> 's world \<Rightarrow> (msg option \<times> 's world) option"
    and chk :: "addr \<Rightarrow> 's world \<Rightarrow> (bool \<times> 's world) option"
    and good :: "addr set \<Rightarrow> 's world \<Rightarrow> bool"
    and avail :: "addr \<Rightarrow> 's world \<Rightarrow> msg list"
  assumes rd_law: "good ps w \<Longrightarrow> p \<in> ps \<Longrightarrow> \<exists>m w'. rd p w = Some (m, w') \<and> good ps w' \<and> wmem w' = wmem w \<and>
      (\<forall>r \<in> ps - {p}. avail r w' = avail r w) \<and>
      (case m of None \<Rightarrow> avail p w = [] \<and> avail p w' = [] | Some m \<Rightarrow> avail p w = m # avail p w')"
    and chk_law: "good ps w \<Longrightarrow> p \<in> ps \<Longrightarrow> \<exists>b w'. chk p w = Some (b, w') \<and> good ps w' \<and> wmem w' = wmem w \<and>
      (\<forall>r \<in> ps. avail r w' = avail r w) \<and> b = (avail p w \<noteq> [])"
    and check_law: "good ps w \<Longrightarrow> p \<in> ps \<Longrightarrow> m \<in> set (avail p w) \<Longrightarrow> msg_check m"
    and good_sub: "good ps w \<Longrightarrow> qs \<subseteq> ps \<Longrightarrow> good qs w"
    and mem_law: "good ps (w\<lparr>wmem := h\<rparr>) = good ps w" "avail p (w\<lparr>wmem := h\<rparr>) = avail p w"

text \<open>
  A pipe that has room takes the next message and appends it to what was sent; the parts of a
  message after the first always find room.
\<close>

locale outbound =
  fixes wr :: "addr \<Rightarrow> msg \<Rightarrow> 's world \<Rightarrow> (bool \<times> 's world) option"
    and cw :: "addr \<Rightarrow> 's world \<Rightarrow> (bool \<times> 's world) option"
    and fl :: "addr \<Rightarrow> 's world \<Rightarrow> 's world option"
    and good :: "addr set \<Rightarrow> 's world \<Rightarrow> bool"
    and room :: "addr \<Rightarrow> 's world \<Rightarrow> bool"
    and sent :: "addr \<Rightarrow> 's world \<Rightarrow> msg list"
  assumes wr_law: "good ps w \<Longrightarrow> p \<in> ps \<Longrightarrow> msg_check m \<Longrightarrow> \<exists>b w'. wr p m w = Some (b, w') \<and> good ps w' \<and> b = room p w \<and>
      (\<forall>r \<in> ps - {p}. room r w' = room r w \<and> sent r w' = sent r w) \<and>
      sent p w' = (if b then sent p w @ [m] else sent p w) \<and> (b \<and> has_more m \<or> \<not> b \<longrightarrow> room p w' = b) \<and> wmem w' = wmem w"
    and cw_law: "good ps w \<Longrightarrow> p \<in> ps \<Longrightarrow> \<exists>b w'. cw p w = Some (b, w') \<and> good ps w' \<and> b = room p w \<and>
      (\<forall>r \<in> ps. room r w' = room r w \<and> sent r w' = sent r w) \<and> wmem w' = wmem w"
    and fl_law: "good ps w \<Longrightarrow> p \<in> ps \<Longrightarrow> \<exists>w'. fl p w = Some w' \<and> good ps w' \<and>
      (\<forall>r \<in> ps. room r w' = room r w \<and> sent r w' = sent r w) \<and> wmem w' = wmem w"
    and good_sub: "good ps w \<Longrightarrow> qs \<subseteq> ps \<Longrightarrow> good qs w"
    and mem_law: "good ps (w\<lparr>wmem := h\<rparr>) = good ps w" "room p (w\<lparr>wmem := h\<rparr>) = room p w" "sent p (w\<lparr>wmem := h\<rparr>) = sent p w"

subsection \<open>Reading from the pipes of the model\<close>

definition pipe_avail :: "addr \<Rightarrow> 's world \<Rightarrow> msg list" where
  "pipe_avail p w = (case wpipes w p of None \<Rightarrow> []
     | Some x \<Rightarrow> if pipe_readable x
         then takeWhile (\<lambda>m. \<not> msg_is_delimiter m) (case upipes w (inpipe x) of None \<Rightarrow> [] | Some u \<Rightarrow> flushed (uabs u))
         else [])"

definition in_good :: "addr set \<Rightarrow> 's world \<Rightarrow> bool" where
  "in_good ps w \<longleftrightarrow> (\<forall>p \<in> ps. \<exists>x u. wpipes w p = Some x \<and> upipes w (inpipe x) = Some u \<and> upipe_ok u) \<and>
     (\<forall>p \<in> ps. \<forall>r \<in> ps. p \<noteq> r \<longrightarrow> inpipe (the (wpipes w p)) \<noteq> inpipe (the (wpipes w r)))"

lemma in_goodE:
  assumes "in_good ps w" "p \<in> ps"
  obtains x u where "wpipes w p = Some x" "upipes w (inpipe x) = Some u" "upipe_ok u"
  using assms by (auto simp: in_good_def)

text \<open>A change of one pipe that keeps its inbound pipe.\<close>

lemma in_good_upd:
  assumes g: "in_good ps w" "p \<in> ps" "wpipes w p = Some x" and u: "upipe_ok u"
    and w': "wpipes w' = (wpipes w)(p \<mapsto> x')" "upipes w' = (upipes w)(inpipe x \<mapsto> u)" "inpipe x' = inpipe x"
  shows "in_good ps w'" "r \<in> ps - {p} \<Longrightarrow> pipe_avail r w' = pipe_avail r w"
proof -
  have d: "inpipe (the (wpipes w p)) \<noteq> inpipe (the (wpipes w r))" if "r \<in> ps - {p}" for r
    using g(1)[unfolded in_good_def, THEN conjunct2, rule_format, of p r] g(2) that by auto
  then have d: "inpipe x \<noteq> inpipe (the (wpipes w r))" if "r \<in> ps - {p}" for r
    using that g(3) by fastforce
  show "in_good ps w'" unfolding in_good_def
  proof (intro conjI ballI impI)
    fix r assume r: "r \<in> ps"
    show "\<exists>x u. wpipes w' r = Some x \<and> upipes w' (inpipe x) = Some u \<and> upipe_ok u"
    proof (cases "r = p")
      case True
      then show ?thesis using w' u by simp
    next
      case False
      with r have "\<exists>y v. wpipes w r = Some y \<and> upipes w (inpipe y) = Some v \<and> upipe_ok v" using g(1) by (auto simp: in_good_def)
      then show ?thesis using d[of r] r False g(3) w' by auto
    qed
  next
    fix r s assume "r \<in> ps" "s \<in> ps" "r \<noteq> s"
    then have "inpipe (the (wpipes w r)) \<noteq> inpipe (the (wpipes w s))" using g(1) by (auto simp: in_good_def)
    then show "inpipe (the (wpipes w' r)) \<noteq> inpipe (the (wpipes w' s))" using g(3) w' \<open>r \<noteq> s\<close> by auto
  qed
  show "pipe_avail r w' = pipe_avail r w" if r: "r \<in> ps - {p}"
  proof -
    obtain y where "wpipes w r = Some y" using g(1) r by (auto simp: in_good_def)
    then show ?thesis using d[OF r] g(3) w' r by (simp add: pipe_avail_def)
  qed
qed

lemma delimit_ends:
  assumes "wpipes w p = Some x" "pipe_readable x"
  shows "\<exists>w' x'. pipe_delimit p w = Some w' \<and> wpipes w' = (wpipes w)(p \<mapsto> x') \<and> upipes w' = upipes w \<and>
    inpipe x' = inpipe x \<and> \<not> pipe_readable x' \<and> wmem w' = wmem w"
  using assms by (auto simp: pipe_delimit_def pipe_readable_def)

lemma pipe_read_law:
  assumes g: "in_good ps w" "p \<in> ps"
  shows "\<exists>m w'. pipe_read p w = Some (m, w') \<and> in_good ps w' \<and> wmem w' = wmem w \<and>
    (\<forall>r \<in> ps - {p}. pipe_avail r w' = pipe_avail r w) \<and>
    (case m of None \<Rightarrow> pipe_avail p w = [] \<and> pipe_avail p w' = [] | Some m \<Rightarrow> pipe_avail p w = m # pipe_avail p w')"
proof -
  obtain x u where x: "wpipes w p = Some x" and u: "upipes w (inpipe x) = Some u" "upipe_ok u"
    by (rule in_goodE[OF g])
  show ?thesis
  proof (cases "pipe_readable x")
    case False
    then show ?thesis using x g by (simp add: pipe_read_def pipe_avail_def)
  next
    case r: True
    obtain m u' where u': "ypipe_read message_pipe_granularity u = Some (m, u')" "upipe_ok u'"
      "case m of None \<Rightarrow> flushed (uabs u) = [] \<and> uabs u' = (uabs u)\<lparr>asleep := True\<rparr>
       | Some m \<Rightarrow> msg_check m \<and> flushed (uabs u) = m # flushed (uabs u') \<and> uabs u' = (uabs u)\<lparr>flushed := flushed (uabs u')\<rparr>"
      using upipe_read_ok[OF u(2)] by blast
    let ?w1 = "set_upipe (inpipe x) u' w"
    note upd = in_good_upd[OF g x u'(2)]
    show ?thesis
    proof (cases m)
      case None
      let ?w' = "set_pipe p (x\<lparr>in_active := False\<rparr>) ?w1"
      have "pipe_read p w = Some (None, ?w')" using x u u' r None by (simp add: pipe_read_def)
      moreover have "in_good ps ?w'" "\<And>r. r \<in> ps - {p} \<Longrightarrow> pipe_avail r ?w' = pipe_avail r w"
        by (rule upd[where x' = "x\<lparr>in_active := False\<rparr>"]; simp)+
      moreover have "pipe_avail p w = []" using x u u'(3) None by (simp add: pipe_avail_def)
      moreover have "pipe_avail p ?w' = []" by (simp add: pipe_avail_def pipe_readable_def)
      ultimately show ?thesis by (intro exI[of _ None] exI[of _ ?w']) simp
    next
      case (Some m')
      have fl: "flushed (uabs u) = m' # flushed (uabs u')" using u'(3) Some by simp
      show ?thesis
      proof (cases "msg_is_delimiter m'")
        case True
        obtain w' x' where w': "pipe_delimit p ?w1 = Some w'" "wpipes w' = (wpipes w)(p \<mapsto> x')" "upipes w' = (upipes w)(inpipe x \<mapsto> u')"
          "inpipe x' = inpipe x" "\<not> pipe_readable x'" "wmem w' = wmem w"
          using delimit_ends[of ?w1 p x] x r by auto
        have "pipe_read p w = Some (None, w')" using x u u' r Some True w' by (simp add: pipe_read_def)
        moreover have "in_good ps w'" "\<And>r. r \<in> ps - {p} \<Longrightarrow> pipe_avail r w' = pipe_avail r w"
          by (rule upd[OF w'(2,3,4)]; simp)+
        moreover have "pipe_avail p w = []" using x u fl True by (simp add: pipe_avail_def)
        moreover have "pipe_avail p w' = []" using w' by (simp add: pipe_avail_def)
        ultimately show ?thesis using w'(6) by (intro exI[of _ None] exI[of _ w']) simp
      next
        case False
        define x' where "x' = (if mflags m' AND flag_more = 0 then x\<lparr>msgs_read := msgs_read x + 1\<rparr> else x)"
        define w' where "w' = (if lwm x' > 0 \<and> msgs_read x' mod word_of_int (lwm x') = 0
          then send_cmd (peer x') (Activate_write (msgs_read x')) (set_pipe p x' ?w1) else set_pipe p x' ?w1)"
        have w': "wpipes w' = (wpipes w)(p \<mapsto> x')" "upipes w' = (upipes w)(inpipe x \<mapsto> u')" "inpipe x' = inpipe x" and mem: "wmem w' = wmem w"
          by (simp_all add: w'_def x'_def)
        have rd': "pipe_readable x'" using r by (simp add: x'_def pipe_readable_def)
        have "pipe_read p w = Some (Some m', w')" using x u u' r Some False by (simp add: pipe_read_def x'_def w'_def)
        moreover have "in_good ps w'" "\<And>r. r \<in> ps - {p} \<Longrightarrow> pipe_avail r w' = pipe_avail r w"
          by (rule upd[OF w']; simp)+
        moreover have "pipe_avail p w = m' # pipe_avail p w'" using x u fl False r rd' w' by (simp add: pipe_avail_def)
        ultimately show ?thesis using mem by (intro exI[of _ "Some m'"] exI[of _ w']) simp
      qed
    qed
  qed
qed

lemma pipe_check_read_law:
  assumes g: "in_good ps w" "p \<in> ps"
  shows "\<exists>b w'. pipe_check_read p w = Some (b, w') \<and> in_good ps w' \<and> wmem w' = wmem w \<and>
    (\<forall>r \<in> ps. pipe_avail r w' = pipe_avail r w) \<and> b = (pipe_avail p w \<noteq> [])"
proof -
  obtain x u where x: "wpipes w p = Some x" and u: "upipes w (inpipe x) = Some u" "upipe_ok u"
    by (rule in_goodE[OF g])
  have split: "(\<forall>r \<in> ps. pipe_avail r w' = pipe_avail r w)"
    if "\<And>r. r \<in> ps - {p} \<Longrightarrow> pipe_avail r w' = pipe_avail r w" "pipe_avail p w' = pipe_avail p w" for w' :: "'a world"
    using that by blast
  show ?thesis
  proof (cases "pipe_readable x")
    case False
    then show ?thesis using x g by (auto simp: pipe_check_read_def pipe_avail_def)
  next
    case r: True
    obtain b u1 where b: "ypipe_check_read u = (b, u1)" by fastforce
    have u1: "upipe_ok u1" "b \<longleftrightarrow> flushed (uabs u) \<noteq> []" "flushed (uabs u1) = flushed (uabs u)"
      using upipe_check_read_ok[OF u(2)] b by (auto simp: ap_check_read_def)
    show ?thesis
    proof (cases b)
      case False
      let ?w' = "set_pipe p (x\<lparr>in_active := False\<rparr>) (set_upipe (inpipe x) u1 w)"
      have "pipe_check_read p w = Some (False, ?w')" using x u b r False by (simp add: pipe_check_read_def)
      moreover have "in_good ps ?w'" "\<And>r. r \<in> ps - {p} \<Longrightarrow> pipe_avail r ?w' = pipe_avail r w"
        by (rule in_good_upd[OF g x u1(1), where x' = "x\<lparr>in_active := False\<rparr>"]; simp)+
      moreover have "pipe_avail p w = []" "pipe_avail p ?w' = []"
        using x u u1 False by (simp_all add: pipe_avail_def pipe_readable_def)
      ultimately show ?thesis using split[of ?w'] by (intro exI[of _ False] exI[of _ ?w']) simp
    next
      case True
      then have ne: "flushed (uabs u1) \<noteq> []" using u1 by simp
      obtain u2 where u2: "ypipe_probe msg_is_delimiter u1 = Some (msg_is_delimiter (hd (flushed (uabs u1))), u2)" "uinv u2" "uabs u2 = uabs u1"
        using ypipe_probe_refines[of message_pipe_granularity u1 msg_is_delimiter] ne u1(1) by (auto simp: upipe_ok_def)
      have u2': "upipe_ok u2" using u1(1) u2 by (simp add: upipe_ok_def)
      show ?thesis
      proof (cases "msg_is_delimiter (hd (flushed (uabs u1)))")
        case False
        let ?w' = "set_upipe (inpipe x) u2 w"
        have w: "wpipes ?w' = (wpipes w)(p \<mapsto> x)" using x by auto
        have "pipe_check_read p w = Some (True, ?w')"
          using x u b r True u2 False by (simp add: pipe_check_read_def set_upipe_def)
        moreover have "in_good ps ?w'" "\<And>r. r \<in> ps - {p} \<Longrightarrow> pipe_avail r ?w' = pipe_avail r w"
          by (rule in_good_upd[OF g x u2' w]; simp)+
        moreover have "pipe_avail p ?w' = pipe_avail p w" "pipe_avail p w \<noteq> []"
          using x u u1 u2 r ne False by (cases "flushed (uabs u)"; simp add: pipe_avail_def)+
        ultimately show ?thesis using split[of ?w'] by (intro exI[of _ True] exI[of _ ?w']) simp
      next
        case D: True
        obtain m u3 where u3: "ypipe_read message_pipe_granularity u2 = Some (Some m, u3)" "upipe_ok u3"
          using upipe_read_ok[OF u2'] ne u2(3) by (auto split: option.splits)
        let ?w3 = "set_upipe (inpipe x) u3 (set_upipe (inpipe x) u2 w)"
        obtain w' x' where w': "pipe_delimit p ?w3 = Some w'" "wpipes w' = (wpipes w)(p \<mapsto> x')" "upipes w' = (upipes w)(inpipe x \<mapsto> u3)"
          "inpipe x' = inpipe x" "\<not> pipe_readable x'" "wmem w' = wmem w"
          using delimit_ends[of ?w3 p x] x r by auto
        have "pipe_check_read p w = Some (False, w')"
          using x u b r True u2 u3 D w' by (simp add: pipe_check_read_def set_upipe_def)
        moreover have "in_good ps w'" "\<And>r. r \<in> ps - {p} \<Longrightarrow> pipe_avail r w' = pipe_avail r w"
          by (rule in_good_upd[OF g x u3(2) w'(2,3,4)]; simp)+
        moreover have "pipe_avail p w = []" using x u u1 ne D by (cases "flushed (uabs u)") (simp_all add: pipe_avail_def)
        moreover have "pipe_avail p w' = []" using w' by (simp add: pipe_avail_def)
        ultimately show ?thesis using split[of w'] w'(6) by (intro exI[of _ False] exI[of _ w']) simp
      qed
    qed
  qed
qed

lemma in_good_sub: "in_good ps w \<Longrightarrow> qs \<subseteq> ps \<Longrightarrow> in_good qs w"
  by (simp add: in_good_def subset_iff)

lemma pipe_avail_check: "in_good ps w \<Longrightarrow> p \<in> ps \<Longrightarrow> m \<in> set (pipe_avail p w) \<Longrightarrow> msg_check m"
  by (erule (1) in_goodE) (auto simp: pipe_avail_def upipe_ok_def ap_all_def dest!: set_takeWhileD split: if_splits)

interpretation rpipes: inbound pipe_read pipe_check_read in_good pipe_avail
proof
  show "in_good ps (w\<lparr>wmem := h\<rparr>) = in_good ps w" "pipe_avail p (w\<lparr>wmem := h\<rparr>) = pipe_avail p w"
    for ps p h and w :: "'a world" by (simp_all add: in_good_def pipe_avail_def split: option.splits)
qed (fact pipe_read_law pipe_check_read_law in_good_sub pipe_avail_check)+

subsection \<open>Writing to the pipes of the model\<close>

definition pipe_room :: "addr \<Rightarrow> 's world \<Rightarrow> bool" where
  "pipe_room p w = (case wpipes w p of None \<Rightarrow> False
     | Some x \<Rightarrow> out_active x \<and> pstate x = Active \<and> \<not> (hwm x > 0 \<and> msgs_written x - peers_msgs_read x = word_of_int (hwm x)))"

definition pipe_sent :: "addr \<Rightarrow> 's world \<Rightarrow> msg list" where
  "pipe_sent p w = (case wpipes w p of None \<Rightarrow> []
     | Some x \<Rightarrow> (case upipes w (outpipe x) of None \<Rightarrow> [] | Some u \<Rightarrow> ap_all (uabs u)))"

definition out_good :: "addr set \<Rightarrow> 's world \<Rightarrow> bool" where
  "out_good ps w \<longleftrightarrow> upipes w 0 = None \<and> (\<forall>p \<in> ps. \<exists>x. wpipes w p = Some x \<and> (pstate x = Active \<longrightarrow> outpipe x \<noteq> 0) \<and>
       (outpipe x \<noteq> 0 \<longrightarrow> (\<exists>u. upipes w (outpipe x) = Some u \<and> upipe_ok u))) \<and>
     (\<forall>p \<in> ps. \<forall>r \<in> ps. p \<noteq> r \<longrightarrow> outpipe (the (wpipes w p)) \<noteq> 0 \<longrightarrow> outpipe (the (wpipes w p)) \<noteq> outpipe (the (wpipes w r)))"

lemma out_good_upd:
  assumes g: "out_good ps w" "p \<in> ps" "wpipes w p = Some x" and o: "outpipe x \<noteq> 0" and u: "upipe_ok u"
    and w': "wpipes w' = (wpipes w)(p \<mapsto> x')" "upipes w' = (upipes w)(outpipe x \<mapsto> u)" "outpipe x' = outpipe x"
  shows "out_good ps w'" "r \<in> ps - {p} \<Longrightarrow> pipe_sent r w' = pipe_sent r w" "r \<in> ps - {p} \<Longrightarrow> pipe_room r w' = pipe_room r w"
proof -
  have d: "outpipe x \<noteq> outpipe y" if "r \<in> ps - {p}" "wpipes w r = Some y" for r y
    using g(1)[unfolded out_good_def, THEN conjunct2, THEN conjunct2, rule_format, of p r] g(2,3) that o by auto
  show "out_good ps w'" unfolding out_good_def
  proof (intro conjI ballI impI)
    show "upipes w' 0 = None" using g(1) w' o by (simp add: out_good_def)
  next
    fix r assume r: "r \<in> ps"
    show "\<exists>x. wpipes w' r = Some x \<and> (pstate x = Active \<longrightarrow> outpipe x \<noteq> 0) \<and>
        (outpipe x \<noteq> 0 \<longrightarrow> (\<exists>u. upipes w' (outpipe x) = Some u \<and> upipe_ok u))"
    proof (cases "r = p")
      case True
      then show ?thesis using w' u o by simp
    next
      case False
      with r obtain y where y: "wpipes w r = Some y" "pstate y = Active \<longrightarrow> outpipe y \<noteq> 0"
        "outpipe y \<noteq> 0 \<longrightarrow> (\<exists>u. upipes w (outpipe y) = Some u \<and> upipe_ok u)" using g(1) by (auto simp: out_good_def)
      then show ?thesis using d[of r y] r False w' by auto
    qed
  next
    fix r s assume "r \<in> ps" "s \<in> ps" "r \<noteq> s" "outpipe (the (wpipes w' r)) \<noteq> 0"
    then show "outpipe (the (wpipes w' r)) \<noteq> outpipe (the (wpipes w' s))"
      using g(1)[unfolded out_good_def, THEN conjunct2, THEN conjunct2, rule_format, of r s] g(3) w' by (auto split: if_splits)
  qed
  show "pipe_sent r w' = pipe_sent r w" "pipe_room r w' = pipe_room r w" if r: "r \<in> ps - {p}" for r
  proof -
    obtain y where y: "wpipes w r = Some y" using g(1) r by (auto simp: out_good_def)
    then show "pipe_sent r w' = pipe_sent r w" "pipe_room r w' = pipe_room r w"
      using d[OF r y] w' r by (simp_all add: pipe_sent_def pipe_room_def)
  qed
qed

lemma out_good_fields:
  assumes g: "out_good ps w" "p \<in> ps" "wpipes w p = Some x"
    and x': "outpipe x' = outpipe x" "pstate x' = pstate x"
  shows "out_good ps (set_pipe p x' w)" "r \<in> ps - {p} \<Longrightarrow> pipe_room r (set_pipe p x' w) = pipe_room r w"
    "pipe_sent r (set_pipe p x' w) = pipe_sent r w"
proof -
  let ?w = "set_pipe p x' w"
  have e: "outpipe (the (wpipes ?w r)) = outpipe (the (wpipes w r))" for r using g(3) x' by simp
  have "\<exists>x. wpipes ?w r = Some x \<and> (pstate x = Active \<longrightarrow> outpipe x \<noteq> 0) \<and>
      (outpipe x \<noteq> 0 \<longrightarrow> (\<exists>u. upipes ?w (outpipe x) = Some u \<and> upipe_ok u))" if r: "r \<in> ps" for r
  proof -
    obtain y where "wpipes w r = Some y" "pstate y = Active \<longrightarrow> outpipe y \<noteq> 0"
      "outpipe y \<noteq> 0 \<longrightarrow> (\<exists>u. upipes w (outpipe y) = Some u \<and> upipe_ok u)" using g(1) r by (auto simp: out_good_def)
    then show ?thesis using g(3) x' by (cases "r = p") auto
  qed
  then show "out_good ps ?w" using g(1) e unfolding out_good_def by simp
qed (use g x' in \<open>auto simp: pipe_room_def pipe_sent_def split: option.splits\<close>)

lemma pipe_check_write_law:
  assumes g: "out_good ps w" "p \<in> ps"
  shows "\<exists>b w'. pipe_check_write p w = Some (b, w') \<and> out_good ps w' \<and> b = pipe_room p w \<and>
    (\<forall>r \<in> ps. pipe_room r w' = pipe_room r w \<and> pipe_sent r w' = pipe_sent r w) \<and> wmem w' = wmem w \<and> (b \<longrightarrow> w' = w)"
proof -
  obtain x where x: "wpipes w p = Some x" using g by (auto simp: out_good_def)
  let ?w' = "set_pipe p (x\<lparr>out_active := False\<rparr>) w"
  have f: "out_good ps ?w'" "\<And>r. r \<in> ps - {p} \<Longrightarrow> pipe_room r ?w' = pipe_room r w" "\<And>r. pipe_sent r ?w' = pipe_sent r w"
    by (rule out_good_fields[OF g x]; simp)+
  have "\<forall>r \<in> ps. pipe_room r ?w' = pipe_room r w" if "\<not> pipe_room p w"
  proof
    fix r assume "r \<in> ps"
    show "pipe_room r ?w' = pipe_room r w"
    proof (cases "r = p")
      case True
      then show ?thesis using \<open>\<not> pipe_room p w\<close> by (simp add: pipe_room_def)
    qed (use f(2) \<open>r \<in> ps\<close> in blast)
  qed
  then show ?thesis using f(1,3) g(1) x by (auto simp: pipe_check_write_def pipe_room_def)
qed

lemma pipe_write_law:
  assumes g: "out_good ps w" "p \<in> ps" and m: "msg_check m"
  shows "\<exists>b w'. pipe_write p m w = Some (b, w') \<and> out_good ps w' \<and> b = pipe_room p w \<and>
    (\<forall>r \<in> ps - {p}. pipe_room r w' = pipe_room r w \<and> pipe_sent r w' = pipe_sent r w) \<and>
    pipe_sent p w' = (if b then pipe_sent p w @ [m] else pipe_sent p w) \<and>
    (b \<and> has_more m \<or> \<not> b \<longrightarrow> pipe_room p w' = b) \<and> wmem w' = wmem w"
proof -
  obtain x where x: "wpipes w p = Some x" using g by (auto simp: out_good_def)
  obtain b w1 where c: "pipe_check_write p w = Some (b, w1)" "out_good ps w1" "b = pipe_room p w"
    "\<forall>r \<in> ps. pipe_room r w1 = pipe_room r w \<and> pipe_sent r w1 = pipe_sent r w" "wmem w1 = wmem w" "b \<longrightarrow> w1 = w"
    using pipe_check_write_law[OF g] by blast
  show ?thesis
  proof (cases b)
    case False
    then have "pipe_write p m w = Some (False, w1)" using c by (simp add: pipe_write_def)
    then show ?thesis using c False g(2) by (intro exI[of _ False] exI[of _ w1]) simp
  next
    case True
    then have w1: "w1 = w" and room: "pipe_room p w" using c by auto
    then have o: "outpipe x \<noteq> 0" using g x by (auto simp: out_good_def pipe_room_def)
    then obtain u where u: "upipes w (outpipe x) = Some u" "upipe_ok u" using g x by (auto simp: out_good_def)
    obtain u' where u': "ypipe_write message_pipe_granularity m (has_more m) u = Some u'" "upipe_ok u'"
      "uabs u' = ap_write m (has_more m) (uabs u)"
      using upipe_write_ok[OF u(2) m, of "has_more m"] by (auto simp: has_more_def more_part_def)
    define x' where "x' = (if has_more m then x else x\<lparr>msgs_written := msgs_written x + 1\<rparr>)"
    define w' where "w' = (if has_more m then set_upipe (outpipe x) u' w else set_pipe p x' (set_upipe (outpipe x) u' w))"
    have w': "wpipes w' = (wpipes w)(p \<mapsto> x')" "upipes w' = (upipes w)(outpipe x \<mapsto> u')" "outpipe x' = outpipe x"
      using x by (auto simp: w'_def x'_def)
    note upd = out_good_upd[OF g x o u'(2) w']
    have "pipe_write p m w = Some (True, w')"
      using c(1) True w1 x u u'(1) by (simp add: pipe_write_def has_more_def w'_def x'_def)
    moreover have "pipe_sent p w' = pipe_sent p w @ [m]"
      using x u w' by (simp add: pipe_sent_def u'(3) ap_simps)
    moreover have "has_more m \<longrightarrow> pipe_room p w'" using room x w' by (auto simp: pipe_room_def x'_def)
    moreover have "wmem w' = wmem w" by (simp add: w'_def)
    ultimately show ?thesis using upd room True c(3) by (intro exI[of _ True] exI[of _ w']) simp
  qed
qed

lemma pipe_flush_law:
  assumes g: "out_good ps w" "p \<in> ps"
  shows "\<exists>w'. pipe_flush p w = Some w' \<and> out_good ps w' \<and>
    (\<forall>r \<in> ps. pipe_room r w' = pipe_room r w \<and> pipe_sent r w' = pipe_sent r w) \<and> wmem w' = wmem w"
proof -
  obtain x where x: "wpipes w p = Some x" using g by (auto simp: out_good_def)
  show ?thesis
  proof (cases "pstate x = Terminating \<or> outpipe x = 0")
    case True
    then show ?thesis using g x by (auto simp: pipe_flush_def)
  next
    case False
    then obtain u where u: "upipes w (outpipe x) = Some u" "upipe_ok u" using g x by (auto simp: out_good_def)
    obtain b u' where f: "ypipe_flush u = (b, u')" by fastforce
    have u': "upipe_ok u'" "ap_all (uabs u') = ap_all (uabs u)" using upipe_flush_ok[OF u(2)] f by auto
    define w' where "w' = (if b then set_upipe (outpipe x) u' w else send_cmd (peer x) Activate_read (set_upipe (outpipe x) u' w))"
    have w': "wpipes w' = (wpipes w)(p \<mapsto> x)" "upipes w' = (upipes w)(outpipe x \<mapsto> u')" using x by (auto simp: w'_def)
    have o: "outpipe x \<noteq> 0" using False by simp
    note upd = out_good_upd[OF g x o u'(1) w' refl]
    have "pipe_flush p w = Some w'" using x u f False by (simp add: pipe_flush_def w'_def Let_def)
    moreover have "pipe_room p w' = pipe_room p w" "pipe_sent p w' = pipe_sent p w"
      using x u u' w' by (simp_all add: pipe_room_def pipe_sent_def)
    moreover have "wmem w' = wmem w" by (simp add: w'_def)
    ultimately show ?thesis using upd by (intro exI[of _ w']) (metis DiffI singletonD)
  qed
qed

lemma out_good_sub: "out_good ps w \<Longrightarrow> qs \<subseteq> ps \<Longrightarrow> out_good qs w"
  unfolding out_good_def by (meson subsetD)

interpretation wpipes: outbound pipe_write pipe_check_write pipe_flush out_good pipe_room pipe_sent
proof
  fix ps p and w :: "'a world"
  assume g: "out_good ps w" "p \<in> ps"
  show "\<exists>b w'. pipe_check_write p w = Some (b, w') \<and> out_good ps w' \<and> b = pipe_room p w \<and>
      (\<forall>r \<in> ps. pipe_room r w' = pipe_room r w \<and> pipe_sent r w' = pipe_sent r w) \<and> wmem w' = wmem w"
    using pipe_check_write_law[OF g] by blast
next
  show "out_good ps (w\<lparr>wmem := h\<rparr>) = out_good ps w" "pipe_room p (w\<lparr>wmem := h\<rparr>) = pipe_room p w"
    "pipe_sent p (w\<lparr>wmem := h\<rparr>) = pipe_sent p w"
    for ps p h and w :: "'a world" by (simp_all add: out_good_def pipe_room_def pipe_sent_def split: option.splits)
qed (fact pipe_write_law pipe_flush_law out_good_sub)+

subsection \<open>An example\<close>

definition example_msg :: msg where
  "example_msg = msg_init msg_closed"

lemma example_msg: "msg_check example_msg" "\<not> more_part example_msg" "\<not> has_more example_msg" "\<not> msg_is_delimiter example_msg"
  "refs_inv (add_mset example_msg M) h = refs_inv M h"
  by (simp_all add: example_msg_def msg_init_def msg_closed_def msg_check_def more_part_def has_more_def msg_is_delimiter_def
      refs_inv_skip)

lemma mem_new_ok: "refs_inv {#} (mem_new ok jk)"
  by (simp add: refs_inv_def mem_new_def block_ok_def)

lemma upipe_one:
  assumes "msg_check m" "\<not> has_more m" shows "\<exists>z. upipe_ok z \<and> flushed (uabs z) = [m]"
proof -
  have "False \<longleftrightarrow> more_part m" using assms(2) by (simp add: more_part_def has_more_def)
  from upipe_write_ok[OF upipe_new_ok assms(1) this] obtain y where y: "upipe_ok y" "uabs y = ap_write m False ap_new"
    unfolding upipe_new_abs by blast
  then show ?thesis using upipe_flush_ok[OF y(1)] by (intro exI[of _ "snd (ypipe_flush y)"]) (simp add: y(2) ap_write_def ap_flush_def ap_new_def)
qed

text \<open>One pipe with one message to read, and another one with room for one.\<close>

lemma pipe_example:
  "\<exists>w :: unit world. in_good {3} w \<and> pipe_avail 3 w = [example_msg] \<and> out_good {4} w \<and> pipe_room 4 w \<and> pipe_sent 4 w = [] \<and>
    wmem w = mem_new (\<lambda>_ _. True) (\<lambda>_. 0)"
proof -
  let ?n = "ypipe_new message_pipe_granularity :: msg ypipe"
  obtain z where z: "upipe_ok z" "flushed (uabs z) = [example_msg]" using upipe_one[OF example_msg(1,3)] by blast
  define x3 where "x3 = pipe_init 1 0 0 0 True"
  define x4 where "x4 = pipe_init 0 2 1 1 True"
  define w :: "unit world" where "w = \<lparr>wpipes = (\<lambda>_. None)(3 \<mapsto> x3, 4 \<mapsto> x4), upipes = (\<lambda>_. None)(1 \<mapsto> z, 2 \<mapsto> ?n),
    next_addr = 5, wmem = mem_new (\<lambda>_ _. True) (\<lambda>_. 0), wcmds = [], sock = ()\<rparr>"
  have "in_good {3} w" using z by (simp add: in_good_def w_def x3_def pipe_init_def)
  moreover have "pipe_avail 3 w = [example_msg]" using z example_msg
    by (simp add: pipe_avail_def w_def x3_def pipe_init_def pipe_readable_def)
  moreover have "out_good {4} w" by (simp add: out_good_def w_def x4_def pipe_init_def)
  moreover have "pipe_room 4 w" by (simp add: pipe_room_def w_def x4_def pipe_init_def)
  moreover have "pipe_sent 4 w = []" by (simp add: pipe_sent_def w_def x4_def pipe_init_def upipe_new_abs ap_new_def ap_all_def)
  ultimately show ?thesis by (intro exI[of _ w]) (simp add: w_def)
qed

text \<open>Closing the message that is replaced.\<close>

lemma close_msg_ok:
  assumes "refs_inv (add_mset m R) (wmem w)" "msg_check m"
  obtains h where "close_msg m w = Some (m\<lparr>mtype := 0\<rparr>, w\<lparr>wmem := h\<rparr>)" "refs_inv R h"
  using msg_close_ok[OF assms] by (auto simp: close_msg_def)

subsection \<open>Whole messages\<close>

text \<open>The parts of one message.\<close>

definition one_message :: "msg list \<Rightarrow> bool" where
  "one_message ms \<longleftrightarrow> ms \<noteq> [] \<and> (\<forall>m \<in> set ms. msg_check m) \<and> (\<forall>m \<in> set (butlast ms). has_more m) \<and> \<not> has_more (last ms)"

lemma one_message_Cons: "one_message (m # ms) \<longleftrightarrow> msg_check m \<and> (if ms = [] then \<not> has_more m else has_more m \<and> one_message ms)"
  by (auto simp: one_message_def)

end
