(* ===== verification/Fq.thy ===== *)
theory Fq
  imports Array Pipe_Ends
begin

text \<open>
  \<^verbatim>\<open>fq_t\<close> of src/fq.cpp: fair queueing over the inbound pipes of a socket. The pipes that may have
  a message stand at the front of the array, and \<open>fq_current\<close> is the one to ask next. The
  operations take the pipe's \<^verbatim>\<open>read\<close> and \<^verbatim>\<open>check_read\<close> as arguments; their lemmas are proved for
  any pipes that keep the laws of \<^theory_text>\<open>inbound\<close> and then hold for those of src/pipe.cpp.
\<close>

unbundle bit_operations_syntax

record fq =
  fq_pipes :: array
  fq_active :: nat
  fq_current :: nat
  fq_more :: bool

definition fq_new :: fq where
  "fq_new = \<lparr>fq_pipes = array_new, fq_active = 0, fq_current = 0, fq_more = False\<rparr>"

definition fq_destroy :: "fq \<Rightarrow> unit option" where
  "fq_destroy f = zmq_assert (array_empty (fq_pipes f))"

definition fq_attach :: "addr \<Rightarrow> fq \<Rightarrow> fq option" where
  "fq_attach p f = do {
     let a = array_push_back p (fq_pipes f);
     a \<leftarrow> array_swap (fq_active f) (array_size a - 1) a;
     Some (f\<lparr>fq_pipes := a, fq_active := fq_active f + 1\<rparr>) }"

text \<open>Taking the pipe at an index out of the active ones.\<close>

definition fq_deactivate :: "nat \<Rightarrow> fq \<Rightarrow> fq option" where
  "fq_deactivate i f = do {
     let n = fq_active f - 1;
     a \<leftarrow> array_swap i n (fq_pipes f);
     Some (f\<lparr>fq_pipes := a, fq_active := n, fq_current := (if fq_current f = n then 0 else fq_current f)\<rparr>) }"

definition fq_terminated :: "addr \<Rightarrow> fq \<Rightarrow> fq option" where
  "fq_terminated p f = do {
     i \<leftarrow> array_ix p (fq_pipes f);
     f \<leftarrow> (if i < fq_active f then fq_deactivate i f else Some f);
     a \<leftarrow> array_erase p (fq_pipes f);
     Some (f\<lparr>fq_pipes := a\<rparr>) }"

definition fq_activated :: "addr \<Rightarrow> fq \<Rightarrow> fq option" where
  "fq_activated p f = do {
     i \<leftarrow> array_ix p (fq_pipes f);
     a \<leftarrow> array_swap i (fq_active f) (fq_pipes f);
     Some (f\<lparr>fq_pipes := a, fq_active := fq_active f + 1\<rparr>) }"

lemma fq_deactivate_active: "fq_deactivate i f = Some f' \<Longrightarrow> fq_active f' = fq_active f - 1"
  by (auto simp: fq_deactivate_def run_simps Let_def)

text \<open>The round over the active pipes in \<^verbatim>\<open>recvpipe\<close>: the message and its pipe.\<close>

function fq_loop :: "(addr \<Rightarrow> 's world \<Rightarrow> (msg option \<times> 's world) option) \<Rightarrow> fq \<Rightarrow> 's world \<Rightarrow>
    ((msg \<times> addr) option \<times> fq \<times> 's world) option" where
  "fq_loop rd f w =
     (if fq_active f > 0 then do {
        p \<leftarrow> array_at (fq_pipes f) (fq_current f);
        (fetched, w) \<leftarrow> rd p w;
        case fetched of
          Some m \<Rightarrow> do {
            let f = f\<lparr>fq_more := has_more m\<rparr>;
            Some (Some (m, p),
              if \<not> fq_more f then f\<lparr>fq_current := (fq_current f + 1) mod fq_active f\<rparr> else f, w) }
        | None \<Rightarrow> do {
            zmq_assert (\<not> fq_more f);
            f' \<leftarrow> fq_deactivate (fq_current f) f;
            fq_loop rd f' w } }
      else Some (None, f, w))"
  by pat_completeness auto
termination
  by (relation "measure (\<lambda>(_, f, _). fq_active f)") (auto dest: fq_deactivate_active)

declare fq_loop.simps [simp del]

definition fq_recvpipe :: "(addr \<Rightarrow> 's world \<Rightarrow> (msg option \<times> 's world) option) \<Rightarrow> fq \<Rightarrow> msg \<Rightarrow> 's world \<Rightarrow>
    ((errno + addr) \<times> msg \<times> fq \<times> 's world) option" where
  "fq_recvpipe rd f m w = do {
     (m, w) \<leftarrow> close_msg m w;
     (r, f, w) \<leftarrow> fq_loop rd f w;
     Some (case r of Some (m, p) \<Rightarrow> (Inr p, m, f, w) | None \<Rightarrow> (Inl EAGAIN, msg_init m, f, w)) }"

definition fq_recv :: "(addr \<Rightarrow> 's world \<Rightarrow> (msg option \<times> 's world) option) \<Rightarrow> fq \<Rightarrow> msg \<Rightarrow> 's world \<Rightarrow>
    ((errno + unit) \<times> msg \<times> fq \<times> 's world) option" where
  "fq_recv rd f m w = do {
     (r, m, f, w) \<leftarrow> fq_recvpipe rd f m w;
     Some (map_sum id (\<lambda>_. ()) r, m, f, w) }"

function fq_has_in :: "(addr \<Rightarrow> 's world \<Rightarrow> (bool \<times> 's world) option) \<Rightarrow> fq \<Rightarrow> 's world \<Rightarrow>
    (bool \<times> fq \<times> 's world) option" where
  "fq_has_in chk f w =
     (if fq_more f then Some (True, f, w)
      else if fq_active f > 0 then do {
        p \<leftarrow> array_at (fq_pipes f) (fq_current f);
        (ok, w) \<leftarrow> chk p w;
        if ok then Some (True, f, w)
        else do { f' \<leftarrow> fq_deactivate (fq_current f) f; fq_has_in chk f' w } }
      else Some (False, f, w))"
  by pat_completeness auto
termination
  by (relation "measure (\<lambda>(_, f, _). fq_active f)") (auto dest: fq_deactivate_active)

declare fq_has_in.simps [simp del]

subsection \<open>The invariant\<close>

definition fq_inv :: "fq \<Rightarrow> bool" where
  "fq_inv f \<longleftrightarrow> array_inv (fq_pipes f) \<and> fq_active f \<le> length (items (fq_pipes f)) \<and>
     (fq_current f < fq_active f \<or> fq_current f = 0)"

definition fq_actives :: "fq \<Rightarrow> addr set" where
  "fq_actives f = set (take (fq_active f) (items (fq_pipes f)))"

abbreviation fq_all :: "fq \<Rightarrow> addr set" where
  "fq_all f \<equiv> set (items (fq_pipes f))"

lemma fq_new_inv [simp]: "fq_inv fq_new" "fq_all fq_new = {}" "fq_actives fq_new = {}" "\<not> fq_more fq_new"
  by (simp_all add: fq_inv_def fq_new_def fq_actives_def)

lemma fq_attach_ok:
  assumes inv: "fq_inv f" and p: "p \<noteq> 0" "p \<notin> fq_all f"
  obtains f' where "fq_attach p f = Some f'" "fq_inv f'" "fq_all f' = insert p (fq_all f)"
    "fq_actives f' = insert p (fq_actives f)" "fq_more f' = fq_more f"
    "array_at (fq_pipes f') (fq_current f') = (if fq_active f = 0 then Some p else array_at (fq_pipes f) (fq_current f))"
proof -
  let ?xs = "items (fq_pipes f)" and ?a = "array_push_back p (fq_pipes f)" and ?n = "fq_active f"
  have inva: "array_inv ?a" using inv p by (auto simp: fq_inv_def intro: array_push_back_inv)
  have n: "?n \<le> length ?xs" using inv by (simp add: fq_inv_def)
  obtain a' where a': "array_swap ?n (length ?xs) ?a = Some a'" "array_inv a'" "items a' = list_swap ?n (length ?xs) (?xs @ [p])"
    by (rule array_swap_ok[OF inva, of ?n "length ?xs"]) (use n in auto)
  let ?f = "f\<lparr>fq_pipes := a', fq_active := ?n + 1\<rparr>"
  have sw: "list_swap ?n (length ?xs) (?xs @ [p]) = list_swap (length ?xs) ?n (?xs @ [p])"
    by (rule list_swap_commute) (use n in auto)
  have "set (take (Suc ?n) (items a')) = insert p (set (take ?n ?xs))"
    unfolding a'(3) sw using n by (subst set_take_Suc_swap) auto
  then have act: "fq_actives ?f = insert p (fq_actives f)" by (simp add: fq_actives_def)
  have all: "fq_all ?f = insert p (fq_all f)" using n by (simp add: a'(3))
  have cur: "array_at a' (fq_current f) = (if ?n = 0 then Some p else array_at (fq_pipes f) (fq_current f))"
  proof (cases "?n = 0")
    case True
    then show ?thesis using inv a'(3) by (auto simp: fq_inv_def array_at_def elem_def nth_list_swap)
  next
    case False
    then have "fq_current f < ?n" using inv by (auto simp: fq_inv_def)
    then show ?thesis using False n a'(3) by (auto simp: array_at_def elem_def nth_list_swap nth_append)
  qed
  have "fq_attach p f = Some ?f" using a'(1) by (simp add: fq_attach_def array_size_def)
  moreover have "fq_inv ?f" using inv a' n by (auto simp: fq_inv_def)
  ultimately show ?thesis using that[of ?f] act all cur by simp
qed

lemma fq_deactivate_ok:
  assumes inv: "fq_inv f" and i: "i < fq_active f"
  obtains f' where "fq_deactivate i f = Some f'" "fq_inv f'" "fq_all f' = fq_all f"
    "fq_actives f' = fq_actives f - {items (fq_pipes f) ! i}" "fq_active f' = fq_active f - 1" "fq_more f' = fq_more f"
    "items (fq_pipes f') = list_swap i (fq_active f - 1) (items (fq_pipes f))"
    "fq_current f' = (if fq_current f = fq_active f - 1 then 0 else fq_current f)"
proof -
  let ?xs = "items (fq_pipes f)" and ?n = "fq_active f - 1"
  have inva: "array_inv (fq_pipes f)" and n: "fq_active f \<le> length ?xs" and d: "distinct ?xs"
    using inv by (simp_all add: fq_inv_def array_inv_def)
  have in1: "i < length ?xs" "?n < length ?xs" using i n by auto
  obtain a' where a': "array_swap i ?n (fq_pipes f) = Some a'" "array_inv a'" "items a' = list_swap i ?n ?xs"
    by (rule array_swap_ok[OF inva in1])
  let ?f = "f\<lparr>fq_pipes := a', fq_active := ?n, fq_current := (if fq_current f = ?n then 0 else fq_current f)\<rparr>"
  have "set (take ?n (list_swap i ?n ?xs)) = set (take (Suc ?n) ?xs) - {?xs ! i}"
    using i in1 d by (intro set_take_swap_drop) auto
  then have "fq_actives ?f = fq_actives f - {?xs ! i}" using i a'(3) by (simp add: fq_actives_def)
  moreover have "fq_deactivate i f = Some ?f" using a'(1) by (simp add: fq_deactivate_def Let_def)
  moreover have "fq_inv ?f" using inv a' n i by (auto simp: fq_inv_def)
  moreover have "fq_all ?f = fq_all f" using in1 by (simp add: a'(3))
  ultimately show ?thesis using that[of ?f] a'(3) by simp
qed

lemma fq_activated_ok:
  assumes inv: "fq_inv f" and p: "p \<in> fq_all f" "p \<notin> fq_actives f"
  obtains f' where "fq_activated p f = Some f'" "fq_inv f'" "fq_all f' = fq_all f"
    "fq_actives f' = insert p (fq_actives f)" "fq_more f' = fq_more f"
    "fq_active f > 0 \<Longrightarrow> array_at (fq_pipes f') (fq_current f') = array_at (fq_pipes f) (fq_current f)"
proof -
  let ?xs = "items (fq_pipes f)" and ?n = "fq_active f"
  have inva: "array_inv (fq_pipes f)" using inv by (simp add: fq_inv_def)
  obtain i where i: "array_ix p (fq_pipes f) = Some i" "i < length ?xs" "?xs ! i = p"
    by (rule array_ix_member[OF inva p(1)])
  have ni: "?n \<le> i"
  proof (rule ccontr)
    assume "\<not> ?n \<le> i"
    then have "p \<in> set (take ?n ?xs)" using i by (auto simp: in_set_conv_nth)
    then show False using p(2) by (simp add: fq_actives_def)
  qed
  obtain a' where a': "array_swap i ?n (fq_pipes f) = Some a'" "array_inv a'" "items a' = list_swap i ?n ?xs"
    by (rule array_swap_ok[OF inva, of i ?n]) (use i ni in auto)
  let ?f = "f\<lparr>fq_pipes := a', fq_active := ?n + 1\<rparr>"
  have "set (take (Suc ?n) (items a')) = insert p (set (take ?n ?xs))"
    unfolding a'(3) using ni i by (simp add: set_take_Suc_swap)
  then have act: "fq_actives ?f = insert p (fq_actives f)" by (simp add: fq_actives_def)
  have all: "fq_all ?f = fq_all f" using i ni by (simp add: a'(3))
  have "fq_inv ?f" using inv a' i ni by (auto simp: fq_inv_def)
  moreover have "fq_activated p f = Some ?f" using i a' by (simp add: fq_activated_def)
  moreover have "array_at a' (fq_current f) = array_at (fq_pipes f) (fq_current f)" if "?n > 0"
    using that inv i ni a'(3) by (auto simp: fq_inv_def array_at_def elem_def nth_list_swap)
  ultimately show ?thesis using that[of ?f] act all by simp
qed

lemma fq_terminated_ok:
  assumes inv: "fq_inv f" and p: "p \<in> fq_all f"
  obtains f' where "fq_terminated p f = Some f'" "fq_inv f'" "fq_all f' = fq_all f - {p}"
    "fq_actives f' = fq_actives f - {p}" "fq_more f' = fq_more f"
proof -
  have inva: "array_inv (fq_pipes f)" using inv by (simp add: fq_inv_def)
  obtain i where i: "array_ix p (fq_pipes f) = Some i" "i < length (items (fq_pipes f))" "items (fq_pipes f) ! i = p"
    by (rule array_ix_member[OF inva p])
  obtain f1 where f1: "(if i < fq_active f then fq_deactivate i f else Some f) = Some f1" "fq_inv f1" "fq_all f1 = fq_all f"
    "fq_actives f1 = fq_actives f - {p}" "fq_more f1 = fq_more f"
  proof (cases "i < fq_active f")
    case True
    show ?thesis by (rule fq_deactivate_ok[OF inv True]) (use that True i in simp)
  next
    case False
    have "p \<notin> fq_actives f"
    proof
      assume "p \<in> fq_actives f"
      then obtain j where "j < fq_active f" "j < length (items (fq_pipes f))" "items (fq_pipes f) ! j = p"
        by (auto simp: fq_actives_def in_set_conv_nth)
      then show False using False i inva by (auto simp: array_inv_def nth_eq_iff_index_eq)
    qed
    then show ?thesis using that[of f] False inv by simp
  qed
  have inv1: "array_inv (fq_pipes f1)" and n1: "fq_active f1 \<le> length (items (fq_pipes f1))" using f1(2) by (simp_all add: fq_inv_def)
  have p1: "p \<in> fq_all f1" "p \<notin> set (take (fq_active f1) (items (fq_pipes f1)))" using p f1(3,4) by (simp_all add: fq_actives_def)
  obtain a' where a': "array_erase p (fq_pipes f1) = Some a'" "array_inv a'" "set (items a') = fq_all f1 - {p}"
    "take (fq_active f1) (items a') = take (fq_active f1) (items (fq_pipes f1))"
    by (rule array_erase_behind[OF inv1 p1])
  let ?f = "f1\<lparr>fq_pipes := a'\<rparr>"
  have "fq_active f1 \<le> length (items a')" using arg_cong[OF a'(4), of length] n1 by simp
  then have "fq_inv ?f" using f1(2) a'(2) by (auto simp: fq_inv_def)
  moreover have "fq_terminated p f = Some ?f" using i f1(1) a'(1) by (auto simp: fq_terminated_def)
  ultimately show ?thesis using that[of ?f] f1 a'(3,4) by (simp add: fq_actives_def)
qed

subsection \<open>Whose turn it is\<close>

definition fq_turns :: "addr \<Rightarrow> fq \<Rightarrow> nat" where
  "fq_turns p f = (case array_ix p (fq_pipes f) of None \<Rightarrow> 0
     | Some i \<Rightarrow> if fq_current f \<le> i then i - fq_current f else i + fq_active f - fq_current f)"

lemma fq_active_ix:
  assumes "fq_inv f" "p \<in> fq_actives f"
  obtains i where "i < fq_active f" "i < length (items (fq_pipes f))" "items (fq_pipes f) ! i = p" "array_ix p (fq_pipes f) = Some i"
proof -
  obtain i where i: "i < fq_active f" "i < length (items (fq_pipes f))" "items (fq_pipes f) ! i = p"
    using assms(2) by (auto simp: fq_actives_def in_set_conv_nth)
  then show ?thesis using that[OF i] array_ix_nth[of "fq_pipes f" i] assms(1) by (simp add: fq_inv_def)
qed

lemma fq_turns_deactivate:
  assumes inv: "fq_inv f" and p: "p \<in> fq_actives f" "p \<noteq> items (fq_pipes f) ! fq_current f"
    and f': "fq_deactivate (fq_current f) f = Some f'"
  shows "fq_turns p f' \<le> fq_turns p f"
proof -
  obtain i where i: "i < fq_active f" "i < length (items (fq_pipes f))" "items (fq_pipes f) ! i = p" "array_ix p (fq_pipes f) = Some i"
    by (rule fq_active_ix[OF inv p(1)])
  then have c: "fq_current f < fq_active f" using inv by (auto simp: fq_inv_def)
  obtain f2 where f2: "fq_deactivate (fq_current f) f = Some f2" "fq_inv f2" "fq_active f2 = fq_active f - 1"
    "items (fq_pipes f2) = list_swap (fq_current f) (fq_active f - 1) (items (fq_pipes f))"
    "fq_current f2 = (if fq_current f = fq_active f - 1 then 0 else fq_current f)"
    by (rule fq_deactivate_ok[OF inv c])
  have eq: "f2 = f'" using f2(1) f' by simp
  have ic: "i \<noteq> fq_current f" using p(2) i by auto
  let ?j = "if i = fq_active f - 1 then fq_current f else i"
  have len: "length (items (fq_pipes f2)) = length (items (fq_pipes f))" "fq_active f \<le> length (items (fq_pipes f))"
    using f2 inv by (simp_all add: fq_inv_def)
  have "items (fq_pipes f2) ! ?j = p" using f2(4) i c len ic by (auto simp: nth_list_swap)
  moreover have "?j < length (items (fq_pipes f2))" using i c len by auto
  ultimately have "array_ix p (fq_pipes f2) = Some ?j" using array_ix_nth[of "fq_pipes f2" ?j] f2(2) by (simp add: fq_inv_def)
  then show ?thesis using i c ic f2(3,5) eq by (auto simp: fq_turns_def)
qed

lemma fq_turns_next:
  assumes inv: "fq_inv f" and p: "p \<in> fq_actives f" "p \<noteq> items (fq_pipes f) ! fq_current f"
  shows "fq_turns p (f\<lparr>fq_more := b, fq_current := (fq_current f + 1) mod fq_active f\<rparr>) < fq_turns p f"
proof -
  obtain i where i: "i < fq_active f" "i < length (items (fq_pipes f))" "items (fq_pipes f) ! i = p" "array_ix p (fq_pipes f) = Some i"
    by (rule fq_active_ix[OF inv p(1)])
  then have c: "fq_current f < fq_active f" using inv by (auto simp: fq_inv_def)
  have ic: "i \<noteq> fq_current f" using p(2) i by auto
  show ?thesis
  proof (cases "fq_current f + 1 = fq_active f")
    case True
    then show ?thesis using i c ic by (auto simp: fq_turns_def)
  next
    case False
    then have "(fq_current f + 1) mod fq_active f = fq_current f + 1" using c by simp
    then show ?thesis using i c ic by (auto simp: fq_turns_def)
  qed
qed

lemma fq_turns_more [simp]: "fq_turns p (f\<lparr>fq_more := b\<rparr>) = fq_turns p f"
  by (simp add: fq_turns_def split: option.splits)

text \<open>What a round over the pipes gives, from the pipes' state before and after.\<close>

definition fq_result :: "(addr \<Rightarrow> 's world \<Rightarrow> msg list) \<Rightarrow> fq \<Rightarrow> 's world \<Rightarrow> (msg \<times> addr) option \<Rightarrow> fq \<Rightarrow> 's world \<Rightarrow> bool" where
  "fq_result avail f w r f' w' \<longleftrightarrow> fq_inv f' \<and> fq_all f' = fq_all f \<and> (case r of
     None \<Rightarrow> fq_active f' = 0 \<and> \<not> fq_more f' \<and> (\<forall>p \<in> fq_actives f. avail p w = []) \<and> (\<forall>p \<in> fq_all f. avail p w' = avail p w)
   | Some (m, q) \<Rightarrow> q \<in> fq_actives f \<and> avail q w = m # avail q w' \<and> (\<forall>p \<in> fq_all f - {q}. avail p w' = avail p w) \<and>
       q \<in> fq_actives f' \<and> fq_more f' = has_more m \<and>
       (has_more m \<longrightarrow> array_at (fq_pipes f') (fq_current f') = Some q) \<and>
       (fq_more f \<longrightarrow> array_at (fq_pipes f) (fq_current f) = Some q) \<and>
       (\<forall>p \<in> fq_actives f - {q}. avail p w \<noteq> [] \<longrightarrow> p \<in> fq_actives f' \<and>
          fq_turns p f' + (if has_more m then 0 else 1) \<le> fq_turns p f))"

lemma fq_actives_sub: "fq_actives f \<subseteq> fq_all f"
  unfolding fq_actives_def by (rule set_take_subset)

lemma fq_current_at:
  assumes "fq_inv f" "fq_active f > 0"
  obtains q where "array_at (fq_pipes f) (fq_current f) = Some q" "q = items (fq_pipes f) ! fq_current f"
    "q \<in> fq_actives f" "q \<in> fq_all f" "fq_current f < fq_active f"
proof -
  have c: "fq_current f < fq_active f" "fq_current f < length (items (fq_pipes f))" using assms by (auto simp: fq_inv_def)
  then have "items (fq_pipes f) ! fq_current f \<in> fq_actives f" by (auto simp: fq_actives_def in_set_conv_nth)
  then show ?thesis using that[OF _ refl] c fq_actives_sub[of f] by (auto simp: array_at_def)
qed

text \<open>A message fetched from the current pipe.\<close>

lemma fq_result_fetched:
  assumes inv: "fq_inv f" and act: "fq_active f > 0" and q: "array_at (fq_pipes f) (fq_current f) = Some q"
    and a: "avail q w = m # avail q w'" "\<forall>p \<in> fq_all f - {q}. avail p w' = avail p w"
  shows "fq_result avail f w (Some (m, q))
    (if \<not> has_more m then f\<lparr>fq_more := has_more m, fq_current := (fq_current f + 1) mod fq_active f\<rparr> else f\<lparr>fq_more := has_more m\<rparr>) w'"
    (is "fq_result _ _ _ _ ?f _")
proof -
  obtain q' where q': "array_at (fq_pipes f) (fq_current f) = Some q'" "q' = items (fq_pipes f) ! fq_current f"
    "q' \<in> fq_actives f" "q' \<in> fq_all f" "fq_current f < fq_active f" by (rule fq_current_at[OF inv act])
  then have qq: "q' = q" using q by simp
  have f: "fq_all ?f = fq_all f" "fq_actives ?f = fq_actives f" "fq_more ?f = has_more m" "fq_inv ?f"
    using inv act by (auto simp: fq_actives_def fq_inv_def)
  have t: "fq_turns p ?f + (if has_more m then 0 else 1) \<le> fq_turns p f" if "p \<in> fq_actives f - {q}" for p
    using fq_turns_next[OF inv, of p "has_more m"] that q' qq by (cases "has_more m") simp_all
  have c: "has_more m \<longrightarrow> array_at (fq_pipes ?f) (fq_current ?f) = Some q" using q by simp
  show ?thesis unfolding fq_result_def using f t c a q q' qq by simp
qed

text \<open>The current pipe has nothing and is passed over.\<close>

lemma fq_result_skip:
  assumes inv: "fq_inv f" and act: "fq_active f > 0" and nm: "\<not> fq_more f"
    and q: "array_at (fq_pipes f) (fq_current f) = Some q" "avail q w = []" "avail q w1 = []"
    and a: "\<forall>p \<in> fq_all f - {q}. avail p w1 = avail p w"
    and f1: "fq_deactivate (fq_current f) f = Some f1" and r: "fq_result avail f1 w1 r f' w'"
  shows "fq_result avail f w r f' w'"
proof -
  have c: "fq_current f < fq_active f" and qi: "q = items (fq_pipes f) ! fq_current f"
    using inv act q by (auto simp: fq_inv_def array_at_def elem_def split: if_splits)
  obtain f2 where f2: "fq_deactivate (fq_current f) f = Some f2" "fq_inv f2" "fq_all f2 = fq_all f"
    "fq_actives f2 = fq_actives f - {items (fq_pipes f) ! fq_current f}" "fq_more f2 = fq_more f"
    by (rule fq_deactivate_ok[OF inv c])
  have f1': "fq_inv f1" "fq_all f1 = fq_all f" "fq_actives f1 = fq_actives f - {q}" "\<not> fq_more f1"
    using f2 f1 qi nm by auto
  have all: "avail p w1 = avail p w" if "p \<in> fq_all f" for p using a q that by (cases "p = q") auto
  have act1: "\<forall>p \<in> fq_actives f1. avail p w1 = avail p w" using all fq_actives_sub[of f1] f1'(2) by blast
  show ?thesis
  proof (cases r)
    case None
    then have rn: "fq_inv f'" "fq_all f' = fq_all f1" "fq_active f' = 0" "\<not> fq_more f'" "\<forall>p \<in> fq_actives f1. avail p w1 = []"
      "\<forall>p \<in> fq_all f1. avail p w' = avail p w1" using r by (simp_all add: fq_result_def)
    have "\<forall>p \<in> fq_actives f. avail p w = []" using rn(5) act1 f1'(3) q(2) by auto
    then show ?thesis unfolding fq_result_def None using rn f1' all by simp
  next
    case (Some mp)
    obtain m p where mp: "mp = (m, p)" by (cases mp)
    have rs: "fq_inv f'" "fq_all f' = fq_all f1" "p \<in> fq_actives f1" "avail p w1 = m # avail p w'"
      "\<forall>s \<in> fq_all f1 - {p}. avail s w' = avail s w1" "p \<in> fq_actives f'" "fq_more f' = has_more m"
      "has_more m \<longrightarrow> array_at (fq_pipes f') (fq_current f') = Some p"
      "\<forall>s \<in> fq_actives f1 - {p}. avail s w1 \<noteq> [] \<longrightarrow> s \<in> fq_actives f' \<and>
          fq_turns s f' + (if has_more m then 0 else 1) \<le> fq_turns s f1"
      using r by (simp_all add: fq_result_def Some mp)
    have p: "p \<in> fq_actives f" "p \<in> fq_all f" "avail p w = m # avail p w'"
      using rs(3,4) act1 f1'(3) fq_actives_sub[of f] by auto
    have t: "s \<in> fq_actives f' \<and> fq_turns s f' + (if has_more m then 0 else 1) \<le> fq_turns s f"
      if s: "s \<in> fq_actives f - {p}" "avail s w \<noteq> []" for s
    proof -
      have sq: "s \<noteq> q" using s q(2) by auto
      then have "s \<in> fq_actives f1 - {p}" "avail s w1 \<noteq> []" using s f1'(3) act1 by auto
      then have "s \<in> fq_actives f' \<and> fq_turns s f' + (if has_more m then 0 else 1) \<le> fq_turns s f1" using rs(9) by blast
      moreover have "fq_turns s f1 \<le> fq_turns s f" by (rule fq_turns_deactivate[OF inv _ _ f1]) (use s sq qi in auto)
      ultimately show ?thesis by linarith
    qed
    have o: "\<forall>s \<in> fq_all f - {p}. avail s w' = avail s w" using rs(5) f1'(2) all by simp
    show ?thesis unfolding fq_result_def Some mp using rs(1,2,6,7,8) f1'(2) p o t nm by simp
  qed
qed

subsection \<open>For pipes that keep the laws\<close>

context inbound
begin

lemma fq_loop_ok:
  assumes "fq_inv f" "good (fq_all f) w" "fq_more f \<longrightarrow> fq_active f > 0 \<and> avail (items (fq_pipes f) ! fq_current f) w \<noteq> []"
  shows "\<exists>r f' w'. fq_loop rd f w = Some (r, f', w') \<and> good (fq_all f) w' \<and> wmem w' = wmem w \<and> fq_result avail f w r f' w'"
  using assms
proof (induction "fq_active f" arbitrary: f w)
  case 0
  then have "fq_loop rd f w = Some (None, f, w)" by (simp add: fq_loop.simps)
  then show ?case using 0 by (auto simp: fq_result_def fq_actives_def)
next
  case (Suc n)
  have act: "fq_active f > 0" using Suc.hyps(2) by simp
  obtain q where q: "array_at (fq_pipes f) (fq_current f) = Some q" "q = items (fq_pipes f) ! fq_current f"
    "q \<in> fq_actives f" "q \<in> fq_all f" "fq_current f < fq_active f" by (rule fq_current_at[OF Suc.prems(1) act])
  obtain m w1 where w1: "rd q w = Some (m, w1)" "good (fq_all f) w1" "\<forall>r \<in> fq_all f - {q}. avail r w1 = avail r w"
    "case m of None \<Rightarrow> avail q w = [] \<and> avail q w1 = [] | Some m \<Rightarrow> avail q w = m # avail q w1" "wmem w1 = wmem w"
    using rd_law[OF Suc.prems(2) q(4)] by blast
  show ?case
  proof (cases m)
    case (Some m')
    have "fq_loop rd f w = Some (Some (m', q),
        if \<not> has_more m' then f\<lparr>fq_more := has_more m', fq_current := (fq_current f + 1) mod fq_active f\<rparr> else f\<lparr>fq_more := has_more m'\<rparr>, w1)"
      using act q(1) w1(1) Some by (subst fq_loop.simps) (simp add: Let_def)
    moreover have "avail q w = m' # avail q w1" using w1(4) Some by simp
    ultimately show ?thesis using fq_result_fetched[OF Suc.prems(1) act q(1), of avail w m' w1] w1(2,3,5) by blast
  next
    case None
    have em: "avail q w = []" "avail q w1 = []" using w1(4) None by simp_all
    then have nm: "\<not> fq_more f" using Suc.prems(3) q(2) by auto
    obtain f1 where f1: "fq_deactivate (fq_current f) f = Some f1" "fq_inv f1" "fq_all f1 = fq_all f"
      "fq_actives f1 = fq_actives f - {items (fq_pipes f) ! fq_current f}" "fq_active f1 = fq_active f - 1" "fq_more f1 = fq_more f"
      by (rule fq_deactivate_ok[OF Suc.prems(1) q(5)])
    have "n = fq_active f1" "good (fq_all f1) w1" using Suc.hyps(2) f1 w1(2) by simp_all
    from Suc.hyps(1)[OF this(1) f1(2) this(2)] nm f1(6)
    obtain r f' w' where r: "fq_loop rd f1 w1 = Some (r, f', w')" "good (fq_all f1) w'" "fq_result avail f1 w1 r f' w'" "wmem w' = wmem w1" by auto
    have "fq_loop rd f w = Some (r, f', w')"
      using act q(1) w1(1) None nm f1(1) r(1) by (subst fq_loop.simps) simp
    then show ?thesis using fq_result_skip[OF Suc.prems(1) act nm q(1) em w1(3) f1(1) r(3)] r(2,4) w1(5) f1(3) by auto
  qed
qed

lemma fq_has_in_ok:
  assumes "fq_inv f" "good (fq_all f) w"
  shows "\<exists>b f' w'. fq_has_in chk f w = Some (b, f', w') \<and> fq_inv f' \<and> fq_all f' = fq_all f \<and> good (fq_all f) w' \<and> wmem w' = wmem w \<and>
    (\<forall>p \<in> fq_all f. avail p w' = avail p w) \<and> (b \<longleftrightarrow> fq_more f \<or> (\<exists>p \<in> fq_actives f. avail p w \<noteq> []))"
  using assms
proof (induction "fq_active f" arbitrary: f w)
  case 0
  then show ?case by (subst fq_has_in.simps) (auto simp: fq_actives_def)
next
  case (Suc n)
  have act: "fq_active f > 0" using Suc.hyps(2) by simp
  obtain q where q: "array_at (fq_pipes f) (fq_current f) = Some q" "q = items (fq_pipes f) ! fq_current f"
    "q \<in> fq_actives f" "q \<in> fq_all f" "fq_current f < fq_active f" by (rule fq_current_at[OF Suc.prems(1) act])
  show ?case
  proof (cases "fq_more f")
    case True
    then show ?thesis using Suc.prems by (subst fq_has_in.simps) auto
  next
    case nm: False
    obtain b w1 where w1: "chk q w = Some (b, w1)" "good (fq_all f) w1" "\<forall>r \<in> fq_all f. avail r w1 = avail r w"
      "b = (avail q w \<noteq> [])" "wmem w1 = wmem w"
      using chk_law[OF Suc.prems(2) q(4)] by blast
    show ?thesis
    proof (cases b)
      case True
      then have "fq_has_in chk f w = Some (True, f, w1)" using nm act q(1) w1(1) by (subst fq_has_in.simps) simp
      then show ?thesis using Suc.prems w1 q(3) True by auto
    next
      case False
      obtain f1 where f1: "fq_deactivate (fq_current f) f = Some f1" "fq_inv f1" "fq_all f1 = fq_all f"
        "fq_actives f1 = fq_actives f - {items (fq_pipes f) ! fq_current f}" "fq_active f1 = fq_active f - 1" "fq_more f1 = fq_more f"
        by (rule fq_deactivate_ok[OF Suc.prems(1) q(5)])
      have "n = fq_active f1" "good (fq_all f1) w1" using Suc.hyps(2) f1 w1(2) by simp_all
      from Suc.hyps(1)[OF this(1) f1(2) this(2)]
      obtain b' f' w' where r: "fq_has_in chk f1 w1 = Some (b', f', w')" "fq_inv f'" "fq_all f' = fq_all f1" "good (fq_all f1) w'"
        "\<forall>p \<in> fq_all f1. avail p w' = avail p w1" "b' \<longleftrightarrow> fq_more f1 \<or> (\<exists>p \<in> fq_actives f1. avail p w1 \<noteq> [])" "wmem w' = wmem w1" by auto
      have "fq_has_in chk f w = Some (b', f', w')"
        using act q(1) w1(1) nm f1(1) r(1) False by (subst fq_has_in.simps) simp
      moreover have "\<forall>p \<in> fq_actives f. avail p w1 = avail p w" using w1(3) fq_actives_sub[of f] by blast
      then have "(\<exists>p \<in> fq_actives f1. avail p w1 \<noteq> []) \<longleftrightarrow> (\<exists>p \<in> fq_actives f. avail p w \<noteq> [])"
        using f1(4) q(2) w1(4) False by auto
      ultimately show ?thesis using r w1(3,5) f1(3,6) by simp
    qed
  qed
qed

end

subsection \<open>The properties\<close>



text \<open>C19: When a pipe is deleted while a message of several parts is being received from another
  one, \<^verbatim>\<open>terminated\<close> can lose the place: if the pipe of the message is the last active one and the
  deleted one is not the first, the next part is asked from the first pipe, and \<^verbatim>\<open>more\<close> is still
  set. The parts of two messages are then joined, or the assertion in \<^verbatim>\<open>recvpipe\<close> fails.\<close>

theorem fq_terminated_loses_place:
  assumes inv: "fq_inv f" and c: "fq_current f = fq_active f - 1" "0 < i" "i < fq_current f"
    and p: "p = items (fq_pipes f) ! i" and q: "q = items (fq_pipes f) ! fq_current f"
  shows "\<exists>f'. fq_terminated p f = Some f' \<and> fq_more f' = fq_more f \<and> q \<in> fq_actives f' \<and>
    (\<exists>r. array_at (fq_pipes f') (fq_current f') = Some r \<and> r = items (fq_pipes f) ! 0 \<and> r \<noteq> q)"
proof -
  let ?xs = "items (fq_pipes f)" and ?n = "fq_active f - 1"
  have len: "fq_active f \<le> length ?xs" and inva: "array_inv (fq_pipes f)" and d: "distinct ?xs"
    using inv by (simp_all add: fq_inv_def array_inv_def)
  have ia: "i < fq_active f" using c by simp
  have ix: "array_ix p (fq_pipes f) = Some i" using array_ix_nth[OF inva, of i] ia len p by simp
  have pm: "p \<in> fq_all f" using ia len p by simp
  obtain f' where f': "fq_terminated p f = Some f'" "fq_inv f'" "fq_actives f' = fq_actives f - {p}" "fq_more f' = fq_more f"
    by (rule fq_terminated_ok[OF inv pm])
  obtain f1 where f1: "fq_deactivate i f = Some f1" "items (fq_pipes f1) = list_swap i ?n ?xs" "fq_current f1 = 0" "fq_inv f1"
    by (rule fq_deactivate_ok[OF inv ia]) (use c in simp)
  obtain a where a: "array_erase p (fq_pipes f1) = Some a" "f' = f1\<lparr>fq_pipes := a\<rparr>"
    using f'(1) ix ia f1(1) by (auto simp: fq_terminated_def run_simps)
  have inv1: "array_inv (fq_pipes f1)" using f1(4) by (simp add: fq_inv_def)
  have "p \<in> set (items (fq_pipes f1))" using f1(2) pm ia len by simp
  from array_erase_ok[OF inv1 this] obtain k where k: "array_ix p (fq_pipes f1) = Some k"
    "items a = butlast ((items (fq_pipes f1))[k := last (items (fq_pipes f1))])" using a(1) by (metis option.inject)
  have n0: "0 < length ?xs" "?n < length ?xs" using ia len by auto
  have nth: "items (fq_pipes f1) ! ?n = p" "items (fq_pipes f1) ! 0 = ?xs ! 0" "length (items (fq_pipes f1)) = length ?xs"
    using f1(2) ia len c p n0 by (auto simp: nth_list_swap)
  then have "k = ?n" using array_ix_nth[OF inv1, of ?n] k(1) ia len by simp
  then have "items a ! 0 = ?xs ! 0" "length (items a) > 0" using k(2) nth c ia len by (auto simp: nth_butlast)
  then have at: "array_at (fq_pipes f') (fq_current f') = Some (?xs ! 0)" using a(2) f1(3) by (simp add: array_at_def elem_def)
  have q2: "q \<noteq> p" "q \<noteq> ?xs ! 0" using d c ia len p q n0 by (simp_all add: nth_eq_iff_index_eq)
  have "q \<in> fq_actives f" unfolding fq_actives_def in_set_conv_nth using q c ia len by (intro exI[of _ ?n]) simp
  with f'(1,3,4) at q2 show ?thesis by auto
qed

theorem fq_terminated_loses_place_witness:
  "\<exists>f f'. fq_attach 1 fq_new \<bind> fq_attach 2 \<bind> fq_attach 3 = Some f \<and>
    fq_terminated 2 (f\<lparr>fq_current := 2, fq_more := True\<rparr>) = Some f' \<and> 3 \<in> fq_actives f' \<and> fq_more f' \<and>
    array_at (fq_pipes f') (fq_current f') = Some 1"
proof -
  let ?a = "\<lparr>items = [1, 2, 3], array_index = (\<lambda>_. -1)(1 := 0, 2 := 1, 3 := 2)\<rparr>"
  let ?f = "\<lparr>fq_pipes = ?a, fq_active = 3, fq_current = 0, fq_more = False\<rparr>"
  let ?g = "?f\<lparr>fq_current := 2, fq_more := True\<rparr>"
  have "fq_attach 1 fq_new \<bind> fq_attach 2 \<bind> fq_attach 3 = Some ?f"
    by (simp add: fq_attach_def fq_new_def array_new_def array_push_back_def array_swap_def array_size_def set_array_index_def
        Let_def elem_def list_swap_def fun_eq_iff)
  moreover have "fq_inv ?g" by (simp add: fq_inv_def array_inv_def less_Suc_eq numeral_3_eq_3 All_less_Suc)
  ultimately show ?thesis using fq_terminated_loses_place[of ?g 1 2 3] by auto
qed

end
