(* ===== verification/Lb.thy ===== *)
theory Lb
  imports Array Pipe_Ends
begin

text \<open>
  \<^verbatim>\<open>lb_t\<close> of src/lb.cpp: load balancing over the outbound pipes of a socket. The pipes that may have
  room stand at the front of the array, and \<open>lb_current\<close> is the one that gets the next message.
  The operations take the pipe's \<^verbatim>\<open>write\<close>, \<^verbatim>\<open>check_write\<close> and \<^verbatim>\<open>flush\<close> as arguments.
\<close>

unbundle bit_operations_syntax

record lb =
  lb_pipes :: array
  lb_active :: nat
  lb_current :: nat
  lb_more :: bool
  lb_dropping :: bool

definition lb_new :: lb where
  "lb_new = \<lparr>lb_pipes = array_new, lb_active = 0, lb_current = 0, lb_more = False, lb_dropping = False\<rparr>"

definition lb_destroy :: "lb \<Rightarrow> unit option" where
  "lb_destroy l = zmq_assert (array_empty (lb_pipes l))"

definition lb_activated :: "addr \<Rightarrow> lb \<Rightarrow> lb option" where
  "lb_activated p l = do {
     i \<leftarrow> array_ix p (lb_pipes l);
     a \<leftarrow> array_swap i (lb_active l) (lb_pipes l);
     Some (l\<lparr>lb_pipes := a, lb_active := lb_active l + 1\<rparr>) }"

definition lb_attach :: "addr \<Rightarrow> lb \<Rightarrow> lb option" where
  "lb_attach p l = lb_activated p (l\<lparr>lb_pipes := array_push_back p (lb_pipes l)\<rparr>)"

text \<open>Taking the pipe at an index out of the active ones.\<close>

definition lb_deactivate :: "nat \<Rightarrow> lb \<Rightarrow> lb option" where
  "lb_deactivate i l = do {
     let n = lb_active l - 1;
     a \<leftarrow> array_swap i n (lb_pipes l);
     Some (l\<lparr>lb_pipes := a, lb_active := n, lb_current := (if lb_current l = n then 0 else lb_current l)\<rparr>) }"

definition lb_terminated :: "addr \<Rightarrow> lb \<Rightarrow> lb option" where
  "lb_terminated p l = do {
     i \<leftarrow> array_ix p (lb_pipes l);
     let l = (if i = lb_current l \<and> lb_more l then l\<lparr>lb_dropping := True\<rparr> else l);
     l \<leftarrow> (if i < lb_active l then lb_deactivate i l else Some l);
     a \<leftarrow> array_erase p (lb_pipes l);
     Some (l\<lparr>lb_pipes := a\<rparr>) }"

text \<open>Passing over the current pipe in \<^verbatim>\<open>send\<close>.\<close>

definition lb_skip :: "lb \<Rightarrow> lb option" where
  "lb_skip l = do {
     let n = lb_active l - 1;
     if lb_current l < n then do {
       a \<leftarrow> array_swap (lb_current l) n (lb_pipes l);
       Some (l\<lparr>lb_pipes := a, lb_active := n\<rparr>) }
     else Some (l\<lparr>lb_active := n, lb_current := 0\<rparr>) }"

lemma lb_skip_active: "lb_skip l = Some l' \<Longrightarrow> lb_active l' = lb_active l - 1"
  by (auto simp: lb_skip_def run_simps Let_def split: if_splits)

lemma lb_deactivate_active: "lb_deactivate i l = Some l' \<Longrightarrow> lb_active l' = lb_active l - 1"
  by (auto simp: lb_deactivate_def run_simps Let_def)

function lb_loop :: "(addr \<Rightarrow> msg \<Rightarrow> 's world \<Rightarrow> (bool \<times> 's world) option) \<Rightarrow> lb \<Rightarrow> msg \<Rightarrow> 's world \<Rightarrow>
    (lb \<times> 's world) option" where
  "lb_loop wr l m w =
     (if lb_active l > 0 then do {
        p \<leftarrow> array_at (lb_pipes l) (lb_current l);
        (ok, w) \<leftarrow> wr p m w;
        if ok then Some (l, w)
        else do {
          zmq_assert (\<not> lb_more l);
          l' \<leftarrow> lb_skip l;
          lb_loop wr l' m w } }
      else Some (l, w))"
  by pat_completeness auto
termination
  by (relation "measure (\<lambda>(_, l, _). lb_active l)") (auto dest: lb_skip_active)

declare lb_loop.simps [simp del]

text \<open>The message is given back re-initialised when it was taken.\<close>

definition lb_send :: "(addr \<Rightarrow> msg \<Rightarrow> 's world \<Rightarrow> (bool \<times> 's world) option) \<Rightarrow> (addr \<Rightarrow> 's world \<Rightarrow> 's world option) \<Rightarrow>
    lb \<Rightarrow> msg \<Rightarrow> 's world \<Rightarrow> ((errno + unit) \<times> msg \<times> lb \<times> 's world) option" where
  "lb_send wr fl l m w =
     (if lb_dropping l then do {
        let l = l\<lparr>lb_more := has_more m, lb_dropping := has_more m\<rparr>;
        (m, w) \<leftarrow> close_msg m w;
        Some (Inr (), msg_init m, l, w) }
      else do {
        (l, w) \<leftarrow> lb_loop wr l m w;
        if lb_active l = 0 then Some (Inl EAGAIN, m, l, w)
        else do {
          let l = l\<lparr>lb_more := has_more m\<rparr>;
          (l, w) \<leftarrow> (if \<not> lb_more l then do {
               p \<leftarrow> array_at (lb_pipes l) (lb_current l);
               w \<leftarrow> fl p w;
               Some (l\<lparr>lb_current := (lb_current l + 1) mod lb_active l\<rparr>, w) }
             else Some (l, w));
          Some (Inr (), msg_init m, l, w) } })"

function lb_has_out :: "(addr \<Rightarrow> 's world \<Rightarrow> (bool \<times> 's world) option) \<Rightarrow> lb \<Rightarrow> 's world \<Rightarrow>
    (bool \<times> lb \<times> 's world) option" where
  "lb_has_out cw l w =
     (if lb_more l then Some (True, l, w)
      else if lb_active l > 0 then do {
        p \<leftarrow> array_at (lb_pipes l) (lb_current l);
        (ok, w) \<leftarrow> cw p w;
        if ok then Some (True, l, w)
        else do { l' \<leftarrow> lb_deactivate (lb_current l) l; lb_has_out cw l' w } }
      else Some (False, l, w))"
  by pat_completeness auto
termination
  by (relation "measure (\<lambda>(_, l, _). lb_active l)") (auto dest: lb_deactivate_active)

declare lb_has_out.simps [simp del]

subsection \<open>The invariant\<close>

definition lb_inv :: "lb \<Rightarrow> bool" where
  "lb_inv l \<longleftrightarrow> array_inv (lb_pipes l) \<and> lb_active l \<le> length (items (lb_pipes l)) \<and>
     (lb_current l < lb_active l \<or> lb_current l = 0) \<and> (lb_dropping l \<longrightarrow> lb_more l)"

definition lb_actives :: "lb \<Rightarrow> addr set" where
  "lb_actives l = set (take (lb_active l) (items (lb_pipes l)))"

abbreviation lb_all :: "lb \<Rightarrow> addr set" where
  "lb_all l \<equiv> set (items (lb_pipes l))"

lemma lb_new_inv [simp]: "lb_inv lb_new" "lb_all lb_new = {}" "lb_actives lb_new = {}" "\<not> lb_more lb_new" "\<not> lb_dropping lb_new"
  by (simp_all add: lb_inv_def lb_new_def lb_actives_def)

lemma lb_actives_sub: "lb_actives l \<subseteq> lb_all l"
  unfolding lb_actives_def by (rule set_take_subset)

lemma lb_activated_ok:
  assumes inv: "lb_inv l" and p: "p \<in> lb_all l" "p \<notin> lb_actives l"
  obtains l' where "lb_activated p l = Some l'" "lb_inv l'" "lb_all l' = lb_all l"
    "lb_actives l' = insert p (lb_actives l)" "lb_more l' = lb_more l" "lb_dropping l' = lb_dropping l"
proof -
  have inva: "array_inv (lb_pipes l)" using inv by (simp add: lb_inv_def)
  obtain i where i: "array_ix p (lb_pipes l) = Some i" "i < length (items (lb_pipes l))" "items (lb_pipes l) ! i = p"
    by (rule array_ix_member[OF inva p(1)])
  have ni: "lb_active l \<le> i" using array_ix_front(3)[OF inva p(1) i(1), of "lb_active l"] p(2) by (simp add: lb_actives_def)
  obtain a where a: "array_swap i (lb_active l) (lb_pipes l) = Some a" "array_inv a" "items a = list_swap i (lb_active l) (items (lb_pipes l))"
    "set (items a) = lb_all l" "set (take (Suc (lb_active l)) (items a)) = insert (items (lb_pipes l) ! i) (set (take (lb_active l) (items (lb_pipes l))))"
    by (rule array_move_in[OF inva ni i(2)])
  let ?l = "l\<lparr>lb_pipes := a, lb_active := lb_active l + 1\<rparr>"
  have "lb_inv ?l" using inv a i ni by (auto simp: lb_inv_def)
  moreover have "lb_activated p l = Some ?l" using i a by (simp add: lb_activated_def)
  moreover have "lb_actives ?l = insert p (lb_actives l)" using a(5) i(3) by (simp add: lb_actives_def)
  ultimately show ?thesis using that[of ?l] a(4) by simp
qed

lemma lb_attach_ok:
  assumes inv: "lb_inv l" and p: "p \<noteq> 0" "p \<notin> lb_all l"
  obtains l' where "lb_attach p l = Some l'" "lb_inv l'" "lb_all l' = insert p (lb_all l)"
    "lb_actives l' = insert p (lb_actives l)" "lb_more l' = lb_more l" "lb_dropping l' = lb_dropping l"
proof -
  let ?l = "l\<lparr>lb_pipes := array_push_back p (lb_pipes l)\<rparr>"
  have inv1: "lb_inv ?l" using inv p by (auto simp: lb_inv_def intro: array_push_back_inv)
  have act: "lb_actives ?l = lb_actives l" using inv by (simp add: lb_actives_def lb_inv_def)
  then have "p \<notin> lb_actives ?l" using p(2) lb_actives_sub[of l] by auto
  from lb_activated_ok[OF inv1 _ this] obtain l' where "lb_activated p ?l = Some l'" "lb_inv l'" "lb_all l' = lb_all ?l"
    "lb_actives l' = insert p (lb_actives ?l)" "lb_more l' = lb_more ?l" "lb_dropping l' = lb_dropping ?l" by auto
  then show ?thesis using that[of l'] act by (simp add: lb_attach_def)
qed

lemma lb_deactivate_ok:
  assumes inv: "lb_inv l" and i: "i < lb_active l"
  obtains l' where "lb_deactivate i l = Some l'" "lb_inv l'" "lb_all l' = lb_all l"
    "lb_actives l' = lb_actives l - {items (lb_pipes l) ! i}" "lb_active l' = lb_active l - 1"
    "lb_more l' = lb_more l" "lb_dropping l' = lb_dropping l"
proof -
  have inva: "array_inv (lb_pipes l)" and n: "lb_active l \<le> length (items (lb_pipes l))" using inv by (simp_all add: lb_inv_def)
  obtain a where a: "array_swap i (lb_active l - 1) (lb_pipes l) = Some a" "array_inv a"
    "items a = list_swap i (lb_active l - 1) (items (lb_pipes l))" "set (items a) = lb_all l"
    "set (take (lb_active l - 1) (items a)) = set (take (lb_active l) (items (lb_pipes l))) - {items (lb_pipes l) ! i}"
    by (rule array_move_out[OF inva i n])
  let ?l = "l\<lparr>lb_pipes := a, lb_active := lb_active l - 1, lb_current := (if lb_current l = lb_active l - 1 then 0 else lb_current l)\<rparr>"
  have "lb_deactivate i l = Some ?l" using a(1) by (simp add: lb_deactivate_def Let_def)
  moreover have "lb_inv ?l" using inv a(2,3) n i by (auto simp: lb_inv_def)
  moreover have "lb_actives ?l = lb_actives l - {items (lb_pipes l) ! i}" using a(5) by (simp add: lb_actives_def)
  moreover have "lb_all ?l = lb_all l" using a(4) by simp
  ultimately show ?thesis using that[of ?l] by simp
qed

lemma lb_skip_ok:
  assumes inv: "lb_inv l" and i: "lb_active l > 0"
  obtains l' where "lb_skip l = Some l'" "lb_inv l'" "lb_all l' = lb_all l"
    "lb_actives l' = lb_actives l - {items (lb_pipes l) ! lb_current l}" "lb_active l' = lb_active l - 1"
    "lb_more l' = lb_more l" "lb_dropping l' = lb_dropping l"
proof (cases "lb_current l < lb_active l - 1")
  case True
  then obtain l' where l': "lb_deactivate (lb_current l) l = Some l'" "lb_inv l'" "lb_all l' = lb_all l"
    "lb_actives l' = lb_actives l - {items (lb_pipes l) ! lb_current l}" "lb_active l' = lb_active l - 1"
    "lb_more l' = lb_more l" "lb_dropping l' = lb_dropping l"
    using lb_deactivate_ok[OF inv, of "lb_current l"] by (metis less_imp_diff_less less_diff_conv add_lessD1)
  have "lb_skip l = lb_deactivate (lb_current l) l" using True by (simp add: lb_skip_def lb_deactivate_def Let_def)
  then show ?thesis using that l' by simp
next
  case False
  then have c: "lb_current l = lb_active l - 1" using inv i by (auto simp: lb_inv_def)
  have inva: "array_inv (lb_pipes l)" and n: "lb_active l \<le> length (items (lb_pipes l))" using inv by (simp_all add: lb_inv_def)
  let ?l = "l\<lparr>lb_active := lb_active l - 1, lb_current := 0\<rparr>"
  have "set (take (lb_active l - 1) (items (lb_pipes l))) = lb_actives l - {items (lb_pipes l) ! (lb_active l - 1)}"
    using set_take_swap_drop[of "lb_active l - 1" "lb_active l - 1" "items (lb_pipes l)"] inva n i
    by (simp add: array_inv_def lb_actives_def)
  then have "lb_actives ?l = lb_actives l - {items (lb_pipes l) ! lb_current l}" using c by (simp add: lb_actives_def)
  moreover have "lb_inv ?l" using inv by (auto simp: lb_inv_def)
  moreover have "lb_skip l = Some ?l" using False by (simp add: lb_skip_def Let_def)
  ultimately show ?thesis using that[of ?l] by simp
qed

lemma lb_terminated_ok:
  assumes inv: "lb_inv l" and p: "p \<in> lb_all l"
  obtains l' where "lb_terminated p l = Some l'" "lb_inv l'" "lb_all l' = lb_all l - {p}"
    "lb_actives l' = lb_actives l - {p}" "lb_more l' = lb_more l"
    "lb_dropping l' = (lb_dropping l \<or> lb_more l \<and> array_at (lb_pipes l) (lb_current l) = Some p)"
proof -
  have inva: "array_inv (lb_pipes l)" using inv by (simp add: lb_inv_def)
  obtain i where i: "array_ix p (lb_pipes l) = Some i" "i < length (items (lb_pipes l))" "items (lb_pipes l) ! i = p"
    by (rule array_ix_member[OF inva p])
  have cur: "i = lb_current l \<longleftrightarrow> array_at (lb_pipes l) (lb_current l) = Some p"
    using inva i by (auto simp: array_at_def elem_def array_inv_def nth_eq_iff_index_eq)
  define l0 where "l0 = (if i = lb_current l \<and> lb_more l then l\<lparr>lb_dropping := True\<rparr> else l)"
  have l0: "lb_inv l0" "lb_pipes l0 = lb_pipes l" "lb_active l0 = lb_active l" "lb_more l0 = lb_more l"
    "lb_dropping l0 = (lb_dropping l \<or> lb_more l \<and> array_at (lb_pipes l) (lb_current l) = Some p)"
    using inv cur by (auto simp: l0_def lb_inv_def)
  have act0: "lb_actives l0 = lb_actives l" using l0(2,3) by (simp add: lb_actives_def)
  obtain l1 where l1: "(if i < lb_active l0 then lb_deactivate i l0 else Some l0) = Some l1" "lb_inv l1" "lb_all l1 = lb_all l"
    "lb_actives l1 = lb_actives l - {p}" "lb_more l1 = lb_more l0" "lb_dropping l1 = lb_dropping l0"
  proof (cases "i < lb_active l0")
    case True
    show ?thesis by (rule lb_deactivate_ok[OF l0(1) True]) (use that True i l0(2) act0 in simp)
  next
    case False
    then have "p \<notin> lb_actives l" using array_ix_front(3)[OF inva p i(1), of "lb_active l"] l0(3) by (simp add: lb_actives_def)
    then show ?thesis using that[of l0] False l0(1,2) act0 by simp
  qed
  have inv1: "array_inv (lb_pipes l1)" and n1: "lb_active l1 \<le> length (items (lb_pipes l1))" using l1(2) by (simp_all add: lb_inv_def)
  have p1: "p \<in> lb_all l1" "p \<notin> set (take (lb_active l1) (items (lb_pipes l1)))" using p l1(3,4) by (simp_all add: lb_actives_def)
  obtain a where a: "array_erase p (lb_pipes l1) = Some a" "array_inv a" "set (items a) = lb_all l1 - {p}"
    "take (lb_active l1) (items a) = take (lb_active l1) (items (lb_pipes l1))"
    by (rule array_erase_behind[OF inv1 p1])
  let ?l = "l1\<lparr>lb_pipes := a\<rparr>"
  have "lb_active l1 \<le> length (items a)" using arg_cong[OF a(4), of length] n1 by simp
  then have "lb_inv ?l" using l1(2) a(2) by (auto simp: lb_inv_def)
  moreover have "lb_terminated p l = Some ?l"
    using i(1) l1(1) a(1) unfolding lb_terminated_def by (simp add: l0_def[symmetric])
  moreover have "lb_actives ?l = lb_actives l - {p}" using a(4) l1(4) by (simp add: lb_actives_def)
  ultimately show ?thesis using that[of ?l] l1(3,5,6) l0(4,5) a(3) by simp
qed

lemma lb_current_at:
  assumes "lb_inv l" "lb_active l > 0"
  obtains q where "array_at (lb_pipes l) (lb_current l) = Some q" "q = items (lb_pipes l) ! lb_current l"
    "q \<in> lb_actives l" "q \<in> lb_all l" "lb_current l < lb_active l"
proof -
  have c: "lb_current l < lb_active l" "lb_current l < length (items (lb_pipes l))" using assms by (auto simp: lb_inv_def)
  then have "items (lb_pipes l) ! lb_current l \<in> lb_actives l"
    unfolding lb_actives_def in_set_conv_nth by (intro exI[of _ "lb_current l"]) simp
  then show ?thesis using that[OF _ refl] c lb_actives_sub[of l] by (auto simp: array_at_def)
qed

subsection \<open>For pipes that keep the laws\<close>

text \<open>The round over the pipes: either none of the active ones has room, or one has taken the message.\<close>

definition lb_taken :: "(addr \<Rightarrow> 's world \<Rightarrow> bool) \<Rightarrow> (addr \<Rightarrow> 's world \<Rightarrow> msg list) \<Rightarrow> lb \<Rightarrow> msg \<Rightarrow> 's world \<Rightarrow>
    lb \<Rightarrow> 's world \<Rightarrow> addr \<Rightarrow> bool" where
  "lb_taken room sent l m w l' w' q \<longleftrightarrow> lb_active l' > 0 \<and> array_at (lb_pipes l') (lb_current l') = Some q \<and>
     q \<in> lb_actives l \<and> q \<in> lb_actives l' \<and> room q w \<and> sent q w' = sent q w @ [m] \<and>
     (\<forall>p \<in> lb_all l - {q}. sent p w' = sent p w) \<and> (has_more m \<longrightarrow> room q w') \<and> (lb_more l \<longrightarrow> l' = l)"

definition lb_full :: "(addr \<Rightarrow> 's world \<Rightarrow> bool) \<Rightarrow> (addr \<Rightarrow> 's world \<Rightarrow> msg list) \<Rightarrow> lb \<Rightarrow> 's world \<Rightarrow> lb \<Rightarrow> 's world \<Rightarrow> bool" where
  "lb_full room sent l w l' w' \<longleftrightarrow> lb_active l' = 0 \<and> \<not> lb_more l \<and> (\<forall>p \<in> lb_actives l. \<not> room p w) \<and>
     (\<forall>p \<in> lb_all l. sent p w' = sent p w)"

context outbound
begin

lemma lb_loop_ok:
  assumes "lb_inv l" "good (lb_all l) w" "msg_check m"
    "lb_more l \<longrightarrow> lb_active l > 0 \<and> room (items (lb_pipes l) ! lb_current l) w"
  shows "\<exists>l' w'. lb_loop wr l m w = Some (l', w') \<and> lb_inv l' \<and> lb_all l' = lb_all l \<and> good (lb_all l) w' \<and>
    lb_more l' = lb_more l \<and> lb_dropping l' = lb_dropping l \<and> wmem w' = wmem w \<and>
    (lb_full room sent l w l' w' \<or> (\<exists>q. lb_taken room sent l m w l' w' q))"
  using assms
proof (induction "lb_active l" arbitrary: l w)
  case 0
  then have "lb_loop wr l m w = Some (l, w)" by (simp add: lb_loop.simps)
  then show ?case using 0 by (simp add: lb_full_def lb_actives_def)
next
  case (Suc n)
  have act: "lb_active l > 0" using Suc.hyps(2) by simp
  obtain q where q: "array_at (lb_pipes l) (lb_current l) = Some q" "q = items (lb_pipes l) ! lb_current l"
    "q \<in> lb_actives l" "q \<in> lb_all l" "lb_current l < lb_active l" by (rule lb_current_at[OF Suc.prems(1) act])
  obtain b w1 where w1: "wr q m w = Some (b, w1)" "good (lb_all l) w1" "b = room q w"
    "\<forall>r \<in> lb_all l - {q}. room r w1 = room r w \<and> sent r w1 = sent r w"
    "sent q w1 = (if b then sent q w @ [m] else sent q w)" "b \<and> has_more m \<or> \<not> b \<longrightarrow> room q w1 = b" "wmem w1 = wmem w"
    using wr_law[OF Suc.prems(2) q(4) Suc.prems(3)] by blast
  show ?case
  proof (cases b)
    case True
    have "lb_loop wr l m w = Some (l, w1)" using act q(1) w1(1) True by (subst lb_loop.simps) simp
    moreover have "lb_taken room sent l m w l w1 q" using act q w1(3-6) True by (simp add: lb_taken_def)
    ultimately show ?thesis using Suc.prems(1) w1(2,7) by blast
  next
    case False
    then have nm: "\<not> lb_more l" and nr: "\<not> room q w" using Suc.prems(4) q(2) w1(3) by auto
    obtain l1 where l1: "lb_skip l = Some l1" "lb_inv l1" "lb_all l1 = lb_all l"
      "lb_actives l1 = lb_actives l - {items (lb_pipes l) ! lb_current l}" "lb_active l1 = lb_active l - 1"
      "lb_more l1 = lb_more l" "lb_dropping l1 = lb_dropping l"
      by (rule lb_skip_ok[OF Suc.prems(1) act])
    have a1: "lb_actives l1 = lb_actives l - {q}" using l1(4) q(2) by simp
    have same: "\<forall>p \<in> lb_all l. sent p w1 = sent p w" "\<forall>p \<in> lb_actives l1. room p w1 = room p w"
      using w1(4,5) False a1 lb_actives_sub[of l] by auto
    have "n = lb_active l1" "good (lb_all l1) w1" using Suc.hyps(2) l1 w1(2) by simp_all
    from Suc.hyps(1)[OF this(1) l1(2) this(2) Suc.prems(3)] nm l1(6)
    obtain l' w' where r: "lb_loop wr l1 m w1 = Some (l', w')" "lb_inv l'" "lb_all l' = lb_all l1" "good (lb_all l1) w'"
      "lb_more l' = lb_more l1" "lb_dropping l' = lb_dropping l1" "wmem w' = wmem w1"
      "lb_full room sent l1 w1 l' w' \<or> (\<exists>q. lb_taken room sent l1 m w1 l' w' q)" by auto
    have "lb_loop wr l m w = Some (l', w')" using act q(1) w1(1) False nm l1(1) r(1) by (subst lb_loop.simps) simp
    moreover have "lb_full room sent l w l' w'" if "lb_full room sent l1 w1 l' w'"
      using that same a1 nm nr l1(3) unfolding lb_full_def by auto
    moreover have "lb_taken room sent l m w l' w' p" if "lb_taken room sent l1 m w1 l' w' p" for p
    proof -
      have "p \<in> lb_actives l1" using that by (simp add: lb_taken_def)
      then have "p \<in> lb_all l" "p \<in> lb_actives l" "room p w1 = room p w" using a1 same lb_actives_sub[of l] by auto
      then show ?thesis using that same(1) nm l1(3) unfolding lb_taken_def by simp
    qed
    ultimately show ?thesis using r(2-8) l1(3,6,7) w1(7) by auto
  qed
qed

lemma lb_has_out_ok:
  assumes "lb_inv l" "good (lb_all l) w"
  shows "\<exists>b l' w'. lb_has_out cw l w = Some (b, l', w') \<and> lb_inv l' \<and> lb_all l' = lb_all l \<and> good (lb_all l) w' \<and>
    (\<forall>p \<in> lb_all l. sent p w' = sent p w \<and> room p w' = room p w) \<and> (b \<longleftrightarrow> lb_more l \<or> (\<exists>p \<in> lb_actives l. room p w))"
  using assms
proof (induction "lb_active l" arbitrary: l w)
  case 0
  then show ?case by (subst lb_has_out.simps) (auto simp: lb_actives_def)
next
  case (Suc n)
  have act: "lb_active l > 0" using Suc.hyps(2) by simp
  obtain q where q: "array_at (lb_pipes l) (lb_current l) = Some q" "q = items (lb_pipes l) ! lb_current l"
    "q \<in> lb_actives l" "q \<in> lb_all l" "lb_current l < lb_active l" by (rule lb_current_at[OF Suc.prems(1) act])
  show ?case
  proof (cases "lb_more l")
    case True
    then show ?thesis using Suc.prems by (subst lb_has_out.simps) auto
  next
    case nm: False
    obtain b w1 where w1: "cw q w = Some (b, w1)" "good (lb_all l) w1" "b = room q w"
      "\<forall>r \<in> lb_all l. room r w1 = room r w \<and> sent r w1 = sent r w"
      using cw_law[OF Suc.prems(2) q(4)] by blast
    show ?thesis
    proof (cases b)
      case True
      then have "lb_has_out cw l w = Some (True, l, w1)" using nm act q(1) w1(1) by (subst lb_has_out.simps) simp
      then show ?thesis using Suc.prems w1 q(3) True by auto
    next
      case False
      obtain l1 where l1: "lb_deactivate (lb_current l) l = Some l1" "lb_inv l1" "lb_all l1 = lb_all l"
        "lb_actives l1 = lb_actives l - {items (lb_pipes l) ! lb_current l}" "lb_active l1 = lb_active l - 1" "lb_more l1 = lb_more l"
        by (rule lb_deactivate_ok[OF Suc.prems(1) q(5)])
      have "n = lb_active l1" "good (lb_all l1) w1" using Suc.hyps(2) l1 w1(2) by simp_all
      from Suc.hyps(1)[OF this(1) l1(2) this(2)]
      obtain b' l' w' where r: "lb_has_out cw l1 w1 = Some (b', l', w')" "lb_inv l'" "lb_all l' = lb_all l1" "good (lb_all l1) w'"
        "\<forall>p \<in> lb_all l1. sent p w' = sent p w1 \<and> room p w' = room p w1" "b' \<longleftrightarrow> lb_more l1 \<or> (\<exists>p \<in> lb_actives l1. room p w1)" by auto
      have "lb_has_out cw l w = Some (b', l', w')"
        using act q(1) w1(1) nm l1(1) r(1) False by (subst lb_has_out.simps) simp
      moreover have "\<forall>p \<in> lb_actives l. room p w1 = room p w" using w1(4) lb_actives_sub[of l] by blast
      then have "(\<exists>p \<in> lb_actives l1. room p w1) \<longleftrightarrow> (\<exists>p \<in> lb_actives l. room p w)"
        using l1(4) q(2) w1(3) False by auto
      ultimately show ?thesis using r w1(4) l1(3,6) by simp
    qed
  qed
qed

end

subsection \<open>Sending\<close>

text \<open>What a send does when it is not dropping the rest of a message.\<close>

definition lb_wrote :: "lb \<Rightarrow> msg \<Rightarrow> 's world \<Rightarrow> errno + unit \<Rightarrow> msg \<Rightarrow> lb \<Rightarrow> 's world \<Rightarrow> bool" where
  "lb_wrote l m w rc m' l' w' \<longleftrightarrow> lb_inv l' \<and> lb_all l' = lb_all l \<and> out_good (lb_all l) w' \<and> \<not> lb_dropping l' \<and> wmem w' = wmem w \<and>
    (case rc of
       Inl e \<Rightarrow> e = EAGAIN \<and> m' = m \<and> \<not> lb_more l \<and> \<not> lb_more l' \<and> (\<forall>p \<in> lb_actives l. \<not> pipe_room p w) \<and>
         (\<forall>p \<in> lb_all l. pipe_sent p w' = pipe_sent p w)
     | Inr _ \<Rightarrow> m' = msg_init m \<and> lb_more l' = has_more m \<and>
         (\<exists>q \<in> lb_actives l. pipe_room q w \<and> pipe_sent q w' = pipe_sent q w @ [m] \<and>
            (\<forall>p \<in> lb_all l - {q}. pipe_sent p w' = pipe_sent p w) \<and>
            (lb_more l \<longrightarrow> array_at (lb_pipes l) (lb_current l) = Some q) \<and>
            (has_more m \<longrightarrow> array_at (lb_pipes l') (lb_current l') = Some q \<and> lb_active l' > 0 \<and> pipe_room q w')))"

lemma lb_send_taken:
  assumes nd: "\<not> lb_dropping l" and loop: "lb_loop pipe_write l m w = Some (l1, w1)" and q: "lb_taken pipe_room pipe_sent l m w l1 w1 q"
    and l1: "lb_inv l1" "lb_all l1 = lb_all l" "out_good (lb_all l) w1" "lb_dropping l1 = lb_dropping l" "wmem w1 = wmem w"
  obtains l' w' where "lb_send pipe_write pipe_flush l m w = Some (Inr (), msg_init m, l', w')" "lb_wrote l m w (Inr ()) (msg_init m) l' w'"
proof (cases "has_more m")
  case True
  have act: "lb_active l1 > 0" using q by (simp add: lb_taken_def)
  have "lb_send pipe_write pipe_flush l m w = Some (Inr (), msg_init m, l1\<lparr>lb_more := True\<rparr>, w1)"
    using nd loop act True by (simp add: lb_send_def)
  moreover have "lb_wrote l m w (Inr ()) (msg_init m) (l1\<lparr>lb_more := True\<rparr>) w1"
    using q l1 nd True by (auto simp: lb_wrote_def lb_taken_def lb_inv_def)
  ultimately show ?thesis using that by blast
next
  case nm: False
  have at: "array_at (lb_pipes l1) (lb_current l1) = Some q" and act: "lb_active l1 > 0" and qa: "q \<in> lb_actives l"
    using q by (simp_all add: lb_taken_def)
  have qall: "q \<in> lb_all l" using qa lb_actives_sub[of l] by auto
  obtain w2 where w2: "pipe_flush q w1 = Some w2" "out_good (lb_all l) w2" "wmem w2 = wmem w1"
    "\<forall>r \<in> lb_all l. pipe_room r w2 = pipe_room r w1 \<and> pipe_sent r w2 = pipe_sent r w1"
    using wpipes.fl_law[OF l1(3) qall] by blast
  let ?l = "l1\<lparr>lb_more := False, lb_current := (lb_current l1 + 1) mod lb_active l1\<rparr>"
  have "lb_send pipe_write pipe_flush l m w = Some (Inr (), msg_init m, ?l, w2)"
    using nd loop act nm at w2(1) by (simp add: lb_send_def)
  moreover have "lb_inv ?l" using l1(1,4) act nd by (simp add: lb_inv_def)
  moreover have "pipe_sent q w2 = pipe_sent q w1" "\<forall>p \<in> lb_all l - {q}. pipe_sent p w2 = pipe_sent p w1"
    using w2(4) qall by auto
  ultimately show ?thesis using that[of ?l w2] l1 nd nm q qa w2(2,3) by (auto simp: lb_wrote_def lb_taken_def)
qed

lemma lb_send_wrote:
  assumes inv: "lb_inv l" "out_good (lb_all l) w" "msg_check m" and nd: "\<not> lb_dropping l"
    and more: "lb_more l \<longrightarrow> lb_active l > 0 \<and> pipe_room (items (lb_pipes l) ! lb_current l) w"
  obtains rc m' l' w' where "lb_send pipe_write pipe_flush l m w = Some (rc, m', l', w')" "lb_wrote l m w rc m' l' w'"
proof -
  obtain l1 w1 where 1: "lb_loop pipe_write l m w = Some (l1, w1)" "lb_inv l1" "lb_all l1 = lb_all l" "out_good (lb_all l) w1"
    "lb_more l1 = lb_more l" "lb_dropping l1 = lb_dropping l" "wmem w1 = wmem w"
    "lb_full pipe_room pipe_sent l w l1 w1 \<or> (\<exists>q. lb_taken pipe_room pipe_sent l m w l1 w1 q)"
    using wpipes.lb_loop_ok[OF inv more] by blast
  show ?thesis
  proof (cases "lb_active l1 = 0")
    case True
    then have "lb_full pipe_room pipe_sent l w l1 w1" using 1(8) by (auto simp: lb_taken_def)
    moreover have "lb_send pipe_write pipe_flush l m w = Some (Inl EAGAIN, m, l1, w1)" using nd 1(1) True by (simp add: lb_send_def)
    ultimately show ?thesis using that 1 nd by (simp add: lb_wrote_def lb_full_def)
  next
    case False
    then obtain q where q: "lb_taken pipe_room pipe_sent l m w l1 w1 q" using 1(8) by (auto simp: lb_full_def)
    show ?thesis by (rule lb_send_taken[OF nd 1(1) q 1(2,3,4,6,7)]) (rule that)
  qed
qed

lemma lb_send_dropping:
  assumes "lb_dropping l" "refs_inv (add_mset m R) (wmem w)" "msg_check m"
  obtains h where "lb_send pipe_write pipe_flush l m w = Some (Inr (), msg_init (m\<lparr>mtype := 0\<rparr>),
      l\<lparr>lb_more := has_more m, lb_dropping := has_more m\<rparr>, w\<lparr>wmem := h\<rparr>)" "refs_inv R h"
  by (rule close_msg_ok[OF assms(2,3)]) (use that assms(1) in \<open>simp add: lb_send_def\<close>)

subsection \<open>The properties\<close>

text \<open>C20: A send over any set of live outbound pipes returns, with \<^verbatim>\<open>EAGAIN\<close> and the message given back only
  when no active pipe has room. A message it takes is written to exactly one active pipe, after
  what was sent there before; a later part goes to the pipe of the part before and always finds
  room; and when that pipe is gone the rest of the message is dropped, and nothing is written.\<close>

theorem lb_send_balances:
  assumes "lb_inv l" "out_good (lb_all l) w" "refs_inv (add_mset m R) (wmem w)" "msg_check m"
    and "lb_more l \<and> \<not> lb_dropping l \<longrightarrow> lb_active l > 0 \<and> pipe_room (items (lb_pipes l) ! lb_current l) w"
  shows "\<exists>rc m' l' w'. lb_send pipe_write pipe_flush l m w = Some (rc, m', l', w') \<and>
    lb_inv l' \<and> lb_all l' = lb_all l \<and> out_good (lb_all l) w' \<and>
    (case rc of
       Inl e \<Rightarrow> e = EAGAIN \<and> m' = m \<and> \<not> lb_more l \<and> (\<forall>p \<in> lb_actives l. \<not> pipe_room p w) \<and>
         (\<forall>p \<in> lb_all l. pipe_sent p w' = pipe_sent p w)
     | Inr _ \<Rightarrow> lb_more l' = has_more m \<and>
         (if lb_dropping l then lb_dropping l' = has_more m \<and> (\<forall>p \<in> lb_all l. pipe_sent p w' = pipe_sent p w)
          else \<not> lb_dropping l' \<and> (\<exists>q \<in> lb_actives l. pipe_room q w \<and> pipe_sent q w' = pipe_sent q w @ [m] \<and>
            (\<forall>p \<in> lb_all l - {q}. pipe_sent p w' = pipe_sent p w) \<and>
            (lb_more l \<longrightarrow> array_at (lb_pipes l) (lb_current l) = Some q) \<and>
            (has_more m \<longrightarrow> array_at (lb_pipes l') (lb_current l') = Some q \<and> pipe_room q w'))))"
proof (cases "lb_dropping l")
  case True
  obtain h where "lb_send pipe_write pipe_flush l m w = Some (Inr (), msg_init (m\<lparr>mtype := 0\<rparr>),
      l\<lparr>lb_more := has_more m, lb_dropping := has_more m\<rparr>, w\<lparr>wmem := h\<rparr>)"
    by (rule lb_send_dropping[OF True assms(3,4)])
  moreover have "lb_inv (l\<lparr>lb_more := has_more m, lb_dropping := has_more m\<rparr>)" using assms(1) by (simp add: lb_inv_def)
  ultimately show ?thesis using True assms(2)
    by (intro exI[of _ "Inr ()"] exI[of _ "msg_init (m\<lparr>mtype := 0\<rparr>)"] exI[of _ "l\<lparr>lb_more := has_more m, lb_dropping := has_more m\<rparr>"]
        exI[of _ "w\<lparr>wmem := h\<rparr>"]) (simp add: wpipes.mem_law)
next
  case False
  then obtain rc m' l' w' where "lb_send pipe_write pipe_flush l m w = Some (rc, m', l', w')" "lb_wrote l m w rc m' l' w'"
    using lb_send_wrote assms by blast
  then show ?thesis using False by (intro exI[of _ rc] exI[of _ m'] exI[of _ l'] exI[of _ w']) (cases rc; simp add: lb_wrote_def; blast)
qed

theorem lb_send_balances_witness:
  "\<exists>(w :: unit world) l m' l' w'. lb_attach 4 lb_new = Some l \<and> pipe_room 4 w \<and>
    lb_send pipe_write pipe_flush l example_msg w = Some (Inr (), m', l', w') \<and> pipe_sent 4 w' = [example_msg]"
proof -
  obtain w :: "unit world" where w: "out_good {4} w" "pipe_room 4 w" "pipe_sent 4 w = []" "wmem w = mem_new (\<lambda>_ _. True) (\<lambda>_. 0)"
    using pipe_example by blast
  obtain l where l: "lb_attach 4 lb_new = Some l" "lb_inv l" "lb_all l = {4}" "lb_actives l = {4}" "\<not> lb_more l" "\<not> lb_dropping l"
    by (rule lb_attach_ok[OF lb_new_inv(1), of 4]) simp_all
  have "refs_inv (add_mset example_msg {#}) (wmem w)" using mem_new_ok by (simp add: example_msg w)
  from lb_send_balances[OF l(2) _ this example_msg(1)] w(1) l
  obtain rc m' l' w' where r: "lb_send pipe_write pipe_flush l example_msg w = Some (rc, m', l', w')"
    "case rc of Inl e \<Rightarrow> \<forall>p \<in> {4}. \<not> pipe_room p w | Inr _ \<Rightarrow> \<exists>q \<in> {4}. pipe_sent q w' = pipe_sent q w @ [example_msg]"
    by (fastforce split: sum.splits)
  then have "rc = Inr () \<and> pipe_sent 4 w' = [example_msg]" using w(2,3) by (cases rc) auto
  then show ?thesis using l(1) w(2) r(1) by blast
qed

end
