(* ===== verification/Dist.thy ===== *)
theory Dist
  imports Array Pipe_Ends
begin

text \<open>
  \<^verbatim>\<open>dist_t\<close> of src/dist.cpp: each message goes to all of a set of outbound pipes. The array starts
  with the matching pipes (the receivers of the message being sent), which are among the active
  ones (those that have received it from its first part), which are among the eligible ones
  (those that have room).
\<close>

unbundle bit_operations_syntax

record dist =
  dist_pipes :: array
  dist_matching :: nat
  dist_active :: nat
  dist_eligible :: nat
  dist_more :: bool

definition dist_new :: dist where
  "dist_new = \<lparr>dist_pipes = array_new, dist_matching = 0, dist_active = 0, dist_eligible = 0, dist_more = False\<rparr>"

definition dist_destroy :: "dist \<Rightarrow> unit option" where
  "dist_destroy d = zmq_assert (array_empty (dist_pipes d))"

definition dist_attach :: "addr \<Rightarrow> dist \<Rightarrow> dist option" where
  "dist_attach p d = do {
     let a = array_push_back p (dist_pipes d);
     if dist_more d then do {
       a \<leftarrow> array_swap (dist_eligible d) (array_size a - 1) a;
       Some (d\<lparr>dist_pipes := a, dist_eligible := dist_eligible d + 1\<rparr>) }
     else do {
       a \<leftarrow> array_swap (dist_active d) (array_size a - 1) a;
       Some (d\<lparr>dist_pipes := a, dist_active := dist_active d + 1, dist_eligible := dist_eligible d + 1\<rparr>) } }"

definition dist_match :: "addr \<Rightarrow> dist \<Rightarrow> dist option" where
  "dist_match p d = do {
     i \<leftarrow> array_ix p (dist_pipes d);
     if i < dist_matching d then Some d
     else if i \<ge> dist_eligible d then Some d
     else do {
       a \<leftarrow> array_swap i (dist_matching d) (dist_pipes d);
       Some (d\<lparr>dist_pipes := a, dist_matching := dist_matching d + 1\<rparr>) } }"

definition dist_unmatch :: "dist \<Rightarrow> dist" where
  "dist_unmatch d = d\<lparr>dist_matching := 0\<rparr>"

definition dist_terminated :: "addr \<Rightarrow> dist \<Rightarrow> dist option" where
  "dist_terminated p d = do {
     i \<leftarrow> array_ix p (dist_pipes d);
     let d = (if i < dist_matching d then d\<lparr>dist_matching := dist_matching d - 1\<rparr> else d);
     let d = (if i < dist_active d then d\<lparr>dist_active := dist_active d - 1\<rparr> else d);
     let d = (if i < dist_eligible d then d\<lparr>dist_eligible := dist_eligible d - 1\<rparr> else d);
     a \<leftarrow> array_erase p (dist_pipes d);
     Some (d\<lparr>dist_pipes := a\<rparr>) }"

definition dist_activated :: "addr \<Rightarrow> dist \<Rightarrow> dist option" where
  "dist_activated p d = do {
     i \<leftarrow> array_ix p (dist_pipes d);
     a \<leftarrow> array_swap i (dist_eligible d) (dist_pipes d);
     let d = d\<lparr>dist_pipes := a, dist_eligible := dist_eligible d + 1\<rparr>;
     if \<not> dist_more d then do {
       a \<leftarrow> array_swap (dist_eligible d - 1) (dist_active d) (dist_pipes d);
       Some (d\<lparr>dist_pipes := a, dist_active := dist_active d + 1\<rparr>) }
     else Some d }"

text \<open>A pipe that did not take a message is moved behind the eligible ones.\<close>

definition dist_out :: "addr \<Rightarrow> dist \<Rightarrow> dist option" where
  "dist_out p d = do {
     i \<leftarrow> array_ix p (dist_pipes d);
     a \<leftarrow> array_swap i (dist_matching d - 1) (dist_pipes d);
     let d = d\<lparr>dist_pipes := a, dist_matching := dist_matching d - 1\<rparr>;
     i \<leftarrow> array_ix p (dist_pipes d);
     a \<leftarrow> array_swap i (dist_active d - 1) (dist_pipes d);
     let d = d\<lparr>dist_pipes := a, dist_active := dist_active d - 1\<rparr>;
     a \<leftarrow> array_swap (dist_active d) (dist_eligible d - 1) (dist_pipes d);
     Some (d\<lparr>dist_pipes := a, dist_eligible := dist_eligible d - 1\<rparr>) }"

definition dist_write :: "(addr \<Rightarrow> msg \<Rightarrow> 's world \<Rightarrow> (bool \<times> 's world) option) \<Rightarrow> (addr \<Rightarrow> 's world \<Rightarrow> 's world option) \<Rightarrow>
    addr \<Rightarrow> msg \<Rightarrow> dist \<Rightarrow> 's world \<Rightarrow> (bool \<times> dist \<times> 's world) option" where
  "dist_write wr fl p m d w = do {
     (ok, w) \<leftarrow> wr p m w;
     if \<not> ok then do { d \<leftarrow> dist_out p d; Some (False, d, w) }
     else do {
       w \<leftarrow> (if \<not> has_more m then fl p w else Some w);
       Some (True, d, w) } }"

lemma dist_out_matching: "dist_out p d = Some d' \<Longrightarrow> dist_matching d' = dist_matching d - 1"
  by (auto simp: dist_out_def run_simps Let_def)

lemma dist_write_matching:
  "dist_write wr fl p m d w = Some (ok, d', w') \<Longrightarrow> dist_matching d' = (if ok then dist_matching d else dist_matching d - 1)"
  by (auto simp: dist_write_def run_simps dest: dist_out_matching split: if_splits)

text \<open>The loop over the matching pipes, from index \<open>i\<close> on: the number of failed writes.\<close>

function dist_loop :: "(addr \<Rightarrow> msg \<Rightarrow> 's world \<Rightarrow> (bool \<times> 's world) option) \<Rightarrow> (addr \<Rightarrow> 's world \<Rightarrow> 's world option) \<Rightarrow>
    nat \<Rightarrow> msg \<Rightarrow> nat \<Rightarrow> dist \<Rightarrow> 's world \<Rightarrow> (nat \<times> dist \<times> 's world) option" where
  "dist_loop wr fl i m failed d w =
     (if i < dist_matching d then do {
        p \<leftarrow> array_at (dist_pipes d) i;
        (ok, d', w') \<leftarrow> dist_write wr fl p m d w;
        if ok then dist_loop wr fl (i + 1) m failed d' w'
        else dist_loop wr fl i m (failed + 1) d' w' }
      else Some (failed, d, w))"
  by pat_completeness auto
termination
  by (relation "measure (\<lambda>(_, _, i, _, _, d, _). dist_matching d - i)") (auto dest!: dist_write_matching)

declare dist_loop.simps [simp del]

definition dist_distribute :: "(addr \<Rightarrow> msg \<Rightarrow> 's world \<Rightarrow> (bool \<times> 's world) option) \<Rightarrow> (addr \<Rightarrow> 's world \<Rightarrow> 's world option) \<Rightarrow>
    dist \<Rightarrow> msg \<Rightarrow> 's world \<Rightarrow> (msg \<times> dist \<times> 's world) option" where
  "dist_distribute wr fl d m w =
     (if dist_matching d = 0 then do {
        (m, w) \<leftarrow> close_msg m w;
        Some (msg_init m, d, w) }
      else if msg_is_vsm m then do {
        (_, d, w) \<leftarrow> dist_loop wr fl 0 m 0 d w;
        (m, w) \<leftarrow> close_msg m w;
        Some (msg_init m, d, w) }
      else do {
        (m, h) \<leftarrow> msg_add_refs (int (dist_matching d) - 1) m (wmem w);
        (failed, d, w) \<leftarrow> dist_loop wr fl 0 m 0 d (w\<lparr>wmem := h\<rparr>);
        (m, w) \<leftarrow> (if failed \<noteq> 0 then do {
             (_, m, h) \<leftarrow> msg_rm_refs (int failed) m (wmem w);
             Some (m, w\<lparr>wmem := h\<rparr>) }
           else Some (m, w));
        Some (msg_init m, d, w) })"

definition dist_send_to_matching :: "(addr \<Rightarrow> msg \<Rightarrow> 's world \<Rightarrow> (bool \<times> 's world) option) \<Rightarrow> (addr \<Rightarrow> 's world \<Rightarrow> 's world option) \<Rightarrow>
    dist \<Rightarrow> msg \<Rightarrow> 's world \<Rightarrow> (msg \<times> dist \<times> 's world) option" where
  "dist_send_to_matching wr fl d m w = do {
     let msg_more = has_more m;
     (m, d, w) \<leftarrow> dist_distribute wr fl d m w;
     let d = (if \<not> msg_more then d\<lparr>dist_active := dist_eligible d\<rparr> else d);
     Some (m, d\<lparr>dist_more := msg_more\<rparr>, w) }"

definition dist_send_to_all :: "(addr \<Rightarrow> msg \<Rightarrow> 's world \<Rightarrow> (bool \<times> 's world) option) \<Rightarrow> (addr \<Rightarrow> 's world \<Rightarrow> 's world option) \<Rightarrow>
    dist \<Rightarrow> msg \<Rightarrow> 's world \<Rightarrow> (msg \<times> dist \<times> 's world) option" where
  "dist_send_to_all wr fl d m w = dist_send_to_matching wr fl (d\<lparr>dist_matching := dist_active d\<rparr>) m w"

definition dist_has_out :: "dist \<Rightarrow> bool" where
  "dist_has_out d = True"

subsection \<open>The invariant\<close>

definition dist_inv :: "dist \<Rightarrow> bool" where
  "dist_inv d \<longleftrightarrow> array_inv (dist_pipes d) \<and> dist_matching d \<le> dist_active d \<and> dist_active d \<le> dist_eligible d \<and>
     dist_eligible d \<le> length (items (dist_pipes d)) \<and> (\<not> dist_more d \<longrightarrow> dist_active d = dist_eligible d)"

definition dist_front :: "nat \<Rightarrow> dist \<Rightarrow> addr set" where
  "dist_front n d = set (take n (items (dist_pipes d)))"

abbreviation dist_all :: "dist \<Rightarrow> addr set" where
  "dist_all d \<equiv> set (items (dist_pipes d))"

abbreviation dist_matches :: "dist \<Rightarrow> addr set" where
  "dist_matches d \<equiv> dist_front (dist_matching d) d"

abbreviation dist_actives :: "dist \<Rightarrow> addr set" where
  "dist_actives d \<equiv> dist_front (dist_active d) d"

abbreviation dist_eligibles :: "dist \<Rightarrow> addr set" where
  "dist_eligibles d \<equiv> dist_front (dist_eligible d) d"

lemma dist_new_inv [simp]: "dist_inv dist_new" "dist_all dist_new = {}" "\<not> dist_more dist_new"
  by (simp_all add: dist_inv_def dist_new_def)

lemma dist_front_sub: "dist_front n d \<subseteq> dist_all d"
  unfolding dist_front_def by (rule set_take_subset)

lemma dist_front_mono: "m \<le> n \<Longrightarrow> dist_front m d \<subseteq> dist_front n d"
  unfolding dist_front_def by (rule set_take_subset_set_take)

lemma dist_out_ok:
  assumes inv: "dist_inv d" and p: "i < dist_matching d" "items (dist_pipes d) ! i = p"
  obtains d' where "dist_out p d = Some d'" "dist_inv d'" "dist_all d' = dist_all d"
    "dist_matching d' = dist_matching d - 1" "dist_more d' = dist_more d"
    "take (dist_matching d - 1) (items (dist_pipes d')) = take (dist_matching d - 1) (list_swap i (dist_matching d - 1) (items (dist_pipes d)))"
    "dist_actives d' = dist_actives d - {p}" "dist_eligibles d' = dist_eligibles d - {p}" "dist_matches d' = dist_matches d - {p}"
proof -
  let ?xs = "items (dist_pipes d)" and ?m = "dist_matching d - 1" and ?a = "dist_active d - 1" and ?e = "dist_eligible d - 1"
  have inva: "array_inv (dist_pipes d)" and le: "dist_matching d \<le> dist_active d" "dist_active d \<le> dist_eligible d"
    "dist_eligible d \<le> length ?xs" using inv by (simp_all add: dist_inv_def)
  have ix: "array_ix p (dist_pipes d) = Some i" using array_ix_nth[OF inva, of i] p le by simp
  obtain a1 where a1: "array_swap i ?m (dist_pipes d) = Some a1" "array_inv a1" "items a1 = list_swap i ?m ?xs"
    by (rule array_swap_ok[OF inva, of i ?m]) (use p le in auto)
  have p1: "items a1 ! ?m = p" "length (items a1) = length ?xs" using a1(3) p le by (auto simp: nth_list_swap)
  have ix1: "array_ix p a1 = Some ?m" using array_ix_nth[OF a1(2), of ?m] p1 p le by simp
  have f1: "set (take n (items a1)) = set (take n ?xs)" if "dist_matching d \<le> n" "n \<le> length ?xs" for n
    unfolding a1(3) by (rule set_take_swap_inside) (use that p in auto)
  have mle: "?m < dist_active d" "dist_active d \<le> length (items a1)" using p le p1 by auto
  obtain a2 where a2: "array_swap ?m ?a a1 = Some a2" "array_inv a2" "items a2 = list_swap ?m ?a (items a1)"
    "set (items a2) = set (items a1)" "set (take ?a (items a2)) = set (take (dist_active d) (items a1)) - {items a1 ! ?m}"
    by (rule array_move_out[OF a1(2) mle])
  have p2: "items a2 ! ?a = p" "length (items a2) = length ?xs" using a2(3) p1 p le by (auto simp: nth_list_swap)
  have f2: "set (take n (items a2)) = set (take n (items a1))" if "dist_active d \<le> n" "n \<le> length ?xs" for n
    unfolding a2(3) by (rule set_take_swap_inside) (use that p p1 le in auto)
  have ale: "?a < dist_eligible d" "dist_eligible d \<le> length (items a2)" using p le p2 by auto
  obtain a3 where a3: "array_swap ?a ?e a2 = Some a3" "array_inv a3" "items a3 = list_swap ?a ?e (items a2)"
    "set (items a3) = set (items a2)" "set (take ?e (items a3)) = set (take (dist_eligible d) (items a2)) - {items a2 ! ?a}"
    by (rule array_move_out[OF a2(2) ale])
  let ?d = "d\<lparr>dist_pipes := a3, dist_matching := ?m, dist_active := ?a, dist_eligible := ?e\<rparr>"
  have "dist_out p d = Some ?d" using ix ix1 a1(1) a2(1) a3(1) by (simp add: dist_out_def Let_def)
  moreover have "dist_inv ?d" using inv a3(2,4) p p2 le a3(3) by (auto simp: dist_inv_def)
  moreover have "dist_all ?d = dist_all d" using a3(4) a2(4) a1(3) p le by simp
  moreover have "take ?m (items a3) = take ?m (list_swap i ?m ?xs)"
  proof -
    have "take ?m (items a3) = take ?m (items a2)" unfolding a3(3) using le by (intro take_list_swap_beyond) auto
    also have "\<dots> = take ?m (items a1)" unfolding a2(3) using le by (intro take_list_swap_beyond) auto
    finally show ?thesis unfolding a1(3) .
  qed
  moreover have "dist_actives ?d = dist_actives d - {p}"
  proof -
    have "take ?a (items a3) = take ?a (items a2)" unfolding a3(3) using le by (intro take_list_swap_beyond) auto
    then show ?thesis using a2(5) f1[of "dist_active d"] p1 le by (simp add: dist_front_def)
  qed
  moreover have "dist_eligibles ?d = dist_eligibles d - {p}"
    using a3(5) p2 f2[of "dist_eligible d"] f1[of "dist_eligible d"] le by (simp add: dist_front_def)
  moreover have "dist_matches ?d = dist_matches d - {p}"
    using \<open>take ?m (items a3) = take ?m (list_swap i ?m ?xs)\<close> set_take_swap_drop[of i ?m ?xs] p le inva
    by (simp add: dist_front_def array_inv_def)
  ultimately show ?thesis using that[of ?d] by simp
qed

subsection \<open>Moving the marks\<close>

lemma dist_attach_ok:
  assumes inv: "dist_inv d" and p: "p \<noteq> 0" "p \<notin> dist_all d"
  obtains d' where "dist_attach p d = Some d'" "dist_inv d'" "dist_all d' = insert p (dist_all d)" "dist_more d' = dist_more d"
    "dist_matches d' = dist_matches d" "dist_actives d' = (if dist_more d then dist_actives d else insert p (dist_actives d))"
    "dist_eligibles d' = insert p (dist_eligibles d)"
proof -
  let ?xs = "items (dist_pipes d)" and ?a = "array_push_back p (dist_pipes d)" and ?e = "dist_eligible d"
  have inva: "array_inv ?a" using inv p by (auto simp: dist_inv_def intro: array_push_back_inv)
  have le: "dist_matching d \<le> dist_active d" "dist_active d \<le> ?e" "?e \<le> length ?xs" using inv by (simp_all add: dist_inv_def)
  obtain a where a: "array_swap (length ?xs) ?e ?a = Some a" "array_swap ?e (length ?xs) ?a = Some a" "array_inv a"
    "items a = list_swap (length ?xs) ?e (items ?a)" "set (items a) = set (items ?a)"
    "set (take (Suc ?e) (items a)) = insert (items ?a ! length ?xs) (set (take ?e (items ?a)))"
    by (rule array_move_in[OF inva, of ?e "length ?xs"]) (use le in auto)
  have tk: "take n (items a) = take n ?xs" if "n \<le> ?e" for n
    unfolding a(4) using that le by (simp add: take_list_swap_beyond)
  have el: "set (take (Suc ?e) (items a)) = insert p (dist_eligibles d)" using a(6) le by (simp add: dist_front_def)
  show ?thesis
  proof (cases "dist_more d")
    case True
    let ?d = "d\<lparr>dist_pipes := a, dist_eligible := ?e + 1\<rparr>"
    have "dist_attach p d = Some ?d" using a(2) True by (simp add: dist_attach_def array_size_def Let_def)
    moreover have "dist_inv ?d" using inv a(3,4) le True by (auto simp: dist_inv_def)
    ultimately show ?thesis using that[of ?d] True tk el a(5) le by (simp add: dist_front_def)
  next
    case False
    then have ae: "dist_active d = ?e" using inv by (simp add: dist_inv_def)
    let ?d = "d\<lparr>dist_pipes := a, dist_active := ?e + 1, dist_eligible := ?e + 1\<rparr>"
    have "dist_attach p d = Some ?d" using a(2) False ae by (simp add: dist_attach_def array_size_def Let_def)
    moreover have "dist_inv ?d" using inv a(3,4) le by (auto simp: dist_inv_def)
    ultimately show ?thesis using that[of ?d] False tk el a(5) le ae by (simp add: dist_front_def)
  qed
qed

lemma dist_match_ok:
  assumes inv: "dist_inv d" and p: "p \<in> dist_all d" and nm: "\<not> dist_more d"
  obtains d' where "dist_match p d = Some d'" "dist_inv d'" "dist_all d' = dist_all d" "\<not> dist_more d'"
    "dist_matches d' = dist_matches d \<union> ({p} \<inter> dist_actives d)" "dist_actives d' = dist_actives d"
proof -
  let ?xs = "items (dist_pipes d)" and ?m = "dist_matching d"
  have inva: "array_inv (dist_pipes d)" and le: "?m \<le> dist_active d" "dist_active d = dist_eligible d" "dist_eligible d \<le> length ?xs"
    using inv nm by (simp_all add: dist_inv_def)
  obtain i where i: "array_ix p (dist_pipes d) = Some i" "i < length ?xs" "?xs ! i = p"
    by (rule array_ix_member[OF inva p])
  note f = array_ix_front(3)[OF inva p i(1)]
  consider "i < ?m" | "dist_eligible d \<le> i" | "?m \<le> i" "i < dist_eligible d" by linarith
  then show ?thesis
  proof cases
    case 1
    then have "p \<in> dist_matches d" "p \<in> dist_actives d" using f le by (auto simp: dist_front_def)
    then show ?thesis using that[of d] i 1 inv nm by (simp add: dist_match_def insert_absorb)
  next
    case 2
    then have "p \<notin> dist_actives d" using f le by (auto simp: dist_front_def)
    then show ?thesis using that[of d] i 2 inv nm le by (simp add: dist_match_def)
  next
    case 3
    then have act: "p \<in> dist_actives d" using f le by (auto simp: dist_front_def)
    obtain a where a: "array_swap i ?m (dist_pipes d) = Some a" "array_inv a" "items a = list_swap i ?m ?xs"
      "set (items a) = set ?xs" "set (take (Suc ?m) (items a)) = insert (?xs ! i) (set (take ?m ?xs))"
      by (rule array_move_in[OF inva 3(1) i(2)])
    let ?d = "d\<lparr>dist_pipes := a, dist_matching := ?m + 1\<rparr>"
    have "set (take (dist_active d) (items a)) = set (take (dist_active d) ?xs)"
      unfolding a(3) by (rule set_take_swap_inside) (use 3 le in auto)
    then have "dist_actives ?d = dist_actives d" by (simp add: dist_front_def)
    moreover have "dist_matches ?d = insert p (dist_matches d)" using a(5) i(3) by (simp add: dist_front_def)
    moreover have "dist_inv ?d" using inv a(2,3) 3 le by (auto simp: dist_inv_def)
    moreover have "dist_match p d = Some ?d" using i 3 a(1) by (simp add: dist_match_def)
    ultimately show ?thesis using that[of ?d] a(4) act nm by simp
  qed
qed

lemma dist_activated_ok:
  assumes inv: "dist_inv d" and p: "p \<in> dist_all d" "p \<notin> dist_eligibles d"
  obtains d' where "dist_activated p d = Some d'" "dist_inv d'" "dist_all d' = dist_all d" "dist_more d' = dist_more d"
    "dist_matches d' = dist_matches d" "dist_actives d' = (if dist_more d then dist_actives d else insert p (dist_actives d))"
    "dist_eligibles d' = insert p (dist_eligibles d)"
proof -
  let ?xs = "items (dist_pipes d)" and ?e = "dist_eligible d"
  have inva: "array_inv (dist_pipes d)" and le: "dist_matching d \<le> dist_active d" "dist_active d \<le> ?e" "?e \<le> length ?xs"
    using inv by (simp_all add: dist_inv_def)
  obtain i where i: "array_ix p (dist_pipes d) = Some i" "i < length ?xs" "?xs ! i = p"
    by (rule array_ix_member[OF inva p(1)])
  have ni: "?e \<le> i" using array_ix_front(3)[OF inva p(1) i(1), of ?e] p(2) by (simp add: dist_front_def)
  obtain a where a: "array_swap i ?e (dist_pipes d) = Some a" "array_inv a" "items a = list_swap i ?e ?xs"
    "set (items a) = set ?xs" "set (take (Suc ?e) (items a)) = insert (?xs ! i) (set (take ?e ?xs))"
    by (rule array_move_in[OF inva ni i(2)])
  have tk: "take n (items a) = take n ?xs" if "n \<le> ?e" for n
    unfolding a(3) using that ni by (simp add: take_list_swap_beyond)
  have len: "?e < length (items a)" using a(3) i ni by simp
  show ?thesis
  proof (cases "dist_more d")
    case True
    let ?d = "d\<lparr>dist_pipes := a, dist_eligible := ?e + 1\<rparr>"
    have "dist_activated p d = Some ?d" using i(1) a(1) True by (simp add: dist_activated_def Let_def)
    moreover have "dist_inv ?d" using inv a(2) len le True by (auto simp: dist_inv_def)
    ultimately show ?thesis using that[of ?d] True tk a(4,5) i(3) le by (simp add: dist_front_def)
  next
    case False
    then have ae: "dist_active d = ?e" using inv by (simp add: dist_inv_def)
    obtain a2 where a2: "array_swap ?e ?e a = Some a2" "array_inv a2" "items a2 = list_swap ?e ?e (items a)"
      by (rule array_swap_ok[OF a(2) len len])
    let ?d = "d\<lparr>dist_pipes := a2, dist_active := ?e + 1, dist_eligible := ?e + 1\<rparr>"
    have "dist_activated p d = Some ?d" using i(1) a(1) a2(1) False ae by (simp add: dist_activated_def Let_def)
    moreover have "dist_inv ?d" using inv a2 len le by (auto simp: dist_inv_def)
    ultimately show ?thesis using that[of ?d] False tk a(4,5) a2(3) i(3) le ae by (simp add: dist_front_def)
  qed
qed

subsection \<open>The loop over the matching pipes\<close>

definition dist_todo :: "nat \<Rightarrow> dist \<Rightarrow> addr set" where
  "dist_todo i d = set (drop i (take (dist_matching d) (items (dist_pipes d))))"

lemma dist_todo_next:
  assumes "dist_inv d" "i < dist_matching d" "p = items (dist_pipes d) ! i"
  shows "dist_todo i d = insert p (dist_todo (i + 1) d)" "p \<notin> dist_todo (i + 1) d"
proof -
  let ?ys = "take (dist_matching d) (items (dist_pipes d))"
  have l: "i < length ?ys" "distinct ?ys" using assms by (auto simp: dist_inv_def array_inv_def)
  have p: "p = ?ys ! i" using assms by simp
  have "drop i ?ys = p # drop (Suc i) ?ys" unfolding p by (rule Cons_nth_drop_Suc[OF l(1), symmetric])
  then show "dist_todo i d = insert p (dist_todo (i + 1) d)" by (simp add: dist_todo_def)
  have "distinct (drop i ?ys)" using l(2) by simp
  then show "p \<notin> dist_todo (i + 1) d" using \<open>drop i ?ys = p # drop (Suc i) ?ys\<close> by (simp add: dist_todo_def)
qed

lemma drop_take_swap:
  assumes "i < n" "n \<le> length xs" "distinct xs"
  shows "set (drop i (take (n - 1) (list_swap i (n - 1) xs))) = set (drop i (take n xs)) - {xs ! i}"
proof -
  let ?ys = "drop i (take n xs)"
  have e: "drop i (take (n - 1) (list_swap i (n - 1) xs)) = take (n - 1 - i) (list_swap 0 (n - 1 - i) ?ys)"
    using assms(1,2) by (intro nth_equalityI) (auto simp: nth_list_swap)
  have "set (take (n - 1 - i) (list_swap 0 (n - 1 - i) ?ys)) = set (take (Suc (n - 1 - i)) ?ys) - {?ys ! 0}"
    by (rule set_take_swap_drop) (use assms in auto)
  also have "take (Suc (n - 1 - i)) ?ys = ?ys" using assms by simp
  finally show ?thesis unfolding e using assms by simp
qed

lemma dist_todo_out:
  assumes "dist_inv d" "i < dist_matching d" "p = items (dist_pipes d) ! i" "dist_matching d' = dist_matching d - 1"
    "take (dist_matching d - 1) (items (dist_pipes d')) = take (dist_matching d - 1) (list_swap i (dist_matching d - 1) (items (dist_pipes d)))"
  shows "dist_todo i d' = dist_todo i d - {p}"
  using assms drop_take_swap[of i "dist_matching d" "items (dist_pipes d)"]
  by (simp add: dist_todo_def dist_inv_def array_inv_def)

lemma dist_todo_sub: "dist_todo i d \<subseteq> dist_matches d"
  unfolding dist_todo_def dist_front_def by (rule set_drop_subset)

text \<open>What the loop has done when it is at its end.\<close>

definition dist_done :: "(addr \<Rightarrow> 's world \<Rightarrow> bool) \<Rightarrow> (addr \<Rightarrow> 's world \<Rightarrow> msg list) \<Rightarrow> addr set \<Rightarrow> dist \<Rightarrow> msg \<Rightarrow> 's world \<Rightarrow>
    nat \<Rightarrow> dist \<Rightarrow> 's world \<Rightarrow> bool" where
  "dist_done room sent T d m w k d' w' \<longleftrightarrow> dist_inv d' \<and> dist_all d' = dist_all d \<and> dist_more d' = dist_more d \<and>
     k = card {p \<in> T. \<not> room p w} \<and>
     dist_actives d' = dist_actives d - {p \<in> T. \<not> room p w} \<and> dist_eligibles d' = dist_eligibles d - {p \<in> T. \<not> room p w} \<and>
     dist_matches d' = dist_matches d - {p \<in> T. \<not> room p w} \<and>
     (\<forall>p \<in> dist_all d. sent p w' = (if p \<in> T \<and> room p w then sent p w @ [m] else sent p w)) \<and>
     (\<forall>p \<in> dist_all d. p \<in> T \<and> room p w \<and> \<not> has_more m \<or> room p w' = room p w)"

lemma dist_done_take:
  assumes T: "T = insert p T'" "p \<notin> T'" "T' \<subseteq> dist_all d" and pd: "p \<in> dist_all d" and r: "room p w"
    and w1: "\<forall>r \<in> dist_all d - {p}. room r w1 = room r w \<and> sent r w1 = sent r w" "sent p w1 = sent p w @ [m]" "has_more m \<longrightarrow> room p w1"
    and don: "dist_done room sent T' d m w1 k d' w'"
  shows "dist_done room sent T d m w k d' w'"
proof -
  have eq: "{x \<in> T. \<not> room x w} = {x \<in> T'. \<not> room x w1}" using T w1(1) r by auto
  have "sent x w' = (if x \<in> T \<and> room x w then sent x w @ [m] else sent x w)" if "x \<in> dist_all d" for x
    using don that w1 T r unfolding dist_done_def by (cases "x = p") auto
  moreover have "x \<in> T \<and> room x w \<and> \<not> has_more m \<or> room x w' = room x w" if "x \<in> dist_all d" for x
    using don that w1 T r unfolding dist_done_def by (cases "x = p") auto
  ultimately show ?thesis using don unfolding dist_done_def eq by simp
qed

lemma dist_done_out:
  assumes T: "p \<in> T" "T \<subseteq> dist_matches d" "finite T" and inv: "dist_inv d" and r: "\<not> room p w"
    and w1: "\<forall>r \<in> dist_all d - {p}. room r w1 = room r w \<and> sent r w1 = sent r w" "sent p w1 = sent p w" "\<not> room p w1"
    and d1: "dist_all d1 = dist_all d" "dist_matching d1 = dist_matching d - 1" "dist_more d1 = dist_more d"
      "dist_actives d1 = dist_actives d - {p}" "dist_eligibles d1 = dist_eligibles d - {p}"
      "dist_matches d1 = dist_matches d - {p}"
    and don: "dist_done room sent (T - {p}) d1 m w1 k d' w'"
  shows "dist_done room sent T d m w (k + 1) d' w'"
proof -
  have sub: "T \<subseteq> dist_all d" using T(2) dist_front_sub by blast
  have eq: "{x \<in> T. \<not> room x w} = insert p {x \<in> T - {p}. \<not> room x w1}" using T(1) r w1(1) sub by auto
  have c: "card {x \<in> T. \<not> room x w} = Suc (card {x \<in> T - {p}. \<not> room x w1})"
    unfolding eq using T(3) by (subst card_insert_disjoint) auto
  have "sent x w' = (if x \<in> T \<and> room x w then sent x w @ [m] else sent x w)" if "x \<in> dist_all d" for x
    using don that w1 r d1(1) unfolding dist_done_def by (cases "x = p") auto
  moreover have "x \<in> T \<and> room x w \<and> \<not> has_more m \<or> room x w' = room x w" if "x \<in> dist_all d" for x
    using don that w1 r d1(1) unfolding dist_done_def by (cases "x = p") auto
  moreover have "k = card {x \<in> T - {p}. \<not> room x w1}"
    "dist_actives d' = dist_actives d - {p} - {x \<in> T - {p}. \<not> room x w1}"
    "dist_eligibles d' = dist_eligibles d - {p} - {x \<in> T - {p}. \<not> room x w1}"
    "dist_inv d'" "dist_all d' = dist_all d" "dist_more d' = dist_more d"
    using don d1 by (simp_all add: dist_done_def)
  moreover have "dist_matches d' = dist_matches d1 - {x \<in> T - {p}. \<not> room x w1}" using don unfolding dist_done_def by blast
  then have "dist_matches d' = dist_matches d - {x \<in> T. \<not> room x w}" unfolding d1(6) eq by blast
  ultimately show ?thesis unfolding dist_done_def c by (auto simp: eq)
qed

context outbound
begin

lemma dist_loop_ok:
  assumes "dist_inv d" "good (dist_all d) w" "msg_check m"
  shows "\<exists>k d' w'. dist_loop wr fl i m failed d w = Some (failed + k, d', w') \<and> good (dist_all d) w' \<and> wmem w' = wmem w \<and>
    dist_done room sent (dist_todo i d) d m w k d' w'"
  using assms(1,2)
proof (induction "dist_matching d - i" arbitrary: i d w failed)
  case 0
  then have "dist_todo i d = {}" by (simp add: dist_todo_def)
  then show ?case using 0 by (subst dist_loop.simps) (simp add: dist_done_def)
next
  case (Suc n)
  have i: "i < dist_matching d" using Suc.hyps(2) by simp
  have le: "dist_matching d \<le> length (items (dist_pipes d))" using Suc.prems(1) by (simp add: dist_inv_def)
  define p where "p = items (dist_pipes d) ! i"
  have at: "array_at (dist_pipes d) i = Some p" and pd: "p \<in> dist_all d" using i le by (simp_all add: array_at_def p_def)
  note todo = dist_todo_next[OF Suc.prems(1) i p_def]
  obtain b w1 where w1: "wr p m w = Some (b, w1)" "good (dist_all d) w1" "b = room p w"
    "\<forall>r \<in> dist_all d - {p}. room r w1 = room r w \<and> sent r w1 = sent r w"
    "sent p w1 = (if b then sent p w @ [m] else sent p w)" "wmem w1 = wmem w" "b \<and> has_more m \<or> \<not> b \<longrightarrow> room p w1 = b"
    using wr_law[OF Suc.prems(2) pd assms(3)] by blast
  show ?case
  proof (cases b)
    case True
    obtain w2 where w2: "(if \<not> has_more m then fl p w1 else Some w1) = Some w2" "good (dist_all d) w2"
      "\<forall>r \<in> dist_all d. room r w2 = room r w1 \<and> sent r w2 = sent r w1" "wmem w2 = wmem w1"
      using fl_law[OF w1(2) pd] w1(2) by (cases "has_more m") auto
    have wrt: "dist_write wr fl p m d w = Some (True, d, w2)" using w1(1) w2(1) True by (simp add: dist_write_def)
    have n: "n = dist_matching d - (i + 1)" using Suc.hyps(2) by simp
    obtain k d' w' where r: "dist_loop wr fl (i + 1) m failed d w2 = Some (failed + k, d', w')" "good (dist_all d) w'"
      "wmem w' = wmem w2" "dist_done room sent (dist_todo (i + 1) d) d m w2 k d' w'"
      using Suc.hyps(1)[OF n Suc.prems(1) w2(2), of failed] by blast
    have "dist_loop wr fl i m failed d w = Some (failed + k, d', w')"
      using i at wrt r(1) by (subst dist_loop.simps) simp
    moreover have "dist_done room sent (dist_todo i d) d m w k d' w'"
    proof (rule dist_done_take[OF todo _ pd _ _ _ _ r(4)])
      show "dist_todo (i + 1) d \<subseteq> dist_all d" using dist_todo_sub dist_front_sub by blast
      show "room p w" using True w1(3) by simp
      show "\<forall>r \<in> dist_all d - {p}. room r w2 = room r w \<and> sent r w2 = sent r w" using w2(3) w1(4) by auto
      show "sent p w2 = sent p w @ [m]" using w2(3) w1(5) pd True by simp
      show "has_more m \<longrightarrow> room p w2" using w2(3) w1(7) pd True by simp
    qed
    ultimately show ?thesis using r(2,3) w2(4) w1(6) by auto
  next
    case False
    obtain d1 where d1: "dist_out p d = Some d1" "dist_inv d1" "dist_all d1 = dist_all d"
      "dist_matching d1 = dist_matching d - 1" "dist_more d1 = dist_more d"
      "take (dist_matching d - 1) (items (dist_pipes d1)) = take (dist_matching d - 1) (list_swap i (dist_matching d - 1) (items (dist_pipes d)))"
      "dist_actives d1 = dist_actives d - {p}" "dist_eligibles d1 = dist_eligibles d - {p}" "dist_matches d1 = dist_matches d - {p}"
      by (rule dist_out_ok[OF Suc.prems(1) i p_def[symmetric]])
    have wrt: "dist_write wr fl p m d w = Some (False, d1, w1)" using w1(1) d1(1) False by (simp add: dist_write_def)
    have n: "n = dist_matching d1 - i" using Suc.hyps(2) d1(4) by simp
    have g1: "good (dist_all d1) w1" using w1(2) d1(3) by simp
    obtain k d' w' where r: "dist_loop wr fl i m (failed + 1) d1 w1 = Some (failed + 1 + k, d', w')" "good (dist_all d1) w'"
      "wmem w' = wmem w1" "dist_done room sent (dist_todo i d1) d1 m w1 k d' w'"
      using Suc.hyps(1)[OF n d1(2) g1, of "failed + 1"] by blast
    have "dist_loop wr fl i m failed d w = Some (failed + (k + 1), d', w')"
      using i at wrt r(1) by (subst dist_loop.simps) simp
    moreover have "dist_done room sent (dist_todo i d) d m w (k + 1) d' w'"
    proof (rule dist_done_out[OF _ dist_todo_sub _ Suc.prems(1) _ w1(4) _ _ d1(3,4,5,7,8,9)])
      show "p \<in> dist_todo i d" using todo(1) by simp
      show "finite (dist_todo i d)" by (simp add: dist_todo_def)
      show "\<not> room p w" using False w1(3) by simp
      show "sent p w1 = sent p w" using w1(5) False by simp
      show "\<not> room p w1" using w1(7) False by simp
      show "dist_done room sent (dist_todo i d - {p}) d1 m w1 k d' w'"
        using r(4) dist_todo_out[OF Suc.prems(1) i p_def d1(4,6)] by simp
    qed
    ultimately show ?thesis using r(2,3) d1(3) w1(6) by auto
  qed
qed

end

subsection \<open>The references of the copies\<close>

lemma has_more_shared [simp]: "has_more (mark_shared m) = has_more m"
proof -
  have "(mflags m OR flag_shared) AND flag_more = mflags m AND flag_more" by (simp add: bit.conj_disj_distrib2)
  then show ?thesis by (simp add: has_more_def mark_shared_def)
qed

lemma refs_inv_replicate:
  assumes "mtype m \<noteq> type_lmsg" shows "refs_inv (replicate_mset n m + M) h = refs_inv M h"
  by (induction n) (simp_all add: refs_inv_skip assms)

lemma add_refs_shared:
  assumes "msg_add_refs (int k) m h = Some (m', h')" "k \<noteq> 0" "mtype m = type_lmsg" shows "shared m'"
  using assms by (cases "shared m") (auto simp: msg_add_refs_def run_simps or_shared)

text \<open>Giving back the references of the copies that were not written.\<close>

lemma give_back_ok:
  assumes refs: "refs_inv (replicate_mset n m + R) h" and m: "msg_check m" and k: "0 < k" "k \<le> n" "n < 2 ^ 32"
    and sh: "mtype m = type_lmsg \<Longrightarrow> shared m \<or> n = 1"
  shows "\<exists>b m' h'. msg_rm_refs (int k) m h = Some (b, m', h') \<and> refs_inv (replicate_mset (n - k) m + R) h'"
proof (cases "mtype m = type_lmsg \<and> shared m")
  case True
  have e: "replicate_mset n m + R = replicate_mset k m + (replicate_mset (n - k) m + R)"
    by (rule multiset_eqI) (use k in simp)
  have "k < 2 ^ 32" using k by simp
  from msg_rm_refs_ok[OF refs[unfolded e] _ _ k(1) this] True show ?thesis by blast
next
  case False
  have rm: "msg_rm_refs (int k) m h = (do { (_, m, h) \<leftarrow> msg_close m h; Some (False, m, h) })"
    using False k by (auto simp: msg_rm_refs_def)
  show ?thesis
  proof (cases "mtype m = type_lmsg")
    case True
    then have "n = 1" "k = 1" using sh False k by auto
    then show ?thesis using msg_close_ok[of m R h] refs m rm by auto
  next
    case nl: False
    then have "refs_inv (add_mset m R) h" using refs by (simp add: refs_inv_replicate refs_inv_skip)
    then show ?thesis using msg_close_ok[of m R h] m rm nl by (auto simp: refs_inv_replicate)
  qed
qed

lemma card_matches: "dist_inv d \<Longrightarrow> card (dist_matches d) = dist_matching d"
  by (auto simp: dist_front_def dist_inv_def array_inv_def distinct_card)

lemma dist_todo_0 [simp]: "dist_todo 0 d = dist_matches d"
  by (simp add: dist_todo_def dist_front_def)

lemma dist_done_mem [simp]:
  "dist_done pipe_room pipe_sent T d m (w\<lparr>wmem := h\<rparr>) k d' w' = dist_done pipe_room pipe_sent T d m w k d' w'"
  "dist_done pipe_room pipe_sent T d m w k d' (w'\<lparr>wmem := h\<rparr>) = dist_done pipe_room pipe_sent T d m w k d' w'"
  by (simp_all only: dist_done_def wpipes.mem_law)

lemma dist_distribute_ok:
  assumes inv: "dist_inv d" and g: "out_good (dist_all d) w" and refs: "refs_inv (add_mset m R) (wmem w)" and m: "msg_check m"
    and sz: "size R + dist_matching d + 1 < 2 ^ 32"
  shows "\<exists>c m' k d' w'. dist_distribute pipe_write pipe_flush d m w = Some (m', d', w') \<and> (c = m \<or> c = mark_shared m) \<and>
    out_good (dist_all d) w' \<and> dist_done pipe_room pipe_sent (dist_matches d) d c w k d' w' \<and>
    refs_inv (replicate_mset (dist_matching d - k) c + R) (wmem w')"
proof -
  consider "dist_matching d = 0" | "0 < dist_matching d" "msg_is_vsm m" | "0 < dist_matching d" "\<not> msg_is_vsm m" by auto
  then show ?thesis
  proof cases
    case 1
    obtain h where h: "close_msg m w = Some (m\<lparr>mtype := 0\<rparr>, w\<lparr>wmem := h\<rparr>)" "refs_inv R h" by (rule close_msg_ok[OF refs m])
    have "dist_done pipe_room pipe_sent (dist_matches d) d m w 0 d (w\<lparr>wmem := h\<rparr>)"
      using 1 inv by (simp add: dist_done_def dist_front_def wpipes.mem_law)
    then show ?thesis using h 1 g by (auto simp: dist_distribute_def wpipes.mem_law)
  next
    case 2
    obtain k d' w' where r: "dist_loop pipe_write pipe_flush 0 m 0 d w = Some (k, d', w')" "out_good (dist_all d) w'"
      "wmem w' = wmem w" "dist_done pipe_room pipe_sent (dist_matches d) d m w k d' w'"
      using wpipes.dist_loop_ok[OF inv g m, of 0 0] by auto
    have "refs_inv (add_mset m R) (wmem w')" using refs r(3) by simp
    from close_msg_ok[OF this m] obtain h where h: "close_msg m w' = Some (m\<lparr>mtype := 0\<rparr>, w'\<lparr>wmem := h\<rparr>)" "refs_inv R h" by blast
    have "mtype m \<noteq> type_lmsg" using 2(2) by (simp add: msg_is_vsm_def)
    then have "refs_inv (replicate_mset (dist_matching d - k) m + R) h" using h(2) by (simp add: refs_inv_replicate)
    moreover have "dist_done pipe_room pipe_sent (dist_matches d) d m w k d' (w'\<lparr>wmem := h\<rparr>)"
      using r(4) by simp
    moreover have "dist_distribute pipe_write pipe_flush d m w = Some (msg_init (m\<lparr>mtype := 0\<rparr>), d', w'\<lparr>wmem := h\<rparr>)"
      using 2 r(1) h(1) by (simp add: dist_distribute_def)
    ultimately show ?thesis using r(2) by (auto simp: wpipes.mem_law)
  next
    case 3
    define n where "n = dist_matching d"
    have n: "0 < n" "n < 2 ^ 32" and n1: "n - 1 + 1 = n" using 3 sz by (simp_all add: n_def)
    obtain c h where c: "msg_add_refs (int (n - 1)) m (wmem w) = Some (c, h)" "c = m \<or> c = mark_shared m" "refs_inv (replicate_mset n c + R) h"
      using msg_add_refs_ok[OF refs, of "n - 1", unfolded n1] sz m n1 n_def by auto
    have cc: "msg_check c" using c(2) m by auto
    have sh: "shared c \<or> n = 1" if "mtype c = type_lmsg"
      using add_refs_shared[OF c(1)] that c(2) n by (cases "n = 1") auto
    have gh: "out_good (dist_all d) (w\<lparr>wmem := h\<rparr>)" using g by (simp add: wpipes.mem_law)
    obtain k d' w' where r: "dist_loop pipe_write pipe_flush 0 c 0 d (w\<lparr>wmem := h\<rparr>) = Some (k, d', w')" "out_good (dist_all d) w'"
      "wmem w' = h" "dist_done pipe_room pipe_sent (dist_matches d) d c (w\<lparr>wmem := h\<rparr>) k d' w'"
      using wpipes.dist_loop_ok[OF inv gh cc, of 0 0] by auto
    have don: "dist_done pipe_room pipe_sent (dist_matches d) d c w k d' w'" using r(4) by simp
    have i1: "int (dist_matching d) - 1 = int (n - 1)" using n by (simp add: n_def)
    show ?thesis
    proof (cases "k = 0")
      case True
      then have "dist_distribute pipe_write pipe_flush d m w = Some (msg_init c, d', w')"
        using 3 c(1) r(1) i1 by (simp add: dist_distribute_def)
      moreover have "refs_inv (replicate_mset (dist_matching d - k) c + R) (wmem w')" using True r(3) c(3) by (simp add: n_def)
      ultimately show ?thesis using don r(2) c(2) by blast
    next
      case False
      have "k \<le> card (dist_matches d)" using don unfolding dist_done_def by (auto intro!: card_mono simp: dist_front_def)
      then have kn: "k \<le> n" using card_matches[OF inv] by (simp add: n_def)
      obtain b m' h' where g: "msg_rm_refs (int k) c h = Some (b, m', h')" "refs_inv (replicate_mset (n - k) c + R) h'"
        using give_back_ok[OF c(3) cc _ kn n(2) sh] False by auto
      have "dist_distribute pipe_write pipe_flush d m w = Some (msg_init m', d', w'\<lparr>wmem := h'\<rparr>)"
        using 3 c(1) r(1,3) i1 False g(1) by (simp add: dist_distribute_def)
      moreover have "dist_done pipe_room pipe_sent (dist_matches d) d c w k d' (w'\<lparr>wmem := h'\<rparr>)"
        using don by simp
      moreover have "out_good (dist_all d) (w'\<lparr>wmem := h'\<rparr>)" using r(2) by (simp add: wpipes.mem_law)
      moreover have "refs_inv (replicate_mset (dist_matching d - k) c + R) (wmem (w'\<lparr>wmem := h'\<rparr>))" using g(2) by (simp add: n_def)
      ultimately show ?thesis using c(2) by blast
    qed
  qed
qed

lemma dist_send_matching_ok:
  assumes "dist_inv d" "out_good (dist_all d) w" "refs_inv (add_mset m R) (wmem w)" "msg_check m"
    and "size R + dist_matching d + 1 < 2 ^ 32"
  shows "\<exists>c m' d' w'. dist_send_to_matching pipe_write pipe_flush d m w = Some (m', d', w') \<and> (c = m \<or> c = mark_shared m) \<and>
    dist_inv d' \<and> dist_all d' = dist_all d \<and> out_good (dist_all d) w' \<and> dist_more d' = has_more m \<and>
    (\<forall>p \<in> dist_all d. pipe_sent p w' =
       (if p \<in> dist_matches d \<and> pipe_room p w then pipe_sent p w @ [c] else pipe_sent p w)) \<and>
    refs_inv (replicate_mset (card {p \<in> dist_matches d. pipe_room p w}) c + R) (wmem w') \<and>
    dist_eligibles d' = dist_eligibles d - {p \<in> dist_matches d. \<not> pipe_room p w} \<and>
    dist_actives d' = (if has_more m then dist_actives d - {p \<in> dist_matches d. \<not> pipe_room p w} else dist_eligibles d') \<and>
    dist_matches d' = dist_matches d - {p \<in> dist_matches d. \<not> pipe_room p w} \<and>
    (\<forall>p \<in> dist_all d. p \<in> dist_matches d \<and> pipe_room p w \<and> \<not> has_more m \<or> pipe_room p w' = pipe_room p w)"
proof -
  obtain c m' k d1 w' where r: "dist_distribute pipe_write pipe_flush d m w = Some (m', d1, w')" "c = m \<or> c = mark_shared m"
    "out_good (dist_all d) w'" "dist_done pipe_room pipe_sent (dist_matches d) d c w k d1 w'"
    "refs_inv (replicate_mset (dist_matching d - k) c + R) (wmem w')"
    using dist_distribute_ok[OF assms] by blast
  let ?M = "dist_matches d"
  have "card {p \<in> ?M. pipe_room p w} + card {p \<in> ?M. \<not> pipe_room p w} = card ?M"
    by (subst card_Un_disjoint[symmetric]) (auto simp: dist_front_def intro!: arg_cong[of _ _ card])
  then have n: "dist_matching d - k = card {p \<in> ?M. pipe_room p w}"
    using r(4) card_matches[OF assms(1)] by (simp add: dist_done_def)
  define d' where "d' = (if \<not> has_more m then d1\<lparr>dist_active := dist_eligible d1\<rparr> else d1)\<lparr>dist_more := has_more m\<rparr>"
  have run: "dist_send_to_matching pipe_write pipe_flush d m w = Some (m', d', w')"
    using r(1) by (simp add: dist_send_to_matching_def d'_def)
  have "dist_inv d1" using r(4) by (simp add: dist_done_def)
  then have "dist_inv d'" by (auto simp: d'_def dist_inv_def)
  moreover have "dist_all d' = dist_all d" "dist_more d' = has_more m" using r(4) by (simp_all add: d'_def dist_done_def)
  moreover have "dist_eligibles d' = dist_eligibles d - {p \<in> ?M. \<not> pipe_room p w}"
    using r(4) by (simp add: d'_def dist_done_def dist_front_def)
  moreover have "dist_actives d' = (if has_more m then dist_actives d - {p \<in> ?M. \<not> pipe_room p w} else dist_eligibles d')"
    using r(4) by (simp add: d'_def dist_done_def dist_front_def)
  moreover have "\<forall>p \<in> dist_all d. pipe_sent p w' = (if p \<in> ?M \<and> pipe_room p w then pipe_sent p w @ [c] else pipe_sent p w)"
    using r(4) by (simp add: dist_done_def)
  moreover have "dist_matches d1 = dist_matches d - {p \<in> ?M. \<not> pipe_room p w}" using r(4) unfolding dist_done_def by blast
  then have "dist_matches d' = dist_matches d - {p \<in> ?M. \<not> pipe_room p w}" by (simp add: d'_def dist_front_def)
  moreover have "\<forall>p \<in> dist_all d. p \<in> ?M \<and> pipe_room p w \<and> \<not> has_more m \<or> pipe_room p w' = pipe_room p w"
  proof -
    have "\<forall>p \<in> dist_all d. p \<in> ?M \<and> pipe_room p w \<and> \<not> has_more c \<or> pipe_room p w' = pipe_room p w"
      using r(4) unfolding dist_done_def by blast
    moreover have "has_more c = has_more m" using r(2) by auto
    ultimately show ?thesis by simp
  qed
  ultimately show ?thesis using run r(2,3,5) unfolding n by blast
qed

text \<open>The first elements of a list of which one was replaced by the last one of all.\<close>

lemma take_erased:
  assumes d: "distinct xs" and i: "i < k - 1" and n: "k < length xs"
  defines "ys \<equiv> take (k - 1) (butlast (xs[i := last xs]))"
  shows "xs ! (k - 1) \<notin> set ys" "last xs \<in> set ys" "last xs \<notin> set (take k xs)"
proof -
  have lst: "last xs = xs ! (length xs - 1)" using n by (intro last_conv_nth) auto
  have ys: "length ys = k - 1" "\<And>r. r < k - 1 \<Longrightarrow> ys ! r = xs ! (if r = i then length xs - 1 else r)"
    using n i lst by (auto simp: ys_def nth_butlast nth_list_update)
  have inj: "xs ! r = xs ! t \<longleftrightarrow> r = t" if "r < length xs" "t < length xs" for r t
    using nth_eq_iff_index_eq[OF d that] .
  show "xs ! (k - 1) \<notin> set ys"
  proof
    assume "xs ! (k - 1) \<in> set ys"
    then obtain r where r: "r < k - 1" "xs ! (if r = i then length xs - 1 else r) = xs ! (k - 1)" using ys by (auto simp: in_set_conv_nth)
    then have "(if r = i then length xs - 1 else r) = k - 1" using n i by (subst (asm) inj) auto
    then show False using r(1) n i by (auto split: if_splits)
  qed
  show "last xs \<in> set ys" using ys(1) ys(2)[OF i] i lst by (metis nth_mem)
  show "last xs \<notin> set (take k xs)"
  proof
    assume "last xs \<in> set (take k xs)"
    then obtain r where "r < k" "xs ! r = xs ! (length xs - 1)" using lst n by (auto simp: in_set_conv_nth)
    then show False using n by (subst (asm) inj) auto
  qed
qed

subsection \<open>The properties\<close>

text \<open>C21: A message sent to the matching pipes is appended exactly once to what was sent to each of them that
  has room, and to no other pipe; those without room leave the eligible pipes. The message heap
  counts exactly the copies that were written, whatever writes failed, so no content is freed
  while a pipe holds it and none is leaked. Until the last part of a message only the pipes that
  took every part so far stay active; after it all eligible ones are.\<close>

theorem dist_send_copies:
  assumes "dist_inv d" "out_good (dist_all d) w" "refs_inv (add_mset m R) (wmem w)" "msg_check m"
    and "size R + dist_matching d + 1 < 2 ^ 32"
  shows "\<exists>c m' d' w'. dist_send_to_matching pipe_write pipe_flush d m w = Some (m', d', w') \<and> (c = m \<or> c = mark_shared m) \<and>
    dist_inv d' \<and> dist_all d' = dist_all d \<and> out_good (dist_all d) w' \<and> dist_more d' = has_more m \<and>
    (\<forall>p \<in> dist_all d. pipe_sent p w' =
       (if p \<in> dist_matches d \<and> pipe_room p w then pipe_sent p w @ [c] else pipe_sent p w)) \<and>
    refs_inv (replicate_mset (card {p \<in> dist_matches d. pipe_room p w}) c + R) (wmem w') \<and>
    dist_eligibles d' = dist_eligibles d - {p \<in> dist_matches d. \<not> pipe_room p w} \<and>
    dist_actives d' = (if has_more m then dist_actives d - {p \<in> dist_matches d. \<not> pipe_room p w} else dist_eligibles d')"
  using dist_send_matching_ok[OF assms] by blast

theorem dist_send_copies_witness:
  "\<exists>(w :: unit world) d m' d' w'. dist_attach 4 dist_new = Some d \<and> pipe_room 4 w \<and> pipe_sent 4 w = [] \<and>
    dist_send_to_matching pipe_write pipe_flush (d\<lparr>dist_matching := 1\<rparr>) example_msg w = Some (m', d', w') \<and>
    pipe_sent 4 w' = [example_msg]"
proof -
  obtain w :: "unit world" where w: "out_good {4} w" "pipe_room 4 w" "pipe_sent 4 w = []" "wmem w = mem_new (\<lambda>_ _. True) (\<lambda>_. 0)"
    using pipe_example by blast
  let ?a = "\<lparr>items = [4], array_index = (\<lambda>_. -1)(4 := 0)\<rparr>"
  let ?d = "\<lparr>dist_pipes = ?a, dist_matching = 0, dist_active = 1, dist_eligible = 1, dist_more = False\<rparr>"
  have d: "dist_attach 4 dist_new = Some ?d"
    by (simp add: dist_attach_def dist_new_def array_push_back_def array_new_def array_swap_def array_size_def set_array_index_def
        Let_def elem_def list_swap_def fun_eq_iff)
  let ?e = "?d\<lparr>dist_matching := 1\<rparr>"
  have e: "dist_inv ?e" "dist_all ?e = {4}" "dist_matches ?e = {4}" by (simp_all add: dist_inv_def array_inv_def dist_front_def)
  have mk: "mark_shared example_msg = example_msg" by (simp add: mark_shared_def example_msg_def msg_init_def)
  have "refs_inv (add_mset example_msg {#}) (wmem w)" using mem_new_ok by (simp add: example_msg w)
  from dist_send_copies[OF e(1) _ this example_msg(1)] w(1) e(2,3)
  obtain m' d' w' where "dist_send_to_matching pipe_write pipe_flush ?e example_msg w = Some (m', d', w')"
    "pipe_sent 4 w' = (if pipe_room 4 w then pipe_sent 4 w @ [example_msg] else pipe_sent 4 w)"
    unfolding mk by auto
  then show ?thesis using w d by auto
qed

text \<open>\<^verbatim>\<open>terminated\<close> breaks the order of the array: when the deleted pipe is an active one that is not the
  last of them and an inactive pipe stands at the end, erasing moves that inactive pipe among
  the active ones, and the last active pipe falls out of the eligible ones. That pipe has room
  and will never be activated again, so it gets no message any more.\<close>

lemma dist_terminated_drops_pipe:
  assumes inv: "dist_inv d" and nm: "\<not> dist_more d" and i: "i < dist_active d - 1" "p = items (dist_pipes d) ! i"
    and n: "dist_active d < length (items (dist_pipes d))"
  shows "\<exists>d'. dist_terminated p d = Some d' \<and>
    items (dist_pipes d) ! (dist_active d - 1) \<in> dist_eligibles d - dist_eligibles d' \<and>
    items (dist_pipes d) ! (dist_active d - 1) \<noteq> p \<and>
    last (items (dist_pipes d)) \<in> dist_actives d' - dist_eligibles d"
proof -
  let ?xs = "items (dist_pipes d)" and ?k = "dist_active d"
  have inva: "array_inv (dist_pipes d)" and ae: "?k = dist_eligible d" and d: "distinct ?xs"
    using inv nm by (simp_all add: dist_inv_def array_inv_def)
  have ilt: "i < length ?xs" using i n by simp
  have ix: "array_ix p (dist_pipes d) = Some i" using array_ix_nth[OF inva ilt] i by simp
  have "p \<in> dist_all d" using i ilt by simp
  then obtain a j where a: "array_erase p (dist_pipes d) = Some a" "array_ix p (dist_pipes d) = Some j"
    "items a = butlast (?xs[j := last ?xs])"
    using array_erase_ok[OF inva] by metis
  define d' where "d' = (if i < dist_matching d then d\<lparr>dist_matching := dist_matching d - 1\<rparr> else d)\<lparr>dist_pipes := a,
    dist_active := ?k - 1, dist_eligible := dist_eligible d - 1\<rparr>"
  have "dist_terminated p d = Some d'" using ix a(1) i ae by (simp add: dist_terminated_def d'_def Let_def)
  moreover have "dist_actives d' = set (take (?k - 1) (butlast (?xs[i := last ?xs])))" "dist_eligibles d' = dist_actives d'"
    "dist_eligibles d = set (take ?k ?xs)" using a ix ae by (simp_all add: d'_def dist_front_def)
  moreover have "?xs ! (?k - 1) \<in> set (take ?k ?xs)" unfolding in_set_conv_nth using i n by (intro exI[of _ "?k - 1"]) simp
  moreover have "?xs ! (?k - 1) \<noteq> p" using d i n by (auto simp: nth_eq_iff_index_eq)
  ultimately show ?thesis using take_erased[OF d i(1) n] by simp
qed

theorem dist_terminated_drops_pipe_witness:
  "\<exists>d d'. dist_inv d \<and> items (dist_pipes d) = [1, 2, 3] \<and> dist_active d = 2 \<and> dist_terminated 1 d = Some d' \<and>
    2 \<in> dist_eligibles d - dist_eligibles d' \<and> 3 \<in> dist_actives d' - dist_eligibles d"
proof -
  let ?a = "\<lparr>items = [1, 2, 3], array_index = (\<lambda>_. -1)(1 := 0, 2 := 1, 3 := 2)\<rparr>"
  let ?d = "\<lparr>dist_pipes = ?a, dist_matching = 0, dist_active = 2, dist_eligible = 2, dist_more = False\<rparr>"
  have "dist_inv ?d" by (simp add: dist_inv_def array_inv_def numeral_3_eq_3 All_less_Suc)
  then show ?thesis using dist_terminated_drops_pipe[of ?d 0 1] by auto
qed

end
