(* ===== verification/Fq_Stream.thy ===== *)
theory Fq_Stream
  imports Fq
begin

text \<open>
  Fair queueing over pipes whose messages are whole: every pipe ends in the last part of a message,
  as \<^verbatim>\<open>pipe_t::flush\<close> leaves it. Then a receive never fails, the messages it returns are those
  of the pipes, and the loops of the sockets that receive until a message qualifies come to an end.
\<close>

unbundle bit_operations_syntax

definition whole :: "msg list \<Rightarrow> bool" where
  "whole ms \<longleftrightarrow> ms \<noteq> [] \<longrightarrow> \<not> has_more (last ms)"

lemma whole_Nil [simp]: "whole []"
  by (simp add: whole_def)

lemma whole_Cons: "whole (m # ms) \<longleftrightarrow> whole ms \<and> (has_more m \<longrightarrow> ms \<noteq> [])"
  by (auto simp: whole_def)

definition fq_msgs :: "fq \<Rightarrow> 's world \<Rightarrow> msg multiset" where
  "fq_msgs f w = (\<Sum>p \<in> fq_all f. mset (pipe_avail p w))"

text \<open>
  The state of a fair queue and of the message \<open>m\<close> that the caller receives into. A pipe that is
  not active has nothing to read: it was left when a read of it failed, and comes back when it
  is activated.
\<close>

definition fq_ready :: "msg multiset \<Rightarrow> fq \<Rightarrow> msg \<Rightarrow> 's world \<Rightarrow> bool" where
  "fq_ready R f m w \<longleftrightarrow> fq_inv f \<and> in_good (fq_all f) w \<and> (\<forall>p \<in> fq_all f. whole (pipe_avail p w)) \<and>
     (\<forall>p \<in> fq_all f - fq_actives f. pipe_avail p w = []) \<and>
     (fq_more f \<longrightarrow> fq_active f > 0 \<and> pipe_avail (items (fq_pipes f) ! fq_current f) w \<noteq> []) \<and>
     msg_check m \<and> refs_inv (add_mset m (R + fq_msgs f w)) (wmem w)"

lemma fq_msgs_cong: "fq_all f' = fq_all f \<Longrightarrow> \<forall>p \<in> fq_all f. pipe_avail p w' = pipe_avail p w \<Longrightarrow> fq_msgs f' w' = fq_msgs f w"
  by (simp add: fq_msgs_def)

lemma fq_msgs_read:
  fixes w w' :: "'s world"
  assumes "fq_all f' = fq_all f" "q \<in> fq_all f" "pipe_avail q w = m # pipe_avail q w'"
    "\<forall>p \<in> fq_all f - {q}. pipe_avail p w' = pipe_avail p w"
  shows "fq_msgs f w = add_mset m (fq_msgs f' w')"
proof -
  have 1: "fq_msgs f v = mset (pipe_avail q v) + (\<Sum>p \<in> fq_all f - {q}. mset (pipe_avail p v))" for v :: "'s world"
    unfolding fq_msgs_def by (rule sum.remove) (use assms(2) in auto)
  have "(\<Sum>p \<in> fq_all f - {q}. mset (pipe_avail p w')) = (\<Sum>p \<in> fq_all f - {q}. mset (pipe_avail p w))"
    by (intro sum.cong) (use assms(4) in auto)
  then show ?thesis using 1[of w] 1[of w'] assms(1,3) by (simp add: fq_msgs_def)
qed

text \<open>What one receive gives.\<close>

definition fq_got :: "fq \<Rightarrow> 's world \<Rightarrow> errno + addr \<Rightarrow> msg \<Rightarrow> fq \<Rightarrow> 's world \<Rightarrow> bool" where
  "fq_got f w rc m' f' w' \<longleftrightarrow> fq_all f' = fq_all f \<and> (case rc of
     Inl e \<Rightarrow> e = EAGAIN \<and> \<not> fq_more f \<and> \<not> fq_more f' \<and> fq_actives f' = {} \<and> \<not> has_more m' \<and> mtype m' = type_vsm \<and>
       (\<forall>p \<in> fq_all f. pipe_avail p w = [] \<and> pipe_avail p w' = [])
   | Inr q \<Rightarrow> q \<in> fq_actives f \<and> q \<in> fq_actives f' \<and> pipe_avail q w = m' # pipe_avail q w' \<and>
       (\<forall>p \<in> fq_all f - {q}. pipe_avail p w' = pipe_avail p w) \<and> fq_more f' = has_more m' \<and>
       (fq_more f \<longrightarrow> array_at (fq_pipes f) (fq_current f) = Some q) \<and>
       (has_more m' \<longrightarrow> array_at (fq_pipes f') (fq_current f') = Some q))"

lemma fq_got_all: "fq_got f w rc m' f' w' \<Longrightarrow> fq_all f' = fq_all f"
  by (simp add: fq_got_def)

lemma fq_recvpipe_ready:
  assumes rdy: "fq_ready R f m w"
  obtains rc m' f' w' where "fq_recvpipe pipe_read f m w = Some (rc, m', f', w')" "fq_ready R f' m' w'" "fq_got f w rc m' f' w'"
proof -
  have inv: "fq_inv f" "in_good (fq_all f) w" "\<forall>p \<in> fq_all f. whole (pipe_avail p w)" "msg_check m"
    "fq_more f \<longrightarrow> fq_active f > 0 \<and> pipe_avail (items (fq_pipes f) ! fq_current f) w \<noteq> []"
    "refs_inv (add_mset m (R + fq_msgs f w)) (wmem w)" "\<forall>p \<in> fq_all f - fq_actives f. pipe_avail p w = []" using rdy by (simp_all add: fq_ready_def)
  obtain h where h: "close_msg m w = Some (m\<lparr>mtype := 0\<rparr>, w\<lparr>wmem := h\<rparr>)" "refs_inv (R + fq_msgs f w) h"
    by (rule close_msg_ok[OF inv(6,4)])
  let ?w = "w\<lparr>wmem := h\<rparr>"
  have av: "pipe_avail p ?w = pipe_avail p w" for p by (rule rpipes.mem_law)
  have "in_good (fq_all f) ?w" using inv(2) by (simp add: rpipes.mem_law)
  then obtain r f' w' where r: "fq_loop pipe_read f ?w = Some (r, f', w')" "in_good (fq_all f) w'" "wmem w' = h"
    "fq_result pipe_avail f ?w r f' w'"
    using rpipes.fq_loop_ok[of f ?w] inv(1,5) by (auto simp: av)
  show ?thesis
  proof (cases r)
    case None
    then have g: "fq_inv f'" "fq_all f' = fq_all f" "fq_active f' = 0" "\<not> fq_more f'" "\<forall>p \<in> fq_actives f. pipe_avail p w = []"
      "\<forall>p \<in> fq_all f. pipe_avail p w' = pipe_avail p w" using r(4) by (simp_all add: fq_result_def av)
    have run: "fq_recvpipe pipe_read f m w = Some (Inl EAGAIN, msg_init (m\<lparr>mtype := 0\<rparr>), f', w')"
      using h r(1) None by (simp add: fq_recvpipe_def)
    have "\<not> fq_more f"
    proof
      assume "fq_more f"
      then have "fq_active f > 0" "pipe_avail (items (fq_pipes f) ! fq_current f) w \<noteq> []" using inv(5) by auto
      then show False using g(5) by (auto elim: fq_current_at[OF inv(1)])
    qed
    moreover have em: "\<forall>p \<in> fq_all f. pipe_avail p w = []" using g(5) inv(7) by blast
    ultimately have "fq_got f w (Inl EAGAIN) (msg_init (m\<lparr>mtype := 0\<rparr>)) f' w'"
      using g by (simp add: fq_got_def fq_actives_def msg_init_def has_more_def)
    moreover have "fq_ready R f' (msg_init (m\<lparr>mtype := 0\<rparr>)) w'"
      using em g inv h(2) r(2,3) fq_msgs_cong[OF g(2) g(6)] by (simp add: fq_ready_def msg_init_def msg_check_def refs_inv_skip)
    ultimately show ?thesis using that run by blast
  next
    case (Some mq)
    obtain m' q where mq: "mq = (m', q)" by (cases mq)
    have g: "fq_inv f'" "fq_all f' = fq_all f" "q \<in> fq_actives f" "q \<in> fq_actives f'" "pipe_avail q w = m' # pipe_avail q w'"
      "\<forall>p \<in> fq_all f - {q}. pipe_avail p w' = pipe_avail p w" "fq_more f' = has_more m'"
      "has_more m' \<longrightarrow> array_at (fq_pipes f') (fq_current f') = Some q" "fq_more f \<longrightarrow> array_at (fq_pipes f) (fq_current f) = Some q"
      "\<forall>p \<in> fq_actives f - {q}. pipe_avail p w \<noteq> [] \<longrightarrow> p \<in> fq_actives f'"
      using r(4) Some mq by (simp_all add: fq_result_def av)
    have q: "q \<in> fq_all f" using g(3) fq_actives_sub[of f] by auto
    have run: "fq_recvpipe pipe_read f m w = Some (Inr q, m', f', w')" using h r(1) Some mq by (simp add: fq_recvpipe_def)
    have wh: "whole (m' # pipe_avail q w')" using inv(3) q g(5) by metis
    have "\<forall>p \<in> fq_all f. whole (pipe_avail p w')" using inv(3) g(6) wh by (metis DiffI singletonD whole_Cons)
    moreover have "fq_more f' \<longrightarrow> fq_active f' > 0 \<and> pipe_avail (items (fq_pipes f') ! fq_current f') w' \<noteq> []"
      using g(4,7,8) wh by (cases "fq_active f'") (auto simp: whole_Cons array_at_def elem_def fq_actives_def split: if_splits)
    moreover have "\<forall>p \<in> fq_all f' - fq_actives f'. pipe_avail p w' = []"
    proof
      fix p assume p: "p \<in> fq_all f' - fq_actives f'"
      then have "p \<noteq> q" "p \<in> fq_all f" using g(2,4) by auto
      then show "pipe_avail p w' = []" using p g(6,10) inv(7) by (metis DiffD2 DiffI singletonD)
    qed
    moreover have "msg_check m'" using rpipes.check_law[OF inv(2) q] g(5) by simp
    moreover have "refs_inv (add_mset m' (R + fq_msgs f' w')) (wmem w')"
      using h(2) r(3) fq_msgs_read[OF g(2) q g(5,6)] by simp
    ultimately have "fq_ready R f' m' w'" using g(1,2) r(2) by (simp add: fq_ready_def)
    moreover have "fq_got f w (Inr q) m' f' w'" using g by (simp add: fq_got_def)
    ultimately show ?thesis using that run by blast
  qed
qed

subsection \<open>Receiving until a message qualifies\<close>

text \<open>
  The loop of \<^verbatim>\<open>dealer_t\<close>, \<^verbatim>\<open>router_t\<close> and \<^verbatim>\<open>xsub_t\<close>: receive until the message is one that \<open>P\<close>
  accepts or there is none. It ends, since every round takes a message out of the pipes.
\<close>

partial_function (option) recv_until :: "(msg \<Rightarrow> bool) \<Rightarrow> fq \<Rightarrow> msg \<Rightarrow> 's world \<Rightarrow>
    ((errno + addr) \<times> msg \<times> fq \<times> 's world) option" where
  "recv_until P f m w = do {
     (rc, m, f, w) \<leftarrow> fq_recvpipe pipe_read f m w;
     case rc of
       Inl e \<Rightarrow> Some (rc, m, f, w)
     | Inr q \<Rightarrow> if P m then Some (rc, m, f, w) else recv_until P f m w }"

text \<open>The messages passed over, from each pipe, and what the pipes hold before and after.\<close>

definition passed_over :: "(msg \<Rightarrow> bool) \<Rightarrow> fq \<Rightarrow> 's world \<Rightarrow> (addr \<Rightarrow> msg list) \<Rightarrow> errno + addr \<Rightarrow> msg \<Rightarrow> fq \<Rightarrow> 's world \<Rightarrow> bool" where
  "passed_over P f w skip rc m' f' w' \<longleftrightarrow> fq_all f' = fq_all f \<and> (\<forall>p m. m \<in> set (skip p) \<longrightarrow> \<not> P m) \<and> (case rc of
     Inl e \<Rightarrow> e = EAGAIN \<and> \<not> fq_more f' \<and> fq_actives f' = {} \<and> \<not> has_more m' \<and> mtype m' = type_vsm \<and> (\<forall>p \<in> fq_all f. pipe_avail p w = skip p \<and> pipe_avail p w' = [])
   | Inr q \<Rightarrow> P m' \<and> q \<in> fq_all f \<and> fq_more f' = has_more m' \<and>
       (has_more m' \<longrightarrow> array_at (fq_pipes f') (fq_current f') = Some q) \<and>
       (\<forall>p \<in> fq_all f. pipe_avail p w = skip p @ (if p = q then m' # pipe_avail p w' else pipe_avail p w')))"

lemma recv_until_ready:
  assumes "fq_ready R f m w"
  obtains rc m' f' w' skip where "recv_until P f m w = Some (rc, m', f', w')" "fq_ready R f' m' w'"
    "passed_over P f w skip rc m' f' w'"
  using assms
proof (induction "size (fq_msgs f w)" arbitrary: f m w thesis rule: less_induct)
  case less
  obtain rc m1 f1 w1 where 1: "fq_recvpipe pipe_read f m w = Some (rc, m1, f1, w1)" "fq_ready R f1 m1 w1" "fq_got f w rc m1 f1 w1"
    by (rule fq_recvpipe_ready[OF less.prems(2)])
  show ?case
  proof (cases rc)
    case (Inl e)
    then have "recv_until P f m w = Some (rc, m1, f1, w1)" using 1(1) by (simp add: recv_until.simps)
    moreover have "passed_over P f w (\<lambda>_. []) rc m1 f1 w1" using 1(3) Inl by (simp add: passed_over_def fq_got_def)
    ultimately show ?thesis using less.prems(1) 1(2) by blast
  next
    case (Inr q)
    have q: "fq_all f1 = fq_all f" "q \<in> fq_all f" "pipe_avail q w = m1 # pipe_avail q w1"
      "\<forall>p \<in> fq_all f - {q}. pipe_avail p w1 = pipe_avail p w" "fq_more f1 = has_more m1"
      "has_more m1 \<longrightarrow> array_at (fq_pipes f1) (fq_current f1) = Some q"
      using 1(3) Inr fq_actives_sub[of f] by (auto simp: fq_got_def)
    have av: "pipe_avail p w = (if p = q then m1 # pipe_avail p w1 else pipe_avail p w1)" if "p \<in> fq_all f" for p
      using q(3,4) that by simp
    show ?thesis
    proof (cases "P m1")
      case True
      then have "recv_until P f m w = Some (rc, m1, f1, w1)" using 1(1) Inr by (simp add: recv_until.simps)
      moreover have "passed_over P f w (\<lambda>_. []) rc m1 f1 w1" unfolding passed_over_def using q True Inr av by simp
      ultimately show ?thesis using less.prems(1) 1(2) by blast
    next
      case False
      have "size (fq_msgs f1 w1) < size (fq_msgs f w)" using fq_msgs_read[OF q(1-4)] by simp
      from less.hyps[OF this _ 1(2)] obtain rc2 m2 f2 w2 skip where 2: "recv_until P f1 m1 w1 = Some (rc2, m2, f2, w2)"
        "fq_ready R f2 m2 w2" "passed_over P f1 w1 skip rc2 m2 f2 w2" by blast
      have run: "recv_until P f m w = Some (rc2, m2, f2, w2)" using 1(1) 2(1) Inr False by (simp add: recv_until.simps)
      have "passed_over P f w (skip(q := m1 # skip q)) rc2 m2 f2 w2"
        using 2(3) False q(1) av unfolding passed_over_def by (cases rc2) auto
      then show ?thesis using less.prems(1) run 2(2) by blast
    qed
  qed
qed

subsection \<open>The heap plays no part in which message is received\<close>

abbreviation with_mem :: "mem \<Rightarrow> 'a \<times> 's world \<Rightarrow> 'a \<times> 's world" where
  "with_mem h \<equiv> map_prod id (\<lambda>w. w\<lparr>wmem := h\<rparr>)"

lemma set_mem_commute:
  "set_pipe p x (w\<lparr>wmem := h\<rparr>) = (set_pipe p x w)\<lparr>wmem := h\<rparr>"
  "set_upipe u y (w\<lparr>wmem := h\<rparr>) = (set_upipe u y w)\<lparr>wmem := h\<rparr>"
  "send_cmd q c (w\<lparr>wmem := h\<rparr>) = (send_cmd q c w)\<lparr>wmem := h\<rparr>"
  "get_pipe p (w\<lparr>wmem := h\<rparr>) = get_pipe p w"
  by (simp_all add: set_pipe_def set_upipe_def send_cmd_def get_pipe_def)

lemma pipe_delimit_mem: "pipe_delimit p (w\<lparr>wmem := h\<rparr>) = map_option (\<lambda>w. w\<lparr>wmem := h\<rparr>) (pipe_delimit p w)"
  by (cases "get_pipe p w") (auto simp: pipe_delimit_def set_mem_commute)

lemma pipe_read_mem: "pipe_read p (w\<lparr>wmem := h\<rparr>) = map_option (with_mem h) (pipe_read p w)"
proof (cases "get_pipe p w")
  case None
  then show ?thesis by (simp add: pipe_read_def set_mem_commute)
next
  case (Some x)
  show ?thesis
  proof (cases "pipe_readable x")
    case False
    then show ?thesis using Some by (simp add: pipe_read_def set_mem_commute)
  next
    case True
    show ?thesis
    proof (cases "upipes w (inpipe x) \<bind> ypipe_read message_pipe_granularity")
      case None
      then show ?thesis using Some True by (auto simp: pipe_read_def set_mem_commute split: Option.bind_splits)
    next
      case r: (Some mu)
      obtain m u where "mu = (m, u)" by (cases mu)
      then show ?thesis using Some True r
        by (auto simp: pipe_read_def set_mem_commute pipe_delimit_mem Let_def bind_map_option comp_def
            split: option.splits Option.bind_splits)
    qed
  qed
qed

lemma fq_loop_mem:
  "fq_loop pipe_read f (w\<lparr>wmem := h\<rparr>) = map_option (\<lambda>(r, f, w). (r, f, w\<lparr>wmem := h\<rparr>)) (fq_loop pipe_read f w)"
proof (induction "fq_active f" arbitrary: f w)
  case 0
  then show ?case by (simp add: fq_loop.simps)
next
  case (Suc n)
  then have act: "fq_active f > 0" by simp
  show ?case
  proof (cases "array_at (fq_pipes f) (fq_current f) \<bind> (\<lambda>p. pipe_read p w)")
    case None
    then show ?thesis using act by (subst (1 2) fq_loop.simps) (auto simp: pipe_read_mem split: Option.bind_splits)
  next
    case (Some mw)
    then obtain p where p: "array_at (fq_pipes f) (fq_current f) = Some p" "pipe_read p w = Some mw" by (auto simp: bind_Some_iff)
    obtain m w1 where mw: "mw = (m, w1)" by (cases mw)
    show ?thesis
    proof (cases m)
      case (Some m')
      then show ?thesis using act p mw by (subst (1 2) fq_loop.simps) (simp add: pipe_read_mem Let_def)
    next
      case None
      have ih: "fq_loop pipe_read f1 (w1\<lparr>wmem := h\<rparr>) = map_option (\<lambda>(r, f, w). (r, f, w\<lparr>wmem := h\<rparr>)) (fq_loop pipe_read f1 w1)"
        if "fq_deactivate (fq_current f) f = Some f1" for f1
        using Suc.hyps fq_deactivate_active[OF that] by simp
      show ?thesis using act p mw None
        by (subst (1 2) fq_loop.simps) (auto simp: pipe_read_mem ih zmq_assert_def split: Option.bind_splits)
    qed
  qed
qed

text \<open>Receiving with another heap and into another message: the same message from the same pipe.\<close>

lemma fq_recvpipe_mem:
  assumes "fq_recvpipe pipe_read f m w = Some (rc, m1, f1, w1)" "fq_ready R f m2 (w\<lparr>wmem := h2\<rparr>)"
  obtains m3 h3 where "fq_recvpipe pipe_read f m2 (w\<lparr>wmem := h2\<rparr>) = Some (rc, m3, f1, w1\<lparr>wmem := h3\<rparr>)" "rc = Inl EAGAIN \<or> m3 = m1"
proof -
  obtain m0 h where c: "close_msg m w = Some (m0, w\<lparr>wmem := h\<rparr>)" 
    using assms(1) by (auto simp: fq_recvpipe_def close_msg_def run_simps split: if_splits)
  have "refs_inv (add_mset m2 (R + fq_msgs f (w\<lparr>wmem := h2\<rparr>))) (wmem (w\<lparr>wmem := h2\<rparr>))" "msg_check m2"
    using assms(2) unfolding fq_ready_def by blast+
  from close_msg_ok[OF this] obtain h0 where c2: "close_msg m2 (w\<lparr>wmem := h2\<rparr>) = Some (m2\<lparr>mtype := 0\<rparr>, w\<lparr>wmem := h0\<rparr>)"
    by auto
  obtain r where l: "fq_loop pipe_read f (w\<lparr>wmem := h\<rparr>) = Some (r, f1, w1)"
    "rc = (case r of Some (m, p) \<Rightarrow> Inr p | None \<Rightarrow> Inl EAGAIN)" "m1 = (case r of Some (m, p) \<Rightarrow> m | None \<Rightarrow> msg_init m0)"
  proof -
    obtain r f0 w0 where l: "fq_loop pipe_read f (w\<lparr>wmem := h\<rparr>) = Some (r, f0, w0)"
      using assms(1) c by (auto simp: fq_recvpipe_def run_simps)
    then show ?thesis using that[of r] assms(1) c by (cases r) (auto simp: fq_recvpipe_def)
  qed
  then obtain v where v: "fq_loop pipe_read f w = Some (r, f1, v)" "w1 = v\<lparr>wmem := h\<rparr>" by (auto simp: fq_loop_mem)
  then have "fq_loop pipe_read f (w\<lparr>wmem := h0\<rparr>) = Some (r, f1, v\<lparr>wmem := h0\<rparr>)" by (simp add: fq_loop_mem)
  then have "fq_recvpipe pipe_read f m2 (w\<lparr>wmem := h2\<rparr>) =
      Some (rc, (case r of Some (m, p) \<Rightarrow> m | None \<Rightarrow> msg_init (m2\<lparr>mtype := 0\<rparr>)), f1, w1\<lparr>wmem := h0\<rparr>)"
    using c2 l(2) v(2) by (auto simp: fq_recvpipe_def split: option.splits)
  then show ?thesis using that l(2,3) by (auto split: option.splits)
qed

lemma recv_until_mem:
  assumes "fq_ready R f m w" "fq_ready R2 f m2 (w\<lparr>wmem := h2\<rparr>)" "recv_until P f m w = Some (rc, m1, f1, w1)"
  shows "\<exists>m3 h3. recv_until P f m2 (w\<lparr>wmem := h2\<rparr>) = Some (rc, m3, f1, w1\<lparr>wmem := h3\<rparr>) \<and> (rc = Inl EAGAIN \<or> m3 = m1)"
  using assms
proof (induction "size (fq_msgs f w)" arbitrary: f m w m2 h2 rule: less_induct)
  case less
  obtain rc0 m0 f0 w0 where 1: "fq_recvpipe pipe_read f m w = Some (rc0, m0, f0, w0)" "fq_ready R f0 m0 w0" "fq_got f w rc0 m0 f0 w0"
    by (rule fq_recvpipe_ready[OF less.prems(1)])
  obtain m3 h3 where 2: "fq_recvpipe pipe_read f m2 (w\<lparr>wmem := h2\<rparr>) = Some (rc0, m3, f0, w0\<lparr>wmem := h3\<rparr>)" "rc0 = Inl EAGAIN \<or> m3 = m0"
    by (rule fq_recvpipe_mem[OF 1(1) less.prems(2)])
  have rdy: "fq_ready R2 f0 m3 (w0\<lparr>wmem := h3\<rparr>)" using fq_recvpipe_ready[OF less.prems(2)] 2(1) by auto
  show ?case
  proof (cases rc0)
    case (Inl e)
    then show ?thesis using less.prems(3) 1(1) 2 by (auto simp: recv_until.simps)
  next
    case (Inr q)
    then have m3: "m3 = m0" using 2(2) by simp
    show ?thesis
    proof (cases "P m0")
      case True
      then show ?thesis using less.prems(3) 1(1) 2(1) Inr m3 by (auto simp: recv_until.simps)
    next
      case False
      have "size (fq_msgs f0 w0) < size (fq_msgs f w)"
        using fq_msgs_read[of f0 f q w m0 w0] 1(3) Inr fq_actives_sub[of f] by (auto simp: fq_got_def)
      from less.hyps[OF this 1(2) rdy] less.prems(3) 1(1) 2(1) Inr m3 False
      show ?thesis by (simp add: recv_until.simps)
    qed
  qed
qed

lemma recv_until_none:
  assumes "fq_ready R f m w" "fq_actives f = {}"
  obtains m' h where "recv_until P f m w = Some (Inl EAGAIN, m', f, w\<lparr>wmem := h\<rparr>)" "fq_ready R f m' (w\<lparr>wmem := h\<rparr>)"
proof -
  have 0: "fq_active f = 0" using assms by (auto simp: fq_ready_def fq_inv_def fq_actives_def)
  obtain rc m' f' w' where r: "fq_recvpipe pipe_read f m w = Some (rc, m', f', w')" "fq_ready R f' m' w'"
    by (rule fq_recvpipe_ready[OF assms(1)])
  then obtain m0 h where "close_msg m w = Some (m0, w\<lparr>wmem := h\<rparr>)" "rc = Inl EAGAIN" "f' = f" "w' = w\<lparr>wmem := h\<rparr>"
    using 0 by (auto simp: fq_recvpipe_def close_msg_def fq_loop.simps run_simps split: if_splits)
  then show ?thesis using that[of m' h] r by (simp add: recv_until.simps)
qed

subsection \<open>An example\<close>

lemma fq_ready_example:
  "\<exists>(w :: unit world) f. fq_attach 3 fq_new = Some f \<and> fq_ready {#} f example_msg w \<and> fq_all f = {3} \<and> \<not> fq_more f \<and>
    pipe_avail 3 w = [example_msg] \<and> out_good {4} w \<and> pipe_room 4 w \<and> pipe_sent 4 w = [] \<and> wmem w = mem_new (\<lambda>_ _. True) (\<lambda>_. 0)"
proof -
  obtain w :: "unit world" where w: "in_good {3} w" "pipe_avail 3 w = [example_msg]" "wmem w = mem_new (\<lambda>_ _. True) (\<lambda>_. 0)"
    "out_good {4} w" "pipe_room 4 w" "pipe_sent 4 w = []"
    using pipe_example by blast
  obtain f where f: "fq_attach 3 fq_new = Some f" "fq_inv f" "fq_all f = {3}" "fq_actives f = {3}" "fq_more f = False"
    by (rule fq_attach_ok[OF fq_new_inv(1), of 3]) simp_all
  have "fq_ready {#} f example_msg w"
    using w(1,2,3) f mem_new_ok by (simp add: fq_ready_def fq_msgs_def example_msg whole_def)
  then show ?thesis using f w by (intro exI[of _ w] exI[of _ f]) simp
qed

end
