(* ===== verification/Sock_Dealer.thy ===== *)
theory Sock_Dealer
  imports Fq_Stream Lb
begin

text \<open>
  \<^verbatim>\<open>dealer_t\<close> of src/dealer.cpp: messages are fair-queued from the inbound pipes and load-balanced
  to the outbound ones; the identity messages of the peers are dropped. The classes derived from
  it extend the record.
\<close>

unbundle bit_operations_syntax

record dealer =
  dealer_fq :: fq
  dealer_lb :: lb
  dealer_prefetched :: bool
  dealer_msg :: msg

definition dealer_new :: dealer where
  "dealer_new = \<lparr>dealer_fq = fq_new, dealer_lb = lb_new, dealer_prefetched = False, dealer_msg = msg_init msg_closed\<rparr>"

definition dealer_destroy :: "'r dealer_scheme \<Rightarrow> 's world \<Rightarrow> 's world option" where
  "dealer_destroy d w = do {
     (_, _, h) \<leftarrow> msg_close (dealer_msg d) (wmem w);
     lb_destroy (dealer_lb d);
     fq_destroy (dealer_fq d);
     Some (w\<lparr>wmem := h\<rparr>) }"

definition dealer_xattach_pipe :: "addr \<Rightarrow> 'r dealer_scheme \<Rightarrow> 'r dealer_scheme option" where
  "dealer_xattach_pipe p d = do {
     zmq_assert (p \<noteq> 0);
     f \<leftarrow> fq_attach p (dealer_fq d);
     l \<leftarrow> lb_attach p (dealer_lb d);
     Some (d\<lparr>dealer_fq := f, dealer_lb := l\<rparr>) }"

definition dealer_xsend :: "msg \<Rightarrow> 'r dealer_scheme \<Rightarrow> 's world \<Rightarrow> (rc \<times> msg \<times> 'r dealer_scheme \<times> 's world) option" where
  "dealer_xsend m d w = do {
     (rc, m, l, w) \<leftarrow> lb_send pipe_write pipe_flush (dealer_lb d) m w;
     Some (rc, m, d\<lparr>dealer_lb := l\<rparr>, w) }"

abbreviation no_identity :: "msg \<Rightarrow> bool" where
  "no_identity m \<equiv> mflags m AND flag_identity = 0"

definition dealer_xrecv :: "msg \<Rightarrow> 'r dealer_scheme \<Rightarrow> 's world \<Rightarrow> (rc \<times> msg \<times> 'r dealer_scheme \<times> 's world) option" where
  "dealer_xrecv m d w =
     (if dealer_prefetched d then do {
        (rc, m, pm, h) \<leftarrow> msg_move m (dealer_msg d) (wmem w);
        zmq_assert (rc = Inr ());
        Some (Inr (), m, d\<lparr>dealer_msg := pm, dealer_prefetched := False\<rparr>, w\<lparr>wmem := h\<rparr>) }
      else do {
        (rc, m, f, w) \<leftarrow> recv_until no_identity (dealer_fq d) m w;
        Some (map_sum id (\<lambda>_. ()) rc, m, d\<lparr>dealer_fq := f\<rparr>, w) })"

definition dealer_xhas_in :: "'r dealer_scheme \<Rightarrow> 's world \<Rightarrow> (bool \<times> 'r dealer_scheme \<times> 's world) option" where
  "dealer_xhas_in d w =
     (if dealer_prefetched d then Some (True, d, w)
      else do {
        (rc, m, d, w) \<leftarrow> dealer_xrecv (dealer_msg d) d w;
        let d = d\<lparr>dealer_msg := m\<rparr>;
        if rc = Inl EAGAIN then Some (False, d, w)
        else do {
          zmq_assert (rc = Inr ());
          Some (True, d\<lparr>dealer_prefetched := True\<rparr>, w) } })"

definition dealer_xhas_out :: "'r dealer_scheme \<Rightarrow> 's world \<Rightarrow> (bool \<times> 'r dealer_scheme \<times> 's world) option" where
  "dealer_xhas_out d w = do {
     (b, l, w) \<leftarrow> lb_has_out pipe_check_write (dealer_lb d) w;
     Some (b, d\<lparr>dealer_lb := l\<rparr>, w) }"

definition dealer_xread_activated :: "addr \<Rightarrow> 'r dealer_scheme \<Rightarrow> 'r dealer_scheme option" where
  "dealer_xread_activated p d = do { f \<leftarrow> fq_activated p (dealer_fq d); Some (d\<lparr>dealer_fq := f\<rparr>) }"

definition dealer_xwrite_activated :: "addr \<Rightarrow> 'r dealer_scheme \<Rightarrow> 'r dealer_scheme option" where
  "dealer_xwrite_activated p d = do { l \<leftarrow> lb_activated p (dealer_lb d); Some (d\<lparr>dealer_lb := l\<rparr>) }"

definition dealer_xterminated :: "addr \<Rightarrow> 'r dealer_scheme \<Rightarrow> 'r dealer_scheme option" where
  "dealer_xterminated p d = do {
     f \<leftarrow> fq_terminated p (dealer_fq d);
     l \<leftarrow> lb_terminated p (dealer_lb d);
     Some (d\<lparr>dealer_fq := f, dealer_lb := l\<rparr>) }"

subsection \<open>The messages still to be received\<close>

text \<open>The state of the socket and of the message \<open>m\<close> that the caller receives into.\<close>

definition dealer_ready :: "msg multiset \<Rightarrow> 'r dealer_scheme \<Rightarrow> msg \<Rightarrow> 's world \<Rightarrow> bool" where
  "dealer_ready R d m w \<longleftrightarrow> msg_check (dealer_msg d) \<and> msg_check m \<and> (dealer_prefetched d \<longrightarrow> no_identity (dealer_msg d)) \<and>
     (dealer_prefetched d \<or> mtype (dealer_msg d) = type_vsm) \<and>
     fq_ready (add_mset (dealer_msg d) R) (dealer_fq d) m w"

lemma msg_init_basic: "mtype (msg_init m) = type_vsm" "mflags (msg_init m) = 0"
  by (simp_all add: msg_init_def)

lemma vsm_not_held: "mtype m = type_vsm \<Longrightarrow> \<not> holds a m"
  by (simp add: holds_def)

lemma fq_ready_other:
  assumes "fq_ready R f m w" "msg_check m2" "refs_inv (add_mset m2 (R2 + fq_msgs f w)) h"
  shows "fq_ready R2 f m2 (w\<lparr>wmem := h\<rparr>)"
proof -
  have "fq_msgs f (w\<lparr>wmem := h\<rparr>) = fq_msgs f w" by (rule fq_msgs_cong) (simp_all add: rpipes.mem_law)
  then show ?thesis using assms by (simp add: fq_ready_def rpipes.mem_law)
qed

text \<open>The message that is swapped in for the one the caller receives into.\<close>

lemma fq_ready_swap:
  assumes "fq_ready (add_mset m2 R) f m w" "msg_check m2" shows "fq_ready (add_mset m R) f m2 w"
proof -
  have "refs_inv (add_mset m2 (add_mset m R + fq_msgs f w)) (wmem w)"
    using assms(1) by (simp add: fq_ready_def add_mset_commute)
  from fq_ready_other[OF assms(1,2) this] show ?thesis by simp
qed

lemma dealer_recv_direct:
  assumes "dealer_ready R d m w" "\<not> dealer_prefetched d"
  obtains rc m' f' w' skip where "dealer_xrecv m d w = Some (map_sum id (\<lambda>_. ()) rc, m', d\<lparr>dealer_fq := f'\<rparr>, w')"
    "recv_until no_identity (dealer_fq d) m w = Some (rc, m', f', w')"
    "dealer_ready R (d\<lparr>dealer_fq := f'\<rparr>) m' w'" "passed_over no_identity (dealer_fq d) w skip rc m' f' w'"
proof -
  have "fq_ready (add_mset (dealer_msg d) R) (dealer_fq d) m w" using assms(1) by (simp add: dealer_ready_def)
  from recv_until_ready[OF this] obtain rc m' f' w' skip where r: "recv_until no_identity (dealer_fq d) m w = Some (rc, m', f', w')"
    "fq_ready (add_mset (dealer_msg d) R) f' m' w'" "passed_over no_identity (dealer_fq d) w skip rc m' f' w'" by blast
  moreover have "msg_check m'" using r(2) by (simp add: fq_ready_def)
  ultimately show ?thesis using that assms by (simp add: dealer_xrecv_def dealer_ready_def)
qed

text \<open>The prefetched message is handed over.\<close>

lemma dealer_recv_prefetched:
  assumes "dealer_ready R d m w" "dealer_prefetched d"
  obtains h where "dealer_xrecv m d w = Some (Inr (), dealer_msg d,
      d\<lparr>dealer_msg := msg_init (dealer_msg d), dealer_prefetched := False\<rparr>, w\<lparr>wmem := h\<rparr>)"
    "dealer_ready R (d\<lparr>dealer_msg := msg_init (dealer_msg d), dealer_prefetched := False\<rparr>) (dealer_msg d) (w\<lparr>wmem := h\<rparr>)"
proof -
  have r: "msg_check (dealer_msg d)" "msg_check m" "fq_ready (add_mset (dealer_msg d) R) (dealer_fq d) m w"
    using assms(1) by (simp_all add: dealer_ready_def)
  then have "refs_inv (add_mset m (add_mset (dealer_msg d) (R + fq_msgs (dealer_fq d) w))) (wmem w)"
    by (simp add: fq_ready_def)
  from msg_move_ok[OF this r(2,1)] obtain h where h: "msg_move m (dealer_msg d) (wmem w) = Some (Inr (), dealer_msg d, msg_init (dealer_msg d), h)"
    "refs_inv (add_mset (dealer_msg d) (R + fq_msgs (dealer_fq d) w)) h" by blast
  have "refs_inv (add_mset (dealer_msg d) (add_mset (msg_init (dealer_msg d)) R + fq_msgs (dealer_fq d) w)) h"
    using h(2) by (simp add: add_mset_commute[of "dealer_msg d" "msg_init (dealer_msg d)"])
  from fq_ready_other[OF r(3,1) this] show ?thesis
    using that[of h] h(1) r(1) assms(2) by (simp add: dealer_xrecv_def dealer_ready_def msg_init_def msg_check_def)
qed

subsection \<open>The properties\<close>

text \<open>C22: Polling a \<^verbatim>\<open>dealer_t\<close> for input never changes what is received. \<^verbatim>\<open>xhas_in\<close> returns; it is true
  exactly when a receive would succeed; and the receive after it gives the same message as a
  receive without it, with the same fair queue and pipes left behind, although the message went
  through the prefetch buffer. Both skip the identity messages, however many there are.\<close>

theorem dealer_poll_transparent:
  assumes rdy: "dealer_ready R d m w" and np: "\<not> dealer_prefetched d"
  shows "\<exists>b d1 w1 rc m' m'' d' d'' w' h. dealer_xhas_in d w = Some (b, d1, w1) \<and> dealer_ready R d1 m w1 \<and>
    dealer_xrecv m d w = Some (rc, m', d', w') \<and> dealer_xrecv m d1 w1 = Some (rc, m'', d'', w'\<lparr>wmem := h\<rparr>) \<and>
    rc = (if b then Inr () else Inl EAGAIN) \<and> (b \<longrightarrow> m'' = m' \<and> no_identity m') \<and>
    dealer_fq d'' = dealer_fq d' \<and> dealer_lb d'' = dealer_lb d' \<and>
    (\<not> b \<longrightarrow> (\<forall>p \<in> fq_all (dealer_fq d). \<forall>x \<in> set (pipe_avail p w). \<not> no_identity x))"
proof -
  have r0: "msg_check (dealer_msg d)" "msg_check m" "mtype (dealer_msg d) = type_vsm"
    "fq_ready (add_mset (dealer_msg d) R) (dealer_fq d) m w" using rdy np by (simp_all add: dealer_ready_def)
  obtain rc m' f' w' skip where r: "dealer_xrecv m d w = Some (map_sum id (\<lambda>_. ()) rc, m', d\<lparr>dealer_fq := f'\<rparr>, w')"
    "recv_until no_identity (dealer_fq d) m w = Some (rc, m', f', w')" "dealer_ready R (d\<lparr>dealer_fq := f'\<rparr>) m' w'"
    "passed_over no_identity (dealer_fq d) w skip rc m' f' w'"
    by (rule dealer_recv_direct[OF rdy np])
  have sw: "fq_ready (add_mset m R) (dealer_fq d) (dealer_msg d) w" by (rule fq_ready_swap[OF r0(4,1)])
  have "fq_ready (add_mset m R) (dealer_fq d) (dealer_msg d) (w\<lparr>wmem := wmem w\<rparr>)" using sw by simp
  from recv_until_mem[OF r0(4) this r(2)]
  have "\<exists>m3 h3. recv_until no_identity (dealer_fq d) (dealer_msg d) w = Some (rc, m3, f', w'\<lparr>wmem := h3\<rparr>) \<and> (rc = Inl EAGAIN \<or> m3 = m')"
    by simp
  then obtain m3 h3 where p: "recv_until no_identity (dealer_fq d) (dealer_msg d) w = Some (rc, m3, f', w'\<lparr>wmem := h3\<rparr>)"
    "rc = Inl EAGAIN \<or> m3 = m'" by blast
  let ?w = "w'\<lparr>wmem := h3\<rparr>"
  obtain skip3 where rdy1: "fq_ready (add_mset m R) f' m3 ?w" "passed_over no_identity (dealer_fq d) w skip3 rc m3 f' ?w"
    using recv_until_ready[OF sw, of no_identity] p(1) by auto
  then have m3: "msg_check m3" by (simp add: fq_ready_def)
  have ret: "fq_ready (add_mset m3 R) f' m ?w" by (rule fq_ready_swap[OF rdy1(1) r0(2)])
  have poll: "dealer_xrecv (dealer_msg d) d w = Some (map_sum id (\<lambda>_. ()) rc, m3, d\<lparr>dealer_fq := f'\<rparr>, ?w)"
    using p(1) np by (simp add: dealer_xrecv_def)
  show ?thesis
  proof (cases rc)
    case (Inr q)
    have m': "m3 = m'" "no_identity m'" using p(2) r(4) Inr by (auto simp: passed_over_def)
    let ?d = "d\<lparr>dealer_fq := f', dealer_msg := m3, dealer_prefetched := True\<rparr>"
    have "dealer_xhas_in d w = Some (True, ?d, ?w)" using np poll Inr by (simp add: dealer_xhas_in_def)
    moreover have d1: "dealer_ready R ?d m ?w" using m3 r0(2) m' ret by (simp add: dealer_ready_def)
    moreover obtain h where "dealer_xrecv m ?d ?w = Some (Inr (), m3, ?d\<lparr>dealer_msg := msg_init m3, dealer_prefetched := False\<rparr>, w'\<lparr>wmem := h\<rparr>)"
      using dealer_recv_prefetched[OF d1] by auto
    ultimately show ?thesis using r(1) Inr m'
      by (intro exI[of _ True] exI[of _ ?d] exI[of _ ?w] exI[of _ "Inr ()"] exI[of _ m'] exI[of _ m3] exI[of _ "d\<lparr>dealer_fq := f'\<rparr>"]
        exI[of _ "?d\<lparr>dealer_msg := msg_init m3, dealer_prefetched := False\<rparr>"] exI[of _ w'] exI[of _ h]) simp
  next
    case (Inl e)
    have e: "e = EAGAIN" "mtype m3 = type_vsm" "fq_actives f' = {}" "\<forall>p \<in> fq_all (dealer_fq d). \<forall>x \<in> set (pipe_avail p w). \<not> no_identity x"
      using rdy1(2) Inl by (simp_all add: passed_over_def)
    let ?d = "d\<lparr>dealer_fq := f', dealer_msg := m3\<rparr>"
    have "dealer_xhas_in d w = Some (False, ?d, ?w)" using np poll Inl e(1) by (simp add: dealer_xhas_in_def)
    moreover have "dealer_ready R ?d m ?w" using m3 r0(2) np e(2) ret by (simp add: dealer_ready_def)
    moreover obtain m4 h where "recv_until no_identity f' m ?w = Some (Inl EAGAIN, m4, f', ?w\<lparr>wmem := h\<rparr>)"
      by (rule recv_until_none[OF ret e(3)])
    then have "dealer_xrecv m ?d ?w = Some (Inl EAGAIN, m4, ?d, w'\<lparr>wmem := h\<rparr>)" using np by (simp add: dealer_xrecv_def)
    ultimately show ?thesis using r(1) Inl e(1,4)
      by (intro exI[of _ False] exI[of _ ?d] exI[of _ ?w] exI[of _ "Inl EAGAIN"] exI[of _ m'] exI[of _ m4] exI[of _ "d\<lparr>dealer_fq := f'\<rparr>"]
        exI[of _ ?d] exI[of _ w'] exI[of _ h]) simp
  qed
qed

theorem dealer_poll_transparent_witness:
  "\<exists>(w :: unit world) (d :: dealer) d1 w1 m' d' w'. dealer_ready {#} d example_msg w \<and> pipe_avail 3 w = [example_msg] \<and>
    dealer_xhas_in d w = Some (True, d1, w1) \<and> dealer_xrecv example_msg d1 w1 = Some (Inr (), m', d', w')"
proof -
  obtain w :: "unit world" and f where w: "fq_ready {#} f example_msg w" "fq_all f = {3}" "pipe_avail 3 w = [example_msg]"
    using fq_ready_example by blast
  let ?d = "dealer_new\<lparr>dealer_fq := f\<rparr>"
  have "fq_ready {#msg_init msg_closed#} f example_msg w"
    using fq_ready_other[OF w(1) example_msg(1), of "{#msg_init msg_closed#}" "wmem w"] w(1)
    by (simp add: fq_ready_def add_mset_commute[of example_msg])
  then have d: "dealer_ready {#} ?d example_msg w"
    by (simp add: dealer_ready_def dealer_new_def example_msg msg_init_basic)
  have np: "\<not> dealer_prefetched ?d" by (simp add: dealer_new_def)
  have "no_identity example_msg" by (simp add: example_msg_def msg_init_def)
  with dealer_poll_transparent[OF d np] w(2,3)
  obtain d1 w1 m' d' w' where "dealer_xhas_in ?d w = Some (True, d1, w1)" "dealer_xrecv example_msg d1 w1 = Some (Inr (), m', d', w')"
    by (auto split: if_splits)
  then show ?thesis using d w(3) by blast
qed

end
