(* ===== verification/Tcp_Address.thy ===== *)
theory Tcp_Address
  imports Prelude
begin

text \<open>
  \<^verbatim>\<open>tcp_address_t\<close> and \<^verbatim>\<open>tcp_address_mask_t\<close> of src/tcp_address.cpp: TCP addresses as text, and
  the masks of the accept filters. What the operating system knows (interfaces and names) is
  a parameter; C strings are lists of characters without the final NUL.
\<close>

unbundle bit_operations_syntax

datatype family = AF_UNSPEC | AF_INET | AF_INET6

record sockaddr =
  sa_family :: family
  sa_port :: "16 word" \<comment> \<open>in host order\<close>
  sa_addr :: "u8 list"

datatype eai = EAI_MEMORY | EAI_OTHER

text \<open>\<^verbatim>\<open>getifaddrs\<close>, \<^verbatim>\<open>getaddrinfo\<close> (for a name, a family, and literals only or not) and
  \<^verbatim>\<open>getnameinfo\<close> with \<^verbatim>\<open>NI_NUMERICHOST\<close>.\<close>

record net =
  ifaddrs :: "(string \<times> sockaddr option) list"
  getaddrinfo :: "string \<Rightarrow> family \<Rightarrow> bool \<Rightarrow> eai + sockaddr"
  getnameinfo :: "sockaddr \<Rightarrow> string option"

definition no_addr :: sockaddr where
  "no_addr = \<lparr>sa_family = AF_UNSPEC, sa_port = 0, sa_addr = []\<rparr>"

definition addr_width :: "family \<Rightarrow> nat" where
  "addr_width f = (if f = AF_INET6 then 16 else 4)"

subsection \<open>C strings\<close>

definition is_space :: "char \<Rightarrow> bool" where
  "is_space c \<longleftrightarrow> c \<in> {CHR '' '', CHR 0x09, CHR 0x0A, CHR 0x0B, CHR 0x0C, CHR 0x0D}"

definition is_digit :: "char \<Rightarrow> bool" where
  "is_digit c \<longleftrightarrow> of_char c \<in> {48..57 :: nat}"

definition digit_of :: "char \<Rightarrow> int" where
  "digit_of c = int (of_char c) - 48"

definition digits_value :: "string \<Rightarrow> int" where
  "digits_value s = foldl (\<lambda>n c. 10 * n + digit_of c) 0 (takeWhile is_digit s)"

text \<open>\<^verbatim>\<open>atoi\<close>; undefined when the value does not fit.\<close>

definition atoi :: "string \<Rightarrow> int option" where
  "atoi s = (let s = dropWhile is_space s;
     n = (if s \<noteq> [] \<and> hd s = CHR ''-'' then - digits_value (tl s)
       else if s \<noteq> [] \<and> hd s = CHR ''+'' then digits_value (tl s) else digits_value s)
   in if - (2 ^ 31) \<le> n \<and> n < 2 ^ 31 then Some n else None)"

text \<open>\<^verbatim>\<open>strrchr\<close>: what stands before and behind the last occurrence.\<close>

definition split_last :: "char \<Rightarrow> string \<Rightarrow> (string \<times> string) option" where
  "split_last c s = (if c \<in> set s
     then Some (butlast (rev (dropWhile (\<lambda>d. d \<noteq> c) (rev s))), rev (takeWhile (\<lambda>d. d \<noteq> c) (rev s))) else None)"

text \<open>\<^verbatim>\<open><<\<close> of a number that is not negative.\<close>

fun show_nat :: "nat \<Rightarrow> string" where
  "show_nat n = (if n < 10 then [char_of (48 + n)] else show_nat (n div 10) @ [char_of (48 + n mod 10)])"

declare show_nat.simps [simp del]

subsection \<open>Addresses\<close>

definition tcp_address_init :: "sockaddr \<Rightarrow> nat \<Rightarrow> sockaddr option" where
  "tcp_address_init sa len = do {
     zmq_assert (len > 0);
     if sa_family sa = AF_INET \<and> len \<ge> 16 then Some sa
     else if sa_family sa = AF_INET6 \<and> len \<ge> 28 then Some sa
     else Some no_addr }"

fun find_nic :: "string \<Rightarrow> bool \<Rightarrow> (string \<times> sockaddr option) list \<Rightarrow> sockaddr option" where
  "find_nic nic ipv4only [] = None"
| "find_nic nic ipv4only ((name, None) # xs) = find_nic nic ipv4only xs"
| "find_nic nic ipv4only ((name, Some a) # xs) =
     (if (sa_family a = AF_INET \<or> \<not> ipv4only \<and> sa_family a = AF_INET6) \<and> nic = name then Some a
      else find_nic nic ipv4only xs)"

definition resolve_nic_name :: "net \<Rightarrow> string \<Rightarrow> bool \<Rightarrow> (errno + sockaddr) option" where
  "resolve_nic_name net nic ipv4only = do {
     zmq_assert (ifaddrs net \<noteq> []);
     Some (case find_nic nic ipv4only (ifaddrs net) of None \<Rightarrow> Inl ENODEV | Some a \<Rightarrow> Inr a) }"

definition resolve_interface :: "net \<Rightarrow> string \<Rightarrow> bool \<Rightarrow> (errno + sockaddr) option" where
  "resolve_interface net name ipv4only = do {
     let any = \<lparr>sa_family = (if ipv4only then AF_INET else AF_INET6), sa_port = 0,
       sa_addr = replicate (if ipv4only then 4 else 16) 0\<rparr>;
     if name = ''*'' then Some (Inr any)
     else do {
       r \<leftarrow> resolve_nic_name net name ipv4only;
       case r of
         Inr a \<Rightarrow> Some (Inr a)
       | Inl e \<Rightarrow> if e \<noteq> ENODEV then Some (Inl e)
           else Some (case getaddrinfo net name (if ipv4only then AF_INET else AF_INET6) True of
             Inl _ \<Rightarrow> Inl ENODEV | Inr a \<Rightarrow> Inr a) } }"

definition resolve_hostname :: "net \<Rightarrow> string \<Rightarrow> bool \<Rightarrow> errno + sockaddr" where
  "resolve_hostname net name ipv4only =
     (case getaddrinfo net name (if ipv4only then AF_INET else AF_INET6) False of
        Inl EAI_MEMORY \<Rightarrow> Inl ENOMEM | Inl _ \<Rightarrow> Inl EINVAL | Inr a \<Rightarrow> Inr a)"

definition strip_brackets :: "string \<Rightarrow> string" where
  "strip_brackets s = (if length s \<ge> 2 \<and> hd s = CHR ''['' \<and> last s = CHR '']'' then butlast (tl s) else s)"

definition parse_port :: "string \<Rightarrow> (errno + 16 word) option" where
  "parse_port s = (if s = ''*'' \<or> s = ''0'' then Some (Inr 0)
     else do {
       n \<leftarrow> atoi s;
       let port = word_of_int n;
       Some (if port = 0 then Inl EINVAL else Inr port) })"

definition tcp_resolve :: "net \<Rightarrow> string \<Rightarrow> bool \<Rightarrow> bool \<Rightarrow> (errno + sockaddr) option" where
  "tcp_resolve net name loc ipv4only =
     (case split_last CHR '':'' name of
        None \<Rightarrow> Some (Inl EINVAL)
      | Some (addr_str, port_str) \<Rightarrow> do {
          let addr_str = strip_brackets addr_str;
          p \<leftarrow> parse_port port_str;
          case p of Inl e \<Rightarrow> Some (Inl e)
          | Inr port \<Rightarrow> do {
              r \<leftarrow> (if loc then resolve_interface net addr_str ipv4only else Some (resolve_hostname net addr_str ipv4only));
              Some (case r of Inl e \<Rightarrow> Inl e | Inr a \<Rightarrow> Inr (a\<lparr>sa_port := port\<rparr>)) } })"

text \<open>The text of an address, or \<open>None\<close> for a return value that is not 0.\<close>

definition tcp_to_string :: "net \<Rightarrow> sockaddr \<Rightarrow> string option" where
  "tcp_to_string net a =
     (if sa_family a \<noteq> AF_INET \<and> sa_family a \<noteq> AF_INET6 then None
      else do {
        hbuf \<leftarrow> getnameinfo net a;
        if sa_family a = AF_INET6 then Some (''tcp://['' @ hbuf @ '']:'' @ show_nat (unat (sa_port a)))
        else Some (''tcp://'' @ hbuf @ '':'' @ show_nat (unat (sa_port a))) })"

definition tcp_addrlen :: "sockaddr \<Rightarrow> nat" where
  "tcp_addrlen a = (if sa_family a = AF_INET6 then 28 else 16)"

subsection \<open>Masks\<close>

record mask =
  mask_address :: sockaddr
  address_mask :: int

definition mask_new :: mask where
  "mask_new = \<lparr>mask_address = no_addr, address_mask = -1\<rparr>"

definition mask_resolve :: "net \<Rightarrow> string \<Rightarrow> bool \<Rightarrow> mask \<Rightarrow> (errno + mask) option" where
  "mask_resolve net name ipv4only k =
     (let (addr_str, mask_str) = (case split_last CHR ''/'' name of None \<Rightarrow> (name, '''') | Some x \<Rightarrow> x)
      in if split_last CHR ''/'' name \<noteq> None \<and> mask_str = '''' then Some (Inl EINVAL)
         else case resolve_hostname net addr_str ipv4only of
           Inl e \<Rightarrow> Some (Inl e)
         | Inr a \<Rightarrow>
             if mask_str = '''' then
               Some (Inr (k\<lparr>mask_address := a, address_mask := (if sa_family a = AF_INET6 then 128 else 32)\<rparr>))
             else if mask_str = ''0'' then Some (Inr (k\<lparr>mask_address := a, address_mask := 0\<rparr>))
             else do {
               n \<leftarrow> atoi mask_str;
               Some (if n < 1 \<or> sa_family a = AF_INET6 \<and> n > 128 \<or> sa_family a \<noteq> AF_INET6 \<and> n > 32 then Inl EINVAL
                 else Inr (k\<lparr>mask_address := a, address_mask := n\<rparr>)) })"

definition mask_to_string :: "net \<Rightarrow> mask \<Rightarrow> string option" where
  "mask_to_string net k =
     (if sa_family (mask_address k) \<noteq> AF_INET \<and> sa_family (mask_address k) \<noteq> AF_INET6 \<or> address_mask k = -1 then None
      else do {
        hbuf \<leftarrow> getnameinfo net (mask_address k);
        if sa_family (mask_address k) = AF_INET6
        then Some (''['' @ hbuf @ '']/'' @ show_nat (nat (address_mask k)))
        else Some (hbuf @ ''/'' @ show_nat (nat (address_mask k))) })"

text \<open>The bits of the last byte that are compared.\<close>

definition last_byte_bits :: "nat \<Rightarrow> u8" where
  "last_byte_bits n = ucast (push_bit (8 - n mod 8) (0xff :: u32) AND 0xff)"

definition match_address :: "mask \<Rightarrow> sockaddr \<Rightarrow> nat \<Rightarrow> bool option" where
  "match_address k ss ss_len = do {
     zmq_assert (address_mask k \<noteq> -1 \<and> ss_len \<ge> 16);
     if sa_family ss \<noteq> sa_family (mask_address k) then Some False
     else if address_mask k > 0 then do {
       zmq_assert (ss_len = (if sa_family ss = AF_INET6 then 28 else 16));
       let width = int (addr_width (sa_family ss)) * 8;
       let n = nat (if address_mask k < width then address_mask k else width);
       let full_bytes = n div 8;
       let ours = sa_addr (mask_address k);
       let theirs = sa_addr ss;
       if take full_bytes ours \<noteq> take full_bytes theirs then Some False
       else if last_byte_bits n \<noteq> 0 then do {
         x \<leftarrow> elem theirs full_bytes;
         y \<leftarrow> elem ours full_bytes;
         Some (x AND last_byte_bits n = y AND last_byte_bits n) }
       else Some True }
     else Some True }"

subsection \<open>Matching\<close>

text \<open>The bits of an address, the most significant one of its first byte first.\<close>

definition addr_bit :: "u8 list \<Rightarrow> nat \<Rightarrow> bool" where
  "addr_bit bs i = bit (bs ! (i div 8)) (7 - i mod 8)"

lemma bit_last_byte: "bit (last_byte_bits n) j \<longleftrightarrow> 8 - n mod 8 \<le> j \<and> j < 8"
proof -
  have m: "(0xff :: u32) = mask 8" by (simp add: mask_eq_exp_minus_1)
  show ?thesis unfolding last_byte_bits_def m
    by (simp only: bit_ucast_iff bit_and_iff bit_push_bit_iff bit_mask_iff possible_bit_word) auto
qed

lemma last_byte_zero: "last_byte_bits n = 0 \<longleftrightarrow> n mod 8 = 0"
proof
  assume 0: "last_byte_bits n = 0"
  show "n mod 8 = 0"
  proof (rule ccontr)
    assume "n mod 8 \<noteq> 0"
    then have "bit (last_byte_bits n) 7" by (simp add: bit_last_byte)
    then show False using 0 by simp
  qed
next
  assume "n mod 8 = 0"
  then show "last_byte_bits n = 0" by (intro bit_eqI) (simp add: bit_last_byte)
qed

lemma byte_eq_bits: "x = y \<longleftrightarrow> (\<forall>r < 8. bit x (7 - r) = bit y (7 - r))" for x y :: u8
proof
  assume b: "\<forall>r < 8. bit x (7 - r) = bit y (7 - r)"
  show "x = y"
  proof (rule bit_eqI)
    fix j assume "possible_bit TYPE(u8) j"
    then have "7 - j < 8" "7 - (7 - j) = j" by (auto simp: possible_bit_word)
    then show "bit x j = bit y j" using b by metis
  qed
qed simp

lemma last_byte_eq: "x AND last_byte_bits n = y AND last_byte_bits n \<longleftrightarrow> (\<forall>r < n mod 8. bit x (7 - r) = bit y (7 - r))"
  for x y :: u8
proof -
  have "x AND last_byte_bits n = y AND last_byte_bits n \<longleftrightarrow> (\<forall>j < 8. 8 - n mod 8 \<le> j \<longrightarrow> bit x j = bit y j)"
    by (auto simp: bit_eq_iff bit_and_iff bit_last_byte possible_bit_word)
  also have "\<dots> \<longleftrightarrow> (\<forall>r < n mod 8. bit x (7 - r) = bit y (7 - r))"
  proof (rule iffI; intro allI impI)
    fix r assume "\<forall>j < 8. 8 - n mod 8 \<le> j \<longrightarrow> bit x j = bit y j" "r < n mod 8"
    moreover have "n mod 8 < 8" by simp
    ultimately show "bit x (7 - r) = bit y (7 - r)" by auto
  next
    fix j assume a: "\<forall>r < n mod 8. bit x (7 - r) = bit y (7 - r)" and j: "j < 8" "8 - n mod 8 \<le> j"
    then have "7 - j < n mod 8" "7 - (7 - j) = j" by auto
    then show "bit x j = bit y j" using a by metis
  qed
  finally show ?thesis .
qed

lemma addr_bits_eq:
  assumes len: "length xs = k" "length ys = k" and n: "n \<le> 8 * k"
  shows "(\<forall>i < n. addr_bit xs i = addr_bit ys i) \<longleftrightarrow>
    take (n div 8) xs = take (n div 8) ys \<and> (\<forall>r < n mod 8. bit (xs ! (n div 8)) (7 - r) = bit (ys ! (n div 8)) (7 - r))"
    (is "?l \<longleftrightarrow> ?t \<and> ?r")
proof -
  have ix: "addr_bit zs (8 * q + r) = bit (zs ! q) (7 - r)" if "r < 8" for zs q r
    using that by (simp add: addr_bit_def)
  have "?t \<longleftrightarrow> (\<forall>q < n div 8. xs ! q = ys ! q)"
    using len n by (auto simp: list_eq_iff_nth_eq)
  also have "\<dots> \<longleftrightarrow> (\<forall>q < n div 8. \<forall>r < 8. addr_bit xs (8 * q + r) = addr_bit ys (8 * q + r))"
    by (simp add: ix byte_eq_bits)
  finally have t: "?t \<longleftrightarrow> (\<forall>q < n div 8. \<forall>r < 8. addr_bit xs (8 * q + r) = addr_bit ys (8 * q + r))" .
  have m8: "n mod 8 < 8" by simp
  have "addr_bit zs (8 * (n div 8) + r) = bit (zs ! (n div 8)) (7 - r)" if "r < n mod 8" for zs r
    by (rule ix) (use that m8 in linarith)
  then have "?r \<longleftrightarrow> (\<forall>r < n mod 8. addr_bit xs (8 * (n div 8) + r) = addr_bit ys (8 * (n div 8) + r))"
    by simp
  moreover have "?l \<longleftrightarrow> (\<forall>q < n div 8. \<forall>r < 8. addr_bit xs (8 * q + r) = addr_bit ys (8 * q + r)) \<and>
      (\<forall>r < n mod 8. addr_bit xs (8 * (n div 8) + r) = addr_bit ys (8 * (n div 8) + r))" (is "_ \<longleftrightarrow> ?a \<and> ?b")
  proof
    assume l: ?l
    have "8 * q + r < n" if "q < n div 8" "r < 8" for q r using that by linarith
    moreover have "8 * (n div 8) + r < n" if "r < n mod 8" for r using that mult_div_mod_eq[of 8 n] by linarith
    ultimately show "?a \<and> ?b" using l by blast
  next
    assume ab: "?a \<and> ?b"
    show ?l
    proof (intro allI impI)
      fix i assume i: "i < n"
      have e: "i = 8 * (i div 8) + i mod 8" by simp
      show "addr_bit xs i = addr_bit ys i"
      proof (cases "i div 8 < n div 8")
        case True
        moreover have "i mod 8 < 8" by simp
        ultimately show ?thesis using ab e by (metis (no_types))
      next
        case False
        then have "i div 8 = n div 8" using i by (metis div_le_mono less_imp_le_nat nat_less_le)
        moreover from this have "i mod 8 < n mod 8" using i e mult_div_mod_eq[of 8 n] by linarith
        ultimately show ?thesis using ab e by metis
      qed
    qed
  qed
  ultimately show ?thesis using t by blast
qed

text \<open>C23: The test of an accept filter, whole bytes with \<^verbatim>\<open>memcmp\<close> and the rest with a bit mask, is the
  definition of a CIDR mask: an address passes exactly when it has the family of the filter and
  the first bits of both, as many as the mask says, agree. A mask longer than the address
  compares all of it.\<close>

theorem match_address_prefix:
  assumes "address_mask k \<noteq> -1" "sa_family ss = AF_INET \<or> sa_family ss = AF_INET6"
    "length (sa_addr ss) = addr_width (sa_family ss)" "length (sa_addr (mask_address k)) = addr_width (sa_family (mask_address k))"
  shows "match_address k ss (tcp_addrlen ss) = Some (sa_family ss = sa_family (mask_address k) \<and>
    (\<forall>i < min (nat (address_mask k)) (8 * addr_width (sa_family ss)). addr_bit (sa_addr ss) i = addr_bit (sa_addr (mask_address k)) i))"
proof (cases "sa_family ss = sa_family (mask_address k) \<and> address_mask k > 0")
  case False
  then show ?thesis using assms by (auto simp: match_address_def tcp_addrlen_def Let_def)
next
  case True
  define n where "n = min (nat (address_mask k)) (8 * addr_width (sa_family ss))"
  have n: "nat (if address_mask k < int (addr_width (sa_family ss)) * 8 then address_mask k else int (addr_width (sa_family ss)) * 8) = n"
    using True by (auto simp: n_def)
  let ?xs = "sa_addr ss" and ?ys = "sa_addr (mask_address k)"
  have len: "length ?xs = addr_width (sa_family ss)" "length ?ys = addr_width (sa_family ss)" and le: "n \<le> 8 * addr_width (sa_family ss)"
    using assms True by (auto simp: n_def)
  have ix: "n div 8 < addr_width (sa_family ss)" if "n mod 8 \<noteq> 0"
  proof (rule ccontr)
    assume "\<not> n div 8 < addr_width (sa_family ss)"
    then have "8 * addr_width (sa_family ss) \<le> 8 * (n div 8)" by simp
    then show False using that le by presburger
  qed
  have ge: "16 \<le> tcp_addrlen ss" "tcp_addrlen ss = (if sa_family ss = AF_INET6 then 28 else 16)" by (simp_all add: tcp_addrlen_def)
  have "match_address k ss (tcp_addrlen ss) = Some (take (n div 8) ?xs = take (n div 8) ?ys \<and>
      (\<forall>r < n mod 8. bit (?xs ! (n div 8)) (7 - r) = bit (?ys ! (n div 8)) (7 - r)))"
    using True assms(1) ge len ix unfolding match_address_def Let_def n
    by (auto simp: last_byte_zero last_byte_eq)
  then show ?thesis using addr_bits_eq[OF len le] True n_def by simp
qed

theorem match_address_prefix_witness:
  "\<exists>k. mask_resolve \<lparr>ifaddrs = [], getaddrinfo = (\<lambda>_ _ _. Inr \<lparr>sa_family = AF_INET, sa_port = 0, sa_addr = [192, 168, 4, 0]\<rparr>),
      getnameinfo = (\<lambda>_. None)\<rparr> ''192.168.4.0/22'' True mask_new = Some (Inr k) \<and>
    match_address k \<lparr>sa_family = AF_INET, sa_port = 80, sa_addr = [192, 168, 7, 9]\<rparr> 16 = Some True \<and>
    match_address k \<lparr>sa_family = AF_INET, sa_port = 80, sa_addr = [192, 168, 8, 9]\<rparr> 16 = Some False"
proof -
  let ?net = "\<lparr>ifaddrs = [], getaddrinfo = (\<lambda>_ _ _. Inr \<lparr>sa_family = AF_INET, sa_port = 0, sa_addr = [192, 168, 4, 0]\<rparr>),
      getnameinfo = (\<lambda>_. None)\<rparr>"
  let ?k = "\<lparr>mask_address = \<lparr>sa_family = AF_INET, sa_port = 0, sa_addr = [192, 168, 4, 0]\<rparr>, address_mask = 22\<rparr>"
  let ?ss = "\<lambda>c. \<lparr>sa_family = AF_INET, sa_port = 80, sa_addr = [192, 168, c, 9]\<rparr>"
  have "mask_resolve ?net ''192.168.4.0/22'' True mask_new = Some (Inr ?k)"
    by code_simp
  moreover have "match_address ?k (?ss c) 16 = Some (\<forall>i < 22. addr_bit [192, 168, c, 9] i = addr_bit [192, 168, 4, 0] i)" for c
    using match_address_prefix[of ?k "?ss c"] by (simp add: addr_width_def tcp_addrlen_def min_def)
  moreover have "\<forall>i < 22. addr_bit [192, 168, 7, 9] i = addr_bit [192, 168, 4, 0] i"
    "\<not> (\<forall>i < 22. addr_bit [192, 168, 8, 9] i = addr_bit [192, 168, 4, 0] i)"
    by code_simp+
  ultimately show ?thesis by (intro exI[of _ ?k]) simp
qed

subsection \<open>Printing and parsing\<close>

lemma digit_char: "k < 10 \<Longrightarrow> is_digit (char_of (48 + k)) \<and> digit_of (char_of (48 + k)) = int k" for k :: nat
  by (simp add: is_digit_def digit_of_def of_char_of)

lemma show_nat_digits: "c \<in> set (show_nat n) \<Longrightarrow> is_digit c"
proof (induction n rule: show_nat.induct)
  case (1 n)
  then show ?case by (subst (asm) (2) show_nat.simps) (auto simp: digit_char split: if_splits)
qed

lemma show_nat_not_Nil [simp]: "show_nat n \<noteq> []"
  by (subst show_nat.simps) simp

lemma takeWhile_digits: "takeWhile is_digit (show_nat n) = show_nat n"
  by (simp add: takeWhile_eq_all_conv show_nat_digits)

lemma digits_value_show: "digits_value (show_nat n) = int n"
proof -
  have "foldl (\<lambda>n c. 10 * n + digit_of c) 0 (show_nat n) = int n"
  proof (induction n rule: show_nat.induct)
    case (1 n)
    show ?case
    proof (cases "n < 10")
      case True
      then show ?thesis by (subst show_nat.simps) (simp add: digit_char)
    next
      case False
      have "10 * int (n div 10) + int (n mod 10) = int n" by (metis mult_div_mod_eq of_nat_add of_nat_mult of_nat_numeral)
      then show ?thesis using False 1 by (subst show_nat.simps) (simp add: digit_char)
    qed
  qed
  then show ?thesis by (simp add: digits_value_def takeWhile_digits)
qed

lemma not_digits: "\<not> is_digit CHR ''-''" "\<not> is_digit CHR ''+''" "\<not> is_digit CHR '':''" "\<not> is_digit CHR ''*''"
  "is_space c \<Longrightarrow> \<not> is_digit c"
  by (auto simp: is_digit_def is_space_def)

lemma atoi_show: "n < 2 ^ 31 \<Longrightarrow> atoi (show_nat n) = Some (int n)"
proof -
  assume n: "n < 2 ^ 31"
  obtain c t where c: "show_nat n = c # t" by (cases "show_nat n") auto
  then have d: "is_digit c" using show_nat_digits[of c n] by simp
  then have sp: "dropWhile is_space (show_nat n) = show_nat n" using c not_digits(5)[of c] by auto
  have "c \<noteq> CHR ''-''" "c \<noteq> CHR ''+''" using d not_digits by auto
  moreover have "int n < 2 ^ 31" "hd (show_nat n) = c" using n c by simp_all
  ultimately show ?thesis by (simp add: atoi_def sp digits_value_show Let_def)
qed

lemma show_nat_inject: "show_nat m = show_nat n \<longleftrightarrow> m = n"
  by (metis digits_value_show of_nat_eq_iff)

lemma split_last_append: "c \<notin> set ys \<Longrightarrow> split_last c (xs @ c # ys) = Some (xs, ys)"
proof -
  assume c: "c \<notin> set ys"
  then have "takeWhile (\<lambda>d. d \<noteq> c) (rev ys @ c # rev xs) = rev ys" "dropWhile (\<lambda>d. d \<noteq> c) (rev ys @ c # rev xs) = c # rev xs"
    by (subst takeWhile_append2 dropWhile_append2; auto)+
  then show ?thesis by (simp add: split_last_def)
qed

text \<open>What the parser makes of a decimal port number. Only 0 and the numbers up to 65535 are taken
  for what they are: a larger one is reduced modulo 65536 without an error, so \<^verbatim>\<open>65616\<close> connects
  to port 80, unless the remainder happens to be 0.\<close>

lemma parse_port_wraps:
  assumes "n < 2 ^ 31"
  shows "parse_port (show_nat n) = Some (if n = 0 then Inr 0 else if n mod 65536 = 0 then Inl EINVAL else Inr (word_of_nat (n mod 65536)))"
proof (cases "n = 0")
  case True
  have "show_nat 0 = ''0''" by code_simp
  then show ?thesis using True by (simp add: parse_port_def)
next
  case False
  have z: "''0'' = show_nat 0" by code_simp
  have "show_nat n \<noteq> ''*''"
  proof
    assume "show_nat n = ''*''"
    then show False using show_nat_digits[of "CHR ''*''" n] not_digits(4) by simp
  qed
  moreover have "show_nat n \<noteq> ''0''" unfolding z show_nat_inject using False .
  moreover have "(word_of_int (int n) :: 16 word) = word_of_nat (n mod 65536)"
    by (simp add: word_of_nat_eq_iff take_bit_eq_mod)
  moreover have "(word_of_nat (n mod 65536) :: 16 word) = 0 \<longleftrightarrow> n mod 65536 = 0"
    by (simp add: word_of_nat_eq_0_iff dvd_eq_mod_eq_0)
  ultimately show ?thesis using False by (simp add: parse_port_def atoi_show[OF assms] Let_def)
qed

lemma parse_port_example: "parse_port (show_nat 65616) = Some (Inr 80)"
  using parse_port_wraps[of 65616] by simp

end
