(* ===== verification/Own.thy ===== *)
theory Own
  imports Prelude
begin

text \<open>
  \<^verbatim>\<open>own_t\<close> of src/own.cpp: the tree of objects in which each object terminates those it owns before
  it is destroyed, by commands that travel between threads. An object gets its commands in the
  order they were sent, from the mailbox of its thread; the commands for different objects come
  in any order. A world holds the live objects and what is on the way to each of them.
\<close>

record own =
  own_linger :: int
  own_terminating :: bool
  sent_seqnum :: u32
  processed_seqnum :: u64
  owner :: addr
  owned :: "addr list" \<comment> \<open>a \<^verbatim>\<open>std::set\<close>, in the order of the addresses\<close>
  term_acks :: int

datatype own_cmd = Plug | Own addr | Term_req addr | Term int | Term_ack

record oworld =
  objs :: "addr \<Rightarrow> own option"
  inbox :: "addr \<Rightarrow> own_cmd list"
  next_obj :: addr

definition own_init :: "int \<Rightarrow> own" where
  "own_init lng = \<lparr>own_linger = lng, own_terminating = False, sent_seqnum = 0, processed_seqnum = 0, owner = 0,
     owned = [], term_acks = 0\<rparr>"

definition get_obj :: "addr \<Rightarrow> oworld \<Rightarrow> own option" where
  "get_obj p w = objs w p"

definition put_obj :: "addr \<Rightarrow> own \<Rightarrow> oworld \<Rightarrow> oworld" where
  "put_obj p x w = w\<lparr>objs := (objs w)(p \<mapsto> x)\<rparr>"

definition delete_obj :: "addr \<Rightarrow> oworld \<Rightarrow> oworld" where
  "delete_obj p w = w\<lparr>objs := (objs w)(p := None)\<rparr>"

definition new_obj :: "int \<Rightarrow> oworld \<Rightarrow> addr \<times> oworld" where
  "new_obj lng w = (next_obj w, (put_obj (next_obj w) (own_init lng) w)\<lparr>next_obj := next_obj w + 1\<rparr>)"

text \<open>The \<^verbatim>\<open>send_\<close> functions of src/object.cpp; they ask the destination for its thread, so it has to
  be alive.\<close>

definition enqueue :: "addr \<Rightarrow> own_cmd \<Rightarrow> oworld \<Rightarrow> oworld" where
  "enqueue d c w = w\<lparr>inbox := (inbox w)(d := inbox w d @ [c])\<rparr>"

definition send_own_cmd :: "addr \<Rightarrow> own_cmd \<Rightarrow> oworld \<Rightarrow> oworld option" where
  "send_own_cmd d c w = do { _ \<leftarrow> get_obj d w; Some (enqueue d c w) }"

primrec send_terms :: "int \<Rightarrow> addr list \<Rightarrow> oworld \<Rightarrow> oworld option" where
  "send_terms lng [] w = Some w"
| "send_terms lng (c # cs) w = do { w \<leftarrow> send_own_cmd c (Term lng) w; send_terms lng cs w }"

definition inc_seqnum :: "addr \<Rightarrow> oworld \<Rightarrow> oworld option" where
  "inc_seqnum p w = do { x \<leftarrow> get_obj p w; Some (put_obj p (x\<lparr>sent_seqnum := sent_seqnum x + 1\<rparr>) w) }"

definition send_plug :: "addr \<Rightarrow> oworld \<Rightarrow> oworld option" where
  "send_plug d w = do { w \<leftarrow> inc_seqnum d w; send_own_cmd d Plug w }"

definition send_own :: "addr \<Rightarrow> addr \<Rightarrow> oworld \<Rightarrow> oworld option" where
  "send_own d c w = do { w \<leftarrow> inc_seqnum d w; send_own_cmd d (Own c) w }"

subsection \<open>Operations\<close>

definition set_owner :: "addr \<Rightarrow> addr \<Rightarrow> oworld \<Rightarrow> oworld option" where
  "set_owner p own w = do {
     x \<leftarrow> get_obj p w;
     zmq_assert (owner x = 0);
     Some (put_obj p (x\<lparr>owner := own\<rparr>) w) }"

text \<open>\<^verbatim>\<open>process_destroy\<close> deletes the object.\<close>

definition check_term_acks :: "addr \<Rightarrow> oworld \<Rightarrow> oworld option" where
  "check_term_acks p w = do {
     x \<leftarrow> get_obj p w;
     if own_terminating x \<and> processed_seqnum x = ucast (sent_seqnum x) \<and> term_acks x = 0 then do {
       zmq_assert (owned x = []);
       w \<leftarrow> (if owner x \<noteq> 0 then send_own_cmd (owner x) Term_ack w else Some w);
       Some (delete_obj p w) }
     else Some w }"

definition process_seqnum :: "addr \<Rightarrow> oworld \<Rightarrow> oworld option" where
  "process_seqnum p w = do {
     x \<leftarrow> get_obj p w;
     check_term_acks p (put_obj p (x\<lparr>processed_seqnum := processed_seqnum x + 1\<rparr>) w) }"

definition launch_child :: "addr \<Rightarrow> addr \<Rightarrow> oworld \<Rightarrow> oworld option" where
  "launch_child p c w = do {
     w \<leftarrow> set_owner c p w;
     w \<leftarrow> send_plug c w;
     send_own p c w }"

definition register_term_acks :: "int \<Rightarrow> addr \<Rightarrow> oworld \<Rightarrow> oworld option" where
  "register_term_acks n p w = do { x \<leftarrow> get_obj p w; Some (put_obj p (x\<lparr>term_acks := term_acks x + n\<rparr>) w) }"

definition unregister_term_ack :: "addr \<Rightarrow> oworld \<Rightarrow> oworld option" where
  "unregister_term_ack p w = do {
     x \<leftarrow> get_obj p w;
     zmq_assert (term_acks x > 0);
     check_term_acks p (put_obj p (x\<lparr>term_acks := term_acks x - 1\<rparr>) w) }"

definition process_term_req :: "addr \<Rightarrow> addr \<Rightarrow> oworld \<Rightarrow> oworld option" where
  "process_term_req c p w = do {
     x \<leftarrow> get_obj p w;
     if own_terminating x then Some w
     else if c \<notin> set (owned x) then Some w
     else do {
       w \<leftarrow> register_term_acks 1 p (put_obj p (x\<lparr>owned := remove1 c (owned x)\<rparr>) w);
       send_own_cmd c (Term (own_linger x)) w } }"

definition process_own :: "addr \<Rightarrow> addr \<Rightarrow> oworld \<Rightarrow> oworld option" where
  "process_own c p w = do {
     x \<leftarrow> get_obj p w;
     if own_terminating x then do {
       w \<leftarrow> register_term_acks 1 p w;
       send_own_cmd c (Term 0) w }
     else Some (put_obj p (x\<lparr>owned := insort_insert c (owned x)\<rparr>) w) }"

definition process_term :: "int \<Rightarrow> addr \<Rightarrow> oworld \<Rightarrow> oworld option" where
  "process_term lng p w = do {
     x \<leftarrow> get_obj p w;
     zmq_assert (\<not> own_terminating x);
     w \<leftarrow> send_terms lng (owned x) w;
     w \<leftarrow> register_term_acks (int (length (owned x))) p w;
     x \<leftarrow> get_obj p w;
     check_term_acks p (put_obj p (x\<lparr>owned := [], own_terminating := True\<rparr>) w) }"

definition own_terminate :: "addr \<Rightarrow> oworld \<Rightarrow> oworld option" where
  "own_terminate p w = do {
     x \<leftarrow> get_obj p w;
     if own_terminating x then Some w
     else if owner x = 0 then process_term (own_linger x) p w
     else send_own_cmd (owner x) (Term_req p) w }"

fun process_own_cmd :: "own_cmd \<Rightarrow> addr \<Rightarrow> oworld \<Rightarrow> oworld option" where
  "process_own_cmd Plug p w = process_seqnum p w"
| "process_own_cmd (Own c) p w = do { w \<leftarrow> process_own c p w; process_seqnum p w }"
| "process_own_cmd (Term_req c) p w = process_term_req c p w"
| "process_own_cmd (Term lng) p w = process_term lng p w"
| "process_own_cmd Term_ack p w = unregister_term_ack p w"

lemmas own_defs = get_obj_def put_obj_def delete_obj_def enqueue_def send_own_cmd_def inc_seqnum_def register_term_acks_def

subsection \<open>Running a tree\<close>

text \<open>An object launches a child, ends one of its children or itself, or takes its next command.\<close>

datatype own_op = Launch int | Stop_child addr | Stop | Receive

fun own_step :: "own_op \<Rightarrow> addr \<Rightarrow> oworld \<Rightarrow> oworld option" where
  "own_step (Launch lng) p w = (let (c, w) = new_obj lng w in launch_child p c w)"
| "own_step (Stop_child c) p w = process_term_req c p w"
| "own_step Stop p w = own_terminate p w"
| "own_step Receive p w = (case inbox w p of [] \<Rightarrow> Some w
     | c # cs \<Rightarrow> process_own_cmd c p (w\<lparr>inbox := (inbox w)(p := cs)\<rparr>))"

text \<open>The 32-bit count of the commands sent to an object is not allowed to wrap around.\<close>

fun own_legal :: "own_op \<Rightarrow> addr \<Rightarrow> oworld \<Rightarrow> bool" where
  "own_legal Receive p w = True"
| "own_legal (Launch lng) p w = (\<exists>x. objs w p = Some x \<and> unat (sent_seqnum x) + 1 < 2 ^ 32)"
| "own_legal _ p w = (objs w p \<noteq> None)"

inductive own_reach :: "addr \<Rightarrow> oworld \<Rightarrow> bool" where
  root: "0 < r \<Longrightarrow> own_reach r \<lparr>objs = (\<lambda>_. None)(r \<mapsto> own_init lng), inbox = (\<lambda>_. []), next_obj = r + 1\<rparr>"
| own_step: "own_reach r w \<Longrightarrow> own_legal a p w \<Longrightarrow> own_step a p w = Some w' \<Longrightarrow> own_reach r w'"

subsection \<open>The invariant\<close>

definition n_terms :: "own_cmd list \<Rightarrow> nat" where
  "n_terms cs = length (filter (\<lambda>c. \<exists>n. c = Term n) cs)"

definition n_seqs :: "own_cmd list \<Rightarrow> nat" where
  "n_seqs cs = length (filter (\<lambda>c. c = Plug \<or> (\<exists>d. c = Own d)) cs)"

definition n_acks :: "own_cmd list \<Rightarrow> nat" where
  "n_acks cs = length (filter (\<lambda>c. c = Term_ack) cs)"

definition n_owns :: "addr \<Rightarrow> own_cmd list \<Rightarrow> nat" where
  "n_owns p cs = length (filter (\<lambda>c. c = Own p) cs)"

lemmas n_defs = n_terms_def n_seqs_def n_acks_def n_owns_def

lemma n_simps [simp]:
  "n_terms [] = 0" "n_terms (c # cs) = (if \<exists>n. c = Term n then 1 else 0) + n_terms cs" "n_terms (xs @ ys) = n_terms xs + n_terms ys"
  "n_seqs [] = 0" "n_seqs (c # cs) = (if c = Plug \<or> (\<exists>d. c = Own d) then 1 else 0) + n_seqs cs" "n_seqs (xs @ ys) = n_seqs xs + n_seqs ys"
  "n_acks [] = 0" "n_acks (c # cs) = (if c = Term_ack then 1 else 0) + n_acks cs" "n_acks (xs @ ys) = n_acks xs + n_acks ys"
  "n_owns p [] = 0" "n_owns p (c # cs) = (if c = Own p then 1 else 0) + n_owns p cs" "n_owns p (xs @ ys) = n_owns p xs + n_owns p ys"
  by (auto simp: n_defs)

lemma n_zero:
  "n_terms cs = 0 \<longleftrightarrow> (\<forall>n. Term n \<notin> set cs)" "n_seqs cs = 0 \<longleftrightarrow> Plug \<notin> set cs \<and> (\<forall>d. Own d \<notin> set cs)"
  "n_acks cs = 0 \<longleftrightarrow> Term_ack \<notin> set cs" "n_owns p cs = 0 \<longleftrightarrow> Own p \<notin> set cs"
  by (auto simp: n_defs filter_empty_conv)

abbreviation terms :: "oworld \<Rightarrow> addr \<Rightarrow> nat" where
  "terms w p \<equiv> n_terms (inbox w p)"

abbreviation seqs :: "oworld \<Rightarrow> addr \<Rightarrow> nat" where
  "seqs w p \<equiv> n_seqs (inbox w p)"

abbreviation acks :: "oworld \<Rightarrow> addr \<Rightarrow> nat" where
  "acks w p \<equiv> n_acks (inbox w p)"

abbreviation owns :: "oworld \<Rightarrow> addr \<Rightarrow> addr \<Rightarrow> nat" where
  "owns w p c \<equiv> n_owns c (inbox w p)"

definition child :: "oworld \<Rightarrow> addr \<Rightarrow> addr \<Rightarrow> bool" where
  "child w p c \<longleftrightarrow> p \<noteq> 0 \<and> (\<exists>x. objs w c = Some x \<and> owner x = p)"

text \<open>The children that have been asked to terminate.\<close>

definition doomed :: "oworld \<Rightarrow> addr \<Rightarrow> addr set" where
  "doomed w p = {c. \<exists>x. objs w c = Some x \<and> owner x = p \<and> (terms w c \<noteq> 0 \<or> own_terminating x)}"

definition req_ok :: "oworld \<Rightarrow> addr \<Rightarrow> bool" where
  "req_ok w p \<longleftrightarrow> (\<forall>us c vs. inbox w p = us @ Term_req c # vs \<longrightarrow> child w p c \<or> Term_ack \<in> set vs)"

definition finished :: "own \<Rightarrow> bool" where
  "finished x \<longleftrightarrow> own_terminating x \<and> processed_seqnum x = ucast (sent_seqnum x) \<and> term_acks x = 0"

text \<open>A child with its owner: the command \<^verbatim>\<open>own\<close> is on its way, or the owner knows it, or the
  command \<^verbatim>\<open>term\<close> is on its way, or it is terminating.\<close>

definition one_stage :: "oworld \<Rightarrow> addr \<Rightarrow> own \<Rightarrow> own \<Rightarrow> bool" where
  "one_stage w p y z \<longleftrightarrow> owns w (owner y) p + (if p \<in> set (owned z) then 1 else 0) + terms w p +
     (if own_terminating y then 1 else 0) = 1"

definition obj_ok :: "addr \<Rightarrow> oworld \<Rightarrow> addr \<Rightarrow> own \<Rightarrow> bool" where
  "obj_ok e w p y \<longleftrightarrow> 0 < p \<and> p < next_obj w \<and>
     (if owner y = 0 then terms w p = 0 else \<exists>z. objs w (owner y) = Some z \<and> owner y < p \<and> one_stage w p y z) \<and>
     (\<forall>c. Own c \<in> set (inbox w p) \<or> c \<in> set (owned y) \<longrightarrow> child w p c) \<and>
     term_acks y = int (card (doomed w p) + acks w p) \<and> unat (sent_seqnum y) = unat (processed_seqnum y) + seqs w p \<and>
     distinct (owned y) \<and> (own_terminating y \<longrightarrow> owned y = [] \<and> (p \<noteq> e \<longrightarrow> \<not> finished y)) \<and> req_ok w p"

text \<open>The invariant, but for the object \<open>e\<close> that has not looked yet whether it is finished.\<close>

definition own_inv_but :: "addr \<Rightarrow> oworld \<Rightarrow> bool" where
  "own_inv_but e w \<longleftrightarrow> (\<forall>p y. objs w p = Some y \<longrightarrow> obj_ok e w p y) \<and> (\<forall>p. inbox w p \<noteq> [] \<longrightarrow> objs w p \<noteq> None)"

abbreviation own_inv :: "oworld \<Rightarrow> bool" where
  "own_inv \<equiv> own_inv_but 0"

lemma own_inv_obj: "own_inv_but e w \<Longrightarrow> objs w p = Some y \<Longrightarrow> obj_ok e w p y"
  by (simp add: own_inv_but_def)

lemma obj_okD:
  assumes "obj_ok e w p y"
  shows "0 < p" "p < next_obj w" "owner y = 0 \<Longrightarrow> terms w p = 0"
    "owner y \<noteq> 0 \<Longrightarrow> \<exists>z. objs w (owner y) = Some z \<and> owner y < p \<and> one_stage w p y z"
    "Own c \<in> set (inbox w p) \<Longrightarrow> child w p c" "c \<in> set (owned y) \<Longrightarrow> child w p c"
    "term_acks y = int (card (doomed w p) + acks w p)" "unat (sent_seqnum y) = unat (processed_seqnum y) + seqs w p"
    "distinct (owned y)" "own_terminating y \<Longrightarrow> owned y = []" "own_terminating y \<Longrightarrow> p \<noteq> e \<Longrightarrow> \<not> finished y" "req_ok w p"
  using assms unfolding obj_ok_def by simp_all

lemma own_inv_inbox: "own_inv_but e w \<Longrightarrow> inbox w p \<noteq> [] \<Longrightarrow> \<exists>y. objs w p = Some y"
  by (auto simp: own_inv_but_def)

lemma n_owns_seqs: "n_owns c cs \<le> n_seqs cs"
  by (induction cs) auto

lemma finite_doomed: "own_inv_but e w \<Longrightarrow> finite (doomed w p)"
proof (rule finite_subset[OF _ finite_lessThan[of "next_obj w"]])
  assume "own_inv_but e w"
  then show "doomed w p \<subseteq> {..<next_obj w}" by (auto simp: doomed_def own_inv_but_def obj_ok_def)
qed

lemma child_stage:
  assumes "own_inv_but e w" "child w p c" "objs w p = Some y"
  obtains z where "objs w c = Some z" "owner z = p" "p < c" "one_stage w c z y"
proof -
  obtain z where z: "objs w c = Some z" "owner z = p" "p \<noteq> 0" using assms(2) by (auto simp: child_def)
  have "obj_ok e w c z" using own_inv_obj[OF assms(1) z(1)] .
  then have "p < c" "one_stage w c z y" using z assms(3) by (simp_all add: obj_ok_def)
  then show ?thesis using that z by blast
qed

lemma unat_ucast_64: "unat (ucast (v :: u32) :: u64) = unat v"
proof -
  have "unat v < 2 ^ 32" using unsigned_less[of v] by simp
  then have "unat v < 2 ^ 64" by (rule less_trans) simp
  then show ?thesis by (simp add: unsigned_ucast_eq take_bit_nat_eq_self)
qed

text \<open>An object that is finished has no children and no commands on the way.\<close>

lemma finished_alone:
  assumes inv: "own_inv_but e w" and y: "objs w p = Some y" and fin: "finished y"
  shows "\<not> child w p c" "inbox w p = []"
proof -
  have ok: "obj_ok e w p y" using own_inv_obj[OF inv y] .
  have e: "own_terminating y" "processed_seqnum y = ucast (sent_seqnum y)" "term_acks y = 0" using fin by (simp_all add: finished_def)
  have "unat (processed_seqnum y) = unat (sent_seqnum y)" unfolding e(2) by (rule unat_ucast_64)
  then have seq: "seqs w p = 0" using ok by (simp add: obj_ok_def)
  have "card (doomed w p) = 0" and ack: "acks w p = 0" using ok e(3) by (simp_all add: obj_ok_def)
  then have doom: "doomed w p = {}" using finite_doomed[OF inv] by simp
  have own: "owned y = []" using ok e(1) by (simp add: obj_ok_def)
  have nochild: "\<not> child w p d" for d
  proof
    assume c: "child w p d"
    then obtain z where z: "objs w d = Some z" "owner z = p" "one_stage w d z y" by (rule child_stage[OF inv _ y])
    have "owns w p d = 0" using n_owns_seqs[of d "inbox w p"] seq by simp
    then have "terms w d \<noteq> 0 \<or> own_terminating z" using z(2,3) own by (auto simp: one_stage_def split: if_splits)
    then show False using z(1,2) doom by (auto simp: doomed_def)
  qed
  then show "\<not> child w p c" .
  have "terms w p = 0"
    using ok e(1) by (auto simp: obj_ok_def one_stage_def split: if_splits)
  moreover have "Term_req d \<notin> set (inbox w p)" for d
  proof
    assume "Term_req d \<in> set (inbox w p)"
    then obtain us vs where "inbox w p = us @ Term_req d # vs" by (meson split_list)
    then have "Term_ack \<in> set (inbox w p)" using ok nochild unfolding obj_ok_def req_ok_def by fastforce
    then show False using ack by (simp add: n_zero)
  qed
  ultimately have "c \<notin> set (inbox w p)" for c
    using seq ack by (cases c) (auto simp: n_zero)
  then show "inbox w p = []" by (meson list.set_sel(1))
qed

lemma own_delete_ok:
  assumes inv: "own_inv_but p w" and y: "objs w p = Some y" and fin: "finished y"
  shows "own_inv (delete_obj p (if owner y \<noteq> 0 then enqueue (owner y) Term_ack w else w))"
proof -
  define w' where "w' = delete_obj p (if owner y \<noteq> 0 then enqueue (owner y) Term_ack w else w)"
  have ok: "obj_ok p w p y" using own_inv_obj[OF inv y] .
  have tm: "own_terminating y" using fin by (simp add: finished_def)
  have alone: "\<not> child w p c" "inbox w p = []" for c using finished_alone[OF inv y fin] by blast+
  have box: "inbox w' r = inbox w r @ (if r = owner y \<and> r \<noteq> 0 then [Term_ack] else [])" for r
    by (auto simp: w'_def delete_obj_def enqueue_def)
  have objs: "objs w' r = (if r = p then None else objs w r)" "next_obj w' = next_obj w" for r
    by (auto simp: w'_def delete_obj_def enqueue_def)
  have cnt: "terms w' r = terms w r" "owns w' r c = owns w r c" "seqs w' r = seqs w r"
    "acks w' r = acks w r + (if r = owner y \<and> r \<noteq> 0 then 1 else 0)" for r c by (auto simp: box)
  have notown: "Own p \<notin> set (inbox w r)" "p \<notin> set (owned z)" if "objs w r = Some z" for r z
  proof -
    have "Own p \<notin> set (inbox w r) \<and> p \<notin> set (owned z)" if "child w r p"
    proof -
      have "r = owner y" "r \<noteq> 0" using that y by (auto simp: child_def)
      then have "one_stage w p y z" using ok \<open>objs w r = Some z\<close> by (simp add: obj_ok_def)
      then have "owns w r p = 0" "p \<notin> set (owned z)" using tm \<open>r = owner y\<close> by (auto simp: one_stage_def split: if_splits)
      then show ?thesis by (simp add: n_zero)
    qed
    moreover have "Own p \<in> set (inbox w r) \<or> p \<in> set (owned z) \<longrightarrow> child w r p"
      using own_inv_obj[OF inv that] unfolding obj_ok_def by blast
    ultimately show "Own p \<notin> set (inbox w r)" "p \<notin> set (owned z)" by blast+
  qed
  have "obj_ok 0 w' r z" if "objs w' r = Some z" for r z
  proof -
  have z: "objs w r = Some z" "r \<noteq> p" using that by (auto simp: objs split: if_splits)
  have rok: "obj_ok p w r z" using own_inv_obj[OF inv z(1)] .
  have r0: "r \<noteq> 0" using rok by (simp add: obj_ok_def)
  have ch: "child w' r c" if "child w r c" "c \<noteq> p" for c using that by (auto simp: child_def objs)
  have "doomed w' r = doomed w r - {p}" by (auto simp: doomed_def objs cnt)
  moreover have "p \<in> doomed w r \<longleftrightarrow> r = owner y" using y tm by (auto simp: doomed_def)
  ultimately have card: "card (doomed w' r) + acks w' r = card (doomed w r) + acks w r"
    using card_Suc_Diff1[OF finite_doomed[OF inv, of r], of p] r0 by (cases "r = owner y") (simp_all add: cnt)
  have "owner z \<noteq> p" using alone(1)[of r] z(1) obj_okD(1)[OF ok] by (auto simp: child_def)
  then have own: "if owner z = 0 then terms w' r = 0 else \<exists>x. objs w' (owner z) = Some x \<and> owner z < r \<and> one_stage w' r z x"
    using obj_okD(3,4)[OF rok] by (auto simp: objs cnt one_stage_def)
  have req: "req_ok w' r" unfolding req_ok_def
  proof (intro allI impI)
    fix us c vs assume e: "inbox w' r = us @ Term_req c # vs"
    show "child w' r c \<or> Term_ack \<in> set vs"
    proof (cases "r = owner y")
      case True
      then have "inbox w r @ [Term_ack] = us @ Term_req c # vs" using e r0 by (simp add: box)
      then show ?thesis by (cases vs rule: rev_cases) auto
    next
      case False
      then have "child w r c \<or> Term_ack \<in> set vs" using e rok by (simp add: box obj_ok_def req_ok_def)
      moreover have "c \<noteq> p" if "child w r c" using that False y by (auto simp: child_def)
      ultimately show ?thesis using ch by blast
    qed
  qed
  have "\<forall>c. Own c \<in> set (inbox w' r) \<or> c \<in> set (owned z) \<longrightarrow> child w' r c"
  proof (intro allI impI)
    fix c assume "Own c \<in> set (inbox w' r) \<or> c \<in> set (owned z)"
    then have "Own c \<in> set (inbox w r) \<or> c \<in> set (owned z)" by (auto simp: box split: if_splits)
    then show "child w' r c" using ch[of c] notown[OF z(1)] obj_okD(5,6)[OF rok, of c] by blast
  qed
  then show ?thesis using obj_okD[OF rok] own card req r0 z(2) unfolding obj_ok_def objs(2) cnt(3) by simp
  qed
  moreover have "objs w' r \<noteq> None" if "inbox w' r \<noteq> []" for r
  proof -
    have "objs w (owner y) \<noteq> None \<and> owner y \<noteq> p" if "owner y \<noteq> 0" using ok that by (auto simp: obj_ok_def)
    then show ?thesis using that inv alone(2) by (auto simp: own_inv_but_def box objs split: if_splits)
  qed
  ultimately have "own_inv w'" by (simp add: own_inv_but_def)
  then show ?thesis by (simp add: w'_def)
qed

lemma check_term_acks_ok:
  assumes inv: "own_inv_but p w" and y: "objs w p = Some y"
  obtains w' where "check_term_acks p w = Some w'" "own_inv w'"
proof (cases "finished y")
  case True
  have ok: "obj_ok p w p y" using own_inv_obj[OF inv y] .
  have "owned y = []" using ok True by (simp add: obj_ok_def finished_def)
  moreover have "\<exists>z. objs w (owner y) = Some z" if "owner y \<noteq> 0" using ok that by (auto simp: obj_ok_def)
  ultimately have "check_term_acks p w = Some (delete_obj p (if owner y \<noteq> 0 then enqueue (owner y) Term_ack w else w))"
    using y True by (auto simp: check_term_acks_def get_obj_def finished_def send_own_cmd_def)
  then show ?thesis using that own_delete_ok[OF inv y True] by blast
next
  case False
  then have "check_term_acks p w = Some w" using y by (auto simp: check_term_acks_def get_obj_def finished_def)
  moreover have "own_inv w" unfolding own_inv_but_def
  proof (intro conjI allI impI)
    fix r z assume z: "objs w r = Some z"
    then have "obj_ok p w r z" by (rule own_inv_obj[OF inv])
    then show "obj_ok 0 w r z" using False y z by (cases "r = p") (auto simp: obj_ok_def)
  qed (use inv in \<open>simp add: own_inv_but_def\<close>)
  ultimately show ?thesis using that by blast
qed

text \<open>
  What a command does to the object \<open>p\<close> that takes it: the object changes to \<open>y'\<close>, \<open>cs\<close> is left on
  its way, and the children in \<open>S\<close> are asked to terminate.
\<close>

definition own_update :: "addr \<Rightarrow> oworld \<Rightarrow> oworld \<Rightarrow> addr \<Rightarrow> own \<Rightarrow> own \<Rightarrow> own_cmd list \<Rightarrow> addr set \<Rightarrow> int \<Rightarrow> bool" where
  "own_update e w w' p y y' cs S n \<longleftrightarrow> own_inv w \<and> objs w p = Some y \<and> owner y' = owner y \<and>
     objs w' = (objs w)(p \<mapsto> y') \<and> next_obj w' = next_obj w \<and>
     (\<forall>a. inbox w' a = (if a = p then cs else inbox w a) @ (if a \<in> S then [Term n] else [])) \<and>
     (\<forall>c \<in> S. child w p c) \<and> (\<exists>us. inbox w p = us @ cs) \<and>
     (\<forall>c. child w p c \<longrightarrow> n_owns c cs + (if c \<in> set (owned y') then 1 else 0) + (if c \<in> S then 1 else 0) =
        owns w p c + (if c \<in> set (owned y) then 1 else 0)) \<and>
     n_terms cs + (if own_terminating y' then 1 else 0) = (if owner y = 0 then if own_terminating y' then 1 else 0
        else terms w p + (if own_terminating y then 1 else 0)) \<and> (own_terminating y \<longrightarrow> own_terminating y') \<and>
     (\<forall>c \<in> set (owned y'). child w p c) \<and> distinct (owned y') \<and> (own_terminating y' \<longrightarrow> owned y' = []) \<and>
     term_acks y' + int (acks w p) = term_acks y + int (card S) + int (n_acks cs) \<and>
     unat (sent_seqnum y') = unat (processed_seqnum y') + n_seqs cs \<and>
     (own_terminating y' \<and> p \<noteq> e \<longrightarrow> \<not> finished y')"

lemma own_updateD:
  assumes "own_update e w w' p y y' cs S n"
  shows "own_inv w" "objs w p = Some y" "owner y' = owner y" "objs w' = (objs w)(p \<mapsto> y')" "next_obj w' = next_obj w"
    "inbox w' a = (if a = p then cs else inbox w a) @ (if a \<in> S then [Term n] else [])"
    "c \<in> S \<Longrightarrow> child w p c" "\<exists>us. inbox w p = us @ cs"
    "child w p c \<Longrightarrow> n_owns c cs + (if c \<in> set (owned y') then 1 else 0) + (if c \<in> S then 1 else 0) =
        owns w p c + (if c \<in> set (owned y) then 1 else (0 :: nat))"
    "n_terms cs + (if own_terminating y' then 1 else 0) = (if owner y = 0 then if own_terminating y' then 1 else 0
        else terms w p + (if own_terminating y then 1 else 0))" "own_terminating y \<Longrightarrow> own_terminating y'"
    "c \<in> set (owned y') \<Longrightarrow> child w p c" "distinct (owned y')" "own_terminating y' \<Longrightarrow> owned y' = []"
    "term_acks y' + int (acks w p) = term_acks y + int (card S) + int (n_acks cs)"
    "unat (sent_seqnum y') = unat (processed_seqnum y') + n_seqs cs"
    "own_terminating y' \<Longrightarrow> p \<noteq> e \<Longrightarrow> \<not> finished y'"
  using assms unfolding own_update_def by blast+

lemma not_own_child: "own_inv_but e w \<Longrightarrow> objs w p = Some y \<Longrightarrow> \<not> child w p p"
proof
  assume "own_inv_but e w" "objs w p = Some y" "child w p p"
  then show False using child_stage[of e w p p y] by blast
qed

lemma update_terms:
  assumes "own_update e w w' p y y' cs S n"
  shows "terms w' a = (if a = p then n_terms cs else terms w a) + (if a \<in> S then 1 else 0)" "p \<notin> S"
    "acks w' a = (if a = p then n_acks cs else acks w a)" "seqs w' a = (if a = p then n_seqs cs else seqs w a)"
    "owns w' a c = (if a = p then n_owns c cs else owns w a c)" "child w' a c = child w a c"
proof -
  note u = own_updateD[OF assms]
  show "p \<notin> S" using not_own_child[OF u(1,2)] u(7)[of p] by blast
  then show "terms w' a = (if a = p then n_terms cs else terms w a) + (if a \<in> S then 1 else 0)"
    "acks w' a = (if a = p then n_acks cs else acks w a)" "seqs w' a = (if a = p then n_seqs cs else seqs w a)"
    "owns w' a c = (if a = p then n_owns c cs else owns w a c)" by (auto simp: u(6))
  show "child w' a c = child w a c" using u(2,3) by (auto simp: child_def u(4))
qed

lemma update_fresh:
  assumes "own_update e w w' p y y' cs S n" "c \<in> S"
  shows "terms w c = 0 \<and> (\<forall>z. objs w c = Some z \<longrightarrow> \<not> own_terminating z)"
proof -
  note u = own_updateD[OF assms(1)]
  obtain z where z: "objs w c = Some z" "owner z = p" "one_stage w c z y" by (rule child_stage[OF u(1) u(7)[OF assms(2)] u(2)])
  have "owns w p c + (if c \<in> set (owned y) then 1 else 0) \<ge> (1 :: nat)" using u(9)[OF u(7)[OF assms(2)]] assms(2) by simp
  then show ?thesis using z by (auto simp: one_stage_def split: if_splits)
qed

lemma update_doomed:
  assumes "own_update e w w' p y y' cs S n" "a \<noteq> 0"
  shows "doomed w' a = (if a = p then doomed w p \<union> S else doomed w a)"
proof (rule set_eqI)
  note u = own_updateD[OF assms(1)] and t = update_terms[OF assms(1)]
  fix c
  show "c \<in> doomed w' a \<longleftrightarrow> c \<in> (if a = p then doomed w p \<union> S else doomed w a)"
  proof (cases "c = p")
    case True
    have "terms w' p \<noteq> 0 \<or> own_terminating y' \<longleftrightarrow> terms w p \<noteq> 0 \<or> own_terminating y" if "owner y \<noteq> 0"
      using u(10,11) t(1)[of p] t(2) that by (auto split: if_splits)
    then have "p \<in> doomed w' a \<longleftrightarrow> p \<in> doomed w a" using u(2,3) assms(2) by (auto simp: doomed_def u(4))
    then show ?thesis using True t(2) by auto
  next
    case False
    then show ?thesis using u(7)[of c] by (auto simp: doomed_def u(4) t child_def)
  qed
qed

lemma update_stage:
  assumes upd: "own_update e w w' p y y' cs S n" and z: "objs w r = Some z" "r \<noteq> p" and q: "owner z \<noteq> 0" "objs w (owner z) = Some x"
    and st: "one_stage w r z x"
  shows "\<exists>x'. objs w' (owner z) = Some x' \<and> one_stage w' r z x'"
proof (cases "owner z = p")
  case True
  note u = own_updateD[OF upd] and t = update_terms[OF upd]
  have c: "child w p r" using z q True by (auto simp: child_def)
  have "x = y" using q True u(2) by simp
  then have "one_stage w' r z y'" using st u(9)[OF c] True z(2) by (simp add: one_stage_def t)
  then show ?thesis using True u(4) by simp
next
  case False
  note u = own_updateD[OF upd] and t = update_terms[OF upd]
  have "r \<notin> S" using u(7)[of r] z False by (auto simp: child_def)
  then have "one_stage w' r z x" using st False z(2) by (simp add: one_stage_def t)
  then show ?thesis using False q u(4) by simp
qed

lemma update_self_stage:
  assumes upd: "own_update e w w' p y y' cs S n"
  shows "if owner y' = 0 then terms w' p = 0 else \<exists>z. objs w' (owner y') = Some z \<and> owner y' < p \<and> one_stage w' p y' z"
proof -
  note u = own_updateD[OF upd] and t = update_terms[OF upd]
  have ok: "obj_ok 0 w p y" by (rule own_inv_obj[OF u(1,2)])
  show ?thesis
  proof (cases "owner y = 0")
    case True
    then show ?thesis using u(3,10) t(1)[of p] t(2) by (simp split: if_splits)
  next
    case False
    then obtain z where z: "objs w (owner y) = Some z" "owner y < p" "one_stage w p y z" using obj_okD(4)[OF ok] by blast
    then have "objs w' (owner y) = Some z" "owns w' (owner y) p = owns w (owner y) p" by (simp_all add: u(4) t)
    moreover have "terms w' p + (if own_terminating y' then 1 else 0) = terms w p + (if own_terminating y then 1 else 0)"
      using u(10) False t(1)[of p] t(2) by simp
    ultimately have "one_stage w' p y' z" using z(3) by (simp add: one_stage_def u(3) del: n_simps)
    then show ?thesis using False z \<open>objs w' (owner y) = Some z\<close> by (simp add: u(3))
  qed
qed

lemma req_ok_appended:
  assumes req: "req_ok w r" and e: "inbox w' r = cs @ (if b then [Term n] else [])" "inbox w r = xs @ cs" and ch: "\<And>c. child w r c \<Longrightarrow> child w' r c"
  shows "req_ok w' r"
  unfolding req_ok_def
proof (intro allI impI)
  fix us c vs assume s: "inbox w' r = us @ Term_req c # vs"
  have "\<exists>vs'. cs = us @ Term_req c # vs' \<and> set vs' \<subseteq> set vs"
  proof (cases b)
    case True
    then have "cs @ [Term n] = us @ Term_req c # vs" using s e by simp
    then show ?thesis by (cases vs rule: rev_cases) auto
  qed (use s e in auto)
  then obtain vs' where v: "inbox w r = (xs @ us) @ Term_req c # vs'" "set vs' \<subseteq> set vs" using e(2) by auto
  then have "child w r c \<or> Term_ack \<in> set vs'" using req unfolding req_ok_def by blast
  then show "child w' r c \<or> Term_ack \<in> set vs" using ch v(2) by blast
qed

lemma update_other:
  assumes upd: "own_update e w w' p y y' cs S n" and z: "objs w r = Some z" "r \<noteq> p"
  shows "obj_ok e w' r z"
proof -
  note u = own_updateD[OF upd] and t = update_terms[OF upd]
  have ok: "obj_ok 0 w r z" by (rule own_inv_obj[OF u(1) z(1)])
  note k = obj_okD[OF ok]
  have own: "if owner z = 0 then terms w' r = 0 else \<exists>x. objs w' (owner z) = Some x \<and> owner z < r \<and> one_stage w' r z x"
  proof (cases "owner z = 0")
    case True
    then have "r \<notin> S" using u(7)[of r] z by (auto simp: child_def)
    then show ?thesis using True k(3) z(2) by (simp add: t del: n_simps)
  next
    case False
    then obtain x where x: "objs w (owner z) = Some x" "owner z < r" "one_stage w r z x" using k(4) by blast
    then show ?thesis using update_stage[OF upd z False x(1,3)] False by simp
  qed
  have box: "inbox w' r = inbox w r @ (if r \<in> S then [Term n] else [])" "inbox w r = [] @ inbox w r" using u(6)[of r] z(2) by simp_all
  have own2: "\<forall>c. Own c \<in> set (inbox w' r) \<or> c \<in> set (owned z) \<longrightarrow> child w' r c" using k(5,6) by (auto simp: box(1) t)
  have req: "req_ok w' r" by (rule req_ok_appended[OF k(12) box]) (simp add: t)
  have "doomed w' r = doomed w r" "acks w' r = acks w r" "seqs w' r = seqs w r" using update_doomed[OF upd, of r] k(1) z(2) by (simp_all add: t del: n_simps)
  then show ?thesis using k own own2 req unfolding obj_ok_def u(5) by simp
qed

lemma update_self:
  assumes upd: "own_update e w w' p y y' cs S n"
  shows "obj_ok e w' p y'"
proof -
  note u = own_updateD[OF upd] and t = update_terms[OF upd]
  note k = obj_okD[OF own_inv_obj[OF u(1,2)]]
  obtain us where us: "inbox w p = us @ cs" using u(8) by blast
  have box: "inbox w' p = cs @ (if False then [Term n] else [])" using u(6)[of p] t(2) by simp
  have own2: "\<forall>c. Own c \<in> set (inbox w' p) \<or> c \<in> set (owned y') \<longrightarrow> child w' p c" using k(5) u(12) us by (auto simp: box t)
  have req: "req_ok w' p" by (rule req_ok_appended[OF k(12) box us]) (simp add: t)
  have "S \<subseteq> {..<next_obj w}" using u(7) obj_okD(2)[OF own_inv_obj[OF u(1)]] by (auto simp: child_def)
  then have fin: "finite S" by (rule finite_subset) simp
  have "doomed w p \<inter> S = {}" using update_fresh[OF upd] by (auto simp: doomed_def)
  then have "card (doomed w' p) = card (doomed w p) + card S"
    using update_doomed[OF upd, of p] k(1) card_Un_disjoint[OF finite_doomed[OF u(1)] fin] by simp
  then have "term_acks y' = int (card (doomed w' p) + acks w' p)" using k(7) u(15) by (simp add: t del: n_simps)
  moreover have "unat (sent_seqnum y') = unat (processed_seqnum y') + seqs w' p" using u(16) by (simp add: t del: n_simps)
  ultimately show ?thesis using k(1,2) update_self_stage[OF upd] own2 u(13,14,17) req unfolding obj_ok_def u(5) by blast
qed

lemma update_ok:
  assumes upd: "own_update e w w' p y y' cs S n"
  shows "own_inv_but e w'"
  unfolding own_inv_but_def
proof (intro conjI allI impI)
  note u = own_updateD[OF upd]
  show "obj_ok e w' r z" if "objs w' r = Some z" for r z
    using that update_self[OF upd] update_other[OF upd] by (cases "r = p") (auto simp: u(4))
  show "objs w' r \<noteq> None" if "inbox w' r \<noteq> []" for r
    using that u(6)[of r] u(7)[of r] own_inv_inbox[OF u(1), of r] by (auto simp: u(4) child_def split: if_splits)
qed

subsection \<open>What is left to do\<close>

fun cmd_weight :: "own_cmd \<Rightarrow> nat" where
  "cmd_weight (Own _) = 2"
| "cmd_weight _ = 1"

definition obj_rank :: "oworld \<Rightarrow> addr \<Rightarrow> nat" where
  "obj_rank w p = (case objs w p of None \<Rightarrow> 0 | Some y \<Rightarrow> 1 + length (owned y) + sum_list (map cmd_weight (inbox w p)))"

definition own_rank :: "oworld \<Rightarrow> nat" where
  "own_rank w = (\<Sum>p < next_obj w. obj_rank w p)"

text \<open>A step only takes objects away, and none of them returns from its termination.\<close>

definition own_mono :: "oworld \<Rightarrow> oworld \<Rightarrow> bool" where
  "own_mono w w' \<longleftrightarrow> (\<forall>p y'. objs w' p = Some y' \<longrightarrow>
     (\<exists>y. objs w p = Some y \<and> owner y' = owner y \<and> (own_terminating y \<longrightarrow> own_terminating y')))"

lemma own_mono_trans: "own_mono w w' \<Longrightarrow> own_mono w' w'' \<Longrightarrow> own_mono w w''"
  unfolding own_mono_def by metis

lemma update_mono: "own_update e w w' p y y' cs S n \<Longrightarrow> own_mono w w'"
  by (simp add: own_update_def own_mono_def)

lemma update_rank:
  assumes upd: "own_update e w w' p y y' cs S n"
    and less: "length (owned y') + sum_list (map cmd_weight cs) + card S < length (owned y) + sum_list (map cmd_weight (inbox w p)) + k"
  shows "own_rank w' < own_rank w + k"
proof -
  note u = own_updateD[OF upd] and t = update_terms[OF upd]
  have p: "p \<in> {..<next_obj w}" using obj_okD(2)[OF own_inv_obj[OF u(1,2)]] by simp
  have S: "S \<subseteq> {..<next_obj w} - {p}" using u(7) t(2) obj_okD(2)[OF own_inv_obj[OF u(1)]] by (fastforce simp: child_def)
  have "obj_rank w' a = obj_rank w a + (if a \<in> S then 1 else 0)" if "a \<noteq> p" for a
    using u(7)[of a] that by (cases "objs w a") (auto simp: obj_rank_def u(4,6) child_def)
  then have "(\<Sum>a\<in>{..<next_obj w} - {p}. obj_rank w' a) = (\<Sum>a\<in>{..<next_obj w} - {p}. obj_rank w a + (if a \<in> S then 1 else 0))"
    by (intro sum.cong) auto
  also have "\<dots> = (\<Sum>a\<in>{..<next_obj w} - {p}. obj_rank w a) + card S"
    using S by (simp add: sum.distrib Int_absorb1 flip: sum.inter_restrict)
  finally have "own_rank w' = obj_rank w' p + (\<Sum>a\<in>{..<next_obj w} - {p}. obj_rank w a) + card S"
    unfolding own_rank_def u(5) using sum.remove[OF _ p, of "obj_rank w'"] by simp
  moreover have "own_rank w = obj_rank w p + (\<Sum>a\<in>{..<next_obj w} - {p}. obj_rank w a)"
    unfolding own_rank_def using sum.remove[OF _ p, of "obj_rank w"] by simp
  moreover have "obj_rank w' p = 1 + length (owned y') + sum_list (map cmd_weight cs)" using t(2) by (simp add: obj_rank_def u(4,6))
  moreover have "obj_rank w p = 1 + length (owned y) + sum_list (map cmd_weight (inbox w p))" using u(2) by (simp add: obj_rank_def)
  ultimately show ?thesis using less by linarith
qed

lemma check_term_acks_rank:
  assumes inv: "own_inv_but p w" and chk: "check_term_acks p w = Some w'"
  shows "own_rank w' \<le> own_rank w \<and> own_mono w w'"
proof (cases "w' = w")
  case False
  obtain y where y: "objs w p = Some y" and fin: "finished y"
    and w': "w' = delete_obj p (if owner y \<noteq> 0 then enqueue (owner y) Term_ack w else w)"
    using chk False by (auto simp: check_term_acks_def get_obj_def send_own_cmd_def finished_def assert_bind bind_Some_iff split: if_splits)
  note k = obj_okD[OF own_inv_obj[OF inv y]]
  have p: "p \<in> {..<next_obj w}" using k(2) by simp
  have nxt: "next_obj w' = next_obj w" by (simp add: w' delete_obj_def enqueue_def)
  have "obj_rank w' a = obj_rank w a + (if a = owner y then 1 else 0)" if "a \<noteq> p" "a \<noteq> 0" "owner y \<noteq> 0" for a
    using k(4) that by (auto simp: obj_rank_def w' delete_obj_def enqueue_def split: option.splits)
  moreover have "obj_rank w' a = obj_rank w a" if "a \<noteq> p" "owner y = 0" for a using that by (auto simp: obj_rank_def w' delete_obj_def split: option.splits)
  moreover have "obj_rank w' 0 = 0" using obj_okD(1)[OF own_inv_obj[OF inv]] by (cases "objs w 0") (auto simp: obj_rank_def w' delete_obj_def enqueue_def)
  ultimately have "obj_rank w' a \<le> obj_rank w a + (if a = owner y \<and> owner y \<noteq> 0 then 1 else 0)" if "a \<noteq> p" for a
    using that by (cases "a = 0"; cases "owner y = 0") auto
  then have "(\<Sum>a\<in>{..<next_obj w} - {p}. obj_rank w' a) \<le> (\<Sum>a\<in>{..<next_obj w} - {p}. obj_rank w a + (if a = owner y \<and> owner y \<noteq> 0 then 1 else 0))"
    by (intro sum_mono) auto
  also have "\<dots> \<le> (\<Sum>a\<in>{..<next_obj w} - {p}. obj_rank w a) + 1" by (cases "owner y = 0") (simp_all add: sum.distrib)
  finally have "own_rank w' \<le> obj_rank w' p + (\<Sum>a\<in>{..<next_obj w} - {p}. obj_rank w a) + 1"
    unfolding own_rank_def nxt using sum.remove[OF _ p, of "obj_rank w'"] by (simp del: sum.lessThan_Suc)
  moreover have "own_rank w = obj_rank w p + (\<Sum>a\<in>{..<next_obj w} - {p}. obj_rank w a)"
    unfolding own_rank_def using sum.remove[OF _ p, of "obj_rank w"] by simp
  moreover have "obj_rank w' p = 0" by (simp add: obj_rank_def w' delete_obj_def)
  moreover have "0 < obj_rank w p" using y by (simp add: obj_rank_def)
  ultimately show ?thesis by (auto simp: own_mono_def w' delete_obj_def enqueue_def split: if_splits)
qed (simp add: own_mono_def)

definition step_ok :: "oworld \<Rightarrow> nat \<Rightarrow> oworld option \<Rightarrow> bool" where
  "step_ok w k m \<longleftrightarrow> (\<exists>w'. m = Some w' \<and> own_inv w' \<and> own_mono w w' \<and> own_rank w' < own_rank w + k)"

lemma update_checked:
  assumes upd: "own_update p w w' p y y' cs S n"
    and less: "length (owned y') + sum_list (map cmd_weight cs) + card S < length (owned y) + sum_list (map cmd_weight (inbox w p)) + k"
  shows "step_ok w k (check_term_acks p w')"
proof -
  have inv: "own_inv_but p w'" by (rule update_ok[OF upd])
  have y': "objs w' p = Some y'" by (simp add: own_updateD(4)[OF upd])
  obtain w2 where w2: "check_term_acks p w' = Some w2" "own_inv w2" by (rule check_term_acks_ok[OF inv y'])
  have "own_rank w2 < own_rank w + k" "own_mono w w2"
    using check_term_acks_rank[OF inv w2(1)] update_rank[OF upd less] own_mono_trans[OF update_mono[OF upd]] by auto
  then show ?thesis using w2 by (simp add: step_ok_def)
qed

lemma update_unchecked:
  assumes "own_update 0 w w' p y y' cs S n"
    and "length (owned y') + sum_list (map cmd_weight cs) + card S < length (owned y) + sum_list (map cmd_weight (inbox w p)) + k"
  shows "step_ok w k (Some w')"
  using update_ok[OF assms(1)] update_rank[OF assms] update_mono[OF assms(1)] by (simp add: step_ok_def)

lemma send_terms_ok:
  assumes "\<forall>c \<in> set cs. objs w c \<noteq> None" "distinct cs"
  shows "\<exists>w'. send_terms n cs w = Some w' \<and> objs w' = objs w \<and> next_obj w' = next_obj w \<and>
    (\<forall>a. inbox w' a = inbox w a @ (if a \<in> set cs then [Term n] else []))"
  using assms
proof (induction cs arbitrary: w)
  case (Cons c cs)
  have c: "send_own_cmd c (Term n) w = Some (enqueue c (Term n) w)" using Cons.prems by (auto simp: own_defs)
  have "\<exists>w'. send_terms n cs (enqueue c (Term n) w) = Some w' \<and> objs w' = objs (enqueue c (Term n) w) \<and>
      next_obj w' = next_obj (enqueue c (Term n) w) \<and> (\<forall>a. inbox w' a = inbox (enqueue c (Term n) w) a @ (if a \<in> set cs then [Term n] else []))"
    using Cons.prems by (intro Cons.IH) (auto simp: enqueue_def)
  then show ?case using c Cons.prems(2) by (auto simp: enqueue_def)
qed simp

lemma seq_step:
  fixes s :: u32 and q :: u64
  assumes "unat s = unat q + Suc k"
  shows "unat s = unat (q + 1) + k"
proof -
  have "unat s < 2 ^ 32" using unsigned_less[of s] by simp
  then have "unat q + 1 < 2 ^ 64" using assms by simp
  then have "unat (q + 1) = unat q + 1" by (simp add: unat_word_ariths(1))
  then show ?thesis using assms by simp
qed

subsection \<open>Each operation\<close>

lemma plug_ok:
  assumes inv: "own_inv w" and y: "objs w p = Some y" and box: "inbox w p = Plug # cs"
  shows "step_ok w 0 (process_own_cmd Plug p (w\<lparr>inbox := (inbox w)(p := cs)\<rparr>))"
proof -
  define y' where "y' = y\<lparr>processed_seqnum := processed_seqnum y + 1\<rparr>"
  define w' where "w' = put_obj p y' (w\<lparr>inbox := (inbox w)(p := cs)\<rparr>)"
  note k = obj_okD[OF own_inv_obj[OF inv y]]
  have "own_update p w w' p y y' cs {} 0"
    unfolding own_update_def
    using inv y k(3,9,10) k(6) seq_step[of "sent_seqnum y" "processed_seqnum y" "n_seqs cs"] k(8)
    by (auto simp: w'_def y'_def box own_defs)
  then have "step_ok w 0 (check_term_acks p w')" by (rule update_checked) (simp add: y'_def box)
  then show ?thesis using y by (simp add: w'_def y'_def process_seqnum_def get_obj_def put_obj_def)
qed

lemma own_ok:
  assumes inv: "own_inv w" and y: "objs w p = Some y" and box: "inbox w p = Own c # cs"
  shows "step_ok w 0 (process_own_cmd (Own c) p (w\<lparr>inbox := (inbox w)(p := cs)\<rparr>))"
proof -
  note k = obj_okD[OF own_inv_obj[OF inv y]]
  have c: "child w p c" using k(5)[of c] box by simp
  then obtain z where z: "objs w c = Some z" "owner z = p" "p < c" "one_stage w c z y" by (rule child_stage[OF inv _ y])
  have new: "c \<notin> set (owned y)" "n_owns c cs = 0" using z(2,4) box by (auto simp: one_stage_def split: if_splits)
  have seq: "unat (sent_seqnum y) = unat (processed_seqnum y + 1) + n_seqs cs" using seq_step k(8) by (simp add: box)
  show ?thesis
  proof (cases "own_terminating y")
    case True
    define y' where "y' = y\<lparr>term_acks := term_acks y + 1, processed_seqnum := processed_seqnum y + 1\<rparr>"
    define w' where "w' = put_obj p y' (enqueue c (Term 0) (w\<lparr>inbox := (inbox w)(p := cs)\<rparr>))"
    have "own_update p w w' p y y' cs {c} 0"
      unfolding own_update_def
      using inv y k(3) seq k(10)[OF True] c z(3) new True by (auto simp: w'_def y'_def box own_defs)
    then have "step_ok w 0 (check_term_acks p w')" by (rule update_checked) (simp add: y'_def box)
    then show ?thesis using y z(1,3) True
      by (simp add: w'_def y'_def process_seqnum_def process_own_def own_defs fun_upd_twist)
  next
    case False
    define y' where "y' = y\<lparr>owned := insort_insert c (owned y), processed_seqnum := processed_seqnum y + 1\<rparr>"
    define w' where "w' = put_obj p y' (w\<lparr>inbox := (inbox w)(p := cs)\<rparr>)"
    have "own_update p w w' p y y' cs {} 0"
      unfolding own_update_def
      using inv y k(3,9) k(6) seq c new False by (auto simp: w'_def y'_def box own_defs set_insort_insert distinct_insort_insert)
    moreover have "length (owned y') = Suc (length (owned y))" using new by (simp add: y'_def insort_insert_insort)
    ultimately have "step_ok w 0 (check_term_acks p w')" using update_checked[of p w w' y y' cs "{}" 0 0] by (simp add: box)
    then show ?thesis using y False by (simp add: w'_def y'_def process_seqnum_def process_own_def own_defs)
  qed
qed

lemma term_ack_ok:
  assumes inv: "own_inv w" and y: "objs w p = Some y" and box: "inbox w p = Term_ack # cs"
  shows "step_ok w 0 (process_own_cmd Term_ack p (w\<lparr>inbox := (inbox w)(p := cs)\<rparr>))"
proof -
  define y' where "y' = y\<lparr>term_acks := term_acks y - 1\<rparr>"
  define w' where "w' = put_obj p y' (w\<lparr>inbox := (inbox w)(p := cs)\<rparr>)"
  note k = obj_okD[OF own_inv_obj[OF inv y]]
  have "0 < term_acks y" using k(7) by (simp add: box)
  have "own_update p w w' p y y' cs {} 0"
    unfolding own_update_def using inv y k(3,8,9,10) k(6) by (auto simp: w'_def y'_def box own_defs)
  then have "step_ok w 0 (check_term_acks p w')" by (rule update_checked) (simp add: y'_def box)
  then show ?thesis using y \<open>0 < term_acks y\<close> by (simp add: w'_def y'_def unregister_term_ack_def own_defs)
qed

lemma term_req_ok:
  assumes inv: "own_inv w" and y: "objs w p = Some y" and box: "inbox w p = us @ cs" "us = [Term_req d] \<or> us = []"
  shows "step_ok w (if us = [] then 1 else 0) (process_term_req c p (w\<lparr>inbox := (inbox w)(p := cs)\<rparr>))"
proof -
  note k = obj_okD[OF own_inv_obj[OF inv y]]
  have cnt: "n_terms us = 0" "n_seqs us = 0" "n_acks us = 0" "n_owns a us = 0" for a using box(2) by auto
  show ?thesis
  proof (cases "own_terminating y \<or> c \<notin> set (owned y)")
    case True
    define w' where "w' = w\<lparr>inbox := (inbox w)(p := cs)\<rparr>"
    have "own_update 0 w w' p y y cs {} 0"
      unfolding own_update_def
      using inv y k(1,3,8,9,10,11) k(6) cnt by (auto simp: w'_def box(1) fun_upd_idem)
    then have "step_ok w (if us = [] then 1 else 0) (Some w')" by (rule update_unchecked) (use box in auto)
    moreover have "process_term_req c p w' = Some w'" using y True by (auto simp: w'_def process_term_req_def own_defs)
    ultimately show ?thesis by (simp add: w'_def)
  next
    case False
    define y' where "y' = y\<lparr>owned := remove1 c (owned y), term_acks := term_acks y + 1\<rparr>"
    define w' where "w' = put_obj p y' (enqueue c (Term (own_linger y)) (w\<lparr>inbox := (inbox w)(p := cs)\<rparr>))"
    have c: "child w p c" using k(6)[of c] False by simp
    then obtain z where z: "objs w c = Some z" "owner z = p" "p < c" "one_stage w c z y" by (rule child_stage[OF inv _ y])
    have "own_update 0 w w' p y y' cs {c} (own_linger y)"
      unfolding own_update_def
      using inv y k(3,8,9,10) k(6) c z(3) False cnt by (auto simp: w'_def y'_def box(1) own_defs notin_set_remove1)
    then have "step_ok w (if us = [] then 1 else 0) (Some w')"
      by (rule update_unchecked) (use box False in \<open>auto simp: y'_def length_remove1 dest: length_pos_if_in_set\<close>)
    moreover have "process_term_req c p (w\<lparr>inbox := (inbox w)(p := cs)\<rparr>) = Some w'"
      using y z(1,3) False by (simp add: w'_def y'_def process_term_req_def own_defs fun_upd_twist)
    ultimately show ?thesis by simp
  qed
qed

lemma term_ok:
  assumes inv: "own_inv w" and y: "objs w p = Some y" and box: "inbox w p = us @ cs"
    and us: "us = [Term d] \<or> us = [] \<and> owner y = 0 \<and> \<not> own_terminating y"
  shows "step_ok w (if us = [] then 1 else 0) (process_term n p (w\<lparr>inbox := (inbox w)(p := cs)\<rparr>))"
proof -
  note k = obj_okD[OF own_inv_obj[OF inv y]]
  have cnt: "n_seqs us = 0" "n_acks us = 0" "n_owns a us = 0" for a using us by auto
  have trm: "\<not> own_terminating y \<and> n_terms cs = 0 \<and> (owner y \<noteq> 0 \<longrightarrow> n_terms us = 1)"
    using k(3,4) us box by (cases "owner y = 0") (auto simp: one_stage_def split: if_splits)
  define y' where "y' = y\<lparr>term_acks := term_acks y + int (length (owned y)), owned := [], own_terminating := True\<rparr>"
  have "\<forall>c \<in> set (owned y). objs (w\<lparr>inbox := (inbox w)(p := cs)\<rparr>) c \<noteq> None" using k(6) by (auto simp: child_def)
  then obtain w1 where "send_terms n (owned y) (w\<lparr>inbox := (inbox w)(p := cs)\<rparr>) = Some w1 \<and>
      objs w1 = objs (w\<lparr>inbox := (inbox w)(p := cs)\<rparr>) \<and> next_obj w1 = next_obj (w\<lparr>inbox := (inbox w)(p := cs)\<rparr>) \<and>
      (\<forall>a. inbox w1 a = inbox (w\<lparr>inbox := (inbox w)(p := cs)\<rparr>) a @ (if a \<in> set (owned y) then [Term n] else []))"
    using send_terms_ok[OF _ k(9)] by blast
  then have w1: "send_terms n (owned y) (w\<lparr>inbox := (inbox w)(p := cs)\<rparr>) = Some w1" "objs w1 = objs w" "next_obj w1 = next_obj w"
      "inbox w1 a = ((inbox w)(p := cs)) a @ (if a \<in> set (owned y) then [Term n] else [])" for a by simp_all
  define w' where "w' = put_obj p y' w1"
  have "own_update p w w' p y y' cs (set (owned y)) n"
    unfolding own_update_def
    using inv y k(3,8,9) k(6) cnt trm distinct_card[OF k(9)] by (auto simp: w'_def y'_def box put_obj_def w1(2-4))
  then have "step_ok w (if us = [] then 1 else 0) (check_term_acks p w')"
    by (rule update_checked) (use us box distinct_card[OF k(9)] in \<open>auto simp: y'_def\<close>)
  then show ?thesis using y trm w1(1,2) by (simp add: w'_def y'_def process_term_def own_defs)
qed

lemma receive_ok:
  assumes inv: "own_inv w" and box: "inbox w p = c # cs"
  shows "step_ok w 0 (own_step Receive p w)"
proof -
  obtain y where y: "objs w p = Some y" using own_inv_inbox[OF inv, of p] box by auto
  show ?thesis
    using plug_ok[OF inv y] own_ok[OF inv y] term_ack_ok[OF inv y] box
      term_req_ok[OF inv y, of "[c]" cs] term_ok[OF inv y, of "[c]" cs]
    by (cases c) auto
qed

lemma launch_ok:
  assumes inv: "own_inv w" and y: "objs w p = Some y" and room: "unat (sent_seqnum y) + 1 < 2 ^ 32"
  shows "\<exists>w' x'. own_step (Launch n) p w = Some w' \<and> own_inv w' \<and> next_obj w' = next_obj w + 1 \<and> owner x' = p \<and> p \<noteq> 0 \<and>
    objs w' = (objs w)(next_obj w \<mapsto> x', p \<mapsto> y\<lparr>sent_seqnum := sent_seqnum y + 1\<rparr>)"
proof -
  define c where "c = next_obj w"
  define x' where "x' = (own_init n)\<lparr>owner := p, sent_seqnum := 1\<rparr>"
  define y' where "y' = y\<lparr>sent_seqnum := sent_seqnum y + 1\<rparr>"
  define w' where "w' = enqueue p (Own c) (enqueue c Plug (w\<lparr>objs := (objs w)(c \<mapsto> x', p \<mapsto> y'), next_obj := c + 1\<rparr>))"
  note k = obj_okD[OF own_inv_obj[OF inv y]]
  have new: "objs w c = None" using obj_okD(2)[OF own_inv_obj[OF inv], of c] by (cases "objs w c") (auto simp: c_def)
  then have empty: "inbox w c = []" using own_inv_inbox[OF inv, of c] by auto
  have pc: "p < c" "p \<noteq> 0" using k(1,2) by (simp_all add: c_def)
  have step: "own_step (Launch n) p w = Some w'"
    using y new pc by (simp add: new_obj_def launch_child_def set_owner_def send_plug_def send_own_def own_defs own_init_def
        w'_def y'_def x'_def fun_upd_twist flip: c_def)
  have objs': "objs w' r = (if r = c then Some x' else if r = p then Some y' else objs w r)" for r using pc by (simp add: w'_def enqueue_def)
  have box: "inbox w' r = inbox w r @ (if r = c then [Plug] else if r = p then [Own c] else [])" for r using pc by (simp add: w'_def enqueue_def)
  have cnt: "terms w' r = terms w r" "acks w' r = acks w r" "seqs w' r = seqs w r + (if r = c \<or> r = p then 1 else 0)"
    "owns w' r d = owns w r d + (if r = p \<and> d = c then 1 else 0)" for r d using pc by (auto simp: box)
  have sent: "unat (sent_seqnum y') = unat (sent_seqnum y) + 1" using room by (simp add: y'_def unat_word_ariths(1))
  have fin: "finished y' \<Longrightarrow> False" using unat_ucast_64 sent k(8) by (auto simp: finished_def y'_def)
  have child: "child w' q r \<longleftrightarrow> child w q r \<or> q = p \<and> r = c" for q r using pc y new by (auto simp: child_def objs' y'_def x'_def)
  have doom: "doomed w' r = doomed w r" for r
    using new pc y by (auto simp: doomed_def objs' cnt y'_def x'_def own_init_def empty)
  have nobody: "owner z \<noteq> c" if "objs w r = Some z" for r z
    using obj_okD(4)[OF own_inv_obj[OF inv that]] new pc by (cases "owner z = 0") auto
  have nowhere: "c \<notin> set (owned z)" "owns w r c = 0" if "objs w r = Some z" for r z
    using obj_okD(5,6)[OF own_inv_obj[OF inv that], of c] new by (auto simp: child_def n_zero)
  have mine: "obj_ok 0 w' c x'"
  proof -
    have "doomed w c = {}" using nobody by (auto simp: doomed_def)
    moreover have "one_stage w' c x' y'" using nowhere[OF y] pc
      by (simp add: one_stage_def x'_def y'_def own_init_def cnt empty)
    moreover have "inbox w' c = [Plug]" "next_obj w' = c + 1" using empty pc by (simp add: box) (simp add: w'_def enqueue_def)
    moreover have "owner x' = p" "term_acks x' = 0" "sent_seqnum x' = 1" "processed_seqnum x' = 0" "owned x' = []" "\<not> own_terminating x'"
      by (simp_all add: x'_def own_init_def)
    moreover have "objs w' p = Some y'" using pc by (simp add: objs')
    ultimately show ?thesis using pc by (simp add: obj_ok_def doom req_ok_def Cons_eq_append_conv)
  qed
  have other: "obj_ok 0 w' r z'" if "objs w' r = Some z'" "r \<noteq> c" for r z'
  proof -
    define z where "z = (if r = p then y else z')"
    have z: "objs w r = Some z" "owner z' = owner z" "owned z' = owned z" "term_acks z' = term_acks z" "own_terminating z' = own_terminating z"
      using that y by (auto simp: z_def objs' y'_def)
    note kz = obj_okD[OF own_inv_obj[OF inv z(1)]]
    have own: "if owner z' = 0 then terms w' r = 0 else \<exists>x. objs w' (owner z') = Some x \<and> owner z' < r \<and> one_stage w' r z' x"
    proof (cases "owner z = 0")
      case False
      then obtain x where x: "objs w (owner z) = Some x" "owner z < r" "one_stage w r z x" using kz(4) by blast
      then have "owner z \<noteq> c" using new by auto
      then have "\<exists>x2. objs w' (owner z) = Some x2 \<and> owned x2 = owned x" using x y by (cases "owner z = p") (simp_all add: objs' y'_def)
      then obtain x2 where x2: "objs w' (owner z) = Some x2" "owned x2 = owned x" by blast
      have "one_stage w' r z' x2" using x(3) x2(2) that(2) unfolding one_stage_def by (simp add: z cnt del: n_simps)
      then show ?thesis using x x2 False by (simp add: z)
    qed (use kz(3) in \<open>simp add: z cnt del: n_simps\<close>)
    have "unat (sent_seqnum z') = unat (processed_seqnum z') + seqs w' r"
      using kz(8) sent that y z(1) by (cases "r = p") (auto simp: z_def objs' cnt y'_def simp del: n_simps)
    moreover have "req_ok w' r" unfolding req_ok_def
    proof (intro allI impI)
      fix us d vs assume e: "inbox w' r = us @ Term_req d # vs"
      have "\<exists>vs'. inbox w r = us @ Term_req d # vs' \<and> set vs' \<subseteq> set vs"
        using e that(2) by (cases vs rule: rev_cases) (auto simp: box split: if_splits)
      then show "child w' r d \<or> Term_ack \<in> set vs" using kz(12) unfolding req_ok_def child by blast
    qed
    moreover have "own_terminating z' \<Longrightarrow> \<not> finished z'" using kz(1,11) z(1) fin that y by (cases "r = p") (auto simp: z_def objs')
    moreover have "\<forall>d. Own d \<in> set (inbox w' r) \<or> d \<in> set (owned z') \<longrightarrow> child w' r d" using kz(5,6) that(2) by (auto simp: box child z)
    moreover have "r < next_obj w'" using kz(2) by (simp add: w'_def enqueue_def c_def)
    moreover have "term_acks z' = int (card (doomed w' r) + acks w' r)" using kz(7) by (simp add: z doom cnt del: n_simps)
    ultimately show ?thesis using own kz(1,9,10) unfolding obj_ok_def by (simp add: z del: n_simps)
  qed
  have "own_inv w'" unfolding own_inv_but_def
    using mine other own_inv_inbox[OF inv] y by (auto simp: objs' box split: if_splits)
  moreover have "owner x' = p" "next_obj w' = next_obj w + 1" "objs w' = (objs w)(next_obj w \<mapsto> x', p \<mapsto> y\<lparr>sent_seqnum := sent_seqnum y + 1\<rparr>)"
    by (simp_all add: x'_def w'_def enqueue_def flip: c_def y'_def)
  ultimately show ?thesis using step pc by blast
qed

lemma stop_ok:
  assumes inv: "own_inv w" and y: "objs w p = Some y"
  shows "\<exists>w'. own_step Stop p w = Some w' \<and> own_inv w' \<and> own_mono w w'"
proof -
  note k = obj_okD[OF own_inv_obj[OF inv y]]
  consider "own_terminating y" | "\<not> own_terminating y" "owner y = 0" | "\<not> own_terminating y" "owner y \<noteq> 0" by blast
  then show ?thesis
  proof cases
    case 1
    then show ?thesis using inv y by (simp add: own_terminate_def get_obj_def own_mono_def)
  next
    case 2
    then have "step_ok w 1 (process_term (own_linger y) p (w\<lparr>inbox := (inbox w)(p := inbox w p)\<rparr>))"
      using term_ok[OF inv y, of "[]" "inbox w p"] by simp
    then show ?thesis using 2 y by (auto simp: own_terminate_def get_obj_def step_ok_def)
  next
    case 3
    define q where "q = owner y"
    define w' where "w' = enqueue q (Term_req p) w"
    obtain z where z: "objs w q = Some z" using k(4) 3 by (auto simp: q_def)
    have same: "objs w' = objs w" "next_obj w' = next_obj w" by (simp_all add: w'_def enqueue_def)
    have box: "inbox w' r = inbox w r @ (if r = q then [Term_req p] else [])" for r by (simp add: w'_def enqueue_def)
    have cnt: "terms w' r = terms w r" "acks w' r = acks w r" "seqs w' r = seqs w r" "owns w' r d = owns w r d" for r d by (simp_all add: box)
    have child: "child w' a b = child w a b" for a b by (simp add: child_def same)
    have "obj_ok 0 w' r x" if x: "objs w r = Some x" for r x
    proof -
      note kx = obj_okD[OF own_inv_obj[OF inv x]]
      have "req_ok w' r" unfolding req_ok_def
      proof (intro allI impI)
        fix us c vs assume e: "inbox w' r = us @ Term_req c # vs"
        have "(\<exists>vs'. inbox w r = us @ Term_req c # vs' \<and> set vs' \<subseteq> set vs) \<or> r = q \<and> c = p"
          using e by (cases vs rule: rev_cases) (auto simp: box split: if_splits)
        moreover have "child w q p" using y 3 by (simp add: child_def q_def)
        ultimately show "child w' r c \<or> Term_ack \<in> set vs" using kx(12) unfolding req_ok_def child by blast
      qed
      moreover have "doomed w' r = doomed w r" by (simp add: doomed_def cnt same)
      moreover have "one_stage w' r x a = one_stage w r x a" for a by (simp add: one_stage_def cnt)
      moreover have "\<forall>c. Own c \<in> set (inbox w' r) \<or> c \<in> set (owned x) \<longrightarrow> child w' r c" using kx(5,6) by (auto simp: box child)
      ultimately show ?thesis using kx unfolding obj_ok_def same cnt by simp
    qed
    then have "own_inv w'" using own_inv_inbox[OF inv] z unfolding own_inv_but_def same by (auto simp: box split: if_splits)
    moreover have "own_step Stop p w = Some w'" using y 3 z by (simp add: own_terminate_def own_defs w'_def flip: q_def)
    ultimately show ?thesis by (auto simp: own_mono_def same)
  qed
qed

text \<open>The only object without an owner is the root.\<close>

definition one_root :: "addr \<Rightarrow> oworld \<Rightarrow> bool" where
  "one_root r w \<longleftrightarrow> (\<forall>p y. objs w p = Some y \<and> owner y = 0 \<longrightarrow> p = r)"

lemma mono_root: "own_mono w w' \<Longrightarrow> one_root r w \<Longrightarrow> one_root r w'"
  unfolding own_mono_def one_root_def by metis

lemma step_total:
  assumes inv: "own_inv w" and leg: "own_legal a p w"
  shows "\<exists>w'. own_step a p w = Some w' \<and> own_inv w' \<and> (one_root r w \<longrightarrow> one_root r w')"
proof (cases a)
  case (Launch n)
  then obtain y where y: "objs w p = Some y" "unat (sent_seqnum y) + 1 < 2 ^ 32" using leg by auto
  obtain w' x' where "own_step a p w = Some w'" "own_inv w'" "owner x' = p" "p \<noteq> 0"
      "objs w' = (objs w)(next_obj w \<mapsto> x', p \<mapsto> y\<lparr>sent_seqnum := sent_seqnum y + 1\<rparr>)" using launch_ok[OF inv y] Launch by blast
  moreover from this have "one_root r w \<longrightarrow> one_root r w'" using y(1) by (simp add: one_root_def)
  ultimately show ?thesis by blast
next
  case (Stop_child c)
  then obtain y where y: "objs w p = Some y" using leg by auto
  then show ?thesis using term_req_ok[OF inv y, of "[]" "inbox w p" 0 c] mono_root Stop_child by (auto simp: step_ok_def)
next
  case Stop
  then obtain y where y: "objs w p = Some y" using leg by auto
  then show ?thesis using stop_ok[OF inv y] mono_root Stop by blast
next
  case Receive
  then show ?thesis
    using inv receive_ok[OF inv, of p] mono_root by (cases "inbox w p") (auto simp: step_ok_def)
qed

lemma root_inv: "0 < r \<Longrightarrow> own_inv \<lparr>objs = (\<lambda>_. None)(r \<mapsto> own_init n), inbox = (\<lambda>_. []), next_obj = r + 1\<rparr>"
  by (simp add: own_inv_but_def obj_ok_def own_init_def doomed_def req_ok_def)

lemma own_reach_inv: "own_reach r w \<Longrightarrow> own_inv w \<and> one_root r w"
proof (induction rule: own_reach.induct)
  case (root r n)
  then show ?case using root_inv by (simp add: one_root_def)
next
  case (own_step r w a p w')
  then show ?case using step_total[of w a p r] by auto
qed

definition own_root :: "int \<Rightarrow> oworld" where
  "own_root n = \<lparr>objs = (\<lambda>_. None)(1 \<mapsto> own_init n), inbox = (\<lambda>_. []), next_obj = 2\<rparr>"

text \<open>A root with a child that has been told to terminate: the end of the child is still to come.\<close>

definition own_stopping :: oworld where
  "own_stopping = the (do {
     w \<leftarrow> own_step (Launch 0) 1 (own_root 7);
     w \<leftarrow> own_step Receive 1 w;
     own_step Stop 1 w })"

lemma own_root_reach: "own_reach 1 (own_root n)"
  using own_reach.root[of 1 n] by (simp add: own_root_def numeral_2_eq_2)

lemma own_stopping_reach:
  "own_reach 1 own_stopping" "objs own_stopping 1 = Some ((own_init 7)\<lparr>own_terminating := True, sent_seqnum := 1,
     processed_seqnum := 1, term_acks := 1\<rparr>)" "inbox own_stopping 2 = [Plug, Term 7]"
proof -
  have legal: "own_legal (Launch 0) 1 (own_root 7)" by (simp add: own_root_def own_init_def)
  obtain w1 where w1: "own_step (Launch 0) 1 (own_root 7) = Some w1"
      "w1 = \<lparr>objs = (\<lambda>_. None)(1 \<mapsto> (own_init 7)\<lparr>sent_seqnum := 1\<rparr>, 2 \<mapsto> (own_init 0)\<lparr>owner := 1, sent_seqnum := 1\<rparr>),
        inbox = (\<lambda>_. [])(2 := [Plug], 1 := [Own 2]), next_obj = 3\<rparr>"
    by (simp add: own_root_def own_init_def new_obj_def launch_child_def set_owner_def send_plug_def send_own_def own_defs fun_upd_twist)
  obtain w2 where w2: "own_step Receive 1 w1 = Some w2"
      "w2 = \<lparr>objs = (\<lambda>_. None)(1 \<mapsto> (own_init 7)\<lparr>sent_seqnum := 1, owned := [2], processed_seqnum := 1\<rparr>,
          2 \<mapsto> (own_init 0)\<lparr>owner := 1, sent_seqnum := 1\<rparr>), inbox = (\<lambda>_. [])(2 := [Plug], 1 := []), next_obj = 3\<rparr>"
    by (simp add: w1(2) process_own_def process_seqnum_def check_term_acks_def own_init_def own_defs fun_upd_twist insort_insert_key_def)
  obtain w3 where w3: "own_step Stop 1 w2 = Some w3" "objs w3 1 = Some ((own_init 7)\<lparr>own_terminating := True, sent_seqnum := 1,
     processed_seqnum := 1, term_acks := 1\<rparr>)" "inbox w3 2 = [Plug, Term 7]"
    by (simp add: w2(2) own_terminate_def process_term_def check_term_acks_def own_init_def own_defs)
  have "own_stopping = w3" using w1(1) w2(1) w3(1) by (simp add: own_stopping_def)
  moreover have "own_reach 1 w1" by (rule own_reach.own_step[OF own_root_reach legal w1(1)])
  then have "own_reach 1 w2" by (rule own_reach.own_step[OF _ _ w2(1)]) simp
  then have "own_reach 1 w3" by (rule own_reach.own_step[OF _ _ w3(1)]) (simp add: w2(2))
  ultimately show "own_reach 1 own_stopping" "objs own_stopping 1 = Some ((own_init 7)\<lparr>own_terminating := True, sent_seqnum := 1,
     processed_seqnum := 1, term_acks := 1\<rparr>)" "inbox own_stopping 2 = [Plug, Term 7]" using w3 by simp_all
qed

subsection \<open>Properties\<close>

text \<open>C25: in every state that a tree can reach, each operation of a live object and each delivery
  succeeds: no object is asked to terminate twice, none has children left when it is destroyed, no
  acknowledgement comes in excess, and no command is sent to a destroyed object. The commands
  sent to one object must not be more than a 32-bit number counts.
\<close>

theorem own_never_fails:
  assumes "own_reach r w" "own_legal a p w"
  shows "\<exists>w'. own_step a p w = Some w' \<and> own_reach r w'"
  using step_total[OF conjunct1[OF own_reach_inv[OF assms(1)]] assms(2)] own_reach.own_step[OF assms] by blast

theorem own_never_fails_witness:
  "\<exists>w'. own_step Receive 2 own_stopping = Some w' \<and> own_reach 1 w'"
  by (rule own_never_fails[OF own_stopping_reach(1)]) simp

subsection \<open>Shutdown\<close>

inductive own_run :: "oworld \<Rightarrow> addr list \<Rightarrow> oworld \<Rightarrow> bool" where
  no_delivery: "own_run w [] w"
| delivery: "inbox w p \<noteq> [] \<Longrightarrow> own_step Receive p w = Some w1 \<Longrightarrow> own_run w1 ps w' \<Longrightarrow> own_run w (p # ps) w'"

definition stopped :: "addr \<Rightarrow> oworld \<Rightarrow> bool" where
  "stopped r w \<longleftrightarrow> (\<forall>y. objs w r = Some y \<longrightarrow> own_terminating y)"

definition stopping :: "addr \<Rightarrow> oworld \<Rightarrow> bool" where
  "stopping r w \<longleftrightarrow> own_inv w \<and> one_root r w \<and> stopped r w"

lemma stopping_receive:
  assumes "stopping r w" "inbox w p \<noteq> []"
  shows "\<exists>w'. own_step Receive p w = Some w' \<and> stopping r w' \<and> own_rank w' < own_rank w"
proof -
  obtain c cs where "inbox w p = c # cs" using assms(2) by (cases "inbox w p") auto
  then obtain w' where w': "own_step Receive p w = Some w'" "own_inv w'" "own_mono w w'" "own_rank w' < own_rank w"
    using receive_ok[of w p c cs] assms(1) by (auto simp: step_ok_def stopping_def)
  moreover have "stopped r w'" using w'(3) assms(1) unfolding own_mono_def stopped_def stopping_def by metis
  ultimately show ?thesis using mono_root[OF w'(3)] assms(1) unfolding stopping_def by blast
qed

lemma stopping_run: "own_run w ps w' \<Longrightarrow> stopping r w \<Longrightarrow> stopping r w' \<and> length ps + own_rank w' \<le> own_rank w"
proof (induction rule: own_run.induct)
  case (delivery w p w1 ps w')
  then show ?case using stopping_receive[OF delivery.prems delivery.hyps(1)] by force
qed simp

lemma all_terminating:
  assumes st: "stopping r w" and quiet: "\<forall>p. inbox w p = []" and y: "objs w p = Some y"
  shows "own_terminating y"
  using y
proof (induction p arbitrary: y rule: less_induct)
  case (less p)
  have inv: "own_inv w" using st by (simp add: stopping_def)
  note k = obj_okD[OF own_inv_obj[OF inv less.prems]]
  show ?case
  proof (cases "owner y = 0")
    case True
    then have "p = r" using st less.prems unfolding stopping_def one_root_def by blast
    then show ?thesis using st less.prems unfolding stopping_def stopped_def by blast
  next
    case False
    then obtain z where z: "objs w (owner y) = Some z" "owner y < p" "one_stage w p y z" using k(4) by blast
    have "owned z = []" using obj_okD(10)[OF own_inv_obj[OF inv z(1)]] less.IH[OF z(2,1)] by blast
    then show ?thesis using z(3) quiet by (simp add: one_stage_def split: if_splits)
  qed
qed

text \<open>With nothing left to deliver the youngest object would have finished, so there is none.\<close>

lemma quiet_empty:
  assumes st: "stopping r w" and quiet: "\<forall>p. inbox w p = []"
  shows "objs w = Map.empty"
proof (rule ccontr)
  assume "objs w \<noteq> Map.empty"
  then obtain a where a: "objs w a \<noteq> None" by (auto simp: fun_eq_iff)
  have inv: "own_inv w" using st by (simp add: stopping_def)
  have bound: "b \<le> next_obj w" if "objs w b \<noteq> None" for b using obj_okD(2)[OF own_inv_obj[OF inv]] that by force
  define p where "p = (GREATEST b. objs w b \<noteq> None)"
  have "objs w p \<noteq> None" unfolding p_def by (rule GreatestI_nat[of _ a "next_obj w"]) (use a bound in auto)
  then obtain y where y: "objs w p = Some y" by auto
  have top: "b \<le> p" if "objs w b \<noteq> None" for b unfolding p_def by (rule Greatest_le_nat[of _ b "next_obj w"]) (use that bound in auto)
  have young: "\<not> child w p c" for c
  proof
    assume c: "child w p c"
    then obtain z where "objs w c = Some z" "p < c" by (rule child_stage[OF inv _ y])
    then show False using top[of c] by simp
  qed
  note k = obj_okD[OF own_inv_obj[OF inv y]]
  have "doomed w p = {}" using young k(1) by (auto simp: doomed_def child_def)
  then have "term_acks y = 0" "unat (sent_seqnum y) = unat (processed_seqnum y)" using k(7,8) quiet by simp_all
  moreover have "own_terminating y" by (rule all_terminating[OF st quiet y])
  moreover from calculation have "processed_seqnum y = ucast (sent_seqnum y)" by (metis unat_ucast_64 word_unat_eq_iff)
  ultimately show False using k(1,11) by (simp add: finished_def)
qed

lemma own_run_snoc: "own_run w ps w1 \<Longrightarrow> own_run w1 qs w2 \<Longrightarrow> own_run w (ps @ qs) w2"
  by (induction rule: own_run.induct) (auto intro: own_run.intros)

lemma run_to_end:
  assumes "stopping r w"
  shows "\<exists>qs w'. own_run w qs w' \<and> objs w' = Map.empty"
  using assms
proof (induction "own_rank w" arbitrary: w rule: less_induct)
  case less
  show ?case
  proof (cases "\<forall>p. inbox w p = []")
    case True
    then show ?thesis using quiet_empty[OF less.prems] own_run.no_delivery by blast
  next
    case False
    then obtain p w1 where "inbox w p \<noteq> []" "own_step Receive p w = Some w1" "stopping r w1" "own_rank w1 < own_rank w"
      using stopping_receive[OF less.prems] by blast
    then show ?thesis using less.hyps[of w1] own_run.delivery by blast
  qed
qed

text \<open>C26: once the root of a tree has begun to terminate and nobody acts any more, the commands are
  delivered in any order in at most \<open>own_rank\<close> steps, and every order leads to the end in which
  all objects of the tree have been destroyed.
\<close>

theorem own_shutdown:
  assumes "own_reach r w" "stopped r w" "own_run w ps w'"
  shows "length ps \<le> own_rank w \<and> (\<exists>qs w''. own_run w' qs w'' \<and> objs w'' = Map.empty)"
proof -
  have "stopping r w" using own_reach_inv[OF assms(1)] assms(2) by (simp add: stopping_def)
  then have "stopping r w'" "length ps + own_rank w' \<le> own_rank w" using stopping_run[OF assms(3)] by blast+
  then show ?thesis using run_to_end by fastforce
qed

theorem own_shutdown_witness:
  "inbox own_stopping 2 = [Plug, Term 7] \<and> (\<exists>qs w''. own_run own_stopping qs w'' \<and> objs w'' = Map.empty)"
  using own_shutdown[OF own_stopping_reach(1) _ own_run.no_delivery] own_stopping_reach(2,3) by (simp add: stopped_def)

subsection \<open>Past the range of the 32-bit count\<close>

definition overrun :: "nat \<Rightarrow> addr \<Rightarrow> oworld \<Rightarrow> bool" where
  "overrun k p w \<longleftrightarrow> (\<exists>y. objs w p = Some y \<and> k \<le> unat (processed_seqnum y))"

lemma overrun_put:
  "overrun k p w \<Longrightarrow> objs w q = Some y \<Longrightarrow> unat (processed_seqnum y) \<le> unat (processed_seqnum y') \<Longrightarrow> overrun k p (put_obj q y' w)"
  by (auto simp: overrun_def put_obj_def)

lemma overrun_send: "send_own_cmd d c w = Some w' \<Longrightarrow> overrun k p w \<Longrightarrow> overrun k p w'"
  by (auto simp: overrun_def own_defs bind_Some_iff)

lemma overrun_terms: "send_terms n cs w = Some w' \<Longrightarrow> overrun k p w \<Longrightarrow> overrun k p w'"
  by (induction cs arbitrary: w) (auto simp: bind_Some_iff overrun_send)

lemma overrun_register: "register_term_acks n q w = Some w' \<Longrightarrow> overrun k p w \<Longrightarrow> overrun k p w'"
  by (auto simp: register_term_acks_def bind_Some_iff get_obj_def intro: overrun_put)

lemma overrun_inbox: "overrun k p (w\<lparr>inbox := b\<rparr>) = overrun k p w"
  by (simp add: overrun_def)

lemma overrun_check:
  assumes "check_term_acks q w = Some w'" "overrun k p w" "2 ^ 32 \<le> k"
  shows "overrun k p w'"
proof (cases "w' = w")
  case False
  obtain y where y: "objs w q = Some y" "processed_seqnum y = ucast (sent_seqnum y)"
    using assms(1) False by (auto simp: check_term_acks_def bind_Some_iff get_obj_def split: if_splits)
  have "unat (processed_seqnum y) < 2 ^ 32" using unsigned_less[of "sent_seqnum y"] y(2) by (simp add: unat_ucast_64)
  then have "q \<noteq> p" using assms(2,3) y(1) by (auto simp: overrun_def)
  then show ?thesis using assms(1,2)
    by (auto simp: check_term_acks_def bind_Some_iff overrun_def own_defs split: if_splits)
qed (use assms in simp)

lemma overrun_register_send:
  assumes "register_term_acks m q w = Some w1" "send_own_cmd c (Term n) w1 = Some w'" "overrun k p w"
  shows "overrun k p w'"
  by (rule overrun_send[OF assms(2) overrun_register[OF assms(1,3)]])

lemma overrun_term_req:
  assumes "process_term_req c q w = Some w'" "overrun k p w"
  shows "overrun k p w'"
proof (cases "w' = w")
  case False
  then obtain y w1 where y: "objs w q = Some y"
      "register_term_acks 1 q (put_obj q (y\<lparr>owned := remove1 c (owned y)\<rparr>) w) = Some w1" "send_own_cmd c (Term (own_linger y)) w1 = Some w'"
    using assms(1) by (auto simp: process_term_req_def bind_Some_iff get_obj_def split: if_splits)
  show ?thesis by (rule overrun_register_send[OF y(2,3)], rule overrun_put[OF assms(2) y(1)]) simp
qed (use assms in simp)

lemma overrun_own:
  assumes "process_own c q w = Some w'" "overrun k p w"
  shows "overrun k p w'"
proof -
  obtain y where y: "objs w q = Some y" using assms(1) by (auto simp: process_own_def bind_Some_iff get_obj_def)
  show ?thesis
  proof (cases "own_terminating y")
    case True
    then obtain w1 where "register_term_acks 1 q w = Some w1" "send_own_cmd c (Term 0) w1 = Some w'"
      using assms(1) y by (auto simp: process_own_def bind_Some_iff get_obj_def)
    then show ?thesis using overrun_register_send assms(2) by blast
  next
    case False
    then show ?thesis using assms(1) y overrun_put[OF assms(2) y] by (auto simp: process_own_def get_obj_def)
  qed
qed

lemma overrun_term:
  assumes "process_term n q w = Some w'" "overrun k p w" "2 ^ 32 \<le> k"
  shows "overrun k p w'"
proof -
  have "\<exists>(y :: own) w1 w2 x. send_terms n (owned y) w = Some w1 \<and> register_term_acks (int (length (owned y))) q w1 = Some w2 \<and>
      objs w2 q = Some x \<and> check_term_acks q (put_obj q (x\<lparr>owned := [], own_terminating := True\<rparr>) w2) = Some w'"
    using assms(1) by (auto simp: process_term_def bind_Some_iff get_obj_def)
  then obtain y :: own and w1 w2 x where t: "send_terms n (owned y) w = Some w1" "register_term_acks (int (length (owned y))) q w1 = Some w2"
      "objs w2 q = Some x" "check_term_acks q (put_obj q (x\<lparr>owned := [], own_terminating := True\<rparr>) w2) = Some w'" by blast
  have "overrun k p w2" using overrun_register[OF t(2)] overrun_terms[OF t(1)] assms(2) by blast
  then show ?thesis using overrun_put[OF _ t(3)] by (intro overrun_check[OF t(4) _ assms(3)]) simp
qed

lemma overrun_ack:
  assumes "unregister_term_ack q w = Some w'" "overrun k p w" "2 ^ 32 \<le> k"
  shows "overrun k p w'"
proof -
  obtain y where y: "objs w q = Some y" "check_term_acks q (put_obj q (y\<lparr>term_acks := term_acks y - 1\<rparr>) w) = Some w'"
    using assms(1) by (auto simp: unregister_term_ack_def bind_Some_iff get_obj_def)
  show ?thesis using overrun_put[OF assms(2) y(1)] by (intro overrun_check[OF y(2) _ assms(3)]) simp
qed

lemma overrun_seqnum:
  assumes "process_seqnum q w = Some w'" "overrun k p w" "2 ^ 32 \<le> k" "\<forall>y. objs w q = Some y \<longrightarrow> unat (processed_seqnum y) + 1 < 2 ^ 64"
  shows "overrun k p w'"
proof -
  obtain y where y: "objs w q = Some y" "check_term_acks q (put_obj q (y\<lparr>processed_seqnum := processed_seqnum y + 1\<rparr>) w) = Some w'"
    using assms(1) by (auto simp: process_seqnum_def bind_Some_iff get_obj_def)
  have "unat (processed_seqnum y + 1) = unat (processed_seqnum y) + 1" using assms(4) y(1) by (simp add: unat_word_ariths(1))
  then show ?thesis using overrun_put[OF assms(2) y(1)] by (intro overrun_check[OF y(2) _ assms(3)]) simp
qed

lemma overrun_launch:
  assumes "own_step (Launch n) q w = Some w'" "overrun k p w" "objs w (next_obj w) = None"
  shows "overrun k p w'"
  using assms
  by (auto simp: new_obj_def launch_child_def set_owner_def send_plug_def send_own_def own_defs bind_Some_iff
      overrun_def assert_bind split: if_splits)

lemma overrun_receive:
  assumes st: "own_step Receive q w = Some w'" and over: "overrun k p w" "2 ^ 32 \<le> k"
    and room: "\<forall>y. objs w q = Some y \<longrightarrow> unat (processed_seqnum y) + 1 < 2 ^ 64"
  shows "overrun k p w'"
proof (cases "inbox w q")
  case Nil
  then show ?thesis using st over by simp
next
  case (Cons c cs)
  define w0 where "w0 = w\<lparr>inbox := (inbox w)(q := cs)\<rparr>"
  have w0: "process_own_cmd c q w0 = Some w'" "overrun k p w0" using st Cons over(1) by (simp_all add: w0_def overrun_inbox)
  have room0: "\<forall>y. objs w0 q = Some y \<longrightarrow> unat (processed_seqnum y) + 1 < 2 ^ 64" using room by (simp add: w0_def)
  show ?thesis
  proof (cases c)
    case (Own d)
    then obtain w1 where w1: "process_own d q w0 = Some w1" "process_seqnum q w1 = Some w'" using w0(1) by (auto simp: bind_Some_iff)
    have "\<exists>y0. objs w0 q = Some y0 \<and> processed_seqnum y = processed_seqnum y0" if "objs w1 q = Some y" for y
      using w1(1) that by (auto simp: process_own_def own_defs bind_Some_iff split: if_splits)
    then have "\<forall>y. objs w1 q = Some y \<longrightarrow> unat (processed_seqnum y) + 1 < 2 ^ 64" using room0 by auto
    then show ?thesis by (rule overrun_seqnum[OF w1(2) overrun_own[OF w1(1) w0(2)] over(2)])
  qed (use w0 room0 over(2) overrun_seqnum overrun_term overrun_ack overrun_term_req in auto)
qed

text \<open>The count of the commands sent to an object has 32 bits, the count of those it has processed
  has 64. Once an object has processed \<open>2 ^ 32\<close> commands the two never agree again: whatever is
  done, the object is not destroyed, and its owner waits for it forever.
\<close>

lemma own_seqnum_overrun:
  assumes "objs w p = Some y" "2 ^ 32 \<le> unat (processed_seqnum y)" "own_step a q w = Some w'" "objs w (next_obj w) = None"
    "\<forall>z. objs w q = Some z \<longrightarrow> unat (processed_seqnum z) + 1 < 2 ^ 64"
  shows "\<exists>y'. objs w' p = Some y' \<and> unat (processed_seqnum y) \<le> unat (processed_seqnum y')"
proof -
  have over: "overrun (unat (processed_seqnum y)) p w" using assms(1) by (simp add: overrun_def)
  have "overrun (unat (processed_seqnum y)) p w'"
  proof (cases a)
    case (Launch n)
    then show ?thesis using overrun_launch over assms(3,4) by blast
  next
    case (Stop_child c)
    then show ?thesis using overrun_term_req over assms(3) by simp
  next
    case Stop
    then show ?thesis using over assms(2,3)
      by (auto simp: own_terminate_def bind_Some_iff split: if_splits dest: overrun_term overrun_send)
  next
    case Receive
    then show ?thesis using overrun_receive over assms(2,3,5) by blast
  qed
  then show ?thesis by (simp add: overrun_def)
qed

definition own_overrun :: oworld where
  "own_overrun = \<lparr>objs = (\<lambda>_. None)(1 \<mapsto> (own_init 0)\<lparr>sent_seqnum := 0, processed_seqnum := 0x100000000\<rparr>), inbox = (\<lambda>_. []),
     next_obj = 2\<rparr>"

theorem own_seqnum_overrun_witness:
  "\<exists>w' y'. own_step Stop 1 own_overrun = Some w' \<and> objs w' 1 = Some y' \<and> own_terminating y' \<and> term_acks y' = 0"
proof -
  obtain w' where w': "own_step Stop 1 own_overrun = Some w'"
      "\<forall>y'. objs w' 1 = Some y' \<longrightarrow> own_terminating y' \<and> term_acks y' = 0"
    by (simp add: own_overrun_def own_terminate_def process_term_def check_term_acks_def own_init_def own_defs)
  have "\<exists>y'. objs w' 1 = Some y' \<and> unat (0x100000000 :: u64) \<le> unat (processed_seqnum y')"
    using own_seqnum_overrun[OF _ _ w'(1), of 1 "(own_init 0)\<lparr>sent_seqnum := 0, processed_seqnum := 0x100000000\<rparr>"]
    by (simp add: own_overrun_def)
  then show ?thesis using w' by blast
qed

end
