(* ===== verification/Sock_Req.thy ===== *)
theory Sock_Req
  imports Sock_Dealer
begin

text \<open>
  \<^verbatim>\<open>req_t\<close> of src/req.cpp: a dealer that alternates between sending a request and receiving the
  reply, and puts an empty part, the bottom of the backtrace stack, before each request.
\<close>

unbundle bit_operations_syntax

record req = dealer +
  receiving_reply :: bool
  message_begins :: bool

definition req_new :: req where
  "req_new = dealer.extend dealer_new \<lparr>receiving_reply = False, message_begins = True\<rparr>"

definition req_bottom :: msg where
  "req_bottom = msg_set_flags flag_more (msg_init msg_closed)"

text \<open>The first part of a request.\<close>

definition req_send_bottom :: "'r req_scheme \<Rightarrow> 's world \<Rightarrow> (rc \<times> 'r req_scheme \<times> 's world) option" where
  "req_send_bottom r w = do {
     (rc, _, r, w) \<leftarrow> dealer_xsend req_bottom r w;
     Some (rc, (if rc = Inr () then r\<lparr>message_begins := False\<rparr> else r), w) }"

definition req_xsend :: "msg \<Rightarrow> 'r req_scheme \<Rightarrow> 's world \<Rightarrow> (rc \<times> msg \<times> 'r req_scheme \<times> 's world) option" where
  "req_xsend m r w =
     (if receiving_reply r then Some (Inl EFSM, m, r, w)
      else do {
        (rc, r, w) \<leftarrow> (if message_begins r then req_send_bottom r w else Some (Inr (), r, w));
        if rc \<noteq> Inr () then Some (rc, m, r, w)
        else do {
          let last = \<not> has_more m;
          (rc, m, r, w) \<leftarrow> dealer_xsend m r w;
          if rc \<noteq> Inr () then Some (rc, m, r, w)
          else Some (Inr (), m, (if last then r\<lparr>receiving_reply := True, message_begins := True\<rparr> else r), w) } })"

text \<open>The loop that takes the rest of a malformed reply.\<close>

partial_function (option) req_drain :: "msg \<Rightarrow> 'r req_scheme \<Rightarrow> 's world \<Rightarrow> (msg \<times> 'r req_scheme \<times> 's world) option" where
  "req_drain m r w = do {
     (rc, m, r, w) \<leftarrow> dealer_xrecv m r w;
     zmq_assert (rc = Inr ());
     if \<not> has_more m then Some (m, r, w) else req_drain m r w }"

text \<open>The first part of a reply.\<close>

definition req_recv_bottom :: "msg \<Rightarrow> 'r req_scheme \<Rightarrow> 's world \<Rightarrow> (rc \<times> msg \<times> 'r req_scheme \<times> 's world) option" where
  "req_recv_bottom m r w = do {
     (rc, m, r, w) \<leftarrow> dealer_xrecv m r w;
     if rc \<noteq> Inr () then Some (rc, m, r, w)
     else do {
       n \<leftarrow> msg_size m (wmem w);
       if \<not> has_more m \<or> n \<noteq> 0 then do {
         (m, r, w) \<leftarrow> req_drain m r w;
         (_, m, h) \<leftarrow> msg_close m (wmem w);
         Some (Inl EAGAIN, msg_init m, r, w\<lparr>wmem := h\<rparr>) }
       else Some (Inr (), m, r\<lparr>message_begins := False\<rparr>, w) } }"

definition req_xrecv :: "msg \<Rightarrow> 'r req_scheme \<Rightarrow> 's world \<Rightarrow> (rc \<times> msg \<times> 'r req_scheme \<times> 's world) option" where
  "req_xrecv m r w =
     (if \<not> receiving_reply r then Some (Inl EFSM, m, r, w)
      else do {
        (rc, m, r, w) \<leftarrow> (if message_begins r then req_recv_bottom m r w else Some (Inr (), m, r, w));
        if rc \<noteq> Inr () then Some (rc, m, r, w)
        else do {
          (rc, m, r, w) \<leftarrow> dealer_xrecv m r w;
          if rc \<noteq> Inr () then Some (rc, m, r, w)
          else Some (Inr (), m, (if \<not> has_more m then r\<lparr>receiving_reply := False, message_begins := True\<rparr> else r), w) } })"

definition req_xhas_in :: "'r req_scheme \<Rightarrow> 's world \<Rightarrow> (bool \<times> 'r req_scheme \<times> 's world) option" where
  "req_xhas_in r w = (if \<not> receiving_reply r then Some (False, r, w) else dealer_xhas_in r w)"

definition req_xhas_out :: "'r req_scheme \<Rightarrow> 's world \<Rightarrow> (bool \<times> 'r req_scheme \<times> 's world) option" where
  "req_xhas_out r w = (if receiving_reply r then Some (False, r, w) else dealer_xhas_out r w)"

subsection \<open>Sending a request\<close>

lemma req_bottom: "has_more req_bottom" "msg_check req_bottom" "mtype req_bottom = type_vsm"
  by (simp_all add: req_bottom_def has_more_def msg_set_flags_def msg_init_def msg_check_def)

definition req_out_ready :: "'r req_scheme \<Rightarrow> 's world \<Rightarrow> bool" where
  "req_out_ready r w \<longleftrightarrow> lb_inv (dealer_lb r) \<and> out_good (lb_all (dealer_lb r)) w \<and> \<not> lb_dropping (dealer_lb r) \<and>
     (lb_more (dealer_lb r) \<longrightarrow> lb_active (dealer_lb r) > 0 \<and>
        pipe_room (items (lb_pipes (dealer_lb r)) ! lb_current (dealer_lb r)) w)"

text \<open>The pipe that takes the rest of the message.\<close>

abbreviation req_out :: "'r req_scheme \<Rightarrow> addr option" where
  "req_out r \<equiv> array_at (lb_pipes (dealer_lb r)) (lb_current (dealer_lb r))"

lemma req_part:
  assumes rdy: "req_out_ready r w" and m: "msg_check m"
  obtains rc m' l' w' where "dealer_xsend m r w = Some (rc, m', r\<lparr>dealer_lb := l'\<rparr>, w')" "lb_wrote (dealer_lb r) m w rc m' l' w'"
    "req_out_ready (r\<lparr>dealer_lb := l'\<rparr>) w'"
proof -
  have "lb_inv (dealer_lb r)" "out_good (lb_all (dealer_lb r)) w" "\<not> lb_dropping (dealer_lb r)" and
    "lb_more (dealer_lb r) \<longrightarrow> lb_active (dealer_lb r) > 0 \<and> pipe_room (items (lb_pipes (dealer_lb r)) ! lb_current (dealer_lb r)) w"
    using rdy by (simp_all add: req_out_ready_def)
  then obtain rc m' l' w' where s: "lb_send pipe_write pipe_flush (dealer_lb r) m w = Some (rc, m', l', w')" "lb_wrote (dealer_lb r) m w rc m' l' w'"
    by (rule lb_send_wrote[OF _ _ m])
  have "lb_active l' > 0 \<and> pipe_room (items (lb_pipes l') ! lb_current l') w'" if "lb_more l'"
    using s(2) that by (cases rc) (auto simp: lb_wrote_def array_at_def elem_eq_Some)
  then have "req_out_ready (r\<lparr>dealer_lb := l'\<rparr>) w'" using s(2) by (simp add: req_out_ready_def lb_wrote_def)
  then show ?thesis using that s by (simp add: dealer_xsend_def)
qed

definition req_wrote :: "addr \<Rightarrow> msg list \<Rightarrow> 'r req_scheme \<Rightarrow> 's world \<Rightarrow> 'r req_scheme \<Rightarrow> 's world \<Rightarrow> bool" where
  "req_wrote q ms r w r' w' \<longleftrightarrow> lb_all (dealer_lb r') = lb_all (dealer_lb r) \<and> pipe_sent q w' = pipe_sent q w @ ms \<and>
     (\<forall>p \<in> lb_all (dealer_lb r) - {q}. pipe_sent p w' = pipe_sent p w) \<and> wmem w' = wmem w"

lemma req_wrote_trans: "req_wrote q ms r w r1 w1 \<Longrightarrow> req_wrote q ns r1 w1 r' w' \<Longrightarrow> req_wrote q (ms @ ns) r w r' w'"
  by (simp add: req_wrote_def)

lemma req_wrote_part:
  assumes "lb_wrote (dealer_lb r) m w (Inr ()) m' l' w'"
  obtains q where "q \<in> lb_actives (dealer_lb r)" "pipe_room q w" "req_wrote q [m] r w (r\<lparr>dealer_lb := l'\<rparr>) w'"
    "lb_more (dealer_lb r) \<longrightarrow> req_out r = Some q" "has_more m \<longrightarrow> array_at (lb_pipes l') (lb_current l') = Some q" "lb_more l' = has_more m"
  using assms by (auto simp: lb_wrote_def req_wrote_def)

text \<open>The rest of a request, once its first part has been written to \<open>q\<close>.\<close>

fun req_send_all :: "msg list \<Rightarrow> 'r req_scheme \<Rightarrow> 's world \<Rightarrow> (rc \<times> 'r req_scheme \<times> 's world) option" where
  "req_send_all [] r w = Some (Inr (), r, w)"
| "req_send_all (m # ms) r w = do {
     (rc, _, r, w) \<leftarrow> req_xsend m r w;
     if rc \<noteq> Inr () then Some (rc, r, w) else req_send_all ms r w }"

lemma req_send_rest:
  assumes "one_message ms" "req_out_ready r w" "\<not> receiving_reply r" "\<not> message_begins r" "lb_more (dealer_lb r)" "req_out r = Some q"
  shows "\<exists>r' w'. req_send_all ms r w = Some (Inr (), r', w') \<and> req_wrote q ms r w r' w' \<and> req_out_ready r' w' \<and>
    receiving_reply r' \<and> message_begins r' \<and> \<not> lb_more (dealer_lb r')"
  using assms
proof (induction ms arbitrary: r w)
  case (Cons m ms)
  have m: "msg_check m" using Cons.prems(1) by (simp add: one_message_Cons)
  obtain rc m' l' w1 where 1: "dealer_xsend m r w = Some (rc, m', r\<lparr>dealer_lb := l'\<rparr>, w1)" "lb_wrote (dealer_lb r) m w rc m' l' w1"
    "req_out_ready (r\<lparr>dealer_lb := l'\<rparr>) w1" by (rule req_part[OF Cons.prems(2) m])
  have rc: "rc = Inr ()" using 1(2) Cons.prems(5) by (cases rc) (auto simp: lb_wrote_def)
  obtain q' where q: "req_wrote q' [m] r w (r\<lparr>dealer_lb := l'\<rparr>) w1" "lb_more (dealer_lb r) \<longrightarrow> req_out r = Some q'"
    "has_more m \<longrightarrow> array_at (lb_pipes l') (lb_current l') = Some q'" "lb_more l' = has_more m"
    using req_wrote_part 1(2) rc by metis
  have qq: "q' = q" using q(2) Cons.prems(5,6) by simp
  show ?case
  proof (cases "ms = []")
    case True
    then have "\<not> has_more m" using Cons.prems(1) by (simp add: one_message_Cons)
    then show ?thesis using True 1 rc q qq Cons.prems(3,4) by (simp add: req_xsend_def req_out_ready_def req_wrote_def)
  next
    case False
    then have hm: "has_more m" "one_message ms" using Cons.prems(1) by (simp_all add: one_message_Cons)
    obtain r' w' where "req_send_all ms (r\<lparr>dealer_lb := l'\<rparr>) w1 = Some (Inr (), r', w')" "req_wrote q ms (r\<lparr>dealer_lb := l'\<rparr>) w1 r' w'"
      "req_out_ready r' w'" "receiving_reply r'" "message_begins r'" "\<not> lb_more (dealer_lb r')"
      using Cons.IH[OF hm(2) 1(3)] Cons.prems(3,4) q(3,4) qq hm(1) by auto
    moreover have "req_xsend m r w = Some (Inr (), m', r\<lparr>dealer_lb := l'\<rparr>, w1)" using 1(1) rc hm(1) Cons.prems(3,4) by (simp add: req_xsend_def)
    ultimately show ?thesis using req_wrote_trans[of q "[m]" r w "r\<lparr>dealer_lb := l'\<rparr>" w1 ms] q(1) qq by auto
  qed
qed (simp add: one_message_def)

lemma req_send_first:
  assumes "one_message (m # ms)" "\<not> receiving_reply r" "message_begins r"
    and "req_send_bottom r w = Some (Inr (), r1, w1)" "\<not> message_begins r1" "\<not> receiving_reply r1"
  shows "req_send_all (m # ms) r w = req_send_all (m # ms) r1 w1"
  using assms by (simp add: req_xsend_def)

text \<open>C27: A request sent part by part, in a state in which a request may be sent, is written to one pipe
  with room, as the empty bottom part followed by the parts in their order, and to no other pipe;
  then the socket waits for the reply and refuses every further send with \<^verbatim>\<open>EFSM\<close>, without any
  effect. When no active pipe has room, the first part gives \<^verbatim>\<open>EAGAIN\<close>, nothing is written, and a
  request may still be sent.\<close>

theorem req_request_framed:
  assumes "req_out_ready r w" "\<not> lb_more (dealer_lb r)" "\<not> receiving_reply r" "message_begins r" "one_message ms"
  shows "\<exists>rc r' w'. req_send_all ms r w = Some (rc, r', w') \<and> req_out_ready r' w' \<and> message_begins r' \<and>
    (if \<exists>p \<in> lb_actives (dealer_lb r). pipe_room p w
     then rc = Inr () \<and> receiving_reply r' \<and> (\<forall>m. req_xsend m r' w' = Some (Inl EFSM, m, r', w')) \<and>
       (\<exists>q \<in> lb_actives (dealer_lb r). pipe_room q w \<and> pipe_sent q w' = pipe_sent q w @ req_bottom # ms \<and>
          (\<forall>p \<in> lb_all (dealer_lb r) - {q}. pipe_sent p w' = pipe_sent p w))
     else rc = Inl EAGAIN \<and> \<not> receiving_reply r' \<and> (\<forall>p \<in> lb_all (dealer_lb r). pipe_sent p w' = pipe_sent p w))"
proof -
  obtain m ns where ms: "ms = m # ns" using assms(5) by (cases ms) (auto simp: one_message_def)
  obtain rc b l1 w1 where 1: "dealer_xsend req_bottom r w = Some (rc, b, r\<lparr>dealer_lb := l1\<rparr>, w1)"
    "lb_wrote (dealer_lb r) req_bottom w rc b l1 w1" "req_out_ready (r\<lparr>dealer_lb := l1\<rparr>) w1"
    by (rule req_part[OF assms(1) req_bottom(2)])
  show ?thesis
  proof (cases rc)
    case (Inl e)
    have e: "e = EAGAIN" "\<forall>p \<in> lb_actives (dealer_lb r). \<not> pipe_room p w" "\<forall>p \<in> lb_all (dealer_lb r). pipe_sent p w1 = pipe_sent p w"
      using 1(2) Inl by (simp_all add: lb_wrote_def)
    have "req_send_all ms r w = Some (Inl EAGAIN, r\<lparr>dealer_lb := l1\<rparr>, w1)"
      using 1(1) Inl e(1) assms(3,4) ms by (simp add: req_xsend_def req_send_bottom_def)
    then show ?thesis using e 1(3) assms(3,4) by auto
  next
    case (Inr u)
    then have w1: "lb_wrote (dealer_lb r) req_bottom w (Inr ()) b l1 w1" using 1(2) by simp
    obtain q where q: "q \<in> lb_actives (dealer_lb r)" "pipe_room q w" "req_wrote q [req_bottom] r w (r\<lparr>dealer_lb := l1\<rparr>) w1"
      "has_more req_bottom \<longrightarrow> array_at (lb_pipes l1) (lb_current l1) = Some q" "lb_more l1 = has_more req_bottom"
      by (rule req_wrote_part[OF w1]) blast
    define r1 where "r1 = r\<lparr>dealer_lb := l1, message_begins := False\<rparr>"
    have r1: "\<not> message_begins r1" "\<not> receiving_reply r1" "lb_more (dealer_lb r1)" "req_out r1 = Some q" "req_out_ready r1 w1"
      using q(4,5) assms(3) req_bottom 1(3) by (simp_all add: r1_def req_out_ready_def)
    have bot: "req_send_bottom r w = Some (Inr (), r1, w1)" using 1(1) Inr by (simp add: req_send_bottom_def r1_def)
    obtain r' w' where s: "req_send_all ms r1 w1 = Some (Inr (), r', w')" "req_wrote q ms r1 w1 r' w'" "req_out_ready r' w'"
      "receiving_reply r'" "message_begins r'"
      using req_send_rest[OF assms(5) r1(5,2,1,3,4)] by blast
    have "req_send_all ms r w = Some (Inr (), r', w')"
      using req_send_first[OF _ assms(3,4) bot r1(1,2)] s(1) assms(5) ms by simp
    moreover have "req_wrote q (req_bottom # ms) r w r' w'"
      using req_wrote_trans[of q "[req_bottom]" r w r1 w1 ms r' w'] q(3) s(2) by (simp add: r1_def req_wrote_def)
    ultimately show ?thesis using s q(1,2) by (auto simp: req_wrote_def req_xsend_def)
  qed
qed

text \<open>The witness: a request of one part over a pipe with room.\<close>

theorem req_request_framed_witness:
  "\<exists>(w :: unit world) (r :: req) r' w'. req_send_all [example_msg] r w = Some (Inr (), r', w') \<and> receiving_reply r' \<and>
    pipe_sent 4 w' = [req_bottom, example_msg]"
proof -
  obtain w :: "unit world" where w: "out_good {4} w" "pipe_room 4 w" "pipe_sent 4 w = []" using pipe_example by blast
  obtain l where l: "lb_attach 4 lb_new = Some l" "lb_inv l" "lb_all l = {4}" "lb_actives l = {4}" "\<not> lb_more l" "\<not> lb_dropping l"
    by (rule lb_attach_ok[OF lb_new_inv(1), of 4]) simp_all
  let ?r = "req_new\<lparr>dealer_lb := l\<rparr>"
  have "req_out_ready ?r w" "\<not> lb_more (dealer_lb ?r)" "\<not> receiving_reply ?r" "message_begins ?r" "one_message [example_msg]"
    using l w(1) example_msg by (simp_all add: req_out_ready_def req_new_def dealer.extend_def one_message_def)
  from req_request_framed[OF this] show ?thesis using l(3,4) w(2,3) by auto
qed

subsection \<open>A malformed reply\<close>

lemma req_no_more:
  assumes rdy: "dealer_ready R r m w" "\<not> dealer_prefetched r" and none: "\<forall>p \<in> fq_all (dealer_fq r). pipe_avail p w = []"
  shows "req_drain m r w = None"
proof -
  obtain rc m' f' w' skip where r: "dealer_xrecv m r w = Some (map_sum id (\<lambda>_. ()) rc, m', r\<lparr>dealer_fq := f'\<rparr>, w')"
    "passed_over no_identity (dealer_fq r) w skip rc m' f' w'" by (rule dealer_recv_direct[OF rdy]) blast
  then have "\<exists>e. rc = Inl e" using none by (cases rc) (auto simp: passed_over_def)
  then show ?thesis using r(1) by (auto simp: req_drain.simps zmq_assert_def)
qed

text \<open>C28: A reply that consists of one part, where an empty part and a body were expected, aborts the
  process when nothing else has arrived: the loop that is to skip the rest of the malformed reply
  asserts that there is a further message to receive.\<close>

theorem req_malformed_aborts:
  assumes "dealer_ready R r m w" "\<not> dealer_prefetched r" "receiving_reply r" "message_begins r"
    and "q \<in> fq_all (dealer_fq r)" "pipe_avail q w = [x]" "\<not> has_more x" "no_identity x" "\<forall>p \<in> fq_all (dealer_fq r) - {q}. pipe_avail p w = []"
  shows "req_xrecv m r w = None"
proof -
  obtain rc m' f' w' skip where r: "dealer_xrecv m r w = Some (map_sum id (\<lambda>_. ()) rc, m', r\<lparr>dealer_fq := f'\<rparr>, w')"
    "dealer_ready R (r\<lparr>dealer_fq := f'\<rparr>) m' w'" "passed_over no_identity (dealer_fq r) w skip rc m' f' w'"
    by (rule dealer_recv_direct[OF assms(1,2)]) blast
  have sk: "m \<in> set (skip p) \<Longrightarrow> \<not> no_identity m" for p m using r(3) by (simp add: passed_over_def)
  obtain q' where q': "rc = Inr q'" using r(3) assms(5,6,8) sk[of x q] by (cases rc) (auto simp: passed_over_def)
  have av: "fq_all f' = fq_all (dealer_fq r)" "q' \<in> fq_all (dealer_fq r)"
    "\<forall>p \<in> fq_all (dealer_fq r). pipe_avail p w = skip p @ (if p = q' then m' # pipe_avail p w' else pipe_avail p w')"
    using r(3) q' by (simp_all add: passed_over_def)
  have "pipe_avail q' w = skip q' @ m' # pipe_avail q' w'" using av(2,3) by simp
  then have "q' = q" using av(2) assms(9) by (cases "q' = q") simp_all
  then have "skip q @ m' # pipe_avail q w' = [x]" using av(3) assms(5,6) by simp
  then have m': "m' = x" "pipe_avail q w' = []" using sk[of x q] assms(8) by (auto simp: append_eq_Cons_conv)
  moreover have "pipe_avail p w' = []" if "p \<in> fq_all (dealer_fq r) - {q}" for p using av(3) assms(9) that \<open>q' = q\<close> by auto
  ultimately have "\<forall>p \<in> fq_all (dealer_fq (r\<lparr>dealer_fq := f'\<rparr>)). pipe_avail p w' = []" using av(1) by auto
  then have "req_drain m' (r\<lparr>dealer_fq := f'\<rparr>) w' = None" using req_no_more[OF r(2)] assms(2) by simp
  then have "req_recv_bottom m r w = None" using r(1) q' m' assms(7) by (cases "msg_size m' (wmem w')") (simp_all add: req_recv_bottom_def)
  then show ?thesis using assms(3,4) by (simp add: req_xrecv_def)
qed

theorem req_malformed_aborts_witness:
  "\<exists>(w :: unit world) (r :: req). receiving_reply r \<and> pipe_avail 3 w = [example_msg] \<and> req_xrecv example_msg r w = None"
proof -
  obtain w :: "unit world" and f where w: "fq_ready {#} f example_msg w" "fq_all f = {3}" "pipe_avail 3 w = [example_msg]"
    using fq_ready_example by blast
  let ?r = "req_new\<lparr>dealer_fq := f, receiving_reply := True\<rparr>"
  have "fq_ready {#msg_init msg_closed#} f example_msg w"
    using fq_ready_other[OF w(1) example_msg(1), of "{#msg_init msg_closed#}" "wmem w"] w(1)
    by (simp add: fq_ready_def add_mset_commute[of example_msg])
  then have d: "dealer_ready {#} ?r example_msg w"
    by (simp add: dealer_ready_def req_new_def dealer.extend_def dealer_new_def example_msg msg_init_basic)
  have "no_identity example_msg" by (simp add: example_msg_def msg_init_def)
  from req_malformed_aborts[OF d _ _ _ _ w(3) _ this] w(2,3) show ?thesis
    by (intro exI[of _ w] exI[of _ ?r]) (simp add: example_msg req_new_def dealer.extend_def dealer_new_def)
qed

end
