(* ===== verification/Options.thy ===== *)
theory Options
  imports Tcp_Address Wire
begin

text \<open>
  \<^verbatim>\<open>options_t\<close> of src/options.cpp: the options of a socket and the two functions that set and read
  them. An option value is a pointer to bytes in the order of the host, which is little-endian
  here, or \<^verbatim>\<open>NULL\<close>; reading an integer through \<^verbatim>\<open>NULL\<close> is undefined. Of the variants chosen by
  the platform this is the one of Linux, where all the keep-alive options exist.
\<close>

unbundle bit_operations_syntax

subsection \<open>Values in memory\<close>

text \<open>A value of the host is the reversal of the same value in network byte order.\<close>

lemma get_put_uint32: "length bs = 4 \<Longrightarrow> \<exists>w. get_uint32 bs = Some w \<and> put_uint32 w = bs"
proof -
  assume "length bs = 4"
  then obtain a b c d where bs: "bs = [a, b, c, d]" by (auto simp: length_Suc_conv numeral_eq_Suc)
  define w :: u32 where "w = push_bit 24 (ucast a) OR push_bit 16 (ucast b) OR push_bit 8 (ucast c) OR ucast d"
  have "ucast (drop_bit 24 w) = a" "ucast (drop_bit 16 w) = b" "ucast (drop_bit 8 w) = c" "ucast w = d"
    by (rule bit_word_eqI; auto simp: w_def bit_simps dest: bit_imp_le_length)+
  then show ?thesis unfolding bs by (simp add: get_uint32_def put_uint32_def low_byte w_def)
qed

lemma get_put_uint64: "length bs = 8 \<Longrightarrow> \<exists>w. get_uint64 bs = Some w \<and> put_uint64 w = bs"
proof -
  assume "length bs = 8"
  then obtain a b c d e f g h where bs: "bs = [a, b, c, d, e, f, g, h]" by (auto simp: length_Suc_conv numeral_eq_Suc)
  define w :: u64 where "w = push_bit 56 (ucast a) OR push_bit 48 (ucast b) OR push_bit 40 (ucast c) OR push_bit 32 (ucast d) OR
      push_bit 24 (ucast e) OR push_bit 16 (ucast f) OR push_bit 8 (ucast g) OR ucast h"
  have "ucast (drop_bit 56 w) = a" "ucast (drop_bit 48 w) = b" "ucast (drop_bit 40 w) = c" "ucast (drop_bit 32 w) = d"
    "ucast (drop_bit 24 w) = e" "ucast (drop_bit 16 w) = f" "ucast (drop_bit 8 w) = g" "ucast w = h"
    by (rule bit_word_eqI; auto simp: w_def bit_simps dest: bit_imp_le_length)+
  then show ?thesis unfolding bs by (simp add: get_uint64_def put_uint64_def low_byte w_def)
qed

definition read_int :: "u8 list option \<Rightarrow> int option" where
  "read_int v = (case v of None \<Rightarrow> None | Some bs \<Rightarrow> map_option sint (get_uint32 (rev (take 4 bs))))"

definition read_u64 :: "u8 list option \<Rightarrow> u64 option" where
  "read_u64 v = (case v of None \<Rightarrow> None | Some bs \<Rightarrow> get_uint64 (rev (take 8 bs)))"

definition int_bytes :: "int \<Rightarrow> u8 list" where
  "int_bytes i = rev (put_uint32 (word_of_int i))"

definition u64_bytes :: "u64 \<Rightarrow> u8 list" where
  "u64_bytes v = rev (put_uint64 v)"

subsection \<open>The options\<close>

record options =
  sndhwm :: int
  rcvhwm :: int
  affinity :: u64
  identity_size :: u8
  opt_identity :: "u8 list" \<comment> \<open>256 bytes\<close>
  last_endpoint :: "u8 list"
  rate :: int
  recovery_ivl :: int
  multicast_hops :: int
  sndbuf :: int
  rcvbuf :: int
  sock_type :: int
  linger :: int
  reconnect_ivl :: int
  reconnect_ivl_max :: int
  backlog :: int
  maxmsgsize :: int
  rcvtimeo :: int
  sndtimeo :: int
  ipv4only :: int
  delay_attach_on_connect :: int
  delay_on_close :: bool
  delay_on_disconnect :: bool
  opt_filter :: bool
  recv_identity :: bool
  tcp_keepalive :: int
  tcp_keepalive_cnt :: int
  tcp_keepalive_idle :: int
  tcp_keepalive_intvl :: int
  tcp_accept_filters :: "mask list"
  socket_id :: int

text \<open>The bytes of the identity are not initialised; they are the argument.\<close>

definition options_new :: "u8 list \<Rightarrow> options" where
  "options_new junk = \<lparr>sndhwm = 1000, rcvhwm = 1000, affinity = 0, identity_size = 0, opt_identity = junk, last_endpoint = [],
     rate = 100, recovery_ivl = 10000, multicast_hops = 1, sndbuf = 0, rcvbuf = 0, sock_type = -1, linger = -1,
     reconnect_ivl = 100, reconnect_ivl_max = 0, backlog = 100, maxmsgsize = -1, rcvtimeo = -1, sndtimeo = -1,
     ipv4only = 1, delay_attach_on_connect = 0, delay_on_close = True, delay_on_disconnect = True, opt_filter = False,
     recv_identity = False, tcp_keepalive = -1, tcp_keepalive_cnt = -1, tcp_keepalive_idle = -1,
     tcp_keepalive_intvl = -1, tcp_accept_filters = [], socket_id = 0\<rparr>"

text \<open>The names of the options in include/zmq.h.\<close>

datatype sockopt = ZMQ_AFFINITY | ZMQ_IDENTITY | ZMQ_SUBSCRIBE | ZMQ_UNSUBSCRIBE | ZMQ_RATE | ZMQ_RECOVERY_IVL
  | ZMQ_SNDBUF | ZMQ_RCVBUF | ZMQ_RCVMORE | ZMQ_FD | ZMQ_EVENTS | ZMQ_TYPE | ZMQ_LINGER | ZMQ_RECONNECT_IVL
  | ZMQ_BACKLOG | ZMQ_RECONNECT_IVL_MAX | ZMQ_MAXMSGSIZE | ZMQ_SNDHWM | ZMQ_RCVHWM | ZMQ_MULTICAST_HOPS
  | ZMQ_RCVTIMEO | ZMQ_SNDTIMEO | ZMQ_IPV4ONLY | ZMQ_LAST_ENDPOINT | ZMQ_ROUTER_MANDATORY | ZMQ_TCP_KEEPALIVE
  | ZMQ_TCP_KEEPALIVE_CNT | ZMQ_TCP_KEEPALIVE_IDLE | ZMQ_TCP_KEEPALIVE_INTVL | ZMQ_TCP_ACCEPT_FILTER
  | ZMQ_DELAY_ATTACH_ON_CONNECT | ZMQ_XPUB_VERBOSE

definition sockopt_codes :: "(int \<times> sockopt) list" where
  "sockopt_codes = [(4, ZMQ_AFFINITY), (5, ZMQ_IDENTITY), (6, ZMQ_SUBSCRIBE), (7, ZMQ_UNSUBSCRIBE), (8, ZMQ_RATE),
     (9, ZMQ_RECOVERY_IVL), (11, ZMQ_SNDBUF), (12, ZMQ_RCVBUF), (13, ZMQ_RCVMORE), (14, ZMQ_FD), (15, ZMQ_EVENTS),
     (16, ZMQ_TYPE), (17, ZMQ_LINGER), (18, ZMQ_RECONNECT_IVL), (19, ZMQ_BACKLOG), (21, ZMQ_RECONNECT_IVL_MAX),
     (22, ZMQ_MAXMSGSIZE), (23, ZMQ_SNDHWM), (24, ZMQ_RCVHWM), (25, ZMQ_MULTICAST_HOPS), (27, ZMQ_RCVTIMEO),
     (28, ZMQ_SNDTIMEO), (31, ZMQ_IPV4ONLY), (32, ZMQ_LAST_ENDPOINT), (33, ZMQ_ROUTER_MANDATORY),
     (34, ZMQ_TCP_KEEPALIVE), (35, ZMQ_TCP_KEEPALIVE_CNT), (36, ZMQ_TCP_KEEPALIVE_IDLE),
     (37, ZMQ_TCP_KEEPALIVE_INTVL), (38, ZMQ_TCP_ACCEPT_FILTER), (39, ZMQ_DELAY_ATTACH_ON_CONNECT), (40, ZMQ_XPUB_VERBOSE)]"

subsection \<open>Setting\<close>

definition set_int :: "(int \<Rightarrow> bool) \<Rightarrow> (int \<Rightarrow> options) \<Rightarrow> u8 list option \<Rightarrow> nat \<Rightarrow> options \<Rightarrow> (rc \<times> options) option" where
  "set_int ok upd v n opts =
     (if n \<noteq> 4 then Some (Inl EINVAL, opts)
      else do { x \<leftarrow> read_int v; Some (if ok x then (Inr (), upd x) else (Inl EINVAL, opts)) })"

definition set_u64 :: "(u64 \<Rightarrow> options) \<Rightarrow> u8 list option \<Rightarrow> nat \<Rightarrow> options \<Rightarrow> (rc \<times> options) option" where
  "set_u64 upd v n opts =
     (if n \<noteq> 8 then Some (Inl EINVAL, opts) else do { x \<leftarrow> read_u64 v; Some (Inr (), upd x) })"

definition c_str :: "u8 list \<Rightarrow> string" where
  "c_str bs = map (\<lambda>b. char_of (unat b)) (takeWhile (\<lambda>b. b \<noteq> 0) bs)"

definition set_accept_filter :: "net \<Rightarrow> u8 list option \<Rightarrow> nat \<Rightarrow> options \<Rightarrow> (rc \<times> options) option" where
  "set_accept_filter net v n opts =
     (case v of
        None \<Rightarrow> Some (if n = 0 then (Inr (), opts\<lparr>tcp_accept_filters := []\<rparr>) else (Inl EINVAL, opts))
      | Some bs \<Rightarrow>
          if n < 1 \<or> n > 255 then Some (Inl EINVAL, opts)
          else do {
            b \<leftarrow> elem bs 0;
            if b = 0 then Some (Inl EINVAL, opts)
            else do {
              rc \<leftarrow> mask_resolve net (c_str (take n bs)) (ipv4only opts \<noteq> 0) mask_new;
              case rc of
                Inl _ \<Rightarrow> Some (Inl EINVAL, opts)
              | Inr k \<Rightarrow> Some (Inr (), opts\<lparr>tcp_accept_filters := tcp_accept_filters opts @ [k]\<rparr>) } })"

definition set_identity_opt :: "u8 list option \<Rightarrow> nat \<Rightarrow> options \<Rightarrow> (rc \<times> options) option" where
  "set_identity_opt v n opts =
     (if n < 1 \<or> n > 255 then Some (Inl EINVAL, opts)
      else do {
        bs \<leftarrow> v;
        b \<leftarrow> elem bs 0;
        if b = 0 then Some (Inl EINVAL, opts)
        else do {
          zmq_assert (n \<le> length bs);
          Some (Inr (), opts\<lparr>identity_size := of_nat n, opt_identity := take n bs @ drop n (opt_identity opts)\<rparr>) } })"

fun set_option :: "net \<Rightarrow> sockopt \<Rightarrow> u8 list option \<Rightarrow> nat \<Rightarrow> options \<Rightarrow> (rc \<times> options) option" where
  "set_option net ZMQ_SNDHWM v n p = set_int (\<lambda>x. \<not> x < 0) (\<lambda>x. p\<lparr>sndhwm := x\<rparr>) v n p"
| "set_option net ZMQ_RCVHWM v n p = set_int (\<lambda>x. \<not> x < 0) (\<lambda>x. p\<lparr>rcvhwm := x\<rparr>) v n p"
| "set_option net ZMQ_AFFINITY v n p =
     set_u64 (\<lambda>x. p\<lparr>affinity := x\<rparr>) v n p"
| "set_option net ZMQ_IDENTITY v n p = set_identity_opt v n p"
| "set_option net ZMQ_RATE v n p = set_int (\<lambda>x. \<not> x \<le> 0) (\<lambda>x. p\<lparr>rate := x\<rparr>) v n p"
| "set_option net ZMQ_RECOVERY_IVL v n p = set_int (\<lambda>x. \<not> x < 0) (\<lambda>x. p\<lparr>recovery_ivl := x\<rparr>) v n p"
| "set_option net ZMQ_SNDBUF v n p = set_int (\<lambda>x. \<not> x < 0) (\<lambda>x. p\<lparr>sndbuf := x\<rparr>) v n p"
| "set_option net ZMQ_RCVBUF v n p = set_int (\<lambda>x. \<not> x < 0) (\<lambda>x. p\<lparr>rcvbuf := x\<rparr>) v n p"
| "set_option net ZMQ_LINGER v n p = set_int (\<lambda>x. True) (\<lambda>x. p\<lparr>linger := x\<rparr>) v n p"
| "set_option net ZMQ_RECONNECT_IVL v n p = set_int (\<lambda>x. \<not> x < -1) (\<lambda>x. p\<lparr>reconnect_ivl := x\<rparr>) v n p"
| "set_option net ZMQ_RECONNECT_IVL_MAX v n p = set_int (\<lambda>x. \<not> x < 0) (\<lambda>x. p\<lparr>reconnect_ivl_max := x\<rparr>) v n p"
| "set_option net ZMQ_BACKLOG v n p = set_int (\<lambda>x. True) (\<lambda>x. p\<lparr>backlog := x\<rparr>) v n p"
| "set_option net ZMQ_MAXMSGSIZE v n p =
     set_u64 (\<lambda>x. p\<lparr>maxmsgsize := sint x\<rparr>) v n p"
| "set_option net ZMQ_MULTICAST_HOPS v n p = set_int (\<lambda>x. \<not> x \<le> 0) (\<lambda>x. p\<lparr>multicast_hops := x\<rparr>) v n p"
| "set_option net ZMQ_RCVTIMEO v n p = set_int (\<lambda>x. True) (\<lambda>x. p\<lparr>rcvtimeo := x\<rparr>) v n p"
| "set_option net ZMQ_SNDTIMEO v n p = set_int (\<lambda>x. True) (\<lambda>x. p\<lparr>sndtimeo := x\<rparr>) v n p"
| "set_option net ZMQ_IPV4ONLY v n p = set_int (\<lambda>x. \<not> (x \<noteq> 0 \<and> x \<noteq> 1)) (\<lambda>x. p\<lparr>ipv4only := x\<rparr>) v n p"
| "set_option net ZMQ_TCP_KEEPALIVE v n p =
     set_int (\<lambda>x. \<not> (x \<noteq> -1 \<and> x \<noteq> 0 \<and> x \<noteq> 1)) (\<lambda>x. p\<lparr>tcp_keepalive := x\<rparr>) v n p"
| "set_option net ZMQ_DELAY_ATTACH_ON_CONNECT v n p =
     set_int (\<lambda>x. \<not> (x \<noteq> 0 \<and> x \<noteq> 1)) (\<lambda>x. p\<lparr>delay_attach_on_connect := x\<rparr>) v n p"
| "set_option net ZMQ_TCP_KEEPALIVE_CNT v n p =
     set_int (\<lambda>x. \<not> (x \<le> 0 \<and> x \<noteq> -1)) (\<lambda>x. p\<lparr>tcp_keepalive_cnt := x\<rparr>) v n p"
| "set_option net ZMQ_TCP_KEEPALIVE_IDLE v n p =
     set_int (\<lambda>x. \<not> (x \<le> 0 \<and> x \<noteq> -1)) (\<lambda>x. p\<lparr>tcp_keepalive_idle := x\<rparr>) v n p"
| "set_option net ZMQ_TCP_KEEPALIVE_INTVL v n p =
     set_int (\<lambda>x. \<not> (x \<le> 0 \<and> x \<noteq> -1)) (\<lambda>x. p\<lparr>tcp_keepalive_intvl := x\<rparr>) v n p"
| "set_option net ZMQ_TCP_ACCEPT_FILTER v n p = set_accept_filter net v n p"
| "set_option net _ v n p = Some (Inl EINVAL, p)"

definition options_setsockopt :: "net \<Rightarrow> int \<Rightarrow> u8 list option \<Rightarrow> nat \<Rightarrow> options \<Rightarrow> (rc \<times> options) option" where
  "options_setsockopt net o' v n p = (case map_of sockopt_codes o' of
     None \<Rightarrow> Some (Inl EINVAL, p)
   | Some x \<Rightarrow> set_option net x v n p)"

subsection \<open>Reading\<close>

text \<open>The bytes stored to the buffer of the caller, which has \<open>n\<close> of them; their number is what
  \<^verbatim>\<open>*optvallen_\<close> becomes.\<close>

definition get_bytes :: "u8 list \<Rightarrow> nat \<Rightarrow> errno + u8 list" where
  "get_bytes bs n = (if n < length bs then Inl EINVAL else Inr bs)"

fun get_option :: "sockopt \<Rightarrow> nat \<Rightarrow> options \<Rightarrow> errno + u8 list" where
  "get_option ZMQ_SNDHWM n p = get_bytes (int_bytes (sndhwm p)) n"
| "get_option ZMQ_RCVHWM n p = get_bytes (int_bytes (rcvhwm p)) n"
| "get_option ZMQ_AFFINITY n p = get_bytes (u64_bytes (affinity p)) n"
| "get_option ZMQ_IDENTITY n p = get_bytes (take (unat (identity_size p)) (opt_identity p)) n"
| "get_option ZMQ_RATE n p = get_bytes (int_bytes (rate p)) n"
| "get_option ZMQ_RECOVERY_IVL n p = get_bytes (int_bytes (recovery_ivl p)) n"
| "get_option ZMQ_SNDBUF n p = get_bytes (int_bytes (sndbuf p)) n"
| "get_option ZMQ_RCVBUF n p = get_bytes (int_bytes (rcvbuf p)) n"
| "get_option ZMQ_TYPE n p = get_bytes (int_bytes (sock_type p)) n"
| "get_option ZMQ_LINGER n p = get_bytes (int_bytes (linger p)) n"
| "get_option ZMQ_RECONNECT_IVL n p = get_bytes (int_bytes (reconnect_ivl p)) n"
| "get_option ZMQ_RECONNECT_IVL_MAX n p = get_bytes (int_bytes (reconnect_ivl_max p)) n"
| "get_option ZMQ_BACKLOG n p = get_bytes (int_bytes (backlog p)) n"
| "get_option ZMQ_MAXMSGSIZE n p = get_bytes (u64_bytes (word_of_int (maxmsgsize p))) n"
| "get_option ZMQ_MULTICAST_HOPS n p = get_bytes (int_bytes (multicast_hops p)) n"
| "get_option ZMQ_RCVTIMEO n p = get_bytes (int_bytes (rcvtimeo p)) n"
| "get_option ZMQ_SNDTIMEO n p = get_bytes (int_bytes (sndtimeo p)) n"
| "get_option ZMQ_IPV4ONLY n p = get_bytes (int_bytes (ipv4only p)) n"
| "get_option ZMQ_DELAY_ATTACH_ON_CONNECT n p = get_bytes (int_bytes (delay_attach_on_connect p)) n"
| "get_option ZMQ_TCP_KEEPALIVE n p = get_bytes (int_bytes (tcp_keepalive p)) n"
| "get_option ZMQ_TCP_KEEPALIVE_CNT n p = get_bytes (int_bytes (tcp_keepalive_cnt p)) n"
| "get_option ZMQ_TCP_KEEPALIVE_IDLE n p = get_bytes (int_bytes (tcp_keepalive_idle p)) n"
| "get_option ZMQ_TCP_KEEPALIVE_INTVL n p = get_bytes (int_bytes (tcp_keepalive_intvl p)) n"
| "get_option ZMQ_LAST_ENDPOINT n p = get_bytes (last_endpoint p @ [0]) n"
| "get_option _ n p = Inl EINVAL"

definition options_getsockopt :: "int \<Rightarrow> nat \<Rightarrow> options \<Rightarrow> errno + u8 list" where
  "options_getsockopt o' n p = (case map_of sockopt_codes o' of None \<Rightarrow> Inl EINVAL | Some x \<Rightarrow> get_option x n p)"

subsection \<open>What an operation does\<close>

definition between :: "int \<Rightarrow> int \<Rightarrow> int \<Rightarrow> bool" where
  "between lo hi x \<longleftrightarrow> lo \<le> x \<and> x < hi"

abbreviation i32 :: "int \<Rightarrow> bool" where
  "i32 \<equiv> between (- (2 ^ 31)) (2 ^ 31)"

abbreviation i64 :: "int \<Rightarrow> bool" where
  "i64 \<equiv> between (- (2 ^ 63)) (2 ^ 63)"

lemma i32_raise:
  "i32 x \<Longrightarrow> \<not> x < 0 \<Longrightarrow> between 0 (2 ^ 31) x" "i32 x \<Longrightarrow> 0 < x \<Longrightarrow> between 1 (2 ^ 31) x"
  "i32 x \<Longrightarrow> \<not> x < -1 \<Longrightarrow> between (-1) (2 ^ 31) x"
  by (simp_all add: between_def)

lemma i64_sint: "i64 (sint (x :: u64))"
  using sint_range_size[of x] by (simp add: between_def word_size)

lemma read_int_range: "read_int v = Some x \<Longrightarrow> i32 x"
  using sint_range_size[where ?'a = 32] by (auto simp: read_int_def word_size between_def split: option.splits)

lemma set_int_Some:
  assumes "set_int ok upd v n p = Some (rc, p')"
  shows "rc = Inl EINVAL \<and> p' = p \<or> (\<exists>x. rc = Inr () \<and> n = 4 \<and> read_int v = Some x \<and> i32 x \<and> ok x \<and> p' = upd x)"
  using assms read_int_range[of v] by (auto simp: set_int_def run_simps split: if_splits)

lemma read_int_bytes: "length bs = 4 \<Longrightarrow> read_int (Some bs) = Some x \<Longrightarrow> int_bytes x = bs"
  using get_put_uint32[of "rev bs"] by (auto simp: read_int_def int_bytes_def)

lemma read_u64_bytes: "length bs = 8 \<Longrightarrow> read_u64 (Some bs) = Some x \<Longrightarrow> u64_bytes x = bs"
  using get_put_uint64[of "rev bs"] by (auto simp: read_u64_def u64_bytes_def)

text \<open>The ranges that the manual gives for the options.\<close>

definition options_ok :: "options \<Rightarrow> bool" where
  "options_ok p \<longleftrightarrow> list_all (between 0 (2 ^ 31)) [sndhwm p, rcvhwm p, recovery_ivl p, sndbuf p, rcvbuf p, reconnect_ivl_max p] \<and>
     list_all (between 1 (2 ^ 31)) [rate p, multicast_hops p] \<and> between (-1) (2 ^ 31) (reconnect_ivl p) \<and>
     list_all i32 [linger p, backlog p, rcvtimeo p, sndtimeo p] \<and> i64 (maxmsgsize p) \<and>
     list_all (between 0 2) [ipv4only p, delay_attach_on_connect p] \<and> between (-1) 2 (tcp_keepalive p) \<and>
     list_all (\<lambda>x. x = -1 \<or> between 1 (2 ^ 31) x) [tcp_keepalive_cnt p, tcp_keepalive_idle p, tcp_keepalive_intvl p] \<and>
     length (opt_identity p) = 256 \<and> (identity_size p = 0 \<or> hd (opt_identity p) \<noteq> 0)"

lemma options_new_ok: "length junk = 256 \<Longrightarrow> options_ok (options_new junk)"
  by (simp add: options_ok_def options_new_def between_def)

lemma set_u64_Some:
  assumes "set_u64 upd v n p = Some (rc, p')"
  shows "rc = Inl EINVAL \<and> p' = p \<or> (\<exists>x. rc = Inr () \<and> n = 8 \<and> read_u64 v = Some x \<and> p' = upd x)"
  using assms by (auto simp: set_u64_def run_simps split: if_splits)

lemma set_identity_Some:
  assumes "set_identity_opt v n p = Some (rc, p')"
  shows "rc = Inl EINVAL \<and> p' = p \<or> (\<exists>bs. rc = Inr () \<and> v = Some bs \<and> 1 \<le> n \<and> n \<le> 255 \<and> n \<le> length bs \<and> hd bs \<noteq> 0 \<and>
    p' = p\<lparr>identity_size := of_nat n, opt_identity := take n bs @ drop n (opt_identity p)\<rparr>)"
proof (cases "n < 1 \<or> n > 255")
  case False
  then obtain bs where bs: "v = Some bs" "bs \<noteq> []" using assms by (auto simp: set_identity_opt_def run_simps elem_eq_Some)
  then show ?thesis using assms False by (auto simp: set_identity_opt_def run_simps elem_eq_Some hd_conv_nth split: if_splits)
qed (use assms in \<open>auto simp: set_identity_opt_def\<close>)

lemma set_accept_filter_Some:
  assumes "set_accept_filter net v n p = Some (rc, p')"
  shows "rc = Inl EINVAL \<and> p' = p \<or> rc = Inr () \<and> (\<exists>fs. p' = p\<lparr>tcp_accept_filters := fs\<rparr>)"
proof (cases v)
  case (Some bs)
  show ?thesis
  proof (cases "n < 1 \<or> n > 255 \<or> elem bs 0 = Some 0")
    case True
    then show ?thesis using assms Some by (elim disjE) (auto simp: set_accept_filter_def split: if_splits)
  next
    case False
    then obtain r where "mask_resolve net (c_str (take n bs)) (ipv4only p \<noteq> 0) mask_new = Some r"
      "(case r of Inl _ \<Rightarrow> Some (Inl EINVAL, p) | Inr k \<Rightarrow> Some (Inr (), p\<lparr>tcp_accept_filters := tcp_accept_filters p @ [k]\<rparr>)) = Some (rc, p')"
      using assms Some by (auto simp: set_accept_filter_def run_simps split: if_splits)
    then show ?thesis by (cases r) auto
  qed
qed (use assms in \<open>auto simp: set_accept_filter_def split: if_splits\<close>)

lemmas set_SomeD = set_int_Some set_u64_Some set_identity_Some set_accept_filter_Some

lemma options_ok_identity:
  assumes "options_ok p" "1 \<le> n" "n \<le> 255" "n \<le> length bs" "hd bs \<noteq> 0"
  shows "options_ok (p\<lparr>identity_size := of_nat n, opt_identity := take n bs @ drop n (opt_identity p)\<rparr>)"
proof -
  have "hd (take n bs @ drop n (opt_identity p)) = hd bs" using assms(2,4) by (cases bs; cases n) simp_all
  moreover have "length (take n bs @ drop n (opt_identity p)) = 256"
    using assms(1,3,4) by (simp add: options_ok_def)
  ultimately show ?thesis using assms(1,5) by (simp add: options_ok_def)
qed

lemma set_option_refused: "set_option net x v n p = Some (Inl e, p') \<Longrightarrow> e = EINVAL \<and> p' = p"
  by (cases x) (auto dest: set_SomeD)

lemma set_option_ok:
  assumes "options_ok p" "set_option net x v n p = Some (rc, p')"
  shows "options_ok p'"
proof (cases x)
  case ZMQ_IDENTITY
  then have "set_identity_opt v n p = Some (rc, p')" using assms(2) by simp
  from set_identity_Some[OF this] show ?thesis using assms(1) by (elim disjE exE conjE) (simp_all add: options_ok_identity)
qed ((insert assms, simp; (drule set_SomeD)?; (elim disjE exE conjE)?; (simp only: de_Morgan_conj imp_conv_disj not_le not_not)?;
    (elim disjE)?; simp add: options_ok_def i32_raise[simplified] i64_sint[simplified] between_def[of 0 2] between_def[of "-1" 2])+)

lemma set_option_get:
  assumes "set_option net x (Some bs) (length bs) p = Some (Inr (), p')" "x \<noteq> ZMQ_TCP_ACCEPT_FILTER" "length (opt_identity p) = 256"
  shows "get_option x n p' = get_bytes bs n"
proof (cases x)
  case ZMQ_IDENTITY
  then have "set_identity_opt (Some bs) (length bs) p = Some (Inr (), p')" using assms(1) by simp
  from set_identity_Some[OF this] have "length bs \<le> 255" "p' = p\<lparr>identity_size := of_nat (length bs), opt_identity := bs @ drop (length bs) (opt_identity p)\<rparr>"
    by auto
  moreover from this(1) have "unat (of_nat (length bs) :: u8) = length bs" by (simp add: unat_of_nat)
  ultimately show ?thesis using ZMQ_IDENTITY by simp
next
  case ZMQ_TCP_ACCEPT_FILTER
  then show ?thesis using assms(2) by simp
qed ((insert assms, simp; (drule set_SomeD)?; (elim disjE exE conjE)?; simp add: read_int_bytes read_u64_bytes)+)

lemma set_option_frame:
  assumes "set_option net x v n p = Some (rc, p')" "x \<noteq> y"
  shows "get_option y k p' = get_option y k p"
  by (insert assms, cases x; simp; (drule set_SomeD)?; (elim disjE exE conjE)?; cases y; simp)

lemma sockopt_codes_unique: "map_of sockopt_codes a = Some x \<Longrightarrow> map_of sockopt_codes b = Some x \<Longrightarrow> a = b"
proof -
  assume "map_of sockopt_codes a = Some x" "map_of sockopt_codes b = Some x"
  then have "(a, x) \<in> set sockopt_codes" "(b, x) \<in> set sockopt_codes" by (auto dest: map_of_SomeD)
  moreover have "distinct (map snd sockopt_codes)" by (simp add: sockopt_codes_def)
  then have "inj_on snd (set sockopt_codes)" by (simp add: distinct_map)
  ultimately show "a = b" unfolding inj_on_def by fastforce
qed

subsection \<open>The properties\<close>

text \<open>C29: Every option keeps its type: from options in the ranges that the manual gives them, whatever is
  passed to \<^verbatim>\<open>setsockopt\<close> leaves the options in these ranges; a call that is refused gives
  \<^verbatim>\<open>EINVAL\<close> and changes nothing, and unknown options are refused.\<close>

theorem options_keep_type:
  assumes "options_ok p" "options_setsockopt net o' v n p = Some (rc, p')"
  shows "options_ok p' \<and> (\<forall>e. rc = Inl e \<longrightarrow> e = EINVAL \<and> p' = p) \<and> (map_of sockopt_codes o' = None \<longrightarrow> rc = Inl EINVAL)"
  using assms set_option_ok[OF assms(1)] set_option_refused
  by (auto simp: options_setsockopt_def split: option.splits)

theorem options_keep_type_witness:
  "\<exists>p'. options_setsockopt \<lparr>ifaddrs = [], getaddrinfo = (\<lambda>_ _ _. Inl EAI_OTHER), getnameinfo = (\<lambda>_. None)\<rparr> 8 (Some [7, 0, 0, 0]) 4
      (options_new (replicate 256 0)) = Some (Inr (), p') \<and> rate p' = 7 \<and> options_ok p'"
proof -
  let ?net = "\<lparr>ifaddrs = [], getaddrinfo = (\<lambda>_ _ _. Inl EAI_OTHER), getnameinfo = (\<lambda>_. None)\<rparr>"
  have "read_int (Some [7, 0, 0, 0]) = Some 7" by code_simp
  then have s: "options_setsockopt ?net 8 (Some [7, 0, 0, 0]) 4 (options_new (replicate 256 0)) = Some (Inr (), (options_new (replicate 256 0))\<lparr>rate := 7\<rparr>)"
    by (simp add: options_setsockopt_def sockopt_codes_def set_int_def)
  then show ?thesis using options_keep_type[OF options_new_ok s] by simp
qed

text \<open>C30: What \<^verbatim>\<open>setsockopt\<close> accepted is what \<^verbatim>\<open>getsockopt\<close> gives back, byte by byte, in any buffer that is
  large enough, and a smaller buffer is refused; the accept filters alone cannot be read. Every
  other option reads as before.\<close>

theorem options_set_get:
  assumes "options_ok p" "options_setsockopt net o' (Some bs) (length bs) p = Some (Inr (), p')"
  shows "options_getsockopt o' n p' = (if map_of sockopt_codes o' = Some ZMQ_TCP_ACCEPT_FILTER \<or> n < length bs then Inl EINVAL else Inr bs) \<and>
    (\<forall>a. a \<noteq> o' \<longrightarrow> options_getsockopt a n p' = options_getsockopt a n p)"
proof -
  obtain x where x: "map_of sockopt_codes o' = Some x" "set_option net x (Some bs) (length bs) p = Some (Inr (), p')"
    using assms(2) by (auto simp: options_setsockopt_def split: option.splits)
  have "length (opt_identity p) = 256" using assms(1) by (simp add: options_ok_def)
  then have "x \<noteq> ZMQ_TCP_ACCEPT_FILTER \<Longrightarrow> get_option x n p' = get_bytes bs n" using set_option_get[OF x(2)] by simp
  moreover have "options_getsockopt a n p' = options_getsockopt a n p" if "a \<noteq> o'" for a
  proof (cases "map_of sockopt_codes a")
    case (Some y)
    then have "x \<noteq> y" using x(1) that sockopt_codes_unique by blast
    then show ?thesis using set_option_frame[OF x(2)] Some by (simp add: options_getsockopt_def)
  qed (simp add: options_getsockopt_def)
  ultimately show ?thesis using x(1) by (cases "x = ZMQ_TCP_ACCEPT_FILTER") (auto simp: options_getsockopt_def get_bytes_def)
qed

theorem options_set_get_witness:
  "\<exists>p'. options_setsockopt \<lparr>ifaddrs = [], getaddrinfo = (\<lambda>_ _ _. Inl EAI_OTHER), getnameinfo = (\<lambda>_. None)\<rparr> 8 (Some [7, 0, 0, 0]) 4
      (options_new (replicate 256 0)) = Some (Inr (), p') \<and> options_getsockopt 8 4 p' = Inr [7, 0, 0, 0]"
proof -
  let ?net = "\<lparr>ifaddrs = [], getaddrinfo = (\<lambda>_ _ _. Inl EAI_OTHER), getnameinfo = (\<lambda>_. None)\<rparr>"
  have "read_int (Some [7, 0, 0, 0]) = Some 7" by code_simp
  then have s: "options_setsockopt ?net 8 (Some [7, 0, 0, 0]) (length [7 :: u8, 0, 0, 0]) (options_new (replicate 256 0)) = Some (Inr (), (options_new (replicate 256 0))\<lparr>rate := 7\<rparr>)"
    by (simp add: options_setsockopt_def sockopt_codes_def set_int_def)
  have "options_getsockopt 8 4 ((options_new (replicate 256 0))\<lparr>rate := 7\<rparr>) = Inr [7, 0, 0, 0]"
    using options_set_get[OF options_new_ok s, of 4] by (simp add: sockopt_codes_def)
  moreover have "length [7 :: u8, 0, 0, 0] = 4" by simp
  ultimately show ?thesis using s by metis
qed

end
