(* ===== verification/Sock_Pub.thy ===== *)
theory Sock_Pub
  imports Mtrie Dist Fq_Stream Options
begin

text \<open>
  \<^verbatim>\<open>xpub_t\<close> of src/xpub.cpp and \<^verbatim>\<open>pub_t\<close> of src/pub.cpp: the subscriptions that arrive on the pipes are
  kept in a multi-trie, and a message is distributed to the pipes subscribed to a prefix of its
  first part. The proofs follow a whole message from part to part.
\<close>

unbundle bit_operations_syntax

abbreviation (input) "type_pub \<equiv> (1 :: int)"
abbreviation (input) "type_xpub \<equiv> (9 :: int)"

record xpub =
  xpub_subs :: mtrie
  xpub_dist :: dist
  xpub_verbose :: bool
  xpub_more :: bool
  xpub_pending :: "u8 list list"
  xpub_type :: int

definition xpub_new :: xpub where
  "xpub_new = \<lparr>xpub_subs = mtrie_new, xpub_dist = dist_new, xpub_verbose = False, xpub_more = False, xpub_pending = [],
     xpub_type = type_xpub\<rparr>"

definition pub_new :: xpub where
  "pub_new = xpub_new\<lparr>xpub_type := type_pub\<rparr>"

definition xpub_destroy :: "xpub \<Rightarrow> unit option" where
  "xpub_destroy x = dist_destroy (xpub_dist x)"

text \<open>One message from a subscriber.\<close>

definition xpub_subscription :: "addr \<Rightarrow> u8 list \<Rightarrow> xpub \<Rightarrow> xpub option" where
  "xpub_subscription p data x = (case data of
     [] \<Rightarrow> Some x
   | b # key \<Rightarrow>
       if b = 0 \<or> b = 1 then do {
         (unique, t) \<leftarrow> (if b = 0 then mtrie_rm_key key p (xpub_subs x) else mtrie_add key p (xpub_subs x));
         Some (x\<lparr>xpub_subs := t, xpub_pending := xpub_pending x @
           (if xpub_type x = type_xpub \<and> (unique \<or> b \<noteq> 0 \<and> xpub_verbose x) then [data] else [])\<rparr>) }
       else Some x)"

partial_function (option) xpub_xread_activated :: "addr \<Rightarrow> xpub \<Rightarrow> 's world \<Rightarrow> (xpub \<times> 's world) option" where
  "xpub_xread_activated p x w = do {
     (sub, w) \<leftarrow> pipe_read p w;
     case sub of
       None \<Rightarrow> Some (x, w)
     | Some sub \<Rightarrow> do {
         data \<leftarrow> msg_data sub (wmem w);
         x \<leftarrow> xpub_subscription p data x;
         (_, _, h) \<leftarrow> msg_close sub (wmem w);
         xpub_xread_activated p x (w\<lparr>wmem := h\<rparr>) } }"

definition xpub_xattach_pipe :: "addr \<Rightarrow> bool \<Rightarrow> xpub \<Rightarrow> 's world \<Rightarrow> (xpub \<times> 's world) option" where
  "xpub_xattach_pipe p icanhasall x w = do {
     zmq_assert (p \<noteq> 0);
     d \<leftarrow> dist_attach p (xpub_dist x);
     (_, t) \<leftarrow> (if icanhasall then mtrie_add [] p (xpub_subs x) else Some (False, xpub_subs x));
     xpub_xread_activated p (x\<lparr>xpub_dist := d, xpub_subs := t\<rparr>) w }"

definition xpub_xwrite_activated :: "addr \<Rightarrow> xpub \<Rightarrow> xpub option" where
  "xpub_xwrite_activated p x = do { d \<leftarrow> dist_activated p (xpub_dist x); Some (x\<lparr>xpub_dist := d\<rparr>) }"

definition xpub_xsetsockopt :: "int \<Rightarrow> u8 list option \<Rightarrow> nat \<Rightarrow> xpub \<Rightarrow> (rc \<times> xpub) option" where
  "xpub_xsetsockopt o' v n x =
     (if map_of sockopt_codes o' \<noteq> Some ZMQ_XPUB_VERBOSE then Some (Inl EINVAL, x)
      else if n \<noteq> 4 then Some (Inl EINVAL, x)
      else do {
        i \<leftarrow> read_int v;
        Some (if i < 0 then (Inl EINVAL, x) else (Inr (), x\<lparr>xpub_verbose := (i \<noteq> 0)\<rparr>)) })"

text \<open>The unsubscriptions that \<^verbatim>\<open>send_unsubscription\<close> is called for.\<close>

definition xpub_xterminated :: "addr \<Rightarrow> xpub \<Rightarrow> xpub option" where
  "xpub_xterminated p x = do {
     (keys, t) \<leftarrow> mtrie_rm_pipe p [] (xpub_subs x);
     let pending = (if xpub_type x \<noteq> type_pub then xpub_pending x @ map ((#) 0) keys else xpub_pending x);
     d \<leftarrow> dist_terminated p (xpub_dist x);
     Some (x\<lparr>xpub_subs := t, xpub_pending := pending, xpub_dist := d\<rparr>) }"

primrec mark_as_matching :: "addr list \<Rightarrow> dist \<Rightarrow> dist option" where
  "mark_as_matching [] d = Some d"
| "mark_as_matching (p # ps) d = do { d \<leftarrow> dist_match p d; mark_as_matching ps d }"

definition xpub_mark :: "msg \<Rightarrow> mem \<Rightarrow> xpub \<Rightarrow> dist option" where
  "xpub_mark m h x =
     (if \<not> xpub_more x then do {
        data \<leftarrow> msg_data m h;
        ps \<leftarrow> mtrie_match data (xpub_subs x);
        mark_as_matching ps (xpub_dist x) }
      else Some (xpub_dist x))"

definition xpub_xsend :: "msg \<Rightarrow> xpub \<Rightarrow> 's world \<Rightarrow> (rc \<times> msg \<times> xpub \<times> 's world) option" where
  "xpub_xsend m x w = do {
     let msg_more = has_more m;
     d \<leftarrow> xpub_mark m (wmem w) x;
     (m, d, w) \<leftarrow> dist_send_to_matching pipe_write pipe_flush d m w;
     let d = (if \<not> msg_more then dist_unmatch d else d);
     Some (Inr (), m, x\<lparr>xpub_dist := d, xpub_more := msg_more\<rparr>, w) }"

definition xpub_xhas_out :: "xpub \<Rightarrow> bool" where
  "xpub_xhas_out x = dist_has_out (xpub_dist x)"

definition xpub_xrecv :: "msg \<Rightarrow> xpub \<Rightarrow> 's world \<Rightarrow> (rc \<times> msg \<times> xpub \<times> 's world) option" where
  "xpub_xrecv m x w = (case xpub_pending x of
     [] \<Rightarrow> Some (Inl EAGAIN, m, x, w)
   | data # rest \<Rightarrow> do {
       (m, w) \<leftarrow> close_msg m w;
       (rc, m, h) \<leftarrow> msg_init_size (of_nat (length data)) m (wmem w);
       zmq_assert (rc = Inr ());
       (m, h) \<leftarrow> msg_put 0 data m h;
       Some (Inr (), m, x\<lparr>xpub_pending := rest\<rparr>, w\<lparr>wmem := h\<rparr>) })"

definition xpub_xhas_in :: "xpub \<Rightarrow> bool" where
  "xpub_xhas_in x \<longleftrightarrow> xpub_pending x \<noteq> []"

definition pub_xrecv :: "msg \<Rightarrow> xpub \<Rightarrow> 's world \<Rightarrow> (rc \<times> msg \<times> xpub \<times> 's world) option" where
  "pub_xrecv m x w = Some (Inl ENOTSUP, m, x, w)"

definition pub_xhas_in :: "xpub \<Rightarrow> bool" where
  "pub_xhas_in x = False"

subsection \<open>Who is subscribed\<close>

definition subscribed :: "xpub \<Rightarrow> u8 list \<Rightarrow> addr set" where
  "subscribed x data = (\<Union>k \<in> {k. prefix k data}. mt_ref k (xpub_subs x))"

definition xpub_inv :: "xpub \<Rightarrow> bool" where
  "xpub_inv x \<longleftrightarrow> mt_inv (xpub_subs x) \<and> dist_inv (xpub_dist x) \<and> (\<forall>k. mt_ref k (xpub_subs x) \<subseteq> dist_all (xpub_dist x)) \<and>
     dist_more (xpub_dist x) = xpub_more x \<and> (\<not> xpub_more x \<longrightarrow> dist_matching (xpub_dist x) = 0)"

lemma mark_as_matching_ok:
  assumes "dist_inv d" "set ps \<subseteq> dist_all d" "\<not> dist_more d"
  shows "\<exists>d'. mark_as_matching ps d = Some d' \<and> dist_inv d' \<and> dist_all d' = dist_all d \<and> \<not> dist_more d' \<and>
    dist_matches d' = dist_matches d \<union> (set ps \<inter> dist_actives d) \<and> dist_actives d' = dist_actives d \<and> dist_eligibles d' = dist_eligibles d"
  using assms
proof (induction ps arbitrary: d)
  case (Cons p ps)
  obtain d1 where d1: "dist_match p d = Some d1" "dist_inv d1" "dist_all d1 = dist_all d" "\<not> dist_more d1"
    "dist_matches d1 = dist_matches d \<union> ({p} \<inter> dist_actives d)" "dist_actives d1 = dist_actives d"
    using dist_match_ok[OF Cons.prems(1) _ Cons.prems(3)] Cons.prems(2) by auto
  have "dist_eligibles d1 = dist_eligibles d" using d1(2,4,6) Cons.prems(1,3) by (simp add: dist_inv_def)
  then show ?case using Cons.IH[OF d1(2) _ d1(4)] d1 Cons.prems(2) by auto
qed simp

lemma dist_idle_matches: "dist_matching d = 0 \<Longrightarrow> dist_matches d = {}"
  by (simp add: dist_front_def)

lemma xpub_mark_first:
  assumes inv: "xpub_inv x" and nm: "\<not> xpub_more x" and data: "msg_data m h = Some data"
  obtains d where "xpub_mark m h x = Some d" "dist_inv d" "dist_all d = dist_all (xpub_dist x)" "\<not> dist_more d"
    "dist_matches d = subscribed x data \<inter> dist_actives (xpub_dist x)" "dist_actives d = dist_actives (xpub_dist x)"
    "dist_eligibles d = dist_eligibles (xpub_dist x)"
proof -
  obtain ps where ps: "mtrie_match data (xpub_subs x) = Some ps" "set ps = subscribed x data"
    using mtrie_match_ok[of "xpub_subs x" data] inv by (auto simp: xpub_inv_def subscribed_def)
  have "set ps \<subseteq> dist_all (xpub_dist x)" using inv ps(2) by (auto simp: xpub_inv_def subscribed_def)
  then obtain d where "mark_as_matching ps (xpub_dist x) = Some d" "dist_inv d" "dist_all d = dist_all (xpub_dist x)" "\<not> dist_more d"
    "dist_matches d = dist_matches (xpub_dist x) \<union> (set ps \<inter> dist_actives (xpub_dist x))" "dist_actives d = dist_actives (xpub_dist x)"
    "dist_eligibles d = dist_eligibles (xpub_dist x)"
    using mark_as_matching_ok[of "xpub_dist x" ps] inv nm by (auto simp: xpub_inv_def)
  moreover have "dist_matches (xpub_dist x) = {}" using inv nm dist_idle_matches by (simp add: xpub_inv_def)
  ultimately show ?thesis using that ps data nm by (simp add: xpub_mark_def)
qed

subsection \<open>Sending a message part by part\<close>

primrec xpub_send_all :: "msg list \<Rightarrow> xpub \<Rightarrow> 's world \<Rightarrow> (xpub \<times> 's world) option" where
  "xpub_send_all [] x w = Some (x, w)"
| "xpub_send_all (m # ms) x w = do { (_, _, x, w) \<leftarrow> xpub_xsend m x w; xpub_send_all ms x w }"

abbreviation copy_of :: "msg \<Rightarrow> msg \<Rightarrow> bool" where
  "copy_of c m \<equiv> c = m \<or> c = mark_shared m"

text \<open>One part, when the pipes in \<open>M\<close> are marked: the pipes in \<open>T\<close> take it.\<close>

definition xpub_sent :: "addr set \<Rightarrow> msg list \<Rightarrow> xpub \<Rightarrow> 's world \<Rightarrow> xpub \<Rightarrow> 's world \<Rightarrow> bool" where
  "xpub_sent T cs x w x' w' \<longleftrightarrow> xpub_inv x' \<and> xpub_subs x' = xpub_subs x \<and> dist_all (xpub_dist x') = dist_all (xpub_dist x) \<and>
     out_good (dist_all (xpub_dist x)) w' \<and>
     (\<forall>p \<in> dist_all (xpub_dist x). pipe_sent p w' = pipe_sent p w @ (if p \<in> T then cs else []))"

lemma xpub_sent_trans: "xpub_sent T cs x w x1 w1 \<Longrightarrow> xpub_sent T ds x1 w1 x' w' \<Longrightarrow> xpub_sent T (cs @ ds) x w x' w'"
  by (auto simp: xpub_sent_def)

lemma xpub_part:
  assumes mark: "xpub_mark m (wmem w) x = Some d" and d: "dist_inv d" "dist_all d = dist_all (xpub_dist x)"
    and inv: "xpub_inv x" and g: "out_good (dist_all (xpub_dist x)) w" and refs: "refs_inv (add_mset m R) (wmem w)" and m: "msg_check m"
    and sz: "size R + card (dist_all (xpub_dist x)) + 1 < 2 ^ 32" and T: "T = {p \<in> dist_matches d. pipe_room p w}"
  obtains c m' x' w' where "xpub_xsend m x w = Some (Inr (), m', x', w')" "copy_of c m" "xpub_sent T [c] x w x' w'"
    "xpub_more x' = has_more m" "refs_inv (replicate_mset (card T) c + R) (wmem w')"
    "has_more m \<longrightarrow> dist_matches (xpub_dist x') = T \<and> (\<forall>p \<in> T. pipe_room p w')"
proof -
  have "dist_matching d \<le> card (dist_all (xpub_dist x))"
    using card_matches[OF d(1)] card_mono[of "dist_all d" "dist_matches d"] dist_front_sub[of "dist_matching d" d] d(2) by simp
  then have sz': "size R + dist_matching d + 1 < 2 ^ 32" using sz by simp
  have g': "out_good (dist_all d) w" using g d(2) by simp
  obtain c m' d' w' where s: "dist_send_to_matching pipe_write pipe_flush d m w = Some (m', d', w')" "copy_of c m"
    "dist_inv d'" "dist_all d' = dist_all d" "out_good (dist_all d) w'" "dist_more d' = has_more m"
    "\<forall>p \<in> dist_all d. pipe_sent p w' = (if p \<in> dist_matches d \<and> pipe_room p w then pipe_sent p w @ [c] else pipe_sent p w)"
    "refs_inv (replicate_mset (card {p \<in> dist_matches d. pipe_room p w}) c + R) (wmem w')"
    "dist_matches d' = dist_matches d - {p \<in> dist_matches d. \<not> pipe_room p w}"
    "\<forall>p \<in> dist_all d. p \<in> dist_matches d \<and> pipe_room p w \<and> \<not> has_more m \<or> pipe_room p w' = pipe_room p w"
    using dist_send_matching_ok[OF d(1) g' refs m sz'] by blast
  define x' where "x' = x\<lparr>xpub_dist := (if \<not> has_more m then dist_unmatch d' else d'), xpub_more := has_more m\<rparr>"
  have all: "dist_all (xpub_dist x') = dist_all (xpub_dist x)" using s(4) d(2) by (simp add: x'_def dist_unmatch_def)
  have "dist_inv (dist_unmatch d')" using s(3) by (auto simp: dist_inv_def dist_unmatch_def)
  then have "xpub_inv x'" using inv s(3,4,6) d(2) by (auto simp: xpub_inv_def x'_def dist_unmatch_def)
  moreover have "xpub_xsend m x w = Some (Inr (), m', x', w')" using mark s(1) by (simp add: xpub_xsend_def x'_def)
  moreover have "dist_matches d' = T" using s(9) T by auto
  moreover have "pipe_room p w'" if "p \<in> T" "has_more m" for p
    using s(10) that T dist_front_sub[of "dist_matching d" d] by auto
  moreover have "xpub_sent T [c] x w x' w'" using calculation(1) all s(5,7) d(2) T by (simp add: xpub_sent_def x'_def)
  ultimately show ?thesis using that s(2,8) T by (simp add: x'_def)
qed

lemma xpub_send_marked:
  assumes "one_message ms" "xpub_inv x" "xpub_mark (hd ms) (wmem w) x = Some d" "dist_inv d" "dist_all d = dist_all (xpub_dist x)"
    "T = {p \<in> dist_matches d. pipe_room p w}" "out_good (dist_all (xpub_dist x)) w" "refs_inv (mset ms + R) (wmem w)"
    "size R + (length ms + 1) * (card (dist_all (xpub_dist x)) + 1) < 2 ^ 32"
  shows "\<exists>x' w' cs. xpub_send_all ms x w = Some (x', w') \<and> list_all2 copy_of cs ms \<and> xpub_sent T cs x w x' w' \<and> \<not> xpub_more x' \<and>
    refs_inv (repeat_mset (card T) (mset cs) + R) (wmem w')"
  using assms
proof (induction ms arbitrary: x w R d)
  case (Cons m ms)
  let ?N = "card (dist_all (xpub_dist x))"
  have m: "msg_check m" using Cons.prems(1) by (simp add: one_message_Cons)
  have mark: "xpub_mark m (wmem w) x = Some d" using Cons.prems(3) by simp
  have refs: "refs_inv (add_mset m (mset ms + R)) (wmem w)" using Cons.prems(8) by simp
  have sz: "size (mset ms + R) + ?N + 1 < 2 ^ 32" using Cons.prems(9) by (simp add: algebra_simps)
  obtain c m' x1 w1 where 1: "xpub_xsend m x w = Some (Inr (), m', x1, w1)" "copy_of c m" "xpub_sent T [c] x w x1 w1"
    "xpub_more x1 = has_more m" "refs_inv (replicate_mset (card T) c + (mset ms + R)) (wmem w1)"
    "has_more m \<longrightarrow> dist_matches (xpub_dist x1) = T \<and> (\<forall>p \<in> T. pipe_room p w1)"
    by (rule xpub_part[OF mark Cons.prems(4,5,2,7) refs m sz Cons.prems(6)])
  show ?case
  proof (cases "ms = []")
    case True
    have hm: "\<not> has_more m" using Cons.prems(1) True by (simp add: one_message_Cons)
    have "refs_inv (repeat_mset (card T) (mset [c]) + R) (wmem w1)" using 1(5) True by (simp add: repeat_mset_replicate_mset flip: replicate_mset_Suc)
    then show ?thesis using True 1 hm by (intro exI[of _ x1] exI[of _ w1] exI[of _ "[c]"]) auto
  next
    case False
    then have hm: "has_more m" "one_message ms" using Cons.prems(1) by (simp_all add: one_message_Cons)
    have all: "dist_all (xpub_dist x1) = dist_all (xpub_dist x)" "xpub_inv x1" "out_good (dist_all (xpub_dist x)) w1" using 1(3) by (simp_all add: xpub_sent_def)
    have inv1: "dist_inv (xpub_dist x1)" using all(2) by (simp add: xpub_inv_def)
    have mk1: "xpub_mark (hd ms) (wmem w1) x1 = Some (xpub_dist x1)" using 1(4) hm(1) by (simp add: xpub_mark_def)
    have "T \<subseteq> dist_all (xpub_dist x)" using Cons.prems(5,6) dist_front_sub by blast
    then have "card T \<le> ?N" by (simp add: card_mono)
    then have sz1: "size (replicate_mset (card T) c + R) + (length ms + 1) * (card (dist_all (xpub_dist x1)) + 1) < 2 ^ 32"
      using Cons.prems(9) all(1) by simp
    have refs1: "refs_inv (mset ms + (replicate_mset (card T) c + R)) (wmem w1)" using 1(5) by (simp add: ac_simps)
    have g1: "out_good (dist_all (xpub_dist x1)) w1" using all by simp
    have T1: "T = {p \<in> dist_matches (xpub_dist x1). pipe_room p w1}" using 1(6) hm(1) by auto
    obtain x' w' cs where 2: "xpub_send_all ms x1 w1 = Some (x', w')" "list_all2 copy_of cs ms" "xpub_sent T cs x1 w1 x' w'" "\<not> xpub_more x'"
      "refs_inv (repeat_mset (card T) (mset cs) + (replicate_mset (card T) c + R)) (wmem w')"
      using Cons.IH[OF hm(2) all(2) mk1 inv1 refl T1 g1 refs1 sz1] by blast
    have eq: "repeat_mset (card T) (mset (c # cs)) + R = repeat_mset (card T) (mset cs) + (replicate_mset (card T) c + R)"
      by (simp add: repeat_mset_distrib_add_mset ac_simps)
    have "refs_inv (repeat_mset (card T) (mset (c # cs)) + R) (wmem w')" unfolding eq using 2(5) .
    then show ?thesis using 1(1,2) 2 xpub_sent_trans[OF 1(3) 2(3)] by (intro exI[of _ x'] exI[of _ w'] exI[of _ "c # cs"]) auto
  qed
qed (simp add: one_message_def)

text \<open>C31: A message sent on a publisher goes, whole and with its parts in order, to exactly the pipes
  that hold a subscription to a prefix of its first part, are active and have room for it; nothing
  is written to any other pipe, the references of the copies are counted, and afterwards no pipe
  is marked any more.\<close>

theorem xpub_delivers:
  assumes inv: "xpub_inv x" "\<not> xpub_more x" and g: "out_good (dist_all (xpub_dist x)) w" and refs: "refs_inv (mset ms + R) (wmem w)"
    and msg: "one_message ms" "msg_data (hd ms) (wmem w) = Some data"
    and sz: "size R + (length ms + 1) * (card (dist_all (xpub_dist x)) + 1) < 2 ^ 32"
    and T: "T = {p \<in> subscribed x data \<inter> dist_actives (xpub_dist x). pipe_room p w}"
  shows "\<exists>x' w' cs. xpub_send_all ms x w = Some (x', w') \<and> list_all2 copy_of cs ms \<and>
    (\<forall>p \<in> dist_all (xpub_dist x). pipe_sent p w' = pipe_sent p w @ (if p \<in> T then cs else [])) \<and>
    refs_inv (repeat_mset (card T) (mset cs) + R) (wmem w') \<and> xpub_inv x' \<and> \<not> xpub_more x' \<and> dist_matches (xpub_dist x') = {}"
proof -
  obtain d where d: "xpub_mark (hd ms) (wmem w) x = Some d" "dist_inv d" "dist_all d = dist_all (xpub_dist x)"
    "dist_matches d = subscribed x data \<inter> dist_actives (xpub_dist x)"
    by (rule xpub_mark_first[OF inv msg(2)])
  have Td: "T = {p \<in> dist_matches d. pipe_room p w}" using T d(4) by simp
  obtain x' w' cs where s: "xpub_send_all ms x w = Some (x', w')" "list_all2 copy_of cs ms" "xpub_sent T cs x w x' w'"
    "\<not> xpub_more x'" "refs_inv (repeat_mset (card T) (mset cs) + R) (wmem w')"
    using xpub_send_marked[OF msg(1) inv(1) d(1-3) Td g refs sz] by blast
  moreover have "dist_matches (xpub_dist x') = {}" using s(3,4) dist_idle_matches by (simp add: xpub_sent_def xpub_inv_def)
  ultimately show ?thesis by (auto simp: xpub_sent_def)
qed

theorem xpub_delivers_witness:
  "\<exists>(w :: unit world) d t x' w'. dist_attach 4 dist_new = Some d \<and> mtrie_add [] 4 mtrie_new = Some (True, t) \<and> pipe_sent 4 w = [] \<and>
    xpub_send_all [example_msg] (xpub_new\<lparr>xpub_subs := t, xpub_dist := d\<rparr>) w = Some (x', w') \<and> pipe_sent 4 w' = [example_msg]"
proof -
  obtain w :: "unit world" where w: "out_good {4} w" "pipe_room 4 w" "pipe_sent 4 w = []" "wmem w = mem_new (\<lambda>_ _. True) (\<lambda>_. 0)"
    using pipe_example by blast
  let ?a = "\<lparr>items = [4], array_index = (\<lambda>_. -1)(4 := 0)\<rparr>"
  let ?d = "\<lparr>dist_pipes = ?a, dist_matching = 0, dist_active = 1, dist_eligible = 1, dist_more = False\<rparr>"
  let ?t = "MTrie (Some [4]) 0 0 0 []"
  let ?x = "xpub_new\<lparr>xpub_subs := ?t, xpub_dist := ?d\<rparr>"
  have d: "dist_attach 4 dist_new = Some ?d"
    by (simp add: dist_attach_def dist_new_def array_push_back_def array_new_def array_swap_def array_size_def set_array_index_def
        Let_def elem_def list_swap_def fun_eq_iff)
  have t: "mtrie_add [] 4 mtrie_new = Some (True, ?t)" "mt_inv ?t" by (simp_all add: mtrie_new_def mt_inv.simps tbl_inv_def pipes_inv_def insort_insert_key_def)
  have r: "mt_ref k ?t = (if k = [] then {4} else {})" for k by (cases k) (simp_all add: tbl_get_def)
  have d4: "dist_all ?d = {4}" "dist_actives ?d = {4}" by (simp_all add: dist_front_def)
  have "dist_inv ?d" by (simp add: dist_inv_def array_inv_def)
  then have x: "xpub_inv ?x" "\<not> xpub_more ?x" using t(2) r d4 by (simp_all add: xpub_inv_def xpub_new_def)
  have g: "out_good (dist_all (xpub_dist ?x)) w" using w(1) d4 by simp
  have refs: "refs_inv (mset [example_msg] + {#}) (wmem w)" using mem_new_ok by (simp add: example_msg w)
  have o: "one_message [example_msg]" by (simp add: one_message_Cons example_msg)
  have dt: "msg_data (hd [example_msg]) (wmem w) = Some []" by (simp add: example_msg_def msg_init_def msg_data_def msg_check_def msg_closed_def)
  have sub: "4 \<in> subscribed ?x []" using r by (auto simp: subscribed_def)
  have sz: "size ({#} :: msg multiset) + (length [example_msg] + 1) * (card (dist_all (xpub_dist ?x)) + 1) < 2 ^ 32" using d4 by simp
  have T: "4 \<in> {p \<in> subscribed ?x [] \<inter> dist_actives (xpub_dist ?x). pipe_room p w}" "4 \<in> dist_all (xpub_dist ?x)" using sub d4 w(2) by simp_all
  have mk: "mark_shared example_msg = example_msg" by (simp add: mark_shared_def example_msg_def msg_init_def)
  from xpub_delivers[OF x g refs o dt sz refl] obtain x' w' cs where s: "xpub_send_all [example_msg] ?x w = Some (x', w')"
    "list_all2 copy_of cs [example_msg]" "pipe_sent 4 w' = pipe_sent 4 w @ cs" using T by fastforce
  then have "cs = [example_msg]" using mk by (auto simp: list_all2_Cons2)
  then show ?thesis using s w(3) d t(1) by (intro exI[of _ w] exI[of _ ?d] exI[of _ ?t] exI[of _ x'] exI[of _ w']) simp
qed

end
