(* ===== verification/Sock_Sub.thy ===== *)
theory Sock_Sub
  imports Trie Sock_Pub
begin

text \<open>
  \<^verbatim>\<open>xsub_t\<close> of src/xsub.cpp and \<^verbatim>\<open>sub_t\<close> of src/sub.cpp: the subscriptions are kept in a trie and
  sent to every publisher, and of the messages that are fair-queued from the pipes those without
  a subscribed topic are passed over, as a whole.
\<close>

unbundle bit_operations_syntax

abbreviation (input) "type_sub \<equiv> (2 :: int)"
abbreviation (input) "type_xsub \<equiv> (10 :: int)"

record xsub =
  xsub_fq :: fq
  xsub_dist :: dist
  xsub_subs :: trie
  xsub_has_message :: bool
  xsub_message :: msg
  xsub_more :: bool
  xsub_options :: options

definition xsub_new :: "u8 list \<Rightarrow> xsub" where
  "xsub_new jk = \<lparr>xsub_fq = fq_new, xsub_dist = dist_new, xsub_subs = trie_new, xsub_has_message = False,
     xsub_message = msg_init msg_closed, xsub_more = False, xsub_options = (options_new jk)\<lparr>sock_type := type_xsub, linger := 0\<rparr>\<rparr>"

definition sub_new :: "u8 list \<Rightarrow> xsub" where
  "sub_new jk = (let x = xsub_new jk in x\<lparr>xsub_options := (xsub_options x)\<lparr>sock_type := type_sub, opt_filter := True\<rparr>\<rparr>)"

definition xsub_destroy :: "xsub \<Rightarrow> 's world \<Rightarrow> 's world option" where
  "xsub_destroy x w = do {
     (rc, _, h) \<leftarrow> msg_close (xsub_message x) (wmem w);
     zmq_assert (rc = Inr ());
     dist_destroy (xsub_dist x);
     fq_destroy (xsub_fq x);
     Some (w\<lparr>wmem := h\<rparr>) }"

text \<open>A message made of a command byte and a topic.\<close>

definition topic_msg :: "u8 \<Rightarrow> u8 list \<Rightarrow> mem \<Rightarrow> (msg \<times> mem) option" where
  "topic_msg b key h = do {
     (rc, m, h) \<leftarrow> msg_init_size (of_nat (length key) + 1) msg_closed h;
     zmq_assert (rc = Inr ());
     (m, h) \<leftarrow> msg_put 0 [b] m h;
     msg_put 1 key m h }"

definition xsub_send_subscription :: "addr \<Rightarrow> u8 list \<Rightarrow> 's world \<Rightarrow> 's world option" where
  "xsub_send_subscription p key w = do {
     (m, h) \<leftarrow> topic_msg 1 key (wmem w);
     (sent, w) \<leftarrow> pipe_write p m (w\<lparr>wmem := h\<rparr>);
     if \<not> sent then do { (_, _, h) \<leftarrow> msg_close m (wmem w); Some (w\<lparr>wmem := h\<rparr>) } else Some w }"

primrec send_subscriptions :: "addr \<Rightarrow> u8 list list \<Rightarrow> 's world \<Rightarrow> 's world option" where
  "send_subscriptions p [] w = Some w"
| "send_subscriptions p (k # ks) w = do { w \<leftarrow> xsub_send_subscription p k w; send_subscriptions p ks w }"

definition xsub_xhiccuped :: "addr \<Rightarrow> xsub \<Rightarrow> 's world \<Rightarrow> 's world option" where
  "xsub_xhiccuped p x w = do {
     w \<leftarrow> send_subscriptions p (trie_apply [] (xsub_subs x)) w;
     pipe_flush p w }"

definition xsub_xattach_pipe :: "addr \<Rightarrow> bool \<Rightarrow> xsub \<Rightarrow> 's world \<Rightarrow> (xsub \<times> 's world) option" where
  "xsub_xattach_pipe p icanhasall x w = do {
     zmq_assert (p \<noteq> 0);
     f \<leftarrow> fq_attach p (xsub_fq x);
     d \<leftarrow> dist_attach p (xsub_dist x);
     w \<leftarrow> send_subscriptions p (trie_apply [] (xsub_subs x)) w;
     w \<leftarrow> pipe_flush p w;
     Some (x\<lparr>xsub_fq := f, xsub_dist := d\<rparr>, w) }"

definition xsub_xread_activated :: "addr \<Rightarrow> xsub \<Rightarrow> xsub option" where
  "xsub_xread_activated p x = do { f \<leftarrow> fq_activated p (xsub_fq x); Some (x\<lparr>xsub_fq := f\<rparr>) }"

definition xsub_xwrite_activated :: "addr \<Rightarrow> xsub \<Rightarrow> xsub option" where
  "xsub_xwrite_activated p x = do { d \<leftarrow> dist_activated p (xsub_dist x); Some (x\<lparr>xsub_dist := d\<rparr>) }"

definition xsub_xterminated :: "addr \<Rightarrow> xsub \<Rightarrow> xsub option" where
  "xsub_xterminated p x = do {
     f \<leftarrow> fq_terminated p (xsub_fq x);
     d \<leftarrow> dist_terminated p (xsub_dist x);
     Some (x\<lparr>xsub_fq := f, xsub_dist := d\<rparr>) }"

definition xsub_xsend :: "msg \<Rightarrow> xsub \<Rightarrow> 's world \<Rightarrow> (rc \<times> msg \<times> xsub \<times> 's world) option" where
  "xsub_xsend m x w = do {
     data \<leftarrow> msg_data m (wmem w);
     case data of
       [] \<Rightarrow> Some (Inl EINVAL, m, x, w)
     | b # key \<Rightarrow>
         if b \<noteq> 0 \<and> b \<noteq> 1 then Some (Inl EINVAL, m, x, w)
         else do {
           (send, t) \<leftarrow> (if b = 1 then trie_add key (xsub_subs x) else trie_rm key (xsub_subs x));
           let x = x\<lparr>xsub_subs := t\<rparr>;
           if send then do {
             (m, d, w) \<leftarrow> dist_send_to_all pipe_write pipe_flush (xsub_dist x) m w;
             Some (Inr (), m, x\<lparr>xsub_dist := d\<rparr>, w) }
           else do {
             (m, w) \<leftarrow> close_msg m w;
             Some (Inr (), msg_init m, x, w) } } }"

definition xsub_xhas_out :: "xsub \<Rightarrow> bool" where
  "xsub_xhas_out x = True"

definition xsub_match :: "msg \<Rightarrow> xsub \<Rightarrow> mem \<Rightarrow> bool option" where
  "xsub_match m x h = do { data \<leftarrow> msg_data m h; trie_check data (xsub_subs x) }"

text \<open>\<open>\<not> filter || match\<close>\<close>

definition xsub_passes :: "xsub \<Rightarrow> msg \<Rightarrow> mem \<Rightarrow> bool option" where
  "xsub_passes x m h = (if \<not> opt_filter (xsub_options x) then Some True else xsub_match m x h)"

text \<open>The remaining parts of a message that is not delivered.\<close>

partial_function (option) skip_parts :: "fq \<Rightarrow> msg \<Rightarrow> 's world \<Rightarrow> (fq \<times> msg \<times> 's world) option" where
  "skip_parts f m w =
     (if has_more m then do {
        (rc, m, f, w) \<leftarrow> fq_recvpipe pipe_read f m w;
        zmq_assert (\<exists>q. rc = Inr q);
        skip_parts f m w }
      else Some (f, m, w))"

text \<open>The loops of \<^verbatim>\<open>xrecv\<close> and \<^verbatim>\<open>xhas_in\<close>; \<open>pass\<close> says that any message qualifies.\<close>

partial_function (option) xsub_loop :: "bool \<Rightarrow> xsub \<Rightarrow> fq \<Rightarrow> msg \<Rightarrow> 's world \<Rightarrow>
    ((errno + addr) \<times> msg \<times> fq \<times> 's world) option" where
  "xsub_loop pass x f m w = do {
     (rc, m, f, w) \<leftarrow> fq_recvpipe pipe_read f m w;
     case rc of
       Inl e \<Rightarrow> Some (rc, m, f, w)
     | Inr _ \<Rightarrow> do {
         ok \<leftarrow> (if pass then Some True else xsub_passes x m (wmem w));
         if ok then Some (rc, m, f, w)
         else do { (f, m, w) \<leftarrow> skip_parts f m w; xsub_loop pass x f m w } } }"

definition xsub_xrecv :: "msg \<Rightarrow> xsub \<Rightarrow> 's world \<Rightarrow> (rc \<times> msg \<times> xsub \<times> 's world) option" where
  "xsub_xrecv m x w =
     (if xsub_has_message x then do {
        (rc, m, pm, h) \<leftarrow> msg_move m (xsub_message x) (wmem w);
        zmq_assert (rc = Inr ());
        Some (Inr (), m, x\<lparr>xsub_message := pm, xsub_has_message := False, xsub_more := has_more m\<rparr>, w\<lparr>wmem := h\<rparr>) }
      else do {
        (rc, m, f, w) \<leftarrow> xsub_loop (xsub_more x) x (xsub_fq x) m w;
        let x = x\<lparr>xsub_fq := f\<rparr>;
        Some (case rc of Inl e \<Rightarrow> (Inl e, m, x, w) | Inr _ \<Rightarrow> (Inr (), m, x\<lparr>xsub_more := has_more m\<rparr>, w)) })"

definition xsub_xhas_in :: "xsub \<Rightarrow> 's world \<Rightarrow> (bool \<times> xsub \<times> 's world) option" where
  "xsub_xhas_in x w =
     (if xsub_more x \<or> xsub_has_message x then Some (True, x, w)
      else do {
        (rc, m, f, w) \<leftarrow> xsub_loop False x (xsub_fq x) (xsub_message x) w;
        let x = x\<lparr>xsub_fq := f, xsub_message := m\<rparr>;
        case rc of
          Inl e \<Rightarrow> do { zmq_assert (e = EAGAIN); Some (False, x, w) }
        | Inr _ \<Rightarrow> Some (True, x\<lparr>xsub_has_message := True\<rparr>, w) })"

definition sub_xsetsockopt :: "int \<Rightarrow> u8 list \<Rightarrow> xsub \<Rightarrow> 's world \<Rightarrow> (rc \<times> xsub \<times> 's world) option" where
  "sub_xsetsockopt o' topic x w =
     (if map_of sockopt_codes o' \<notin> {Some ZMQ_SUBSCRIBE, Some ZMQ_UNSUBSCRIBE} then Some (Inl EINVAL, x, w)
      else do {
        (m, h) \<leftarrow> topic_msg (if map_of sockopt_codes o' = Some ZMQ_SUBSCRIBE then 1 else 0) topic (wmem w);
        (rc, m, x, w) \<leftarrow> xsub_xsend m x (w\<lparr>wmem := h\<rparr>);
        (rc2, _, h) \<leftarrow> msg_close m (wmem w);
        zmq_assert (rc2 = Inr ());
        Some (rc, x, w\<lparr>wmem := h\<rparr>) })"

definition sub_xsend :: "msg \<Rightarrow> xsub \<Rightarrow> 's world \<Rightarrow> (rc \<times> msg \<times> xsub \<times> 's world) option" where
  "sub_xsend m x w = Some (Inl ENOTSUP, m, x, w)"

definition sub_xhas_out :: "xsub \<Rightarrow> bool" where
  "sub_xhas_out x = False"

subsection \<open>The contents of the messages while others are received\<close>

lemma mem_sub_data:
  assumes "mem_sub h' h" "refs_inv M h'" "m \<in># M"
  shows "msg_data m h' = msg_data m h"
  by (rule msg_data_sub(1)[OF assms])

lemma fq_recvpipe_mem_sub:
  assumes rdy: "fq_ready R f m w" and r: "fq_recvpipe pipe_read f m w = Some (rc, m', f', w')"
  shows "mem_sub (wmem w') (wmem w)"
proof -
  have inv: "fq_inv f" "in_good (fq_all f) w" "msg_check m"
    "fq_more f \<longrightarrow> fq_active f > 0 \<and> pipe_avail (items (fq_pipes f) ! fq_current f) w \<noteq> []"
    "refs_inv (add_mset m (R + fq_msgs f w)) (wmem w)" using rdy by (simp_all add: fq_ready_def)
  obtain h where h: "close_msg m w = Some (m\<lparr>mtype := 0\<rparr>, w\<lparr>wmem := h\<rparr>)" "mem_sub h (wmem w)"
    using msg_close_ok[OF inv(5,3)] by (auto simp: close_msg_def)
  have "in_good (fq_all f) (w\<lparr>wmem := h\<rparr>)" using inv(2) by (simp add: rpipes.mem_law)
  then obtain x f1 w1 where x: "fq_loop pipe_read f (w\<lparr>wmem := h\<rparr>) = Some (x, f1, w1)" "wmem w1 = h"
    using rpipes.fq_loop_ok[of f "w\<lparr>wmem := h\<rparr>"] inv(1,4) by (auto simp: rpipes.mem_law)
  then have "wmem w' = h" using r h(1) by (auto simp: fq_recvpipe_def split: option.splits)
  then show ?thesis using h(2) by simp
qed

lemma msg_data_Some:
  assumes "refs_inv (add_mset m M) h" "msg_check m" "\<not> msg_is_delimiter m"
  shows "\<exists>d. msg_data m h = Some d"
proof (cases "mtype m = type_lmsg")
  case True
  show ?thesis by (rule block_ok_held[OF assms(1) True]) (use assms True in \<open>auto simp: msg_data_def\<close>)
next
  case False
  have "mtype m = 101 \<or> mtype m = 102 \<or> mtype m = 103" using assms(2) unfolding msg_check_def by uint_arith
  then show ?thesis using assms False by (auto simp: msg_data_def msg_is_delimiter_def)
qed

subsection \<open>Whole messages are skipped\<close>

definition topic_known :: "xsub \<Rightarrow> u8 list \<Rightarrow> bool" where
  "topic_known x data \<longleftrightarrow> (\<exists>k. prefix k data \<and> trie_ref k (xsub_subs x) \<noteq> 0)"

text \<open>Whether a message qualifies by its contents in \<open>h\<close>.\<close>

definition wanted :: "xsub \<Rightarrow> mem \<Rightarrow> msg \<Rightarrow> bool" where
  "wanted x h m \<longleftrightarrow> \<not> opt_filter (xsub_options x) \<or> (\<exists>d. msg_data m h = Some d \<and> topic_known x d)"

lemma xsub_passes_wanted:
  assumes "trie_inv (xsub_subs x)" "refs_inv (add_mset m M) h" "msg_check m" "\<not> msg_is_delimiter m"
  shows "xsub_passes x m h = Some (wanted x h m)"
  using msg_data_Some[OF assms(2-4)] trie_check_ok[OF assms(1)]
  by (auto simp: xsub_passes_def xsub_match_def wanted_def topic_known_def)

text \<open>A receive in the middle of a message or at its begin, seen from the pipe it takes the part of.\<close>

lemma fq_recv_took:
  assumes "fq_ready R f m w" "fq_recvpipe pipe_read f m w = Some (Inr q, m', f', w')"
  shows "fq_all f' = fq_all f" "q \<in> fq_all f" "pipe_avail q w = m' # pipe_avail q w'"
    "\<forall>p \<in> fq_all f. p \<noteq> q \<longrightarrow> pipe_avail p w' = pipe_avail p w" "fq_more f' = has_more m'"
    "has_more m' \<longrightarrow> array_at (fq_pipes f') (fq_current f') = Some q" "fq_more f \<longrightarrow> array_at (fq_pipes f) (fq_current f) = Some q"
    "fq_ready R f' m' w'" "size (fq_msgs f' w') < size (fq_msgs f w)"
proof -
  have g: "fq_ready R f' m' w'" "fq_got f w (Inr q) m' f' w'" using fq_recvpipe_ready[OF assms(1)] assms(2) by auto
  then show 1: "fq_all f' = fq_all f" "q \<in> fq_all f" "pipe_avail q w = m' # pipe_avail q w'"
    "\<forall>p \<in> fq_all f. p \<noteq> q \<longrightarrow> pipe_avail p w' = pipe_avail p w" "fq_more f' = has_more m'"
    "has_more m' \<longrightarrow> array_at (fq_pipes f') (fq_current f') = Some q" "fq_more f \<longrightarrow> array_at (fq_pipes f) (fq_current f) = Some q"
    "fq_ready R f' m' w'" using fq_actives_sub[of f] by (auto simp: fq_got_def)
  show "size (fq_msgs f' w') < size (fq_msgs f w)" using fq_msgs_read[of f' f q w m' w'] 1 by simp
qed

definition skipped :: "addr \<Rightarrow> msg list \<Rightarrow> fq \<Rightarrow> 's world \<Rightarrow> fq \<Rightarrow> 's world \<Rightarrow> bool" where
  "skipped q ms f w f' w' \<longleftrightarrow> fq_all f' = fq_all f \<and> \<not> fq_more f' \<and> mem_sub (wmem w') (wmem w) \<and>
     size (fq_msgs f' w') \<le> size (fq_msgs f w) \<and>
     (\<forall>p \<in> fq_all f. pipe_avail p w = (if p = q then ms else []) @ pipe_avail p w')"

lemma skip_parts_ok:
  assumes "fq_ready R f m w" "fq_more f = has_more m" "has_more m \<longrightarrow> array_at (fq_pipes f) (fq_current f) = Some q" "q \<in> fq_all f"
  obtains ms m' f' w' where "skip_parts f m w = Some (f', m', w')" "fq_ready R f' m' w'" "skipped q ms f w f' w'" "one_message (m # ms)"
  using assms
proof (induction "size (fq_msgs f w)" arbitrary: f m w thesis rule: less_induct)
  case less
  have chk: "msg_check m" using less.prems(2) by (simp add: fq_ready_def)
  show ?case
  proof (cases "has_more m")
    case False
    then show ?thesis using less.prems chk by (intro less.prems(1)[of f m w "[]"]) (simp_all add: skip_parts.simps skipped_def one_message_Cons)
  next
    case True
    obtain rc m1 f1 w1 where 1: "fq_recvpipe pipe_read f m w = Some (rc, m1, f1, w1)" "fq_got f w rc m1 f1 w1"
      by (rule fq_recvpipe_ready[OF less.prems(2)])
    then obtain q1 where q1: "rc = Inr q1" using True less.prems(3) by (cases rc) (auto simp: fq_got_def)
    note t = fq_recv_took[OF less.prems(2) 1(1)[unfolded q1]]
    have q: "q1 = q" using t(7) less.prems(3,4) True by simp
    have m1: "fq_more f1 = has_more m1" "has_more m1 \<longrightarrow> array_at (fq_pipes f1) (fq_current f1) = Some q" "q \<in> fq_all f1"
      using t q less.prems(5) by simp_all
    obtain ms m' f' w' where s: "skip_parts f1 m1 w1 = Some (f', m', w')" "fq_ready R f' m' w'" "skipped q ms f1 w1 f' w'"
      "one_message (m1 # ms)" by (rule less.hyps[OF t(9) _ t(8) m1])
    have sub: "mem_sub (wmem w1) (wmem w)" by (rule fq_recvpipe_mem_sub[OF less.prems(2) 1(1)])
    have "skip_parts f m w = Some (f', m', w')" using True 1(1) q1 s(1) by (subst skip_parts.simps) simp
    moreover have "skipped q (m1 # ms) f w f' w'"
      using s(3) t(1,3,4,9) q mem_sub_trans[OF _ sub] by (auto simp: skipped_def)
    moreover have "one_message (m # m1 # ms)" using s(4) True chk by (simp add: one_message_Cons)
    ultimately show ?thesis using less.prems(1) s(2) by blast
  qed
qed
lemma pipe_avail_no_delimiter: "m \<in> set (pipe_avail p w) \<Longrightarrow> \<not> msg_is_delimiter m"
  by (auto simp: pipe_avail_def dest: set_takeWhileD split: option.splits if_splits)

text \<open>The messages passed over are whole ones that do not qualify; contents are those in \<open>h\<close>.\<close>

definition filtered :: "xsub \<Rightarrow> mem \<Rightarrow> fq \<Rightarrow> 's world \<Rightarrow> (addr \<Rightarrow> msg list list) \<Rightarrow> errno + addr \<Rightarrow> msg \<Rightarrow> fq \<Rightarrow> 's world \<Rightarrow> bool" where
  "filtered x h f w skip rc m' f' w' \<longleftrightarrow> fq_all f' = fq_all f \<and>
     (\<forall>p ms. ms \<in> set (skip p) \<longrightarrow> one_message ms \<and> \<not> wanted x h (hd ms)) \<and> (case rc of
       Inl e \<Rightarrow> e = EAGAIN \<and> \<not> fq_more f' \<and> \<not> has_more m' \<and> (\<forall>p \<in> fq_all f. pipe_avail p w = concat (skip p) \<and> pipe_avail p w' = [])
     | Inr q \<Rightarrow> wanted x h m' \<and> q \<in> fq_all f \<and> fq_more f' = has_more m' \<and>
         (has_more m' \<longrightarrow> array_at (fq_pipes f') (fq_current f') = Some q) \<and>
         (\<forall>p \<in> fq_all f. pipe_avail p w = concat (skip p) @ (if p = q then m' # pipe_avail p w' else pipe_avail p w')))"

lemma xsub_loop_ok:
  assumes inv: "trie_inv (xsub_subs x)" and "fq_ready R f m w" "\<not> fq_more f" "mem_sub (wmem w) h"
  obtains rc m' f' w' skip where "xsub_loop False x f m w = Some (rc, m', f', w')" "fq_ready R f' m' w'"
    "filtered x h f w skip rc m' f' w'"
  using assms(2-)
proof (induction "size (fq_msgs f w)" arbitrary: f m w thesis rule: less_induct)
  case less
  obtain rc m1 f1 w1 where 1: "fq_recvpipe pipe_read f m w = Some (rc, m1, f1, w1)" "fq_ready R f1 m1 w1" "fq_got f w rc m1 f1 w1"
    by (rule fq_recvpipe_ready[OF less.prems(2)])
  show ?case
  proof (cases rc)
    case (Inl e)
    then have "xsub_loop False x f m w = Some (rc, m1, f1, w1)" using 1(1) by (simp add: xsub_loop.simps)
    moreover have "filtered x h f w (\<lambda>_. []) rc m1 f1 w1" using 1(3) Inl by (simp add: filtered_def fq_got_def)
    ultimately show ?thesis using less.prems(1) 1(2) by blast
  next
    case (Inr q)
    note t = fq_recv_took[OF less.prems(2) 1(1)[unfolded Inr]]
    have sub: "mem_sub (wmem w1) h" using mem_sub_trans[OF fq_recvpipe_mem_sub[OF less.prems(2) 1(1)] less.prems(4)] .
    have refs: "refs_inv (add_mset m1 (R + fq_msgs f1 w1)) (wmem w1)" "msg_check m1" using t(8) by (simp_all add: fq_ready_def)
    have nd: "\<not> msg_is_delimiter m1" using pipe_avail_no_delimiter[of m1 q w] t(3) by simp
    have ok: "xsub_passes x m1 (wmem w1) = Some (wanted x h m1)"
      using xsub_passes_wanted[OF inv refs nd] mem_sub_data[OF sub refs(1)] by (simp add: wanted_def)
    have av: "pipe_avail p w = (if p = q then m1 # pipe_avail p w1 else pipe_avail p w1)" if "p \<in> fq_all f" for p
      using t(3,4) that by simp
    show ?thesis
    proof (cases "wanted x h m1")
      case True
      then have "xsub_loop False x f m w = Some (rc, m1, f1, w1)" using 1(1) Inr ok by (simp add: xsub_loop.simps)
      moreover have "filtered x h f w (\<lambda>_. []) rc m1 f1 w1" unfolding filtered_def using t True Inr av by simp
      ultimately show ?thesis using less.prems(1) 1(2) by blast
    next
      case False
      have q: "q \<in> fq_all f1" using t(1,2) by simp
      obtain ms m2 f2 w2 where 2: "skip_parts f1 m1 w1 = Some (f2, m2, w2)" "fq_ready R f2 m2 w2"
        "skipped q ms f1 w1 f2 w2" "one_message (m1 # ms)" by (rule skip_parts_ok[OF t(8,5,6) q])
      have s: "fq_all f2 = fq_all f" "\<not> fq_more f2" "mem_sub (wmem w2) h" "size (fq_msgs f2 w2) < size (fq_msgs f w)"
        "\<forall>p \<in> fq_all f. pipe_avail p w1 = (if p = q then ms else []) @ pipe_avail p w2"
        using 2(3) t(1,9) mem_sub_trans[OF _ sub] by (auto simp: skipped_def)
      from less.hyps[OF s(4) _ 2(2) s(2,3)] obtain rc' m' f' w' skip where 3: "xsub_loop False x f2 m2 w2 = Some (rc', m', f', w')"
        "fq_ready R f' m' w'" "filtered x h f2 w2 skip rc' m' f' w'" by blast
      have run: "xsub_loop False x f m w = Some (rc', m', f', w')" using 1(1) 2(1) 3(1) Inr ok False by (simp add: xsub_loop.simps)
      have av2: "pipe_avail p w = (if p = q then m1 # ms else []) @ pipe_avail p w2" if "p \<in> fq_all f" for p
        using av[OF that] s(5) that by (cases "p = q") simp_all
      have "filtered x h f w (skip(q := (m1 # ms) # skip q)) rc' m' f' w'"
        using 3(3) 2(4) False s(1) av2 by (auto simp: filtered_def split: sum.splits)
      then show ?thesis using less.prems(1) run 3(2) by blast
    qed
  qed
qed

subsection \<open>Receiving\<close>

definition xsub_ready :: "msg multiset \<Rightarrow> xsub \<Rightarrow> msg \<Rightarrow> 's world \<Rightarrow> bool" where
  "xsub_ready R x m w \<longleftrightarrow> trie_inv (xsub_subs x) \<and> fq_ready R (xsub_fq x) m w \<and> fq_more (xsub_fq x) = xsub_more x \<and> \<not> xsub_has_message x"

text \<open>C32: A receive on a subscriber passes over whole messages only, none of them starting with a part
  that has a subscribed topic for a prefix, and takes them from the pipes together with the one
  it delivers, whose first part has one (an XSUB socket takes any message); within a message the
  next part of it follows. EAGAIN is returned only when every message of every pipe was passed over.\<close>

theorem xsub_filters:
  assumes rdy: "xsub_ready R x m w"
  shows "\<exists>rc m' x' w'. xsub_xrecv m x w = Some (map_sum id (\<lambda>_. ()) rc, m', x', w') \<and> xsub_ready R x' m' w' \<and>
    (if xsub_more x then \<exists>q. rc = Inr q \<and> array_at (fq_pipes (xsub_fq x)) (fq_current (xsub_fq x)) = Some q \<and>
         pipe_avail q w = m' # pipe_avail q w' \<and> (\<forall>p \<in> fq_all (xsub_fq x) - {q}. pipe_avail p w' = pipe_avail p w)
     else \<exists>skip. filtered x (wmem w) (xsub_fq x) w skip rc m' (xsub_fq x') w')"
proof (cases "xsub_more x")
  case False
  have r: "trie_inv (xsub_subs x)" "fq_ready R (xsub_fq x) m w" "\<not> fq_more (xsub_fq x)" "\<not> xsub_has_message x"
    using rdy False by (simp_all add: xsub_ready_def)
  obtain rc m' f' w' skip where l: "xsub_loop False x (xsub_fq x) m w = Some (rc, m', f', w')" "fq_ready R f' m' w'"
    "filtered x (wmem w) (xsub_fq x) w skip rc m' f' w'"
    by (rule xsub_loop_ok[OF r(1-3) mem_sub_refl])
  define x' where "x' = (case rc of Inl _ \<Rightarrow> x\<lparr>xsub_fq := f'\<rparr> | Inr _ \<Rightarrow> x\<lparr>xsub_fq := f', xsub_more := has_more m'\<rparr>)"
  have x': "xsub_fq x' = f'" by (simp add: x'_def split: sum.split)
  have "xsub_xrecv m x w = Some (map_sum id (\<lambda>_. ()) rc, m', x', w')"
    using l(1) r(4) False by (simp add: xsub_xrecv_def x'_def split: sum.split)
  moreover have "xsub_ready R x' m' w'" using l(2,3) r(1,4) False by (simp add: xsub_ready_def x'_def filtered_def split: sum.splits)
  ultimately show ?thesis using l(3) False unfolding x'[symmetric] by auto
next
  case True
  have r: "fq_ready R (xsub_fq x) m w" "fq_more (xsub_fq x)" "\<not> xsub_has_message x" using rdy True by (simp_all add: xsub_ready_def)
  obtain rc m' f' w' where 1: "fq_recvpipe pipe_read (xsub_fq x) m w = Some (rc, m', f', w')" "fq_got (xsub_fq x) w rc m' f' w'"
    by (rule fq_recvpipe_ready[OF r(1)])
  then obtain q where q: "rc = Inr q" using r(2) by (cases rc) (auto simp: fq_got_def)
  note t = fq_recv_took[OF r(1) 1(1)[unfolded q]]
  have "xsub_xrecv m x w = Some (map_sum id (\<lambda>_. ()) rc, m', x\<lparr>xsub_fq := f', xsub_more := has_more m'\<rparr>, w')"
    using 1(1) q r(3) True by (simp add: xsub_xrecv_def xsub_loop.simps)
  moreover have "xsub_ready R (x\<lparr>xsub_fq := f', xsub_more := has_more m'\<rparr>) m' w'" using rdy t(5,8) by (simp add: xsub_ready_def)
  ultimately show ?thesis using q t(3,4,7) r(2) True by (intro exI[of _ rc] exI[of _ m'] exI) auto
qed

theorem xsub_filters_witness:
  "\<exists>(w :: unit world) f x' m' w'. fq_attach 3 fq_new = Some f \<and> pipe_avail 3 w = [example_msg] \<and>
    xsub_xrecv example_msg ((sub_new [])\<lparr>xsub_fq := f\<rparr>) w = Some (Inl EAGAIN, m', x', w') \<and> pipe_avail 3 w' = []"
proof -
  obtain w :: "unit world" and f where w: "fq_attach 3 fq_new = Some f" "fq_ready {#} f example_msg w" "fq_all f = {3}" "\<not> fq_more f"
    "pipe_avail 3 w = [example_msg]" using fq_ready_example by blast
  let ?x = "(sub_new [])\<lparr>xsub_fq := f\<rparr>"
  have x: "xsub_ready {#} ?x example_msg w" "\<not> xsub_more ?x" using w by (simp_all add: xsub_ready_def sub_new_def xsub_new_def)
  have "\<not> wanted ?x (wmem w) example_msg" by (simp add: wanted_def topic_known_def sub_new_def xsub_new_def)
  moreover from xsub_filters[OF x(1)] x(2) obtain rc m' x' w' skip where r:
    "xsub_xrecv example_msg ?x w = Some (map_sum id (\<lambda>_. ()) rc, m', x', w')" "filtered ?x (wmem w) f w skip rc m' (xsub_fq x') w'"
    by auto
  moreover have "A @ a # B = [b] \<longleftrightarrow> A = [] \<and> a = b \<and> B = []" for A B and a b :: msg by (cases A) auto
  ultimately have "rc = Inl EAGAIN \<and> pipe_avail 3 w' = []" using w(3,5) by (cases rc) (simp_all add: filtered_def)
  then show ?thesis using r(1) w(1,5) by (intro exI) auto
qed

end
