(* ===== verification/Sock_Router.thy ===== *)
theory Sock_Router
  imports Sock_Dealer Options Wire "HOL-Library.AList" "HOL-Library.List_Lexorder"
begin

text \<open>
  \<^verbatim>\<open>router_t\<close> of src/router.cpp and \<^verbatim>\<open>rep_t\<close> of src/rep.cpp: every peer has an identity, which the socket
  puts before the messages of the peer and takes from the front of the messages for it; the reply
  socket copies the envelope of a request to the front of the reply.
\<close>

unbundle bit_operations_syntax

abbreviation (input) "type_rep \<equiv> (4 :: int)"
abbreviation (input) "type_router \<equiv> (6 :: int)"

record outpipe_t =
  op_pipe :: addr
  op_active :: bool

text \<open>The map of the outbound pipes is in the order of the identities.\<close>

record router =
  router_fq :: fq
  router_prefetched :: bool
  identity_sent :: bool
  prefetched_id :: msg
  prefetched_msg :: msg
  more_in :: bool
  anonymous_pipes :: "addr set"
  outpipes :: "(u8 list \<times> outpipe_t) list"
  current_out :: addr
  more_out :: bool
  next_peer_id :: u32
  mandatory :: bool
  router_options :: options

definition router_new :: "u32 \<Rightarrow> u8 list \<Rightarrow> router" where
  "router_new rnd jk = \<lparr>router_fq = fq_new, router_prefetched = False, identity_sent = False, prefetched_id = msg_init msg_closed,
     prefetched_msg = msg_init msg_closed, more_in = False, anonymous_pipes = {}, outpipes = [], current_out = 0, more_out = False,
     next_peer_id = rnd, mandatory = False, router_options = (options_new jk)\<lparr>sock_type := type_router, recv_identity := True\<rparr>\<rparr>"

definition router_destroy :: "'r router_scheme \<Rightarrow> 's world \<Rightarrow> 's world option" where
  "router_destroy r w = do {
     zmq_assert (anonymous_pipes r = {});
     zmq_assert (outpipes r = []);
     (_, _, h) \<leftarrow> msg_close (prefetched_id r) (wmem w);
     (_, _, h) \<leftarrow> msg_close (prefetched_msg r) h;
     fq_destroy (router_fq r);
     Some (w\<lparr>wmem := h\<rparr>) }"

text \<open>The first message of a peer is its identity.\<close>

definition identify_peer :: "addr \<Rightarrow> 'r router_scheme \<Rightarrow> 's world \<Rightarrow> (bool \<times> 'r router_scheme \<times> 's world) option" where
  "identify_peer p r w = do {
     (m, w) \<leftarrow> pipe_read p w;
     case m of
       None \<Rightarrow> Some (False, r, w)
     | Some m \<Rightarrow> do {
         data \<leftarrow> msg_data m (wmem w);
         (_, _, h) \<leftarrow> msg_close m (wmem w);
         let w = w\<lparr>wmem := h\<rparr>;
         let (i, r') = (if data = [] then (0 # put_uint32 (next_peer_id r), r\<lparr>next_peer_id := next_peer_id r + 1\<rparr>) else (data, r));
         if data \<noteq> [] \<and> map_of (outpipes r) i \<noteq> None then Some (False, r', w)
         else do {
           w \<leftarrow> set_identity p i w;
           zmq_assert (map_of (outpipes r') i = None);
           Some (True, r'\<lparr>outpipes := insort_key fst (i, \<lparr>op_pipe = p, op_active = True\<rparr>) (outpipes r')\<rparr>, w) } } }"

definition router_xattach_pipe :: "addr \<Rightarrow> bool \<Rightarrow> 'r router_scheme \<Rightarrow> 's world \<Rightarrow> ('r router_scheme \<times> 's world) option" where
  "router_xattach_pipe p icanhasall r w = do {
     zmq_assert (p \<noteq> 0);
     (identity_ok, r, w) \<leftarrow> identify_peer p r w;
     if identity_ok then do { f \<leftarrow> fq_attach p (router_fq r); Some (r\<lparr>router_fq := f\<rparr>, w) }
     else Some (r\<lparr>anonymous_pipes := insert p (anonymous_pipes r)\<rparr>, w) }"

definition router_xsetsockopt :: "int \<Rightarrow> u8 list option \<Rightarrow> nat \<Rightarrow> 'r router_scheme \<Rightarrow> (rc \<times> 'r router_scheme) option" where
  "router_xsetsockopt o' v n r =
     (if map_of sockopt_codes o' \<noteq> Some ZMQ_ROUTER_MANDATORY then Some (Inl EINVAL, r)
      else if n \<noteq> 4 then Some (Inl EINVAL, r)
      else do {
        i \<leftarrow> read_int v;
        Some (if i < 0 then (Inl EINVAL, r) else (Inr (), r\<lparr>mandatory := (i \<noteq> 0)\<rparr>)) })"

definition router_xterminated :: "addr \<Rightarrow> 'r router_scheme \<Rightarrow> 's world \<Rightarrow> 'r router_scheme option" where
  "router_xterminated p r w =
     (if p \<in> anonymous_pipes r then Some (r\<lparr>anonymous_pipes := anonymous_pipes r - {p}\<rparr>)
      else do {
        i \<leftarrow> get_identity p w;
        zmq_assert (map_of (outpipes r) i \<noteq> None);
        f \<leftarrow> fq_terminated p (router_fq r);
        Some (r\<lparr>outpipes := AList.delete i (outpipes r), router_fq := f,
          current_out := (if p = current_out r then 0 else current_out r)\<rparr>) })"

definition router_xread_activated :: "addr \<Rightarrow> 'r router_scheme \<Rightarrow> 's world \<Rightarrow> ('r router_scheme \<times> 's world) option" where
  "router_xread_activated p r w =
     (if p \<notin> anonymous_pipes r then do { f \<leftarrow> fq_activated p (router_fq r); Some (r\<lparr>router_fq := f\<rparr>, w) }
      else do {
        (identity_ok, r, w) \<leftarrow> identify_peer p r w;
        if identity_ok then do {
          f \<leftarrow> fq_attach p (router_fq r);
          Some (r\<lparr>anonymous_pipes := anonymous_pipes r - {p}, router_fq := f\<rparr>, w) }
        else Some (r, w) })"

definition router_xwrite_activated :: "addr \<Rightarrow> 'r router_scheme \<Rightarrow> 'r router_scheme option" where
  "router_xwrite_activated p r =
     (case find (\<lambda>(_, out). op_pipe out = p) (outpipes r) of
       None \<Rightarrow> None
     | Some (i, out) \<Rightarrow> do {
         zmq_assert (\<not> op_active out);
         Some (r\<lparr>outpipes := AList.update i (out\<lparr>op_active := True\<rparr>) (outpipes r)\<rparr>) })"

subsection \<open>Sending\<close>

text \<open>The first part is the identity of the peer the message goes to.\<close>

definition router_route :: "msg \<Rightarrow> 'r router_scheme \<Rightarrow> 's world \<Rightarrow> (rc \<times> 'r router_scheme \<times> 's world) option" where
  "router_route m r w =
     (if \<not> has_more m then Some (Inr (), r, w)
      else do {
        i \<leftarrow> msg_data m (wmem w);
        case map_of (outpipes r) i of
          Some out \<Rightarrow> do {
            (ok, w) \<leftarrow> pipe_check_write (op_pipe out) w;
            Some (Inr (), if ok then r\<lparr>more_out := True, current_out := op_pipe out\<rparr>
              else r\<lparr>more_out := True, outpipes := AList.update i (out\<lparr>op_active := False\<rparr>) (outpipes r), current_out := 0\<rparr>, w) }
        | None \<Rightarrow> Some (if mandatory r then (Inl EHOSTUNREACH, r\<lparr>more_out := False\<rparr>, w) else (Inr (), r\<lparr>more_out := True\<rparr>, w)) })"

definition router_xsend :: "msg \<Rightarrow> 'r router_scheme \<Rightarrow> 's world \<Rightarrow> (rc \<times> msg \<times> 'r router_scheme \<times> 's world) option" where
  "router_xsend m r w =
     (if \<not> more_out r then do {
        zmq_assert (current_out r = 0);
        (rc, r, w) \<leftarrow> router_route m r w;
        if rc \<noteq> Inr () then Some (rc, m, r, w)
        else do {
          (m, w) \<leftarrow> close_msg m w;
          Some (Inr (), msg_init m, r, w) } }
      else do {
        let r = r\<lparr>more_out := has_more m\<rparr>;
        if current_out r \<noteq> 0 then do {
          (ok, w) \<leftarrow> pipe_write (current_out r) m w;
          if \<not> ok then Some (Inr (), msg_init m, r\<lparr>current_out := 0\<rparr>, w)
          else if \<not> more_out r then do {
            w \<leftarrow> pipe_flush (current_out r) w;
            Some (Inr (), msg_init m, r\<lparr>current_out := 0\<rparr>, w) }
          else Some (Inr (), msg_init m, r, w) }
        else do {
          (m, w) \<leftarrow> close_msg m w;
          Some (Inr (), msg_init m, r, w) } })"

definition router_rollback :: "'r router_scheme \<Rightarrow> 's world \<Rightarrow> ('r router_scheme \<times> 's world) option" where
  "router_rollback r w =
     (if current_out r \<noteq> 0 then do {
        w \<leftarrow> pipe_rollback (current_out r) w;
        Some (r\<lparr>current_out := 0, more_out := False\<rparr>, w) }
      else Some (r, w))"

definition router_xhas_out :: "'r router_scheme \<Rightarrow> bool" where
  "router_xhas_out r = True"

subsection \<open>Receiving\<close>

text \<open>The message that holds the identity of a pipe.\<close>

definition identity_msg :: "addr \<Rightarrow> msg \<Rightarrow> 's world \<Rightarrow> (msg \<times> 's world) option" where
  "identity_msg p m w = do {
     i \<leftarrow> get_identity p w;
     (rc, m, h) \<leftarrow> msg_init_size (of_nat (length i)) m (wmem w);
     zmq_assert (rc = Inr ());
     (m, h) \<leftarrow> msg_put 0 i m h;
     Some (msg_set_flags flag_more m, w\<lparr>wmem := h\<rparr>) }"

definition router_xrecv :: "msg \<Rightarrow> 'r router_scheme \<Rightarrow> 's world \<Rightarrow> (rc \<times> msg \<times> 'r router_scheme \<times> 's world) option" where
  "router_xrecv m r w =
     (if router_prefetched r then
        (if \<not> identity_sent r then do {
           (rc, m, pm, h) \<leftarrow> msg_move m (prefetched_id r) (wmem w);
           zmq_assert (rc = Inr ());
           Some (Inr (), m, r\<lparr>prefetched_id := pm, identity_sent := True, more_in := has_more m\<rparr>, w\<lparr>wmem := h\<rparr>) }
         else do {
           (rc, m, pm, h) \<leftarrow> msg_move m (prefetched_msg r) (wmem w);
           zmq_assert (rc = Inr ());
           Some (Inr (), m, r\<lparr>prefetched_msg := pm, router_prefetched := False, more_in := has_more m\<rparr>, w\<lparr>wmem := h\<rparr>) })
      else do {
        (rc, m, f, w) \<leftarrow> recv_until no_identity (router_fq r) m w;
        let r = r\<lparr>router_fq := f\<rparr>;
        case rc of
          Inl e \<Rightarrow> Some (Inl e, m, r, w)
        | Inr p \<Rightarrow> do {
            zmq_assert (p \<noteq> 0);
            if more_in r then Some (Inr (), m, r\<lparr>more_in := has_more m\<rparr>, w)
            else do {
              (rc, pm, m, h) \<leftarrow> msg_move (prefetched_msg r) m (wmem w);
              zmq_assert (rc = Inr ());
              (m, w) \<leftarrow> identity_msg p m (w\<lparr>wmem := h\<rparr>);
              Some (Inr (), m, r\<lparr>prefetched_msg := pm, router_prefetched := True, identity_sent := True\<rparr>, w) } } })"

definition router_xhas_in :: "'r router_scheme \<Rightarrow> 's world \<Rightarrow> (bool \<times> 'r router_scheme \<times> 's world) option" where
  "router_xhas_in r w =
     (if more_in r \<or> router_prefetched r then Some (True, r, w)
      else do {
        (rc, m, f, w) \<leftarrow> recv_until no_identity (router_fq r) (prefetched_msg r) w;
        let r = r\<lparr>router_fq := f, prefetched_msg := m\<rparr>;
        case rc of
          Inl e \<Rightarrow> Some (False, r, w)
        | Inr p \<Rightarrow> do {
            zmq_assert (p \<noteq> 0);
            (m, w) \<leftarrow> identity_msg p (prefetched_id r) w;
            Some (True, r\<lparr>prefetched_id := m, router_prefetched := True, identity_sent := False\<rparr>, w) } })"
subsection \<open>The reply socket\<close>

record rep = router +
  sending_reply :: bool
  request_begins :: bool

definition rep_new :: "u32 \<Rightarrow> u8 list \<Rightarrow> rep" where
  "rep_new rnd jk = (let r = router.extend (router_new rnd jk) \<lparr>sending_reply = False, request_begins = True\<rparr>
     in r\<lparr>router_options := (router_options r)\<lparr>sock_type := type_rep\<rparr>\<rparr>)"

definition rep_xsend :: "msg \<Rightarrow> rep \<Rightarrow> 's world \<Rightarrow> (rc \<times> msg \<times> rep \<times> 's world) option" where
  "rep_xsend m r w =
     (if \<not> sending_reply r then Some (Inl EFSM, m, r, w)
      else do {
        let more = has_more m;
        (rc, m, r, w) \<leftarrow> router_xsend m r w;
        if rc \<noteq> Inr () then Some (rc, m, r, w)
        else Some (Inr (), m, if \<not> more then r\<lparr>sending_reply := False\<rparr> else r, w) })"

text \<open>Copying the traceback stack of a request to the reply pipe.\<close>

partial_function (option) rep_recv_stack :: "msg \<Rightarrow> rep \<Rightarrow> 's world \<Rightarrow> (rc \<times> msg \<times> rep \<times> 's world) option" where
  "rep_recv_stack m r w = do {
     (rc, m, r, w) \<leftarrow> router_xrecv m r w;
     if rc \<noteq> Inr () then Some (rc, m, r, w)
     else if has_more m then do {
       n \<leftarrow> msg_size m (wmem w);
       let bottom = (n = 0);
       (rc, m, r, w) \<leftarrow> router_xsend m r w;
       zmq_assert (rc = Inr ());
       if bottom then Some (Inr (), m, r, w) else rep_recv_stack m r w }
     else do {
       (r, w) \<leftarrow> router_rollback r w;
       rep_recv_stack m r w } }"

definition rep_xrecv :: "msg \<Rightarrow> rep \<Rightarrow> 's world \<Rightarrow> (rc \<times> msg \<times> rep \<times> 's world) option" where
  "rep_xrecv m r w =
     (if sending_reply r then Some (Inl EFSM, m, r, w)
      else do {
        (rc, m, r, w) \<leftarrow> (if request_begins r then do {
            (rc, m, r, w) \<leftarrow> rep_recv_stack m r w;
            Some (rc, m, if rc = Inr () then r\<lparr>request_begins := False\<rparr> else r, w) }
          else Some (Inr (), m, r, w));
        if rc \<noteq> Inr () then Some (rc, m, r, w)
        else do {
          (rc, m, r, w) \<leftarrow> router_xrecv m r w;
          if rc \<noteq> Inr () then Some (rc, m, r, w)
          else Some (Inr (), m, if \<not> has_more m then r\<lparr>sending_reply := True, request_begins := True\<rparr> else r, w) } })"

definition rep_xhas_in :: "rep \<Rightarrow> 's world \<Rightarrow> (bool \<times> rep \<times> 's world) option" where
  "rep_xhas_in r w = (if sending_reply r then Some (False, r, w) else router_xhas_in r w)"

definition rep_xhas_out :: "rep \<Rightarrow> bool" where
  "rep_xhas_out r \<longleftrightarrow> sending_reply r \<and> router_xhas_out r"

subsection \<open>Routing a message\<close>

primrec router_send_all :: "msg list \<Rightarrow> 'r router_scheme \<Rightarrow> 's world \<Rightarrow> (rc \<times> 'r router_scheme \<times> 's world) option" where
  "router_send_all [] r w = Some (Inr (), r, w)"
| "router_send_all (m # ms) r w = do {
     (rc, _, r, w) \<leftarrow> router_xsend m r w;
     if rc \<noteq> Inr () then Some (rc, r, w) else router_send_all ms r w }"

lemma router_send_body:
  assumes "one_message ms" "more_out r" "current_out r = p" "p \<noteq> 0" "p \<in> ps" "out_good ps w" "pipe_room p w"
  shows "\<exists>r' w'. router_send_all ms r w = Some (Inr (), r', w') \<and> \<not> more_out r' \<and> current_out r' = 0 \<and> wmem w' = wmem w \<and>
    pipe_sent p w' = pipe_sent p w @ ms \<and> (\<forall>q \<in> ps - {p}. pipe_sent q w' = pipe_sent q w)"
  using assms
proof (induction ms arbitrary: r w)
  case (Cons m ms)
  have m: "msg_check m" using Cons.prems(1) by (simp add: one_message_Cons)
  obtain w1 where w1: "pipe_write p m w = Some (True, w1)" "out_good ps w1" "\<forall>q \<in> ps - {p}. pipe_sent q w1 = pipe_sent q w"
    "pipe_sent p w1 = pipe_sent p w @ [m]" "has_more m \<longrightarrow> pipe_room p w1" "wmem w1 = wmem w"
    using pipe_write_law[OF Cons.prems(6,5) m] Cons.prems(7) by metis
  show ?case
  proof (cases "ms = []")
    case True
    then have "\<not> has_more m" using Cons.prems(1) by (simp add: one_message_Cons)
    moreover obtain w2 where "pipe_flush p w1 = Some w2" "\<forall>q \<in> ps. pipe_sent q w2 = pipe_sent q w1" "wmem w2 = wmem w1"
      using pipe_flush_law[OF w1(2) Cons.prems(5)] by blast
    ultimately show ?thesis using True Cons.prems(2-5) w1 by (simp add: router_xsend_def)
  next
    case False
    then have hm: "has_more m" "one_message ms" using Cons.prems(1) by (simp_all add: one_message_Cons)
    let ?r = "r\<lparr>more_out := True\<rparr>"
    have "router_xsend m r w = Some (Inr (), msg_init m, ?r, w1)" using Cons.prems(2-4) w1(1) hm(1) by (simp add: router_xsend_def)
    moreover obtain r' w' where "router_send_all ms ?r w1 = Some (Inr (), r', w')" "\<not> more_out r'" "current_out r' = 0" "wmem w' = wmem w1"
      "pipe_sent p w' = pipe_sent p w1 @ ms" "\<forall>q \<in> ps - {p}. pipe_sent q w' = pipe_sent q w1"
      using Cons.IH[of ?r w1] hm Cons.prems(3,4,5) w1(2,5) by auto
    ultimately show ?thesis using w1(3,4,6) by simp
  qed
qed (simp add: one_message_def)

text \<open>Without a pipe the parts are dropped.\<close>

lemma router_drop_body:
  assumes "one_message ms" "more_out r" "current_out r = 0" "refs_inv (mset ms + R) (wmem w)"
  shows "\<exists>r' h. router_send_all ms r w = Some (Inr (), r', w\<lparr>wmem := h\<rparr>) \<and> \<not> more_out r' \<and> current_out r' = 0 \<and> refs_inv R h"
  using assms
proof (induction ms arbitrary: r w)
  case (Cons m ms)
  have "msg_check m" "refs_inv (add_mset m (mset ms + R)) (wmem w)" using Cons.prems by (simp_all add: one_message_Cons)
  then obtain h where h: "close_msg m w = Some (m\<lparr>mtype := 0\<rparr>, w\<lparr>wmem := h\<rparr>)" "refs_inv (mset ms + R) h"
    by (metis close_msg_ok)
  have x: "router_xsend m r w = Some (Inr (), msg_init (m\<lparr>mtype := 0\<rparr>), r\<lparr>more_out := has_more m\<rparr>, w\<lparr>wmem := h\<rparr>)"
    using h(1) Cons.prems(2,3) by (simp add: router_xsend_def)
  show ?case
  proof (cases "ms = []")
    case True
    then have "\<not> has_more m" using Cons.prems(1) by (simp add: one_message_Cons)
    then show ?thesis using x True h(2) Cons.prems(3) by (intro exI[of _ "r\<lparr>more_out := has_more m\<rparr>"] exI[of _ h]) simp
  next
    case False
    then have hm: "has_more m" "one_message ms" using Cons.prems(1) by (simp_all add: one_message_Cons)
    obtain r' h' where "router_send_all ms (r\<lparr>more_out := has_more m\<rparr>) (w\<lparr>wmem := h\<rparr>) = Some (Inr (), r', w\<lparr>wmem := h\<rparr>\<lparr>wmem := h'\<rparr>)"
      "\<not> more_out r'" "current_out r' = 0" "refs_inv R h'"
      using Cons.IH[of "r\<lparr>more_out := has_more m\<rparr>" "w\<lparr>wmem := h\<rparr>"] hm h(2) Cons.prems(3) by auto
    then show ?thesis using x by (intro exI[of _ r'] exI[of _ h']) simp
  qed
qed (simp add: one_message_def)

text \<open>C33: A message for a router goes, without its first part and with the others in order, to the pipe
  whose identity the first part is, when that pipe has room, and to no other; when it has no room
  or there is no such pipe the message is dropped and all its contents are released, unless
  \<^verbatim>\<open>ZMQ_ROUTER_MANDATORY\<close> is set: then an unknown identity is refused with EHOSTUNREACH and nothing
  changes. Afterwards the socket is at the beginning of a message again.\<close>

theorem router_routes:
  assumes idle: "\<not> more_out r" "current_out r = 0" and g: "out_good ps w"
    and outs: "\<forall>(i, out) \<in> set (outpipes r). op_pipe out \<in> ps \<and> op_pipe out \<noteq> 0"
    and i: "has_more i" "msg_check i" "msg_data i (wmem w) = Some d" and msg: "one_message ms" and refs: "refs_inv (mset (i # ms) + R) (wmem w)"
    and T: "T = {p. \<exists>out. map_of (outpipes r) d = Some out \<and> p = op_pipe out \<and> pipe_room p w}"
  shows "if map_of (outpipes r) d = None \<and> mandatory r then router_send_all (i # ms) r w = Some (Inl EHOSTUNREACH, r, w)
    else \<exists>r' w'. router_send_all (i # ms) r w = Some (Inr (), r', w') \<and> \<not> more_out r' \<and> current_out r' = 0 \<and>
      (\<forall>p \<in> ps. pipe_sent p w' = pipe_sent p w @ (if p \<in> T then ms else [])) \<and>
      refs_inv ((if T = {} then {#} else mset ms) + R) (wmem w')"
proof -
  have same: "r\<lparr>more_out := False\<rparr> = r" using idle by (cases r) simp
  have first: "\<exists>r1 w1. router_xsend i r w = Some (Inr (), msg_init (i\<lparr>mtype := 0\<rparr>), r1, w1) \<and> more_out r1 \<and> current_out r1 = current_out r0 \<and>
      w1 = w0\<lparr>wmem := wmem w1\<rparr> \<and> refs_inv (mset ms + R) (wmem w1)"
    if r0: "router_route i r w = Some (Inr (), r0, w0)" "more_out r0" "wmem w0 = wmem w" for r0 w0
  proof -
    have "refs_inv (add_mset i (mset ms + R)) (wmem w0)" using refs r0(3) by simp
    then obtain h where "close_msg i w0 = Some (i\<lparr>mtype := 0\<rparr>, w0\<lparr>wmem := h\<rparr>)" "refs_inv (mset ms + R) h"
      by (rule close_msg_ok[OF _ i(2)])
    then show ?thesis using r0 idle by (simp add: router_xsend_def)
  qed
  show ?thesis
  proof (cases "map_of (outpipes r) d")
    case None
    have T0: "T = {}" using T None by simp
    show ?thesis
    proof (cases "mandatory r")
      case True
      then show ?thesis using None same idle i by (simp add: router_xsend_def router_route_def)
    next
      case False
      have "router_route i r w = Some (Inr (), r\<lparr>more_out := True\<rparr>, w)" using None False i by (simp add: router_route_def)
      from first[OF this] obtain r1 w1 where 1: "router_xsend i r w = Some (Inr (), msg_init (i\<lparr>mtype := 0\<rparr>), r1, w1)" "more_out r1"
        "current_out r1 = 0" "w1 = w\<lparr>wmem := wmem w1\<rparr>" "refs_inv (mset ms + R) (wmem w1)" using idle by auto
      from router_drop_body[OF msg 1(2,3,5)] obtain r' h where "router_send_all ms r1 w1 = Some (Inr (), r', w1\<lparr>wmem := h\<rparr>)"
        "\<not> more_out r'" "current_out r' = 0" "refs_inv R h" by blast
      moreover have "pipe_sent p (w1\<lparr>wmem := h\<rparr>) = pipe_sent p w" for p using 1(4) by (metis wpipes.mem_law(3))
      ultimately show ?thesis using 1(1) False None T0 by simp
    qed
  next
    case (Some out)
    have out: "op_pipe out \<in> ps" "op_pipe out \<noteq> 0" using outs map_of_SomeD[OF Some] by auto
    obtain w0 where w0: "pipe_check_write (op_pipe out) w = Some (pipe_room (op_pipe out) w, w0)" "out_good ps w0"
      "\<forall>p \<in> ps. pipe_room p w0 = pipe_room p w \<and> pipe_sent p w0 = pipe_sent p w" "wmem w0 = wmem w"
      using pipe_check_write_law[OF g out(1)] by blast
    define r0 where "r0 = (if pipe_room (op_pipe out) w then r\<lparr>more_out := True, current_out := op_pipe out\<rparr>
      else r\<lparr>more_out := True, outpipes := AList.update d (out\<lparr>op_active := False\<rparr>) (outpipes r), current_out := 0\<rparr>)"
    have "router_route i r w = Some (Inr (), r0, w0)" "more_out r0" using Some i w0(1) by (simp_all add: router_route_def r0_def)
    from first[OF this w0(4)] obtain r1 w1 where 1: "router_xsend i r w = Some (Inr (), msg_init (i\<lparr>mtype := 0\<rparr>), r1, w1)" "more_out r1"
      "current_out r1 = current_out r0" "w1 = w0\<lparr>wmem := wmem w1\<rparr>" "refs_inv (mset ms + R) (wmem w1)" by auto
    have e: "out_good ps w1" "pipe_sent p w1 = pipe_sent p w0" "pipe_room p w1 = pipe_room p w0" for p
      using w0(2) 1(4) by (metis wpipes.mem_law)+
    show ?thesis
    proof (cases "pipe_room (op_pipe out) w")
      case True
      then have c: "current_out r1 = op_pipe out" "pipe_room (op_pipe out) w1" using 1(3) e(3) w0(3) out by (simp_all add: r0_def)
      obtain r' w' where "router_send_all ms r1 w1 = Some (Inr (), r', w')" "\<not> more_out r'" "current_out r' = 0" "wmem w' = wmem w1"
        "pipe_sent (op_pipe out) w' = pipe_sent (op_pipe out) w1 @ ms" "\<forall>q \<in> ps - {op_pipe out}. pipe_sent q w' = pipe_sent q w1"
        using router_send_body[OF msg 1(2) c(1) out(2,1) e(1) c(2)] by blast
      then show ?thesis using 1(1,5) Some True T w0(3) e(2) by auto
    next
      case False
      then have c: "current_out r1 = 0" and T0: "T = {}" using 1(3) T Some by (simp_all add: r0_def)
      from router_drop_body[OF msg 1(2) c 1(5)] obtain r' h where "router_send_all ms r1 w1 = Some (Inr (), r', w1\<lparr>wmem := h\<rparr>)"
        "\<not> more_out r'" "current_out r' = 0" "refs_inv R h" by blast
      then show ?thesis using 1(1) Some T0 w0(3) e(2) by (simp add: wpipes.mem_law)
    qed
  qed
qed
theorem router_routes_witness:
  "\<exists>(w :: unit world) r' w'. pipe_sent 4 w = [] \<and>
    router_send_all [example_msg\<lparr>mflags := flag_more, vsize := 1, vdata := [7]\<rparr>, example_msg]
      ((router_new 0 [])\<lparr>outpipes := [([7], \<lparr>op_pipe = 4, op_active = True\<rparr>)]\<rparr>) w = Some (Inr (), r', w') \<and> pipe_sent 4 w' = [example_msg]"
proof -
  obtain w :: "unit world" where w: "out_good {4} w" "pipe_room 4 w" "pipe_sent 4 w = []" "wmem w = mem_new (\<lambda>_ _. True) (\<lambda>_. 0)"
    using pipe_example by blast
  let ?r = "(router_new 0 [])\<lparr>outpipes := [([7], \<lparr>op_pipe = 4, op_active = True\<rparr>)]\<rparr>"
  let ?i = "example_msg\<lparr>mflags := flag_more, vsize := 1, vdata := [7]\<rparr>"
  have i: "has_more ?i" "msg_check ?i" "msg_data ?i (wmem w) = Some [7]"
    by (simp_all add: has_more_def msg_data_def msg_check_def example_msg_def msg_init_def)
  have "\<not> holds a ?i" for a by (simp add: holds_def example_msg_def msg_init_def)
  then have refs: "refs_inv (mset [?i, example_msg] + {#}) (wmem w)" using mem_new_ok by (simp add: refs_inv_skip example_msg w)
  have r: "\<not> more_out ?r" "current_out ?r = 0" "\<forall>(i, out) \<in> set (outpipes ?r). op_pipe out \<in> {4} \<and> op_pipe out \<noteq> 0"
    by (simp_all add: router_new_def)
  have o: "one_message [example_msg]" by (simp add: one_message_Cons example_msg)
  have T: "{p. \<exists>out. map_of (outpipes ?r) [7] = Some out \<and> p = op_pipe out \<and> pipe_room p w} = {4}" using w(2) by auto
  from router_routes[OF r(1,2) w(1) r(3) i o refs T[symmetric]] show ?thesis using w(3)
    by (auto simp: router_new_def)
qed

subsection \<open>Generated identities\<close>

text \<open>C34: A peer that chose for its identity the one the router would generate next makes the following
  peer without an identity abort the process: the identity generated for it is already in the map.\<close>

theorem router_identity_clash:
  assumes "pipe_read q w = Some (Some m, w1)" "msg_data m (wmem w1) = Some (0 # put_uint32 (next_peer_id r))"
    and att: "router_xattach_pipe q b r w = Some (r1, w2)" "q \<notin> anonymous_pipes r1"
    and rd: "pipe_read p w2 = Some (Some m', w3)" "msg_data m' (wmem w3) = Some []"
  shows "router_xattach_pipe p b' r1 w2 = None"
proof -
  have "map_of (outpipes r1) (0 # put_uint32 (next_peer_id r1)) \<noteq> None"
    using att assms(1,2) by (auto simp: router_xattach_pipe_def identify_peer_def run_simps Let_def set_insort_key map_of_eq_None_iff split: if_splits)
  then have "identify_peer p r1 w2 = None"
    using rd by (cases "msg_close m' (wmem w3)"; cases "set_identity p (0 # put_uint32 (next_peer_id r1)) (w3\<lparr>wmem := snd (snd (the (msg_close m' (wmem w3))))\<rparr>)")
      (auto simp: identify_peer_def)
  then show ?thesis by (simp add: router_xattach_pipe_def zmq_assert_def)
qed

theorem router_identity_clash_witness:
  "\<exists>(w :: unit world) r1 w2. router_xattach_pipe 3 False (router_new 0 []) w = Some (r1, w2) \<and> pipe_avail 5 w2 = [example_msg] \<and>
    router_xattach_pipe 5 False r1 w2 = None"
proof -
  let ?i = "example_msg\<lparr>vsize := 5, vdata := 0 # put_uint32 0\<rparr>"
  have i: "msg_check ?i" "\<not> has_more ?i" "\<not> msg_is_delimiter ?i" "\<And>h. msg_data ?i h = Some (0 # put_uint32 0)" "\<And>h. msg_data example_msg h = Some []"
    "\<And>h. msg_close ?i h = Some (Inr (), ?i\<lparr>mtype := 0\<rparr>, h)"
    by (simp_all add: example_msg_def msg_init_def msg_check_def msg_closed_def has_more_def msg_is_delimiter_def msg_data_def msg_close_def put_uint32_def)
  obtain z1 z2 where z: "upipe_ok z1" "flushed (uabs z1) = [?i]" "upipe_ok z2" "flushed (uabs z2) = [example_msg]"
    using upipe_one[OF i(1,2)] upipe_one[OF example_msg(1,3)] by blast
  define w :: "unit world" where "w = \<lparr>wpipes = (\<lambda>_. None)(3 \<mapsto> pipe_init 1 0 0 0 True, 5 \<mapsto> pipe_init 2 0 0 0 True),
    upipes = (\<lambda>_. None)(1 \<mapsto> z1, 2 \<mapsto> z2), next_addr = 6, wmem = mem_new (\<lambda>_ _. True) (\<lambda>_. 0), wcmds = [], sock = ()\<rparr>"
  have g: "in_good {3, 5} w" "pipe_avail 3 w = [?i]" "pipe_avail 5 w = [example_msg]"
    using z i(3) example_msg(4) by (auto simp: in_good_def w_def pipe_init_def pipe_avail_def pipe_readable_def)
  have "(3::nat) \<in> {3, 5}" by simp
  from pipe_read_law[OF g(1) this] obtain m w1 where m: "pipe_read 3 w = Some (m, w1)" "in_good {3, 5} w1" "pipe_avail 5 w1 = pipe_avail 5 w"
    "case m of None \<Rightarrow> pipe_avail 3 w = [] \<and> pipe_avail 3 w1 = [] | Some m \<Rightarrow> pipe_avail 3 w = m # pipe_avail 3 w1" by auto
  then have r1: "pipe_read 3 w = Some (Some ?i, w1)" using g(2) by (auto split: option.splits)
  obtain x where x: "wpipes w1 3 = Some x" using m(2) by (auto simp: in_good_def)
  let ?w2 = "set_pipe 3 (x\<lparr>identity := 0 # put_uint32 0\<rparr>) w1"
  have "pipe_avail 5 ?w2 = pipe_avail 5 w1" by (simp add: pipe_avail_def split: option.split)
  then have g2: "in_good {3, 5} ?w2" "pipe_avail 5 ?w2 = [example_msg]" using m(2,3) g(3) x by (auto simp: in_good_def)
  obtain f where f: "fq_attach 3 fq_new = Some f" by (rule fq_attach_ok[OF fq_new_inv(1), of 3]) simp_all
  have a: "\<exists>r1. router_xattach_pipe 3 False (router_new 0 []) w = Some (r1, ?w2) \<and> 3 \<notin> anonymous_pipes r1"
    using r1 i(4,6) x f by (simp add: router_xattach_pipe_def identify_peer_def router_new_def set_identity_def get_pipe_eq)
  have "(5::nat) \<in> {3, 5}" by simp
  from pipe_read_law[OF g2(1) this] obtain m' w3 where "pipe_read 5 ?w2 = Some (Some m', w3)" "m' = example_msg"
    using g2(2) by (auto split: option.splits)
  then have r2: "pipe_read 5 ?w2 = Some (Some example_msg, w3)" by simp
  have d: "msg_data ?i (wmem w1) = Some (0 # put_uint32 (next_peer_id (router_new 0 [])))" using i(4) by (simp add: router_new_def)
  from a obtain r1' where "router_xattach_pipe 3 False (router_new 0 []) w = Some (r1', ?w2)" "3 \<notin> anonymous_pipes r1'" by blast
  with router_identity_clash[OF r1 d this r2 i(5), of False] g2(2) show ?thesis by (intro exI conjI)
qed

end
