(* ===== verification/Sock_Pair.thy ===== *)
theory Sock_Pair
  imports Sock_Dealer Options
begin

text \<open>
  The sockets that only pass on the calls: \<^verbatim>\<open>pair_t\<close> of src/pair.cpp, with one pipe, \<^verbatim>\<open>push_t\<close> of
  src/push.cpp, over the load balancer, and \<^verbatim>\<open>pull_t\<close> of src/pull.cpp, over the fair queue.
\<close>

unbundle bit_operations_syntax

abbreviation (input) "type_pair \<equiv> (0 :: int)"
abbreviation (input) "type_pull \<equiv> (7 :: int)"
abbreviation (input) "type_push \<equiv> (8 :: int)"

subsection \<open>The pair\<close>

record pair =
  pair_pipe :: addr
  pair_options :: options

definition pair_new :: "u8 list \<Rightarrow> pair" where
  "pair_new jk = \<lparr>pair_pipe = 0, pair_options = (options_new jk)\<lparr>sock_type := type_pair\<rparr>\<rparr>"

definition pair_destroy :: "pair \<Rightarrow> unit option" where
  "pair_destroy x = zmq_assert (pair_pipe x = 0)"

definition pair_xattach_pipe :: "addr \<Rightarrow> bool \<Rightarrow> pair \<Rightarrow> 's world \<Rightarrow> (pair \<times> 's world) option" where
  "pair_xattach_pipe p icanhasall x w = do {
     zmq_assert (p \<noteq> 0);
     if pair_pipe x = 0 then Some (x\<lparr>pair_pipe := p\<rparr>, w)
     else do { w \<leftarrow> pipe_terminate False p w; Some (x, w) } }"

definition pair_xterminated :: "addr \<Rightarrow> pair \<Rightarrow> pair" where
  "pair_xterminated p x = (if p = pair_pipe x then x\<lparr>pair_pipe := 0\<rparr> else x)"

definition pair_xread_activated :: "addr \<Rightarrow> pair \<Rightarrow> pair" where
  "pair_xread_activated p x = x"

definition pair_xwrite_activated :: "addr \<Rightarrow> pair \<Rightarrow> pair" where
  "pair_xwrite_activated p x = x"

text \<open>\<open>sndmore\<close> is the flag \<^verbatim>\<open>ZMQ_SNDMORE\<close>.\<close>

definition pair_xsend :: "msg \<Rightarrow> bool \<Rightarrow> pair \<Rightarrow> 's world \<Rightarrow> (rc \<times> msg \<times> 's world) option" where
  "pair_xsend m sndmore x w =
     (if pair_pipe x = 0 then Some (Inl EAGAIN, m, w)
      else do {
        (ok, w) \<leftarrow> pipe_write (pair_pipe x) m w;
        if \<not> ok then Some (Inl EAGAIN, m, w)
        else do {
          w \<leftarrow> (if \<not> sndmore then pipe_flush (pair_pipe x) w else Some w);
          Some (Inr (), msg_init m, w) } })"

definition pair_xrecv :: "msg \<Rightarrow> pair \<Rightarrow> 's world \<Rightarrow> (rc \<times> msg \<times> 's world) option" where
  "pair_xrecv m x w = do {
     (m, w) \<leftarrow> close_msg m w;
     (got, w) \<leftarrow> (if pair_pipe x = 0 then Some (None, w) else pipe_read (pair_pipe x) w);
     Some (case got of None \<Rightarrow> (Inl EAGAIN, msg_init m, w) | Some m \<Rightarrow> (Inr (), m, w)) }"

definition pair_xhas_in :: "pair \<Rightarrow> 's world \<Rightarrow> (bool \<times> 's world) option" where
  "pair_xhas_in x w = (if pair_pipe x = 0 then Some (False, w) else pipe_check_read (pair_pipe x) w)"

definition pair_xhas_out :: "pair \<Rightarrow> 's world \<Rightarrow> (bool \<times> 's world) option" where
  "pair_xhas_out x w = (if pair_pipe x = 0 then Some (False, w) else pipe_check_write (pair_pipe x) w)"

subsection \<open>Push\<close>

record push =
  push_lb :: lb
  push_options :: options

definition push_new :: "u8 list \<Rightarrow> push" where
  "push_new jk = \<lparr>push_lb = lb_new, push_options = (options_new jk)\<lparr>sock_type := type_push\<rparr>\<rparr>"

definition push_destroy :: "push \<Rightarrow> unit option" where
  "push_destroy x = lb_destroy (push_lb x)"

definition push_xattach_pipe :: "addr \<Rightarrow> bool \<Rightarrow> push \<Rightarrow> push option" where
  "push_xattach_pipe p icanhasall x = do { zmq_assert (p \<noteq> 0); l \<leftarrow> lb_attach p (push_lb x); Some (x\<lparr>push_lb := l\<rparr>) }"

definition push_xwrite_activated :: "addr \<Rightarrow> push \<Rightarrow> push option" where
  "push_xwrite_activated p x = do { l \<leftarrow> lb_activated p (push_lb x); Some (x\<lparr>push_lb := l\<rparr>) }"

definition push_xterminated :: "addr \<Rightarrow> push \<Rightarrow> push option" where
  "push_xterminated p x = do { l \<leftarrow> lb_terminated p (push_lb x); Some (x\<lparr>push_lb := l\<rparr>) }"

definition push_xsend :: "msg \<Rightarrow> push \<Rightarrow> 's world \<Rightarrow> (rc \<times> msg \<times> push \<times> 's world) option" where
  "push_xsend m x w = do { (rc, m, l, w) \<leftarrow> lb_send pipe_write pipe_flush (push_lb x) m w; Some (rc, m, x\<lparr>push_lb := l\<rparr>, w) }"

definition push_xhas_out :: "push \<Rightarrow> 's world \<Rightarrow> (bool \<times> push \<times> 's world) option" where
  "push_xhas_out x w = do { (b, l, w) \<leftarrow> lb_has_out pipe_check_write (push_lb x) w; Some (b, x\<lparr>push_lb := l\<rparr>, w) }"

subsection \<open>Pull\<close>

record pull =
  pull_fq :: fq
  pull_options :: options

definition pull_new :: "u8 list \<Rightarrow> pull" where
  "pull_new jk = \<lparr>pull_fq = fq_new, pull_options = (options_new jk)\<lparr>sock_type := type_pull\<rparr>\<rparr>"

definition pull_destroy :: "pull \<Rightarrow> unit option" where
  "pull_destroy x = fq_destroy (pull_fq x)"

definition pull_xattach_pipe :: "addr \<Rightarrow> bool \<Rightarrow> pull \<Rightarrow> pull option" where
  "pull_xattach_pipe p icanhasall x = do { zmq_assert (p \<noteq> 0); f \<leftarrow> fq_attach p (pull_fq x); Some (x\<lparr>pull_fq := f\<rparr>) }"

definition pull_xread_activated :: "addr \<Rightarrow> pull \<Rightarrow> pull option" where
  "pull_xread_activated p x = do { f \<leftarrow> fq_activated p (pull_fq x); Some (x\<lparr>pull_fq := f\<rparr>) }"

definition pull_xterminated :: "addr \<Rightarrow> pull \<Rightarrow> pull option" where
  "pull_xterminated p x = do { f \<leftarrow> fq_terminated p (pull_fq x); Some (x\<lparr>pull_fq := f\<rparr>) }"

definition pull_xrecv :: "msg \<Rightarrow> pull \<Rightarrow> 's world \<Rightarrow> (rc \<times> msg \<times> pull \<times> 's world) option" where
  "pull_xrecv m x w = do { (rc, m, f, w) \<leftarrow> fq_recv pipe_read (pull_fq x) m w; Some (rc, m, x\<lparr>pull_fq := f\<rparr>, w) }"

definition pull_xhas_in :: "pull \<Rightarrow> 's world \<Rightarrow> (bool \<times> pull \<times> 's world) option" where
  "pull_xhas_in x w = do { (b, f, w) \<leftarrow> fq_has_in pipe_check_read (pull_fq x) w; Some (b, x\<lparr>pull_fq := f\<rparr>, w) }"

end
