(* ===== verification/Session.thy ===== *)
theory Session
  imports Sock_Pair Sock_Router Sock_Sub Sock_Req
begin

text \<open>
  \<^verbatim>\<open>session_base_t\<close> of src/session_base.cpp, which stands between an engine and the pipe to a socket,
  and \<^verbatim>\<open>req_session_t\<close> of src/req.cpp, which checks the framing of the replies. What a session asks of
  the objects around it (the engine, the timers, its part as an \<^verbatim>\<open>own_t\<close>, the connecters) is the list
  of its calls; each handler makes such a call last, after its own changes.
\<close>

unbundle bit_operations_syntax

abbreviation (input) "type_req \<equiv> (3 :: int)"
abbreviation (input) "type_dealer \<equiv> (5 :: int)"

text \<open>Calls of the objects around a session, in order.\<close>

datatype session_call = Add_timer int | Cancel_timer | Engine_plug addr | Engine_terminate addr
  | Engine_activate_in addr | Engine_activate_out addr | Send_bind addr | Own_process_term int | Own_terminate
  | Launch_connecter string bool

record session =
  ses_connect :: bool
  ses_pipe :: addr
  terminating_pipes :: "addr set"
  incomplete_in :: bool
  ses_pending :: bool
  ses_engine :: addr
  has_linger_timer :: bool
  ses_identity_sent :: bool
  ses_identity_received :: bool
  ses_protocol :: "string option" \<comment> \<open>\<^verbatim>\<open>addr->protocol\<close>; \<open>None\<close> is the null pointer\<close>
  ses_options :: options
  ses_terminating :: bool
  ses_calls :: "session_call list"

abbreviation "linger_timer_id \<equiv> (32 :: int)"

definition session_new :: "bool \<Rightarrow> options \<Rightarrow> string option \<Rightarrow> session" where
  "session_new con opts prot = \<lparr>ses_connect = con, ses_pipe = 0, terminating_pipes = {}, incomplete_in = False, ses_pending = False,
     ses_engine = 0, has_linger_timer = False, ses_identity_sent = False, ses_identity_received = False, ses_protocol = prot,
     ses_options = opts, ses_terminating = False, ses_calls = []\<rparr>"

definition ses_call :: "session_call \<Rightarrow> 'r session_scheme \<Rightarrow> 'r session_scheme" where
  "ses_call c s = s\<lparr>ses_calls := ses_calls s @ [c]\<rparr>"

definition session_destroy :: "'r session_scheme \<Rightarrow> 'r session_scheme option" where
  "session_destroy s = do {
     zmq_assert (ses_pipe s = 0);
     let s = (if has_linger_timer s then (ses_call Cancel_timer s)\<lparr>has_linger_timer := False\<rparr> else s);
     Some (if ses_engine s \<noteq> 0 then ses_call (Engine_terminate (ses_engine s)) s else s) }"

definition session_attach_pipe :: "addr \<Rightarrow> 'r session_scheme \<Rightarrow> 's world \<Rightarrow> ('r session_scheme \<times> 's world) option" where
  "session_attach_pipe p s w = do {
     zmq_assert (\<not> ses_terminating s);
     zmq_assert (ses_pipe s = 0);
     zmq_assert (p \<noteq> 0);
     w \<leftarrow> set_event_sink p w;
     Some (s\<lparr>ses_pipe := p\<rparr>, w) }"

subsection \<open>Messages to and from the engine\<close>

definition session_pull_msg :: "msg \<Rightarrow> 'r session_scheme \<Rightarrow> 's world \<Rightarrow> (rc \<times> msg \<times> 'r session_scheme \<times> 's world) option" where
  "session_pull_msg m s w =
     (if \<not> ses_identity_sent s then do {
        zmq_assert (\<not> has_more m);
        (rc, m, h) \<leftarrow> msg_init_size (ucast (identity_size (ses_options s))) m (wmem w);
        zmq_assert (rc = Inr ());
        (m, h) \<leftarrow> msg_put 0 (take (unat (identity_size (ses_options s))) (opt_identity (ses_options s))) m h;
        Some (Inr (), m, s\<lparr>ses_identity_sent := True, incomplete_in := False\<rparr>, w\<lparr>wmem := h\<rparr>) }
      else do {
        (got, w) \<leftarrow> (if ses_pipe s = 0 then Some (None, w) else pipe_read (ses_pipe s) w);
        case got of
          None \<Rightarrow> Some (Inl EAGAIN, m, s, w)
        | Some m \<Rightarrow> Some (Inr (), m, s\<lparr>incomplete_in := has_more m\<rparr>, w) })"

definition session_push_msg :: "msg \<Rightarrow> 'r session_scheme \<Rightarrow> 's world \<Rightarrow> (rc \<times> msg \<times> 'r session_scheme \<times> 's world) option" where
  "session_push_msg m s w = do {
     let first = \<not> ses_identity_received s;
     let m = (if first then msg_set_flags flag_identity m else m);
     let s = s\<lparr>ses_identity_received := True\<rparr>;
     if first \<and> \<not> recv_identity (ses_options s) then do {
       (m, w) \<leftarrow> close_msg m w;
       Some (Inr (), msg_init m, s, w) }
     else do {
       (ok, w) \<leftarrow> (if ses_pipe s = 0 then Some (False, w) else pipe_write (ses_pipe s) m w);
       Some (if ok then (Inr (), msg_init m, s, w) else (Inl EAGAIN, m, s, w)) } }"

definition session_reset :: "'r session_scheme \<Rightarrow> 'r session_scheme" where
  "session_reset s = s\<lparr>ses_identity_sent := False, ses_identity_received := False\<rparr>"

definition session_flush :: "'r session_scheme \<Rightarrow> 's world \<Rightarrow> 's world option" where
  "session_flush s w = (if ses_pipe s \<noteq> 0 then pipe_flush (ses_pipe s) w else Some w)"

text \<open>Removing a half-read message from the inbound pipe.\<close>

partial_function (option) drop_incomplete :: "'r session_scheme \<Rightarrow> 's world \<Rightarrow> ('r session_scheme \<times> 's world) option" where
  "drop_incomplete s w =
     (if \<not> incomplete_in s then Some (s, w)
      else do {
        (rc, m, s, w) \<leftarrow> session_pull_msg (msg_init msg_closed) s w;
        if rc \<noteq> Inr () then do { zmq_assert (\<not> incomplete_in s); Some (s, w) }
        else do {
          (_, w) \<leftarrow> close_msg m w;
          drop_incomplete s w } })"

definition clean_pipes :: "'r session_scheme \<Rightarrow> 's world \<Rightarrow> ('r session_scheme \<times> 's world) option" where
  "clean_pipes s w =
     (if ses_pipe s = 0 then Some (s, w)
      else do {
        w \<leftarrow> pipe_rollback (ses_pipe s) w;
        w \<leftarrow> pipe_flush (ses_pipe s) w;
        drop_incomplete s w })"

subsection \<open>Events of the pipe\<close>

definition proceed_with_term :: "'r session_scheme \<Rightarrow> 'r session_scheme" where
  "proceed_with_term s = ses_call (Own_process_term 0) (s\<lparr>ses_pending := False, ses_terminating := True\<rparr>)"

definition session_terminated :: "addr \<Rightarrow> 'r session_scheme \<Rightarrow> 'r session_scheme option" where
  "session_terminated p s = do {
     zmq_assert (ses_pipe s = p \<or> p \<in> terminating_pipes s);
     let s = (if ses_pipe s = p then s\<lparr>ses_pipe := 0\<rparr> else s\<lparr>terminating_pipes := terminating_pipes s - {p}\<rparr>);
     Some (if ses_pending s \<and> ses_pipe s = 0 \<and> terminating_pipes s = {} then proceed_with_term s else s) }"

definition session_read_activated :: "addr \<Rightarrow> 'r session_scheme \<Rightarrow> 's world \<Rightarrow> ('r session_scheme \<times> 's world) option" where
  "session_read_activated p s w =
     (if ses_pipe s \<noteq> p then do { zmq_assert (p \<in> terminating_pipes s); Some (s, w) }
      else if ses_engine s \<noteq> 0 then Some (ses_call (Engine_activate_out (ses_engine s)) s, w)
      else do { (_, w) \<leftarrow> pipe_check_read p w; Some (s, w) })"

definition session_write_activated :: "addr \<Rightarrow> 'r session_scheme \<Rightarrow> 'r session_scheme option" where
  "session_write_activated p s =
     (if ses_pipe s \<noteq> p then do { zmq_assert (p \<in> terminating_pipes s); Some s }
      else Some (if ses_engine s \<noteq> 0 then ses_call (Engine_activate_in (ses_engine s)) s else s))"

definition session_hiccuped :: "addr \<Rightarrow> 'r session_scheme \<Rightarrow> 'r session_scheme option" where
  "session_hiccuped p s = None"

subsection \<open>Connecting\<close>

text \<open>
  \<open>io_thread\<close> is what \<^verbatim>\<open>choose_io_thread\<close> returns. The program is built without OpenPGM, so that only
  two protocols have a connecter.
\<close>

definition start_connecting :: "addr \<Rightarrow> bool \<Rightarrow> 'r session_scheme \<Rightarrow> 'r session_scheme option" where
  "start_connecting io_thread wait s = do {
     zmq_assert (ses_connect s);
     zmq_assert (io_thread \<noteq> 0);
     prot \<leftarrow> ses_protocol s;
     if prot = ''tcp'' \<or> prot = ''ipc'' then Some (ses_call (Launch_connecter prot wait) s) else None }"

definition session_process_plug :: "addr \<Rightarrow> 'r session_scheme \<Rightarrow> 'r session_scheme option" where
  "session_process_plug io_thread s = (if ses_connect s then start_connecting io_thread False s else Some s)"

definition session_process_attach :: "addr \<Rightarrow> 'r session_scheme \<Rightarrow> 's world \<Rightarrow> ('r session_scheme \<times> 's world) option" where
  "session_process_attach engine s w = do {
     zmq_assert (engine \<noteq> 0);
     (s, w) \<leftarrow> (if ses_pipe s = 0 \<and> \<not> ses_terminating s then do {
         (p0, p1, w) \<leftarrow> pipepair (rcvhwm (ses_options s), sndhwm (ses_options s))
             (delay_on_close (ses_options s), delay_on_disconnect (ses_options s)) w;
         w \<leftarrow> set_event_sink p0 w;
         Some (ses_call (Send_bind p1) (s\<lparr>ses_pipe := p0\<rparr>), w) }
       else Some (s, w));
     zmq_assert (ses_engine s = 0);
     Some (ses_call (Engine_plug engine) (s\<lparr>ses_engine := engine\<rparr>), w) }"

text \<open>\<open>rst\<close> is the virtual \<^verbatim>\<open>reset\<close>.\<close>

definition session_detached :: "('r session_scheme \<Rightarrow> 'r session_scheme) \<Rightarrow> addr \<Rightarrow> 'r session_scheme \<Rightarrow> 's world \<Rightarrow>
    ('r session_scheme \<times> 's world) option" where
  "session_detached rst io_thread s w =
     (if \<not> ses_connect s then Some (ses_call Own_terminate s, w)
      else do {
        (s, w) \<leftarrow> (if ses_pipe s \<noteq> 0 \<and> delay_attach_on_connect (ses_options s) = 1 \<and>
              ses_protocol s \<noteq> Some ''pgm'' \<and> ses_protocol s \<noteq> Some ''epgm'' then do {
            w \<leftarrow> pipe_hiccup (ses_pipe s) w;
            w \<leftarrow> pipe_terminate False (ses_pipe s) w;
            Some (s\<lparr>terminating_pipes := insert (ses_pipe s) (terminating_pipes s), ses_pipe := 0\<rparr>, w) }
          else Some (s, w));
        let s = rst s;
        s \<leftarrow> (if reconnect_ivl (ses_options s) \<noteq> -1 then start_connecting io_thread True s else Some s);
        w \<leftarrow> (if ses_pipe s \<noteq> 0 \<and> sock_type (ses_options s) \<in> {type_sub, type_xsub} then pipe_hiccup (ses_pipe s) w else Some w);
        Some (s, w) })"

definition session_detach :: "('r session_scheme \<Rightarrow> 'r session_scheme) \<Rightarrow> addr \<Rightarrow> 'r session_scheme \<Rightarrow> 's world \<Rightarrow>
    ('r session_scheme \<times> 's world) option" where
  "session_detach rst io_thread s w = do {
     (s, w) \<leftarrow> clean_pipes (s\<lparr>ses_engine := 0\<rparr>) w;
     (s, w) \<leftarrow> session_detached rst io_thread s w;
     if ses_pipe s \<noteq> 0 then do { (_, w) \<leftarrow> pipe_check_read (ses_pipe s) w; Some (s, w) } else Some (s, w) }"

subsection \<open>Termination\<close>

definition session_process_term :: "int \<Rightarrow> 'r session_scheme \<Rightarrow> 's world \<Rightarrow> ('r session_scheme \<times> 's world) option" where
  "session_process_term lng s w = do {
     zmq_assert (\<not> ses_pending s);
     if ses_pipe s = 0 then Some (proceed_with_term s, w)
     else do {
       let s = s\<lparr>ses_pending := True\<rparr>;
       s \<leftarrow> (if lng > 0 then do {
           zmq_assert (\<not> has_linger_timer s);
           Some ((ses_call (Add_timer lng) s)\<lparr>has_linger_timer := True\<rparr>) }
         else Some s);
       w \<leftarrow> pipe_terminate (lng \<noteq> 0) (ses_pipe s) w;
       (_, w) \<leftarrow> pipe_check_read (ses_pipe s) w;
       Some (s, w) } }"

definition session_timer_event :: "int \<Rightarrow> 'r session_scheme \<Rightarrow> 's world \<Rightarrow> ('r session_scheme \<times> 's world) option" where
  "session_timer_event tid s w = do {
     zmq_assert (tid = linger_timer_id);
     let s = s\<lparr>has_linger_timer := False\<rparr>;
     zmq_assert (ses_pipe s \<noteq> 0);
     w \<leftarrow> pipe_terminate False (ses_pipe s) w;
     Some (s, w) }"

subsection \<open>The session of a request socket\<close>

datatype req_state = Identity | Bottom | Body

record req_session = session +
  req_st :: req_state

definition req_session_new :: "bool \<Rightarrow> options \<Rightarrow> string option \<Rightarrow> req_session" where
  "req_session_new con opts prot = session.extend (session_new con opts prot) \<lparr>req_st = Identity\<rparr>"

definition req_session_push_msg :: "msg \<Rightarrow> req_session \<Rightarrow> 's world \<Rightarrow> (rc \<times> msg \<times> req_session \<times> 's world) option" where
  "req_session_push_msg m s w = (case req_st s of
     Bottom \<Rightarrow>
       if mflags m \<noteq> flag_more then Some (Inl EFAULT, m, s, w)
       else do {
         size \<leftarrow> msg_size m (wmem w);
         if size = 0 then session_push_msg m (s\<lparr>req_st := Body\<rparr>) w else Some (Inl EFAULT, m, s, w) }
   | Body \<Rightarrow>
       if mflags m = flag_more then session_push_msg m s w
       else if mflags m = 0 then session_push_msg m (s\<lparr>req_st := Bottom\<rparr>) w
       else Some (Inl EFAULT, m, s, w)
   | Identity \<Rightarrow>
       if mflags m = 0 then session_push_msg m (s\<lparr>req_st := Bottom\<rparr>) w else Some (Inl EFAULT, m, s, w))"

definition req_session_reset :: "req_session \<Rightarrow> req_session" where
  "req_session_reset s = (session_reset s)\<lparr>req_st := Identity\<rparr>"

text \<open>The kind of session for a type of socket.\<close>

definition session_create :: "bool \<Rightarrow> options \<Rightarrow> string option \<Rightarrow> (req_session + session) option" where
  "session_create con opts prot =
     (if sock_type opts = type_req then Some (Inl (req_session_new con opts prot))
      else if sock_type opts \<in> {type_dealer, type_rep, type_router, type_pub, type_xpub, type_sub, type_xsub, type_push, type_pull, type_pair}
      then Some (Inr (session_new con opts prot)) else None)"
subsection \<open>The linger timer\<close>

lemma session_process_term_timer:
  assumes "session_process_term lng s w = Some (s1, w1)" "lng > 0" "ses_pipe s \<noteq> 0"
  shows "s1 = (ses_call (Add_timer lng) (s\<lparr>ses_pending := True\<rparr>))\<lparr>has_linger_timer := True\<rparr>"
  using assms by (auto simp: session_process_term_def Let_def run_simps split: if_splits)



subsection \<open>What a request socket gets from its session\<close>

text \<open>A reply as the socket expects it, and the begin of one.\<close>

definition reply_ok :: "mem \<Rightarrow> msg list \<Rightarrow> bool" where
  "reply_ok h ms \<longleftrightarrow> one_message ms \<and> length ms \<ge> 2 \<and> (\<forall>m \<in> set ms. mflags m \<in> {0, flag_more}) \<and> msg_size (hd ms) h = Some 0"

definition reply_begun :: "mem \<Rightarrow> msg list \<Rightarrow> bool" where
  "reply_begun h ms \<longleftrightarrow> (\<forall>m \<in> set ms. msg_check m \<and> mflags m = flag_more) \<and> (ms \<noteq> [] \<longrightarrow> msg_size (hd ms) h = Some 0)"

lemma reply_begun_more: "reply_begun h ms \<Longrightarrow> ms \<noteq> [] \<Longrightarrow> msg_check m \<Longrightarrow> mflags m = flag_more \<Longrightarrow> reply_begun h (ms @ [m])"
  by (auto simp: reply_begun_def)

lemma reply_begun_last:
  assumes "reply_begun h ms" "ms \<noteq> []" "msg_check m" "mflags m = 0" shows "reply_ok h (ms @ [m])"
  using assms by (cases ms) (auto simp: reply_begun_def reply_ok_def one_message_def has_more_def butlast_append)

text \<open>The engine hands over message by message, and stops at the first that is not taken.\<close>

primrec req_feed :: "msg list \<Rightarrow> req_session \<Rightarrow> 's world \<Rightarrow> (rc \<times> req_session \<times> 's world) option" where
  "req_feed [] s w = Some (Inr (), s, w)"
| "req_feed (m # ms) s w = do {
     (rc, _, s, w) \<leftarrow> req_session_push_msg m s w;
     if rc \<noteq> Inr () then Some (rc, s, w) else req_feed ms s w }"

text \<open>The framing of what was written since the connection began: the identity, whole replies and the begin of one.\<close>

definition framed :: "mem \<Rightarrow> req_state \<Rightarrow> msg list \<Rightarrow> bool" where
  "framed h st xs \<longleftrightarrow> (if st = Identity then xs = []
     else \<exists>i mss part. xs = i # concat mss @ part \<and> msg_is_identity i \<and> \<not> has_more i \<and> (\<forall>ms \<in> set mss. reply_ok h ms) \<and>
       reply_begun h part \<and> (st = Body \<longleftrightarrow> part \<noteq> []))"

lemma framed_append:
  assumes "framed h st xs" "msg_check m" and
    "st = Identity \<and> m' = msg_set_flags flag_identity m \<and> mflags m = 0 \<and> st' = Bottom \<or>
     st = Bottom \<and> m' = m \<and> mflags m = flag_more \<and> msg_size m h = Some 0 \<and> st' = Body \<or>
     st = Body \<and> m' = m \<and> mflags m = flag_more \<and> st' = Body \<or> st = Body \<and> m' = m \<and> mflags m = 0 \<and> st' = Bottom"
  shows "framed h st' (xs @ [m'])"
proof (cases "st = Identity")
  case True
  then have "xs = []" "st' = Bottom" "m' = msg_set_flags flag_identity m" "mflags m = 0" using assms(1,3) by (auto simp: framed_def)
  then show ?thesis by (simp add: framed_def)
      (intro exI[of _ "[]"]; simp add: reply_begun_def msg_is_identity_def has_more_def msg_set_flags_def)
next
  case False
  then obtain i mss part where x: "xs = i # concat mss @ part" "msg_is_identity i" "\<not> has_more i" "\<forall>ms \<in> set mss. reply_ok h ms"
    "reply_begun h part" "st = Body \<longleftrightarrow> part \<noteq> []" using assms(1) by (auto simp: framed_def)
  show ?thesis
  proof (cases "mflags m = 0")
    case True
    then have s: "st' = Bottom" "m' = m" "part \<noteq> []" using assms(3) False x(6) by auto
    have "reply_ok h (part @ [m])" using reply_begun_last[OF x(5) s(3) assms(2) True] .
    then show ?thesis using x s by (auto simp: framed_def reply_begun_def intro!: exI[of _ "mss @ [part @ [m]]"])
  next
    case more: False
    then have s: "st' = Body" "m' = m" "mflags m = flag_more" "part = [] \<longrightarrow> msg_size m h = Some 0" using assms(3) False x(6) by auto
    have "reply_begun h (part @ [m])" using reply_begun_more[OF x(5) _ assms(2) s(3)] assms(2) s(3,4)
      by (cases "part = []") (simp_all add: reply_begun_def)
    then show ?thesis using x s by (auto simp: framed_def intro!: exI[of _ mss])
  qed
qed

definition req_session_ok :: "addr \<Rightarrow> req_session \<Rightarrow> 's world \<Rightarrow> bool" where
  "req_session_ok p s w \<longleftrightarrow> ses_pipe s = p \<and> p \<noteq> 0 \<and> recv_identity (ses_options s) \<and> out_good {p} w \<and>
     (req_st s = Identity \<longleftrightarrow> \<not> ses_identity_received s)"

text \<open>One message, with the state that follows.\<close>

definition req_next :: "req_state \<Rightarrow> msg \<Rightarrow> req_state" where
  "req_next st m = (if st = Bottom \<or> st = Body \<and> mflags m = flag_more then Body else Bottom)"

definition req_takes :: "mem \<Rightarrow> req_state \<Rightarrow> msg \<Rightarrow> bool" where
  "req_takes h st m \<longleftrightarrow> (case st of Identity \<Rightarrow> mflags m = 0 | Bottom \<Rightarrow> mflags m = flag_more \<and> msg_size m h = Some 0
     | Body \<Rightarrow> mflags m = flag_more \<or> mflags m = 0)"

definition req_marked :: "req_state \<Rightarrow> msg \<Rightarrow> msg" where
  "req_marked st m = (if st = Identity then msg_set_flags flag_identity m else m)"

lemma req_push_eq:
  assumes ok: "req_session_ok p s w" and n: "msg_size m (wmem w) = Some n" and wr: "pipe_write p (req_marked (req_st s) m) w = Some (b, w1)"
  shows "\<not> req_takes (wmem w) (req_st s) m \<Longrightarrow> req_session_push_msg m s w = Some (Inl EFAULT, m, s, w)"
    "req_takes (wmem w) (req_st s) m \<Longrightarrow> \<exists>m' s'. req_session_push_msg m s w = Some (if b then (Inr (), m', s', w1) else (Inl EAGAIN, m', s', w1)) \<and>
      req_st s' = req_next (req_st s) m \<and> ses_pipe s' = p \<and> recv_identity (ses_options s') \<and> ses_identity_received s'"
  using ok n wr
  by (cases "req_st s"; cases b;
    auto simp: req_session_push_msg_def session_push_msg_def req_session_ok_def req_takes_def req_next_def req_marked_def Let_def)+

lemma req_push_step:
  assumes ok: "req_session_ok p s w" and fr: "framed (wmem w) (req_st s) xs" and m: "msg_check m" "msg_size m (wmem w) = Some n"
  obtains rc m' s' w' where "req_session_push_msg m s w = Some (rc, m', s', w')" "wmem w' = wmem w"
    "if rc = Inr () then req_session_ok p s' w' \<and> framed (wmem w) (req_st s') (xs @ [req_marked (req_st s) m]) \<and>
        pipe_sent p w' = pipe_sent p w @ [req_marked (req_st s) m] \<and> req_st s' \<noteq> Identity
      else rc \<in> {Inl EAGAIN, Inl EFAULT} \<and> pipe_sent p w' = pipe_sent p w"
proof -
  have g: "out_good {p} w" using ok by (simp add: req_session_ok_def)
  have c: "msg_check (req_marked (req_st s) m)" using m(1) by (simp add: req_marked_def msg_set_flags_def msg_check_def)
  obtain b w1 where w1: "pipe_write p (req_marked (req_st s) m) w = Some (b, w1)" "out_good {p} w1"
    "pipe_sent p w1 = (if b then pipe_sent p w @ [req_marked (req_st s) m] else pipe_sent p w)" "wmem w1 = wmem w"
    using pipe_write_law[OF g _ c] by blast
  note eq = req_push_eq[OF ok m(2) w1(1)]
  show ?thesis
  proof (cases "req_takes (wmem w) (req_st s) m \<and> b")
    case True
    then obtain m' s' where r: "req_session_push_msg m s w = Some (Inr (), m', s', w1)" "req_st s' = req_next (req_st s) m"
      "ses_pipe s' = p" "recv_identity (ses_options s')" "ses_identity_received s'" using eq(2) by auto
    have "framed (wmem w) (req_st s') (xs @ [req_marked (req_st s) m])"
      by (rule framed_append[OF fr m(1)]) (use True r(2) in \<open>cases "req_st s"; auto simp: req_takes_def req_next_def req_marked_def\<close>)
    moreover have "req_st s' \<noteq> Identity" using r(2) by (simp add: req_next_def)
    moreover have "p \<noteq> 0" using ok by (simp add: req_session_ok_def)
    ultimately show ?thesis using that[of "Inr ()" m' s' w1] True r w1 by (simp add: req_session_ok_def)
  next
    case False
    show ?thesis
    proof (cases "req_takes (wmem w) (req_st s) m")
      case True
      then obtain m' s' where "req_session_push_msg m s w = Some (Inl EAGAIN, m', s', w1)" using eq(2) False by auto
      then show ?thesis using that[of "Inl EAGAIN" m' s' w1] w1 True False by simp
    qed (use that[of "Inl EFAULT" m s w] eq(1) in simp)
  qed
qed

lemma req_feed_framed:
  assumes "req_session_ok p s w" "framed (wmem w) (req_st s) xs" "\<forall>m \<in> set ms. msg_check m \<and> (\<exists>n. msg_size m (wmem w) = Some n)" "req_st s \<noteq> Identity"
  shows "\<exists>rc s' w' k. req_feed ms s w = Some (rc, s', w') \<and> wmem w' = wmem w \<and> pipe_sent p w' = pipe_sent p w @ take k ms \<and>
    (\<exists>st. framed (wmem w) st (xs @ take k ms) \<and> st \<noteq> Identity) \<and> (rc = Inr () \<and> k = length ms \<or> rc \<in> {Inl EAGAIN, Inl EFAULT} \<and> k < length ms)"
  using assms
proof (induction ms arbitrary: s w xs)
  case Nil
  then show ?case by (intro exI[of _ "Inr ()"] exI[of _ s] exI[of _ w] exI[of _ 0]) auto
next
  case (Cons m ms)
  obtain n where m: "msg_check m" "msg_size m (wmem w) = Some n" using Cons.prems(3) by auto
  obtain rc m' s1 w1 where 1: "req_session_push_msg m s w = Some (rc, m', s1, w1)" "wmem w1 = wmem w"
    "if rc = Inr () then req_session_ok p s1 w1 \<and> framed (wmem w) (req_st s1) (xs @ [m]) \<and> pipe_sent p w1 = pipe_sent p w @ [m] \<and> req_st s1 \<noteq> Identity
      else rc \<in> {Inl EAGAIN, Inl EFAULT} \<and> pipe_sent p w1 = pipe_sent p w"
    by (rule req_push_step[OF Cons.prems(1,2) m]) (use Cons.prems(4) in \<open>simp only: req_marked_def if_False\<close>)
  show ?case
  proof (cases "rc = Inr ()")
    case False
    then show ?thesis using 1 Cons.prems(2,4) by (intro exI[of _ rc] exI[of _ s1] exI[of _ w1] exI[of _ 0]) auto
  next
    case True
    then have n: "req_session_ok p s1 w1" "framed (wmem w) (req_st s1) (xs @ [m])" "req_st s1 \<noteq> Identity"
      "\<forall>m \<in> set ms. msg_check m \<and> (\<exists>n. msg_size m (wmem w) = Some n)" using 1(3) Cons.prems(3) by simp_all
    from Cons.IH[of s1 w1 "xs @ [m]", unfolded 1(2), OF n(1,2,4,3)]
    obtain rc' s' w' k where "req_feed ms s1 w1 = Some (rc', s', w')" "wmem w' = wmem w" "pipe_sent p w' = pipe_sent p w1 @ take k ms"
      "\<exists>st. framed (wmem w) st ((xs @ [m]) @ take k ms) \<and> st \<noteq> Identity"
      "rc' = Inr () \<and> k = length ms \<or> rc' \<in> {Inl EAGAIN, Inl EFAULT} \<and> k < length ms" by blast
    then show ?thesis using 1 True by (intro exI[of _ rc'] exI[of _ s'] exI[of _ w'] exI[of _ "Suc k"]) auto
  qed
qed

text \<open>C35: Whatever messages a peer sends, the session of a request socket lets through the identity of the
  peer, followed by replies that each consist of an empty part and at least one more, and by the
  begin of such a reply; it stops at the first message that does not fit (EFAULT, on which the
  engine closes the connection) or when the pipe is full (EAGAIN). So the reply of one part that
  makes a request socket abort cannot come from a network connection.\<close>

theorem req_session_guards:
  assumes ok: "req_session_ok p s w" "req_st s = Identity" and ms: "\<forall>m \<in> set (i # ms). msg_check m \<and> (\<exists>n. msg_size m (wmem w) = Some n)"
  shows "\<exists>rc s' w' k mss part. req_feed (i # ms) s w = Some (rc, s', w') \<and>
    pipe_sent p w' = pipe_sent p w @ take k (msg_set_flags flag_identity i # ms) \<and>
    (k = 0 \<or> take k (msg_set_flags flag_identity i # ms) = msg_set_flags flag_identity i # concat mss @ part \<and> \<not> has_more i) \<and>
    (\<forall>r \<in> set mss. reply_ok (wmem w) r) \<and> reply_begun (wmem w) part \<and>
    (rc = Inr () \<and> k = length (i # ms) \<or> rc \<in> {Inl EAGAIN, Inl EFAULT} \<and> k < length (i # ms))"
proof -
  let ?i = "msg_set_flags flag_identity i"
  have fr: "framed (wmem w) (req_st s) []" using ok(2) by (simp add: framed_def)
  obtain n where i: "msg_check i" "msg_size i (wmem w) = Some n" using ms by auto
  let ?j = "req_marked (req_st s) i"
  obtain rc m' s1 w1 where raw: "req_session_push_msg i s w = Some (rc, m', s1, w1)" "wmem w1 = wmem w"
    "if rc = Inr () then req_session_ok p s1 w1 \<and> framed (wmem w) (req_st s1) ([] @ [?j]) \<and> pipe_sent p w1 = pipe_sent p w @ [?j] \<and> req_st s1 \<noteq> Identity
      else rc \<in> {Inl EAGAIN, Inl EFAULT} \<and> pipe_sent p w1 = pipe_sent p w"
    by (rule req_push_step[OF ok(1) fr i])
  have "?j = ?i" using ok(2) by (simp add: req_marked_def)
  note 1 = raw[unfolded this]
  show ?thesis
  proof (cases "rc = Inr ()")
    case False
    then show ?thesis using 1 by (intro exI[of _ rc] exI[of _ s1] exI[of _ w1] exI[of _ 0] exI[of _ "[]"] exI[of _ "[]"]) (auto simp: reply_begun_def)
  next
    case True
    then have n: "req_session_ok p s1 w1" "framed (wmem w) (req_st s1) [?i]" "req_st s1 \<noteq> Identity"
      "\<forall>m \<in> set ms. msg_check m \<and> (\<exists>n. msg_size m (wmem w) = Some n)" using 1(3) ms by simp_all
    from req_feed_framed[of p s1 w1 "[?i]" ms, unfolded 1(2), OF n(1,2,4,3)]
    obtain rc' s' w' k st where r: "req_feed ms s1 w1 = Some (rc', s', w')" "pipe_sent p w' = pipe_sent p w1 @ take k ms"
      "framed (wmem w) st ([?i] @ take k ms)" "st \<noteq> Identity"
      "rc' = Inr () \<and> k = length ms \<or> rc' \<in> {Inl EAGAIN, Inl EFAULT} \<and> k < length ms" by blast
    then obtain j mss part where f: "?i # take k ms = j # concat mss @ part" "\<not> has_more j" "\<forall>ms \<in> set mss. reply_ok (wmem w) ms"
      "reply_begun (wmem w) part" by (auto simp: framed_def)
    have "has_more ?i = has_more i" by (simp add: has_more_def msg_set_flags_def bit.conj_disj_distrib2)
    then show ?thesis using 1 True r f
      by (intro exI[of _ rc'] exI[of _ s'] exI[of _ w'] exI[of _ "Suc k"] exI[of _ mss] exI[of _ part]) auto
  qed
qed

theorem req_session_guards_witness:
  "\<exists>(w :: unit world) rc s' w'. pipe_sent 4 w = [] \<and>
    req_feed [example_msg, example_msg] ((req_session_new True ((options_new [])\<lparr>recv_identity := True\<rparr>) None)\<lparr>ses_pipe := 4\<rparr>) w = Some (rc, s', w') \<and>
    length (pipe_sent 4 w') \<le> 1"
proof -
  obtain w :: "unit world" where w: "out_good {4} w" "pipe_sent 4 w = []" using pipe_example by blast
  let ?s = "(req_session_new True ((options_new [])\<lparr>recv_identity := True\<rparr>) None)\<lparr>ses_pipe := 4\<rparr>"
  have s: "req_session_ok 4 ?s w" "req_st ?s = Identity"
    using w(1) by (simp_all add: req_session_ok_def req_session_new_def session_new_def session.extend_def options_new_def)
  have e: "\<forall>m \<in> set [example_msg, example_msg]. msg_check m \<and> (\<exists>n. msg_size m (wmem w) = Some n)"
    by (simp add: example_msg example_msg_def msg_init_def msg_size_def msg_check_def msg_closed_def)
  have x: "mflags example_msg = 0" by (simp add: example_msg_def msg_init_def)
  from req_session_guards[OF s e] obtain rc s' w' k mss part where r: "req_feed [example_msg, example_msg] ?s w = Some (rc, s', w')"
    "pipe_sent 4 w' = pipe_sent 4 w @ take k [msg_set_flags flag_identity example_msg, example_msg]"
    "k = 0 \<or> take k [msg_set_flags flag_identity example_msg, example_msg] = msg_set_flags flag_identity example_msg # concat mss @ part \<and> \<not> has_more example_msg"
    "\<forall>r \<in> set mss. reply_ok (wmem w) r" "reply_begun (wmem w) part" by blast
  have "concat mss @ part \<noteq> [example_msg]"
  proof (cases mss)
    case Nil
    then show ?thesis using r(5) x by (auto simp: reply_begun_def)
  next
    case (Cons r' mss')
    then have "length r' \<ge> 2" using r(4) by (simp add: reply_ok_def)
    then have "length (concat mss @ part) \<ge> 2" using Cons by simp
    then show ?thesis by (auto dest: arg_cong[of _ _ length])
  qed
  then have "k \<le> 1" using r(3) by (cases k; cases "k - 1") auto
  then have "length (pipe_sent 4 w') \<le> 1" using r(2) w(2) by simp
  then show ?thesis using r(1) w(2) by blast
qed

end
