(* ===== verification/Engine.thy ===== *)
theory Engine
  imports Session Codec
begin

text \<open>
  \<^verbatim>\<open>stream_engine_t\<close> of src/stream_engine.cpp: it greets the peer, finds out its protocol, and then moves
  bytes between the socket of the operating system and a codec, and messages between the codec
  and the session. The socket is a parameter: what its calls give is the list of arrivals.
\<close>

unbundle bit_operations_syntax

subsection \<open>The socket of the operating system\<close>

text \<open>
  What \<^verbatim>\<open>recv\<close> and \<^verbatim>\<open>send\<close> of a non-blocking stream socket will do: each arrival of bytes, a call
  that would block, the end of the stream or an error, in order; for sending, how many bytes each
  call takes, \<open>None\<close> for an error. When nothing is left the calls would block.
\<close>

datatype arrival = Arrives "u8 list" | Blocks | Breaks

record net =
  net_in :: "arrival list"
  net_room :: "nat option list"
  net_out :: "u8 list"

text \<open>\<open>None\<close> stands for the result -1.\<close>

fun engine_read :: "nat \<Rightarrow> net \<Rightarrow> u8 list option \<times> net" where
  "engine_read n x = (case net_in x of
     [] \<Rightarrow> (Some [], x)
   | Blocks # r \<Rightarrow> (Some [], x\<lparr>net_in := r\<rparr>)
   | Breaks # r \<Rightarrow> (None, x\<lparr>net_in := r\<rparr>)
   | Arrives bs # r \<Rightarrow>
       if bs = [] then (None, x\<lparr>net_in := r\<rparr>)
       else if length bs \<le> n then (Some bs, x\<lparr>net_in := r\<rparr>)
       else (Some (take n bs), x\<lparr>net_in := Arrives (drop n bs) # r\<rparr>))"

fun engine_write :: "u8 list \<Rightarrow> net \<Rightarrow> nat option \<times> net" where
  "engine_write data x = (case net_room x of
     [] \<Rightarrow> (Some 0, x)
   | None # r \<Rightarrow> (None, x\<lparr>net_room := r\<rparr>)
   | Some k # r \<Rightarrow> (let n = min k (length data) in (Some n, x\<lparr>net_room := r, net_out := net_out x @ take n data\<rparr>)))"

subsection \<open>The state\<close>

datatype version = V0 | V1

abbreviation "greeting_size \<equiv> (12 :: nat)"
abbreviation "in_batch_size \<equiv> (8192 :: nat)"
abbreviation "out_batch_size \<equiv> (8192 :: nat)"

text \<open>
  \<open>e_in\<close> is the data at \<^verbatim>\<open>inpos\<close>, \<open>e_out\<close> the data at \<^verbatim>\<open>outpos\<close>; \<open>greeting_put\<close> counts the bytes that were put
  into \<^verbatim>\<open>greeting_output_buffer\<close>.
\<close>

record 'k engine =
  io_enabled :: bool
  e_inpos :: bufptr
  e_in :: "u8 list"
  e_decoder :: "(version \<times> 'k decoder) option"
  e_out :: "u8 list"
  e_encoder :: "(version \<times> 'k encoder) option"
  handshaking :: bool
  greeting :: "u8 list"
  greeting_put :: nat
  e_options :: options
  plugged :: bool
  poll_in :: bool
  poll_out :: bool
  e_net :: net
  e_deleted :: bool

definition engine_new :: "net \<Rightarrow> options \<Rightarrow> 'k engine" where
  "engine_new x opts = \<lparr>io_enabled = False, e_inpos = Own, e_in = [], e_decoder = None, e_out = [], e_encoder = None, handshaking = True,
     greeting = [], greeting_put = 0, e_options = opts, plugged = False, poll_in = False, poll_out = False, e_net = x, e_deleted = False\<rparr>"

definition engine_destroy :: "'k engine \<Rightarrow> 's world \<Rightarrow> ('k engine \<times> 's world) option" where
  "engine_destroy e w = do {
     zmq_assert (\<not> plugged e);
     w \<leftarrow> (case e_encoder e of None \<Rightarrow> Some w | Some (v, c) \<Rightarrow> do { (_, w) \<leftarrow> close_msg (e_in_progress c) w; Some w });
     w \<leftarrow> (case e_decoder e of None \<Rightarrow> Some w | Some (v, d) \<Rightarrow> do { (_, w) \<leftarrow> close_msg (in_progress d) w; Some w });
     Some (e\<lparr>e_decoder := None, e_encoder := None, e_deleted := True\<rparr>, w) }"

definition engine_unplug :: "'k engine \<Rightarrow> 'k engine option" where
  "engine_unplug e = do {
     zmq_assert (plugged e);
     Some (e\<lparr>plugged := False, io_enabled := False,
       e_encoder := map_option (\<lambda>(v, c). (v, c\<lparr>has_source := False\<rparr>)) (e_encoder e),
       e_decoder := map_option (\<lambda>(v, d). (v, d\<lparr>has_sink := False\<rparr>)) (e_decoder e)\<rparr>) }"

definition engine_terminate :: "'k engine \<Rightarrow> 's world \<Rightarrow> ('k engine \<times> 's world) option" where
  "engine_terminate e w = do { e \<leftarrow> engine_unplug e; engine_destroy e w }"

subsection \<open>The session seen by the codecs\<close>

text \<open>
  The virtual functions of a session, and the state behind the source of the encoder and the sink
  of the decoder: whether the sink is the engine itself, the session, and the world with the heap
  that all share.
\<close>

record ('x, 's) session_ops =
  op_push :: "msg \<Rightarrow> 'x session_scheme \<Rightarrow> 's world \<Rightarrow> (rc \<times> msg \<times> 'x session_scheme \<times> 's world) option"
  op_reset :: "'x session_scheme \<Rightarrow> 'x session_scheme"
  op_io_thread :: addr

type_synonym ('x, 's) link = "bool \<times> 'x session_scheme \<times> 's world"

definition engine_pull :: "('x, 's) link pull" where
  "engine_pull m h = (\<lambda>(b, s, w). do {
     (rc, m, s, w) \<leftarrow> session_pull_msg m s (w\<lparr>wmem := h\<rparr>);
     Some (rc, m, wmem w, (b, s, w)) })"

text \<open>\<^verbatim>\<open>push_msg\<close> of the engine: the identity goes on to the session, and a subscription to everything after it.\<close>

definition engine_push_msg :: "('x, 's) session_ops \<Rightarrow> msg \<Rightarrow> 'x session_scheme \<Rightarrow> 's world \<Rightarrow>
    (rc \<times> msg \<times> 'x session_scheme \<times> 's world) option" where
  "engine_push_msg ops m s w = do {
     zmq_assert (sock_type (ses_options s) = type_pub \<or> sock_type (ses_options s) = type_xpub);
     (rc, m, s, w) \<leftarrow> op_push ops m s w;
     zmq_assert (rc = Inr ());
     (rc, m, h) \<leftarrow> msg_init_size 1 m (wmem w);
     zmq_assert (rc = Inr ());
     (m, h) \<leftarrow> msg_put 0 [1] m h;
     (rc, m, s, w) \<leftarrow> op_push ops m s (w\<lparr>wmem := h\<rparr>);
     w \<leftarrow> session_flush s w;
     Some (rc, m, s, w) }"

definition engine_push :: "('x, 's) session_ops \<Rightarrow> ('x, 's) link push" where
  "engine_push ops m h = (\<lambda>(b, s, w). do {
     (rc, m, s, w) \<leftarrow> (if b then engine_push_msg ops else op_push ops) m s (w\<lparr>wmem := h\<rparr>);
     Some (rc, m, wmem w, (False, s, w)) })"

definition engine_act :: "('x, 's) session_ops \<Rightarrow> version \<Rightarrow> ('x, 's) link act" where
  "engine_act ops v = (case v of V0 \<Rightarrow> v0_act (engine_push ops) | V1 \<Rightarrow> v1_act (engine_push ops))"

definition engine_eact :: "version \<Rightarrow> ('x, 's) link eact" where
  "engine_eact v = (case v of V0 \<Rightarrow> v0_eact engine_pull | V1 \<Rightarrow> v1_eact engine_pull)"

text \<open>A call of a codec works on the session and the heap as they are at the call.\<close>

definition lend :: "'x session_scheme \<Rightarrow> 's world \<Rightarrow> ('x, 's) link decoder \<Rightarrow> ('x, 's) link decoder" where
  "lend s w d = d\<lparr>dmem := wmem w, sink := (fst (sink d), s, w)\<rparr>"

definition give_back :: "('x, 's) link decoder \<Rightarrow> 'x session_scheme \<times> 's world" where
  "give_back d = (let (b, s, w) = sink d in (s, w\<lparr>wmem := dmem d\<rparr>))"

definition engine_decode :: "('x, 's) session_ops \<Rightarrow> version \<Rightarrow> bufptr \<Rightarrow> u8 list \<Rightarrow> ('x, 's) link decoder \<Rightarrow> 'x session_scheme \<Rightarrow> 's world \<Rightarrow>
    ((unit + nat) \<times> ('x, 's) link decoder \<times> 'x session_scheme \<times> 's world) option" where
  "engine_decode ops v p data d s w = do {
     (r, d) \<leftarrow> process_buffer (engine_act ops v) p data (lend s w d);
     let (s, w) = give_back d;
     Some (r, d, s, w) }"

definition engine_stalled :: "('x, 's) session_ops \<Rightarrow> version \<Rightarrow> ('x, 's) link decoder \<Rightarrow> 'x session_scheme \<Rightarrow> 's world \<Rightarrow>
    (bool \<times> ('x, 's) link decoder \<times> 'x session_scheme \<times> 's world) option" where
  "engine_stalled ops v d s w = do {
     (b, d) \<leftarrow> stalled (engine_act ops v) (lend s w d);
     let (s, w) = give_back d;
     Some (b, d, s, w) }"

definition engine_encode :: "version \<Rightarrow> nat option \<Rightarrow> ('x, 's) link encoder \<Rightarrow> 'x session_scheme \<Rightarrow> 's world \<Rightarrow>
    (u8 list \<times> ('x, 's) link encoder \<times> 'x session_scheme \<times> 's world) option" where
  "engine_encode v buf c s w = do {
     (bs, _, c) \<leftarrow> get_data (engine_eact v) buf (c\<lparr>emem := wmem w, source := (False, s, w)\<rparr>);
     let (_, s, w) = source c;
     Some (bs, c, s, w\<lparr>wmem := emem c\<rparr>) }"

definition engine_error :: "('x, 's) session_ops \<Rightarrow> ('x, 's) link engine \<Rightarrow> 'x session_scheme \<Rightarrow> 's world \<Rightarrow>
    (('x, 's) link engine \<times> 'x session_scheme \<times> 's world) option" where
  "engine_error ops e s w = do {
     (s, w) \<leftarrow> session_detach (op_reset ops) (op_io_thread ops) s w;
     (e, w) \<leftarrow> engine_terminate e w;
     Some (e, s, w) }"

subsection \<open>The greeting\<close>

datatype greeted = Greet_error | Greet_wait | Greet_done

text \<open>The bytes of the greeting so far tell whether the peer uses the unversioned protocol.\<close>

definition unversioned :: "u8 list \<Rightarrow> bool" where
  "unversioned g \<longleftrightarrow> hd g \<noteq> 255 \<or> g ! 9 AND 1 = 0"

text \<open>Sending the rest of the greeting.\<close>

definition greeting_rest :: "'k engine \<Rightarrow> 'k engine" where
  "greeting_rest e = (if greeting_put e \<noteq> greeting_size
     then e\<lparr>poll_out := (poll_out e \<or> e_out e = []), e_out := e_out e @ [1, word_of_int (sock_type (e_options e))], greeting_put := greeting_put e + 2\<rparr>
     else e)"

function greeting_loop :: "'k engine \<Rightarrow> greeted \<times> 'k engine" where
  "greeting_loop e =
     (if length (greeting e) < greeting_size then
        (case engine_read (greeting_size - length (greeting e)) (e_net e) of
           (None, x) \<Rightarrow> (Greet_error, e\<lparr>e_net := x\<rparr>)
         | (Some bs, x) \<Rightarrow>
             (let e = e\<lparr>e_net := x\<rparr>; g = greeting e @ bs in
              if bs = [] then (Greet_wait, e)
              else let e = e\<lparr>greeting := g\<rparr> in
                if hd g \<noteq> 255 then (Greet_done, e)
                else if length g < 10 then greeting_loop e
                else if g ! 9 AND 1 = 0 then (Greet_done, e)
                else greeting_loop (greeting_rest e)))
      else (Greet_done, e))"
  by pat_completeness auto
termination
  by (relation "measure (\<lambda>e. greeting_size - length (greeting e))") (auto simp: greeting_rest_def neq_Nil_conv)

declare greeting_loop.simps [simp del]

definition engine_handshake :: "('x, 's) session_ops \<Rightarrow> ('x, 's) link engine \<Rightarrow> 'x session_scheme \<Rightarrow> 's world \<Rightarrow>
    (bool \<times> ('x, 's) link engine \<times> 'x session_scheme \<times> 's world) option" where
  "engine_handshake ops e s w = do {
     zmq_assert (handshaking e);
     zmq_assert (length (greeting e) < greeting_size);
     let (r, e) = greeting_loop e;
     case r of
       Greet_error \<Rightarrow> do { (e, s, w) \<leftarrow> engine_error ops e s w; Some (False, e, s, w) }
     | Greet_wait \<Rightarrow> Some (False, e, s, w)
     | Greet_done \<Rightarrow> do {
         let link = (False, s, w);
         let enc0 = encoder_init 10 out_batch_size msg_closed (wmem w) True link;
         let dec0 = set_msg_sink link (decoder_init in_batch_size (options.maxmsgsize (e_options e)) msg_closed (wmem w) link);
         (e, s, w) \<leftarrow>
           (if unversioned (greeting e) then do {
              let header_size = (if unat (identity_size (e_options e)) + 1 \<ge> 255 then 10 else 2);
              (bs, enc0, s, w) \<leftarrow> engine_encode V0 (Some header_size) enc0 s w;
              zmq_assert (length bs = header_size);
              let divert = (sock_type (e_options e) = type_pub \<or> sock_type (e_options e) = type_xpub);
              Some (e\<lparr>e_encoder := Some (V0, enc0), e_decoder := Some (V0, dec0\<lparr>sink := (divert, s, w)\<rparr>),
                e_inpos := Own, e_in := greeting e\<rparr>, s, w) }
            else if greeting e ! 10 = 0 then
              Some (e\<lparr>e_encoder := Some (V0, enc0), e_decoder := Some (V0, dec0)\<rparr>, s, w)
            else
              Some (e\<lparr>e_encoder := Some (V1, encoder_init 9 out_batch_size msg_closed (wmem w) True link),
                e_decoder := Some (V1, v1_decoder_init in_batch_size (options.maxmsgsize (e_options e)) msg_closed (wmem w) link)\<rparr>, s, w));
         Some (True, e\<lparr>poll_out := (poll_out e \<or> e_out e = []), handshaking := False\<rparr>, s, w) } }"

subsection \<open>Events\<close>

text \<open>Reading into the buffer of the decoder, when the engine holds no data.\<close>

definition engine_fetch :: "'k decoder \<Rightarrow> 'k engine \<Rightarrow> (bool \<times> 'k decoder \<times> 'k engine) option" where
  "engine_fetch d e =
     (if e_in e \<noteq> [] then Some (False, d, e)
      else do {
        let (p, sz) = get_buffer d;
        let (r, x) = engine_read sz (e_net e);
        let e = e\<lparr>e_net := x, e_inpos := p\<rparr>;
        case r of
          None \<Rightarrow> Some (True, d, e)
        | Some bs \<Rightarrow> do {
            d \<leftarrow> (case p of Own \<Rightarrow> Some d | At _ \<Rightarrow> dec_write bs d);
            Some (False, d, e\<lparr>e_in := bs\<rparr>) } })"

definition engine_in_event :: "('x, 's) session_ops \<Rightarrow> ('x, 's) link engine \<Rightarrow> 'x session_scheme \<Rightarrow> 's world \<Rightarrow>
    (('x, 's) link engine \<times> 'x session_scheme \<times> 's world) option" where
  "engine_in_event ops e s w = do {
     (ok, e, s, w) \<leftarrow> (if handshaking e then engine_handshake ops e s w else Some (True, e, s, w));
     if \<not> ok then Some (e, s, w)
     else do {
       (v, d) \<leftarrow> e_decoder e;
       (disconnection, d, e) \<leftarrow> engine_fetch (lend s w d) e;
       let w = w\<lparr>wmem := dmem d\<rparr>;
       (r, d, s, w) \<leftarrow> engine_decode ops v (e_inpos e) (e_in e) d s w;
       let (disconnection, e) = (case r of
           Inl _ \<Rightarrow> (True, e)
         | Inr n \<Rightarrow> (disconnection, e\<lparr>poll_in := (poll_in e \<and> \<not> n < length (e_in e)), e_in := drop n (e_in e)\<rparr>));
       w \<leftarrow> session_flush s w;
       let e = e\<lparr>e_decoder := Some (v, d)\<rparr>;
       if \<not> disconnection then Some (e, s, w)
       else do {
         (st, d, s, w) \<leftarrow> engine_stalled ops v d s w;
         let e = e\<lparr>e_decoder := Some (v, d)\<rparr>;
         if st then Some (e\<lparr>poll_in := False, poll_out := False, io_enabled := False\<rparr>, s, w)
         else engine_error ops e s w } } }"

definition engine_out_event :: "('x, 's) link engine \<Rightarrow> 'x session_scheme \<Rightarrow> 's world \<Rightarrow>
    (('x, 's) link engine \<times> 'x session_scheme \<times> 's world) option" where
  "engine_out_event e s w = do {
     (go, e, s, w) \<leftarrow>
       (if e_out e \<noteq> [] then Some (True, e, s, w)
        else case e_encoder e of
          None \<Rightarrow> do { zmq_assert (handshaking e); Some (False, e, s, w) }
        | Some (v, c) \<Rightarrow> do {
            (bs, c, s, w) \<leftarrow> engine_encode v None c s w;
            let e = e\<lparr>e_encoder := Some (v, c), e_out := bs\<rparr>;
            Some (if bs = [] then (False, e\<lparr>poll_out := False\<rparr>, s, w) else (True, e, s, w)) });
     if \<not> go then Some (e, s, w)
     else do {
       let (r, x) = engine_write (e_out e) (e_net e);
       let e = e\<lparr>e_net := x\<rparr>;
       Some (case r of
           None \<Rightarrow> e\<lparr>poll_out := False\<rparr>
         | Some n \<Rightarrow> (let e = e\<lparr>e_out := drop n (e_out e)\<rparr> in if handshaking e \<and> e_out e = [] then e\<lparr>poll_out := False\<rparr> else e), s, w) } }"

definition engine_activate_out :: "('x, 's) link engine \<Rightarrow> 'x session_scheme \<Rightarrow> 's world \<Rightarrow>
    (('x, 's) link engine \<times> 'x session_scheme \<times> 's world) option" where
  "engine_activate_out e s w = engine_out_event (e\<lparr>poll_out := True\<rparr>) s w"

definition engine_activate_in :: "('x, 's) session_ops \<Rightarrow> ('x, 's) link engine \<Rightarrow> 'x session_scheme \<Rightarrow> 's world \<Rightarrow>
    (('x, 's) link engine \<times> 'x session_scheme \<times> 's world) option" where
  "engine_activate_in ops e s w =
     (if \<not> io_enabled e then do {
        (v, d) \<leftarrow> e_decoder e;
        (_, d, s, w) \<leftarrow> engine_decode ops v (e_inpos e) [] d s w;
        (st, d, s, w) \<leftarrow> engine_stalled ops v d s w;
        zmq_assert (\<not> st);
        w \<leftarrow> session_flush s w;
        engine_error ops (e\<lparr>e_decoder := Some (v, d)\<rparr>) s w }
      else engine_in_event ops (e\<lparr>poll_in := True\<rparr>) s w)"

definition engine_plug :: "('x, 's) session_ops \<Rightarrow> ('x, 's) link engine \<Rightarrow> 'x session_scheme \<Rightarrow> 's world \<Rightarrow>
    (('x, 's) link engine \<times> 'x session_scheme \<times> 's world) option" where
  "engine_plug ops e s w = do {
     zmq_assert (\<not> plugged e);
     engine_in_event ops (e\<lparr>plugged := True, io_enabled := True,
       e_out := 255 # put_uint64 (ucast (identity_size (e_options e)) + 1) @ [127], greeting_put := 10, poll_in := True, poll_out := True\<rparr>) s w }"
subsection \<open>The greeting does not depend on how it arrives\<close>

definition flowing :: "net \<Rightarrow> bool" where
  "flowing x \<longleftrightarrow> (\<forall>a \<in> set (net_in x). \<exists>b bs. a = Arrives (b # bs))"

definition arrived :: "net \<Rightarrow> u8 list" where
  "arrived x = concat (map (\<lambda>a. case a of Arrives bs \<Rightarrow> bs | _ \<Rightarrow> []) (net_in x))"

lemma engine_read_flowing:
  assumes "flowing x" "0 < n"
  obtains bs x' where "engine_read n x = (Some bs, x')" "arrived x = bs @ arrived x'" "flowing x'" "length bs \<le> n" "bs = [] \<longrightarrow> arrived x = []"
proof (cases "net_in x")
  case Nil
  then show ?thesis using that[of "[]" x] assms by (simp add: arrived_def)
next
  case (Cons a r)
  then obtain b bs where a: "a = Arrives (b # bs)" using assms(1) by (auto simp: flowing_def)
  show ?thesis
  proof (cases "length (b # bs) \<le> n")
    case True
    then show ?thesis using that[of "b # bs" "x\<lparr>net_in := r\<rparr>"] a Cons assms(1) by (simp add: arrived_def flowing_def)
  next
    case False
    then obtain c cs where c: "drop n (b # bs) = c # cs" by (cases "drop n (b # bs)") simp_all
    have "take n (b # bs) @ c # cs = b # bs" using c by (metis append_take_drop_id)
    then have "arrived x = take n (b # bs) @ arrived (x\<lparr>net_in := Arrives (c # cs) # r\<rparr>)" using a Cons
      by (simp add: arrived_def)
    moreover have "engine_read n x = (Some (take n (b # bs)), x\<lparr>net_in := Arrives (c # cs) # r\<rparr>)" using False a Cons c by simp
    ultimately show ?thesis using that[of "take n (b # bs)" "x\<lparr>net_in := Arrives (c # cs) # r\<rparr>"] assms False Cons
      by (auto simp: flowing_def)
  qed
qed

text \<open>Enough of the stream has arrived to tell the protocol of the peer.\<close>

definition decided :: "u8 list \<Rightarrow> bool" where
  "decided bs \<longleftrightarrow> bs \<noteq> [] \<and> (hd bs \<noteq> 255 \<or> length bs \<ge> 10 \<and> bs ! 9 AND 1 = 0 \<or> length bs \<ge> greeting_size)"

definition greeting_ok :: "'k engine \<Rightarrow> bool" where
  "greeting_ok e \<longleftrightarrow> \<not> decided (greeting e) \<and> flowing (e_net e) \<and>
     greeting_put e = (if length (greeting e) \<ge> 10 then greeting_size else 10)"

lemma decided_append: "decided bs \<Longrightarrow> decided (bs @ cs)"
  by (auto simp: decided_def nth_append)

lemma unversioned_append: "decided bs \<Longrightarrow> unversioned (bs @ cs) = unversioned bs"
  by (auto simp: decided_def unversioned_def nth_append)

lemma not_decided_length: "\<not> decided bs \<Longrightarrow> length bs < greeting_size"
  by (cases bs) (auto simp: decided_def)

definition greeting_answer :: "'k engine \<Rightarrow> u8 list \<Rightarrow> u8 list" where
  "greeting_answer e bs = (if greeting_put e = 10 \<and> length bs \<ge> 10 \<and> \<not> unversioned bs then [1, word_of_int (sock_type (e_options e))] else [])"

text \<open>What the loop gives for the stream \<open>bs\<close> of all bytes that are there.\<close>

definition greeted_ok :: "'k engine \<Rightarrow> u8 list \<Rightarrow> greeted \<Rightarrow> 'k engine \<Rightarrow> bool" where
  "greeted_ok e bs r e' \<longleftrightarrow> bs = greeting e' @ arrived (e_net e') \<and> flowing (e_net e') \<and> e_out e' = e_out e @ greeting_answer e bs \<and>
     e_options e' = e_options e \<and> handshaking e' = handshaking e \<and> e_in e' = e_in e \<and>
     (if decided bs then r = Greet_done \<and> decided (greeting e') \<and> length (greeting e') \<le> greeting_size
      else r = Greet_wait \<and> arrived (e_net e') = [] \<and> greeting_ok e')"

lemma greeting_loop_ok:
  assumes "greeting_ok e"
  shows "\<exists>r e'. greeting_loop e = (r, e') \<and> greeted_ok e (greeting e @ arrived (e_net e)) r e'"
  using assms
proof (induction "greeting_size - length (greeting e)" arbitrary: e rule: less_induct)
  case less
  let ?n = "greeting_size - length (greeting e)"
  have nd: "\<not> decided (greeting e)" and put: "greeting_put e = (if length (greeting e) \<ge> 10 then greeting_size else 10)" and fl: "flowing (e_net e)"
    using less.prems by (simp_all add: greeting_ok_def)
  have len: "length (greeting e) < greeting_size" by (rule not_decided_length[OF nd])
  then have n: "0 < ?n" by simp
  obtain bs x where r: "engine_read ?n (e_net e) = (Some bs, x)" "arrived (e_net e) = bs @ arrived x" "flowing x" "length bs \<le> ?n"
    "bs = [] \<longrightarrow> arrived (e_net e) = []" by (rule engine_read_flowing[OF fl n])
  define g e1 where "g = greeting e @ bs" and "e1 = e\<lparr>e_net := x, greeting := g\<rparr>"
  have tot: "greeting e @ arrived (e_net e) = g @ arrived x" using r(2) by (simp add: g_def)
  have e1: "greeting e1 = g" "e_net e1 = x" "e_out e1 = e_out e" "greeting_put e1 = greeting_put e" "e_options e1 = e_options e"
    "handshaking e1 = handshaking e" "e_in e1 = e_in e" by (simp_all add: e1_def)
  show ?case
  proof (cases "bs = []")
    case True
    have "greeting_loop e = (Greet_wait, e\<lparr>e_net := x\<rparr>)" using len r(1) True by (subst greeting_loop.simps) simp
    moreover have "greeting_answer e (greeting e) = []" using put by (simp add: greeting_answer_def)
    ultimately show ?thesis using True r nd less.prems by (simp add: greeted_ok_def greeting_ok_def)
  next
    case ne: False
    have lg: "length g \<le> greeting_size" "length (greeting e) < length g" "g \<noteq> []" using r(4) len ne by (simp_all add: g_def)
    have step: "greeting_loop e = (if hd g \<noteq> 255 then (Greet_done, e1) else if length g < 10 then greeting_loop e1
        else if g ! 9 AND 1 = 0 then (Greet_done, e1) else greeting_loop (greeting_rest e1))"
      using len r(1) ne by (subst greeting_loop.simps) (simp add: Let_def g_def e1_def)
    have fin: "greeted_ok e (g @ arrived x) Greet_done e1" if "decided g" "unversioned g"
    proof -
      have d: "decided (g @ arrived x)" "unversioned (g @ arrived x)" using that decided_append unversioned_append by blast+
      show ?thesis unfolding greeted_ok_def greeting_answer_def unfolding e1 using lg(1) r(3) d that(1) by simp
    qed
    have same: "greeted_ok e bs' r' e'" if "greeted_ok e1 bs' r' e'" for bs' r' e'
      using that unfolding greeted_ok_def greeting_answer_def e1 .
    show ?thesis
    proof (cases "hd g \<noteq> 255 \<or> length g \<ge> 10 \<and> g ! 9 AND 1 = 0")
      case True
      then have "decided g" "unversioned g" using lg(3) by (auto simp: decided_def unversioned_def)
      moreover have "greeting_loop e = (Greet_done, e1)" using step True by auto
      ultimately show ?thesis using fin tot by simp
    next
      case vs: False
      show ?thesis
      proof (cases "length g < 10")
        case True
        then have "greeting_ok e1" using vs put lg r(3) e1 by (simp add: greeting_ok_def decided_def)
        moreover have "greeting_size - length (greeting e1) < greeting_size - length (greeting e)" using lg True e1 by simp
        ultimately show ?thesis using less.hyps[of e1] same tot step vs True e1 by auto
      next
        case ten: False
        have uv: "\<not> unversioned g" using vs ten by (simp add: unversioned_def)
        have uv': "\<not> unversioned (g @ zs)" for zs using uv vs ten lg(3) by (simp add: unversioned_def nth_append)
        define e2 where "e2 = greeting_rest e1"
        have e2: "greeting e2 = g" "e_net e2 = x" "greeting_put e2 = greeting_size" "e_options e2 = e_options e"
          "handshaking e2 = handshaking e" "e_in e2 = e_in e" "e_out e2 = e_out e @ greeting_answer e (g @ zs)" for zs
          using e1 put ten uv' by (simp_all add: e2_def greeting_rest_def greeting_answer_def)
        have same2: "greeted_ok e (g @ zs) r' e'" if "greeted_ok e2 (g @ zs) r' e'" for zs r' e'
        proof -
          have x: "e_out e2 @ greeting_answer e2 (g @ zs) = e_out e @ greeting_answer e (g @ zs)"
            using e2(3) e2(7)[of zs] by (simp add: greeting_answer_def)
          show ?thesis using that unfolding greeted_ok_def e2(4-6) x .
        qed
        have run: "greeting_loop e = greeting_loop e2" using step vs ten by (simp add: e2_def)
        show ?thesis
        proof (cases "length g < greeting_size")
          case True
          then have "greeting_ok e2" using vs ten r(3) e2(1-3) by (simp add: greeting_ok_def decided_def)
          moreover have "greeting_size - length (greeting e2) < greeting_size - length (greeting e)" using lg True e2 by simp
          ultimately show ?thesis using less.hyps[of e2] same2 tot run e2(1,2) by auto
        next
          case False
          then have "greeting_loop e2 = (Greet_done, e2)" using e2(1) by (subst greeting_loop.simps) simp
          moreover have "decided g" using False lg(3) by (simp add: decided_def)
          ultimately have "greeted_ok e (g @ arrived x) Greet_done e2" unfolding greeted_ok_def e2(1-6) e2(7)[of "arrived x"]
            using decided_append[of g "arrived x"] lg(1) r(3) by simp
          then show ?thesis using tot run \<open>greeting_loop e2 = (Greet_done, e2)\<close> by simp
        qed
      qed
    qed
  qed
qed

text \<open>The header of the identity message is taken out of the encoder.\<close>

lemma ucast_byte: "(ucast (ucast (ucast b :: u64) :: u8) :: u64) = ucast b" for b :: u8
  by transfer (simp add: take_bit_eq_mod)

lemma unat_byte: "unat (ucast b :: u64) = unat b" for b :: u8
  by transfer (simp add: take_bit_eq_mod)

lemma pulled_identity_size:
  assumes "session_pull_msg m s w = Some (Inr (), m1, s1, w1)" "\<not> ses_identity_sent s"
  shows "msg_size m1 (wmem w1) = Some (ucast (identity_size (ses_options s)))" "ses_identity_sent s1"
  using assms
  by (auto simp: session_pull_msg_def run_simps msg_init_size_def msg_put_def msg_size_def msg_check_def content_alloc_def Let_def ucast_byte split: if_splits)

lemma identity_header:
  assumes pull: "session_pull_msg ((msg_init msg_closed)\<lparr>mtype := 0\<rparr>) s w = Some (Inr (), m1, s1, w1)" "\<not> ses_identity_sent s"
    and hs: "hs = (if unat (identity_size (ses_options s)) + 1 \<ge> 255 then 10 else 2)"
  shows "\<exists>bs c. engine_encode V0 (Some hs) (encoder_init 10 out_batch_size msg_closed (wmem w) True l) s w = Some (bs, c, s1, w1) \<and> length bs = hs"
proof -
  let ?m = "(msg_init msg_closed)\<lparr>mtype := 0\<rparr>" and ?n = "ucast (identity_size (ses_options s)) :: u64"
  note n = pulled_identity_size[OF pull]
  have c: "msg_close (msg_init msg_closed) (wmem w) = Some (Inr (), ?m, wmem w)"
    by (simp add: msg_close_def msg_init_def msg_check_def msg_closed_def)
  define u where "u = unat (identity_size (ses_options s))"
  have "u < 256" unfolding u_def using unsigned_less[of "identity_size (ses_options s)", where ?'a = nat] by simp
  then have "Suc u mod 2 ^ 64 = Suc u" by simp
  then have "unat (?n + 1) = u + 1" by (simp add: unat_word_ariths unat_byte u_def)
  then have lt: "?n + 1 < 255 \<longleftrightarrow> \<not> hs = 10" unfolding hs u_def by (simp add: word_less_nat_alt)
  define c0 where "c0 = (encoder_init 10 out_batch_size msg_closed (wmem w) True l)\<lparr>emem := wmem w, source := (False, s, w)\<rparr>"
  define c1 where "c1 = c0\<lparr>e_in_progress := m1, emem := wmem w1, source := (False, s1, w1)\<rparr>"
  have c0: "to_write c0 = 0" "enext c0 = Msg_ready" "length (etmpbuf c1) = 10" "e_in_progress c0 = msg_init msg_closed" "has_source c0"
    "emem c0 = wmem w" "source c0 = (False, s, w)"
    by (simp_all add: c0_def c1_def encoder_init_def enc_next_step_def)
  have c1: "e_in_progress c1 = m1" "emem c1 = wmem w1" "source c1 = (False, s1, w1)" by (simp_all add: c1_def)
  have w: "w\<lparr>wmem := wmem w\<rparr> = w" "w1\<lparr>wmem := wmem w1\<rparr> = w1" by simp_all
  have p: "enc_pull engine_pull c0 = Some (True, c1)" using c c0(4-7) pull(1) w(1) by (simp add: enc_pull_def engine_pull_def c1_def)
  have hs2: "hs \<noteq> 10 \<longrightarrow> hs = 2" using hs by auto
  obtain c2 where c2: "enc_message_ready engine_pull c0 = Some (True, c2)" "to_write c2 = hs" "write_pos c2 = Tmp 0" "length (etmpbuf c2) = 10"
    "source c2 = (False, s1, w1)" "emem c2 = wmem w1"
    using p n(1) lt c0(3) c1 hs2 length_put_uint64 by (cases "hs = 10") (auto simp: enc_message_ready_def tmp_store_def enc_next_step_def)
  have "0 < hs" "hs \<le> 10" using hs by auto
  then have "enc_loop (v0_eact engine_pull) False hs [] (-1) c0 = Some (take hs (etmpbuf c2), if beginning c0 then 0 else -1, enc_advance hs c2)"
    using c0(1,2) c2 by (subst enc_loop.simps) (simp add: enc_read_def enc_loop.simps)
  then have "engine_encode V0 (Some hs) (encoder_init 10 out_batch_size msg_closed (wmem w) True l) s w =
      Some (take hs (etmpbuf c2), enc_advance hs c2, s1, w1)"
    using c2(5,6) w(2) by (simp add: engine_encode_def get_data_def engine_eact_def enc_advance_def flip: c0_def)
  then show ?thesis using c2(4) \<open>hs \<le> 10\<close> by simp
qed

text \<open>C37: What a handshake makes of the bytes of a peer does not depend on the pieces they arrive in. As
  soon as they tell the protocol, the handshake is over: a peer of the unversioned protocol gets a
  codec of version 0 that sees all bytes from the first one, its own header being taken out of the
  encoder as it was sent already; another peer is answered with the rest of the greeting and gets
  the codec of the version in its eleventh byte, which sees the bytes after the twelfth. Until then
  the handshake waits, with all bytes kept and nothing lost.\<close>

theorem handshake_agrees:
  assumes hk: "handshaking e" "greeting_ok e" and bs: "bs = greeting e @ arrived (e_net e)"
    and opts: "ses_options s = e_options e" "\<not> ses_identity_sent s"
    and pull: "session_pull_msg ((msg_init msg_closed)\<lparr>mtype := 0\<rparr>) s w = Some (Inr (), m, s1, w1)"
  shows "\<exists>e' s' w'. engine_handshake ops e s w = Some (decided bs, e', s', w') \<and> e_out e' = e_out e @ greeting_answer e bs \<and>
    handshaking e' = (\<not> decided bs) \<and>
    (if \<not> decided bs then greeting e' = bs \<and> arrived (e_net e') = [] \<and> greeting_ok e' \<and> s' = s \<and> w' = w
     else if unversioned bs then map_option fst (e_encoder e') = Some V0 \<and> map_option fst (e_decoder e') = Some V0 \<and>
       e_in e' @ arrived (e_net e') = bs \<and> s' = s1 \<and> w' = w1
     else (\<exists>v. v = (if bs ! 10 = 0 then V0 else V1) \<and> map_option fst (e_encoder e') = Some v \<and> map_option fst (e_decoder e') = Some v) \<and>
       e_in e' = e_in e \<and> arrived (e_net e') = drop greeting_size bs \<and> s' = s \<and> w' = w)"
proof -
  obtain r e1 where g: "greeting_loop e = (r, e1)" "greeted_ok e bs r e1" using greeting_loop_ok[OF hk(2)] bs by blast
  have len: "length (greeting e) < greeting_size" using hk(2) not_decided_length by (auto simp: greeting_ok_def)
  have e1: "bs = greeting e1 @ arrived (e_net e1)" "e_out e1 = e_out e @ greeting_answer e bs" "e_options e1 = e_options e"
    "handshaking e1" "e_in e1 = e_in e" using g(2) hk(1) by (simp_all add: greeted_ok_def)
  show ?thesis
  proof (cases "decided bs")
    case False
    then have "r = Greet_wait" "arrived (e_net e1) = []" "greeting_ok e1" using g(2) by (simp_all add: greeted_ok_def)
    then show ?thesis using False g(1) len hk(1) e1 by (simp add: engine_handshake_def)
  next
    case d: True
    then have g1: "r = Greet_done" "decided (greeting e1)" "length (greeting e1) \<le> greeting_size" using g(2) by (simp_all add: greeted_ok_def)
    have uv: "unversioned bs = unversioned (greeting e1)" unfolding e1(1) by (rule unversioned_append[OF g1(2)])
    show ?thesis
    proof (cases "unversioned bs")
      case True
      define hs where "hs = (if unat (identity_size (ses_options s)) + 1 \<ge> 255 then 10 else 2 :: nat)"
      obtain ps c where "engine_encode V0 (Some hs) (encoder_init 10 out_batch_size msg_closed (wmem w) True (False, s, w)) s w = Some (ps, c, s1, w1)"
        "length ps = hs" using identity_header[OF pull opts(2) hs_def] by blast
      then show ?thesis using True d uv g(1) g1(1) len hk(1) e1 opts(1) by (simp add: engine_handshake_def Let_def hs_def)
    next
      case False
      have "length (greeting e1) = greeting_size" using g1(2,3) uv False by (auto simp: decided_def unversioned_def)
      then have "greeting e1 ! 10 = bs ! 10" "drop greeting_size bs = arrived (e_net e1)" using e1(1) by (simp_all add: nth_append)
      then show ?thesis using False d uv g(1) g1(1) len hk(1) e1 by (simp add: engine_handshake_def Let_def)
    qed
  qed
qed

theorem handshake_agrees_witness:
  "\<exists>(w :: unit world) e' s' w'.
    engine_handshake \<lparr>op_push = session_push_msg, op_reset = session_reset, op_io_thread = 1\<rparr>
      ((engine_new \<lparr>net_in = [Arrives [255, 0, 0, 0, 0, 0, 0, 0], Arrives [1, 127, 1, 5]], net_room = [], net_out = []\<rparr> (options_new []))\<lparr>greeting_put := 10\<rparr>)
      (session_new True (options_new []) None) w = Some (True, e', s', w') \<and>
    map_option fst (e_decoder e') = Some V1 \<and> e_out e' = [1, 255]"
proof -
  let ?x = "\<lparr>net_in = [Arrives [255, 0, 0, 0, 0, 0, 0, 0], Arrives [1, 127, 1, 5]], net_room = [], net_out = []\<rparr>"
  let ?e = "(engine_new ?x (options_new []))\<lparr>greeting_put := 10\<rparr> :: (unit, unit) link engine" and ?s = "session_new True (options_new []) None"
  let ?bs = "[255, 0, 0, 0, 0, 0, 0, 0, 1, 127, 1, 5] :: u8 list"
  obtain w :: "unit world" where "wmem w = mem_new (\<lambda>_ _. True) (\<lambda>_. 0)" using pipe_example by blast
  have e: "handshaking ?e" "greeting_ok ?e" "?bs = greeting ?e @ arrived (e_net ?e)"
    by (simp_all add: engine_new_def greeting_ok_def decided_def flowing_def arrived_def)
  have s: "ses_options ?s = e_options ?e" "\<not> ses_identity_sent ?s" by (simp_all add: engine_new_def session_new_def)
  have p: "\<exists>m s1. session_pull_msg ((msg_init msg_closed)\<lparr>mtype := 0\<rparr>) ?s w = Some (Inr (), m, s1, w)"
    by (simp add: session_pull_msg_def session_new_def options_new_def msg_init_def msg_closed_def has_more_def msg_init_size_def msg_put_def msg_check_def)
  then obtain m s1 where p: "session_pull_msg ((msg_init msg_closed)\<lparr>mtype := 0\<rparr>) ?s w = Some (Inr (), m, s1, w)" by blast
  have d: "decided ?bs" "\<not> unversioned ?bs" "?bs ! 10 \<noteq> 0" by (simp_all add: decided_def unversioned_def)
  have a: "greeting_answer ?e ?bs = [1, 255]" using d(2) by (simp add: greeting_answer_def engine_new_def options_new_def)
  from handshake_agrees[OF e s p, of "\<lparr>op_push = session_push_msg, op_reset = session_reset, op_io_thread = 1\<rparr>"] d a
  show ?thesis by (intro exI[of _ w]) (auto simp: engine_new_def)
qed

end
