(* ===== verification/Socket_Base.thy ===== *)
theory Socket_Base
  imports Session Own "HOL-Library.Stream"
begin

text \<open>
  \<^verbatim>\<open>socket_base_t\<close> of src/socket_base.cpp: what all the sockets have in common. The functions that a class
  of sockets overrides are the fields of a record, and the state of the class is a part of the state
  of the socket, which is the owner of its pipes. What a socket asks of the objects around it (its
  context, its parent and its children, the reaper, the monitor) is the list of its calls. From outside
  come the results of the receives from its mailbox, the readings of the two clocks, and, for \<^verbatim>\<open>bind\<close> and
  \<^verbatim>\<open>connect\<close>, what the context and the operating system answer. The build is the one without OpenPGM.

  A result \<open>None\<close> is a failed assertion; a call that never returns, because it waits for a command and
  none comes any more, has the result code \<open>None\<close> inside of the result.
\<close>

unbundle bit_operations_syntax

subsection \<open>The state\<close>

text \<open>The commands a socket receives: to one of its pipes, to itself as a socket, and to itself as an \<^verbatim>\<open>own_t\<close>.\<close>

datatype socket_cmd = To_pipe addr pipe_cmd | Stop_cmd | Bind_cmd addr | To_own own_cmd

datatype monitor_kind = Connected | Connect_delayed | Connect_retried | Listening | Bind_failed | Accepted
  | Accept_failed | Closed | Close_failed | Disconnected

datatype socket_call = Unregister_endpoints | Register_endpoint string | Term_to addr int | Term_req_to addr | Term_ack_to addr
  | Child_launched addr | Bind_to addr addr | Reap_me | Reaped | Stop_me | Add_fd | Rm_fd | Socket_destroyed | Deleted
  | Monitor_closed addr | Monitor_sent monitor_kind string int

record 'd socket =
  sk_tag :: u32
  ctx_terminated :: bool
  sk_destroyed :: bool
  last_tsc :: u64
  ticks :: int
  rcvmore :: bool
  sk_pipes :: array
  endpoints :: "(string \<times> addr) list" \<comment> \<open>a \<^verbatim>\<open>std::multimap\<close>\<close>
  sk_options :: options
  sk_own :: own
  monitor_socket :: addr
  monitor_events :: u32
  sk_calls :: "socket_call list"
  deriv :: 'd

type_synonym 'd sworld = "'d socket world"

text \<open>The virtual functions.\<close>

record 'd socket_class =
  x_attach_pipe :: "addr \<Rightarrow> bool \<Rightarrow> 'd \<Rightarrow> 'd sworld \<Rightarrow> ('d \<times> 'd sworld) option"
  x_setsockopt :: "int \<Rightarrow> u8 list option \<Rightarrow> nat \<Rightarrow> 'd \<Rightarrow> 'd sworld \<Rightarrow> (rc \<times> 'd \<times> 'd sworld) option"
  x_has_out :: "'d \<Rightarrow> 'd sworld \<Rightarrow> (bool \<times> 'd \<times> 'd sworld) option"
  x_send :: "msg \<Rightarrow> int \<Rightarrow> 'd \<Rightarrow> 'd sworld \<Rightarrow> (rc \<times> msg \<times> 'd \<times> 'd sworld) option"
  x_has_in :: "'d \<Rightarrow> 'd sworld \<Rightarrow> (bool \<times> 'd \<times> 'd sworld) option"
  x_recv :: "msg \<Rightarrow> 'd \<Rightarrow> 'd sworld \<Rightarrow> (rc \<times> msg \<times> 'd \<times> 'd sworld) option"
  x_read_activated :: "addr \<Rightarrow> 'd \<Rightarrow> 'd sworld \<Rightarrow> ('d \<times> 'd sworld) option"
  x_write_activated :: "addr \<Rightarrow> 'd \<Rightarrow> 'd sworld \<Rightarrow> ('d \<times> 'd sworld) option"
  x_hiccuped :: "addr \<Rightarrow> 'd \<Rightarrow> 'd sworld \<Rightarrow> ('d \<times> 'd sworld) option"
  x_terminated :: "addr \<Rightarrow> 'd \<Rightarrow> 'd sworld \<Rightarrow> ('d \<times> 'd sworld) option"

text \<open>The ones of \<^verbatim>\<open>socket_base_t\<close> itself, which a class may leave as they are.\<close>

definition base_class :: "(addr \<Rightarrow> bool \<Rightarrow> 'd \<Rightarrow> 'd sworld \<Rightarrow> ('d \<times> 'd sworld) option) \<Rightarrow>
    (addr \<Rightarrow> 'd \<Rightarrow> 'd sworld \<Rightarrow> ('d \<times> 'd sworld) option) \<Rightarrow> 'd socket_class" where
  "base_class attach terminated = \<lparr>x_attach_pipe = attach, x_setsockopt = (\<lambda>_ _ _ d w. Some (Inl EINVAL, d, w)),
     x_has_out = (\<lambda>d w. Some (False, d, w)), x_send = (\<lambda>m _ d w. Some (Inl ENOTSUP, m, d, w)),
     x_has_in = (\<lambda>d w. Some (False, d, w)), x_recv = (\<lambda>m d w. Some (Inl ENOTSUP, m, d, w)),
     x_read_activated = (\<lambda>_ _ _. None), x_write_activated = (\<lambda>_ _ _. None), x_hiccuped = (\<lambda>_ _ _. None),
     x_terminated = terminated\<rparr>"

definition socket_new :: "options \<Rightarrow> int \<Rightarrow> 'd \<Rightarrow> 'd socket" where
  "socket_new opts sid d = \<lparr>sk_tag = 0xbaddecaf, ctx_terminated = False, sk_destroyed = False, last_tsc = 0, ticks = 0,
     rcvmore = False, sk_pipes = array_new, endpoints = [], sk_options = opts\<lparr>socket_id := sid\<rparr>, sk_own = own_init (linger opts),
     monitor_socket = 0, monitor_events = 0, sk_calls = [], deriv = d\<rparr>"

definition check_tag :: "'d socket \<Rightarrow> bool" where
  "check_tag s = (sk_tag s = 0xbaddecaf)"

abbreviation upd_sock :: "('d socket \<Rightarrow> 'd socket) \<Rightarrow> 'd sworld \<Rightarrow> 'd sworld" where
  "upd_sock f w \<equiv> w\<lparr>sock := f (sock w)\<rparr>"

definition sk_call :: "socket_call \<Rightarrow> 'd sworld \<Rightarrow> 'd sworld" where
  "sk_call c w = upd_sock (\<lambda>s. s\<lparr>sk_calls := sk_calls s @ [c]\<rparr>) w"

definition set_own :: "own \<Rightarrow> 'd sworld \<Rightarrow> 'd sworld" where
  "set_own x w = upd_sock (\<lambda>s. s\<lparr>sk_own := x\<rparr>) w"

definition set_deriv :: "'d \<Rightarrow> 'd sworld \<Rightarrow> 'd sworld" where
  "set_deriv d w = upd_sock (\<lambda>s. s\<lparr>deriv := d\<rparr>) w"

definition class_call :: "('d \<Rightarrow> 'd sworld \<Rightarrow> ('d \<times> 'd sworld) option) \<Rightarrow> 'd sworld \<Rightarrow> 'd sworld option" where
  "class_call f w = do { (d, w) \<leftarrow> f (deriv (sock w)) w; Some (set_deriv d w) }"

subsection \<open>The part of the socket that is an \<open>own_t\<close>\<close>

text \<open>
  As in src/own.cpp, but the object at the end of its termination is not deleted:
  \<^verbatim>\<open>socket_base_t::process_destroy\<close> marks it instead.
\<close>

definition is_terminating :: "'d sworld \<Rightarrow> bool" where
  "is_terminating w = own_terminating (sk_own (sock w))"

definition socket_process_destroy :: "'d sworld \<Rightarrow> 'd sworld" where
  "socket_process_destroy w = upd_sock (\<lambda>s. s\<lparr>sk_destroyed := True\<rparr>) w"

definition sk_check_term_acks :: "'d sworld \<Rightarrow> 'd sworld option" where
  "sk_check_term_acks w = (let x = sk_own (sock w) in
     if own_terminating x \<and> processed_seqnum x = ucast (sent_seqnum x) \<and> term_acks x = 0 then do {
       zmq_assert (owned x = []);
       Some (socket_process_destroy (if owner x \<noteq> 0 then sk_call (Term_ack_to (owner x)) w else w)) }
     else Some w)"

definition sk_process_seqnum :: "'d sworld \<Rightarrow> 'd sworld option" where
  "sk_process_seqnum w = (let x = sk_own (sock w) in sk_check_term_acks (set_own (x\<lparr>processed_seqnum := processed_seqnum x + 1\<rparr>) w))"

definition sk_register_term_acks :: "int \<Rightarrow> 'd sworld \<Rightarrow> 'd sworld" where
  "sk_register_term_acks n w = (let x = sk_own (sock w) in set_own (x\<lparr>term_acks := term_acks x + n\<rparr>) w)"

definition sk_unregister_term_ack :: "'d sworld \<Rightarrow> 'd sworld option" where
  "sk_unregister_term_ack w = (let x = sk_own (sock w) in do {
     zmq_assert (term_acks x > 0);
     sk_check_term_acks (set_own (x\<lparr>term_acks := term_acks x - 1\<rparr>) w) })"

definition sk_inc_seqnum :: "'d sworld \<Rightarrow> 'd sworld" where
  "sk_inc_seqnum w = (let x = sk_own (sock w) in set_own (x\<lparr>sent_seqnum := sent_seqnum x + 1\<rparr>) w)"

text \<open>Launching a child sends the command \<^verbatim>\<open>own\<close> to the socket itself, which counts it.\<close>

definition sk_launch_child :: "addr \<Rightarrow> 'd sworld \<Rightarrow> 'd sworld" where
  "sk_launch_child c w = sk_call (Child_launched c) (sk_inc_seqnum w)"

definition sk_term_child :: "addr \<Rightarrow> 'd sworld \<Rightarrow> 'd sworld" where
  "sk_term_child c w = (let x = sk_own (sock w) in
     if own_terminating x \<or> c \<notin> set (owned x) then w
     else sk_call (Term_to c (linger (sk_options (sock w)))) (sk_register_term_acks 1 (set_own (x\<lparr>owned := remove1 c (owned x)\<rparr>) w)))"

definition sk_process_own :: "addr \<Rightarrow> 'd sworld \<Rightarrow> 'd sworld" where
  "sk_process_own c w = (let x = sk_own (sock w) in
     if own_terminating x then sk_call (Term_to c 0) (sk_register_term_acks 1 w)
     else set_own (x\<lparr>owned := insort_insert c (owned x)\<rparr>) w)"

definition own_process_term :: "int \<Rightarrow> 'd sworld \<Rightarrow> 'd sworld option" where
  "own_process_term lng w = do {
     let x = sk_own (sock w);
     zmq_assert (\<not> own_terminating x);
     let w = fold (\<lambda>c. sk_call (Term_to c lng)) (owned x) w;
     let w = sk_register_term_acks (int (length (owned x))) w;
     let x = sk_own (sock w);
     sk_check_term_acks (set_own (x\<lparr>owned := [], own_terminating := True\<rparr>) w) }"

subsection \<open>Pipes\<close>

definition attach_pipe :: "'d socket_class \<Rightarrow> addr \<Rightarrow> bool \<Rightarrow> 'd sworld \<Rightarrow> 'd sworld option" where
  "attach_pipe cl p icanhasall w = do {
     w \<leftarrow> set_event_sink p w;
     let w = upd_sock (\<lambda>s. s\<lparr>sk_pipes := array_push_back p (sk_pipes s)\<rparr>) w;
     w \<leftarrow> class_call (x_attach_pipe cl p icanhasall) w;
     if is_terminating w then pipe_terminate False p (sk_register_term_acks 1 w) else Some w }"

definition socket_hiccuped :: "'d socket_class \<Rightarrow> addr \<Rightarrow> 'd sworld \<Rightarrow> 'd sworld option" where
  "socket_hiccuped cl p w =
     (if delay_attach_on_connect (sk_options (sock w)) = 1 then pipe_terminate False p w else class_call (x_hiccuped cl p) w)"

definition socket_terminated :: "'d socket_class \<Rightarrow> addr \<Rightarrow> 'd sworld \<Rightarrow> 'd sworld option" where
  "socket_terminated cl p w = do {
     w \<leftarrow> class_call (x_terminated cl p) w;
     a \<leftarrow> array_erase p (sk_pipes (sock w));
     let w = upd_sock (\<lambda>s. s\<lparr>sk_pipes := a\<rparr>) w;
     if is_terminating w then sk_unregister_term_ack w else Some w }"

text \<open>The events of the pipes (\<^verbatim>\<open>i_pipe_events\<close>).\<close>

definition socket_sink :: "'d socket_class \<Rightarrow> 'd socket pipe_sink" where
  "socket_sink cl ev p w = (case ev of
     Read_activated \<Rightarrow> class_call (x_read_activated cl p) w
   | Write_activated \<Rightarrow> class_call (x_write_activated cl p) w
   | Hiccuped \<Rightarrow> socket_hiccuped cl p w
   | Pipe_terminated \<Rightarrow> socket_terminated cl p w)"

subsection \<open>Commands\<close>

definition stop_monitor :: "'d sworld \<Rightarrow> 'd sworld" where
  "stop_monitor w = (if monitor_socket (sock w) \<noteq> 0
     then upd_sock (\<lambda>s. s\<lparr>monitor_socket := 0, monitor_events := 0\<rparr>) (sk_call (Monitor_closed (monitor_socket (sock w))) w) else w)"

definition socket_process_stop :: "'d sworld \<Rightarrow> 'd sworld" where
  "socket_process_stop w = upd_sock (\<lambda>s. s\<lparr>ctx_terminated := True\<rparr>) (stop_monitor w)"

primrec terminate_pipes :: "addr list \<Rightarrow> 'd sworld \<Rightarrow> 'd sworld option" where
  "terminate_pipes [] w = Some w"
| "terminate_pipes (p # ps) w = do { w \<leftarrow> pipe_terminate False p w; terminate_pipes ps w }"

definition socket_process_term :: "int \<Rightarrow> 'd sworld \<Rightarrow> 'd sworld option" where
  "socket_process_term lng w = do {
     let w = sk_call Unregister_endpoints w;
     w \<leftarrow> terminate_pipes (items (sk_pipes (sock w))) w;
     let w = sk_register_term_acks (int (array_size (sk_pipes (sock w)))) w;
     own_process_term lng w }"

text \<open>\<^verbatim>\<open>object_t::process_command\<close> for a socket; it does not expect \<^verbatim>\<open>plug\<close>.\<close>

fun socket_process_command :: "'d socket_class \<Rightarrow> socket_cmd \<Rightarrow> 'd sworld \<Rightarrow> 'd sworld option" where
  "socket_process_command cl (To_pipe p c) w = process_pipe_cmd (socket_sink cl) c p w"
| "socket_process_command cl Stop_cmd w = Some (socket_process_stop w)"
| "socket_process_command cl (Bind_cmd p) w = do { w \<leftarrow> attach_pipe cl p False w; sk_process_seqnum w }"
| "socket_process_command cl (To_own Plug) w = None"
| "socket_process_command cl (To_own (Own c)) w = sk_process_seqnum (sk_process_own c w)"
| "socket_process_command cl (To_own (Term_req c)) w = Some (sk_term_child c w)"
| "socket_process_command cl (To_own (Term lng)) w = socket_process_term lng w"
| "socket_process_command cl (To_own Term_ack) w = sk_unregister_term_ack w"

text \<open>
  What comes from outside: the results of the receives from the mailbox, one for each call, and the
  readings of the tick counter of the processor and of the clock. A receive with a timeout of 0 that has
  nothing more to come gives \<^verbatim>\<open>EAGAIN\<close>; one that may wait then waits for ever.
\<close>

record sk_env =
  mail :: "(errno + socket_cmd) list"
  tscs :: "u64 stream"
  nows :: "u64 stream"

abbreviation "max_command_delay \<equiv> (3000000 :: u64)"
abbreviation "inbound_poll_rate \<equiv> (100 :: int)"

text \<open>The loop over the commands that are there; what it gives is the error of the last receive.\<close>

primrec process_all :: "'d socket_class \<Rightarrow> (errno + socket_cmd) list \<Rightarrow> 'd sworld \<Rightarrow> (errno \<times> (errno + socket_cmd) list \<times> 'd sworld) option" where
  "process_all cl [] w = Some (EAGAIN, [], w)"
| "process_all cl (r # rs) w = (case r of Inl e \<Rightarrow> Some (e, rs, w)
     | Inr c \<Rightarrow> do { w \<leftarrow> socket_process_command cl c w; process_all cl rs w })"

definition process_commands :: "'d socket_class \<Rightarrow> int \<Rightarrow> bool \<Rightarrow> sk_env \<Rightarrow> 'd sworld \<Rightarrow> (rc option \<times> sk_env \<times> 'd sworld) option" where
  "process_commands cl timeout throttle e w =
     (if timeout \<noteq> 0 \<and> mail e = [] then Some (None, e, w)
      else do {
        let tsc = shd (tscs e);
        let (skip, e, w) =
          (if timeout \<noteq> 0 then (False, e, w)
           else if tsc \<noteq> 0 \<and> throttle then
             (if tsc \<ge> last_tsc (sock w) \<and> tsc - last_tsc (sock w) \<le> max_command_delay then (True, e\<lparr>tscs := stl (tscs e)\<rparr>, w)
              else (False, e\<lparr>tscs := stl (tscs e)\<rparr>, upd_sock (\<lambda>s. s\<lparr>last_tsc := tsc\<rparr>) w))
           else (False, e\<lparr>tscs := stl (tscs e)\<rparr>, w));
        if skip then Some (Some (Inr ()), e, w)
        else do {
          (err, rs, w) \<leftarrow> process_all cl (mail e) w;
          let e = e\<lparr>mail := rs\<rparr>;
          if err = EINTR then Some (Some (Inl EINTR), e, w)
          else do {
            zmq_assert (err = EAGAIN);
            Some (Some (if ctx_terminated (sock w) then Inl ETERM else Inr ()), e, w) } } })"

subsection \<open>Options\<close>

definition socket_setsockopt :: "'d socket_class \<Rightarrow> net \<Rightarrow> int \<Rightarrow> u8 list option \<Rightarrow> nat \<Rightarrow> 'd sworld \<Rightarrow> (rc \<times> 'd sworld) option" where
  "socket_setsockopt cl net opt v n w =
     (if ctx_terminated (sock w) then Some (Inl ETERM, w)
      else do {
        (rc, d, w) \<leftarrow> x_setsockopt cl opt v n (deriv (sock w)) w;
        let w = set_deriv d w;
        if rc = Inr () \<or> rc \<noteq> Inl EINVAL then Some (rc, w)
        else do {
          (rc, p) \<leftarrow> options_setsockopt net opt v n (sk_options (sock w));
          Some (rc, upd_sock (\<lambda>s. s\<lparr>sk_options := p\<rparr>) w) } })"

text \<open>\<open>fd\<close> is the descriptor of the mailbox; the caller's buffer has \<open>n\<close> bytes.\<close>

definition socket_getsockopt :: "'d socket_class \<Rightarrow> int \<Rightarrow> int \<Rightarrow> nat \<Rightarrow> sk_env \<Rightarrow> 'd sworld \<Rightarrow>
    ((errno + u8 list) option \<times> sk_env \<times> 'd sworld) option" where
  "socket_getsockopt cl fd opt n e w =
     (if ctx_terminated (sock w) then Some (Some (Inl ETERM), e, w)
      else if map_of sockopt_codes opt = Some ZMQ_RCVMORE then
        Some (Some (if n < 4 then Inl EINVAL else Inr (int_bytes (if rcvmore (sock w) then 1 else 0))), e, w)
      else if map_of sockopt_codes opt = Some ZMQ_FD then
        Some (Some (if n < 4 then Inl EINVAL else Inr (int_bytes fd)), e, w)
      else if map_of sockopt_codes opt = Some ZMQ_EVENTS then
        (if n < 4 then Some (Some (Inl EINVAL), e, w)
         else do {
           (rc, e, w) \<leftarrow> process_commands cl 0 False e w;
           case rc of
             None \<Rightarrow> Some (None, e, w)
           | Some (Inl err) \<Rightarrow> do { zmq_assert (err = EINTR \<or> err = ETERM); Some (Some (Inl err), e, w) }
           | Some (Inr _) \<Rightarrow> do {
               (out, d, w) \<leftarrow> x_has_out cl (deriv (sock w)) w;
               let w = set_deriv d w;
               (inp, d, w) \<leftarrow> x_has_in cl (deriv (sock w)) w;
               let w = set_deriv d w;
               Some (Some (Inr (int_bytes ((if out then 2 else 0) OR (if inp then 1 else 0)))), e, w) } })
      else Some (Some (options_getsockopt opt n (sk_options (sock w))), e, w))"

subsection \<open>Sending\<close>

definition dontwait :: "int \<Rightarrow> bool" where
  "dontwait flags \<longleftrightarrow> flags AND 1 \<noteq> 0"

definition sndmore :: "int \<Rightarrow> bool" where
  "sndmore flags \<longleftrightarrow> flags AND 2 \<noteq> 0"

text \<open>The end of a wait, and what is left of it: \<^verbatim>\<open>uint64_t end\<close> and \<^verbatim>\<open>(int) (end - clock.now_ms ())\<close>.\<close>

definition wait_end :: "int \<Rightarrow> sk_env \<Rightarrow> u64 \<times> sk_env" where
  "wait_end timeout e = (if timeout < 0 then (0, e) else (shd (nows e) + word_of_int timeout, e\<lparr>nows := stl (nows e)\<rparr>))"

definition wait_left :: "u64 \<Rightarrow> u64 \<Rightarrow> int" where
  "wait_left end_ms now = sint (ucast (end_ms - now) :: u32)"

lemma process_all_shorter: "process_all cl rs w = Some (err, rs', w') \<Longrightarrow> length rs' \<le> length rs - 1"
proof (induction rs arbitrary: w)
  case (Cons r rs)
  then show ?case by (auto simp: bind_Some_iff split: sum.splits dest!: Cons.IH)
qed simp

lemma process_commands_shorter:
  assumes "process_commands cl timeout throttle e w = Some (Some rc, e', w')" "timeout \<noteq> 0"
  shows "length (mail e') < length (mail e)"
  using assms process_all_shorter[of cl "mail e" w]
  by (cases "mail e") (auto simp: process_commands_def Let_def bind_Some_iff assert_bind split: if_splits)

function send_loop :: "'d socket_class \<Rightarrow> msg \<Rightarrow> int \<Rightarrow> u64 \<Rightarrow> int \<Rightarrow> sk_env \<Rightarrow> 'd sworld \<Rightarrow> (rc option \<times> msg \<times> sk_env \<times> 'd sworld) option" where
  "send_loop cl m flags end_ms timeout e w =
     (if timeout = 0 then None
      else case process_commands cl timeout False e w of
        None \<Rightarrow> None
      | Some (None, e, w) \<Rightarrow> Some (None, m, e, w)
      | Some (Some (Inl err), e, w) \<Rightarrow> Some (Some (Inl err), m, e, w)
      | Some (Some (Inr _), e, w) \<Rightarrow>
          (case x_send cl m flags (deriv (sock w)) w of
             None \<Rightarrow> None
           | Some (rc, m, d, w) \<Rightarrow>
               let w = set_deriv d w
               in if rc \<noteq> Inl EAGAIN then Some (Some rc, m, e, w)
                  else if timeout > 0 then
                    (let left = wait_left end_ms (shd (nows e)); e = e\<lparr>nows := stl (nows e)\<rparr>
                     in if left \<le> 0 then Some (Some (Inl EAGAIN), m, e, w) else send_loop cl m flags end_ms left e w)
                  else send_loop cl m flags end_ms timeout e w))"
  by pat_completeness auto
termination
  by (relation "measure (\<lambda>(cl, m, flags, end_ms, timeout, e, w). length (mail e))")
    (auto dest: process_commands_shorter)

declare send_loop.simps [simp del]

definition socket_send :: "'d socket_class \<Rightarrow> msg \<Rightarrow> int \<Rightarrow> sk_env \<Rightarrow> 'd sworld \<Rightarrow> (rc option \<times> msg \<times> sk_env \<times> 'd sworld) option" where
  "socket_send cl m flags e w =
     (if ctx_terminated (sock w) then Some (Some (Inl ETERM), m, e, w)
      else if \<not> msg_check m then Some (Some (Inl EFAULT), m, e, w)
      else do {
        (rc, e, w) \<leftarrow> process_commands cl 0 True e w;
        if rc \<noteq> Some (Inr ()) then Some (rc, m, e, w)
        else do {
          let m = msg_reset_flags flag_more m;
          let m = (if sndmore flags then msg_set_flags flag_more m else m);
          (rc, m, d, w) \<leftarrow> x_send cl m flags (deriv (sock w)) w;
          let w = set_deriv d w;
          if rc \<noteq> Inl EAGAIN then Some (Some rc, m, e, w)
          else if dontwait flags \<or> sndtimeo (sk_options (sock w)) = 0 then Some (Some (Inl EAGAIN), m, e, w)
          else let timeout = sndtimeo (sk_options (sock w)); (end_ms, e) = wait_end timeout e
            in send_loop cl m flags end_ms timeout e w } })"

subsection \<open>Receiving\<close>

definition extract_flags :: "msg \<Rightarrow> 'd sworld \<Rightarrow> 'd sworld option" where
  "extract_flags m w = do {
     zmq_assert (mflags m AND flag_identity \<noteq> 0 \<longrightarrow> recv_identity (sk_options (sock w)));
     Some (upd_sock (\<lambda>s. s\<lparr>rcvmore := has_more m\<rparr>) w) }"

definition set_ticks :: "int \<Rightarrow> 'd sworld \<Rightarrow> 'd sworld" where
  "set_ticks n w = upd_sock (\<lambda>s. s\<lparr>ticks := n\<rparr>) w"

text \<open>\<^verbatim>\<open>++ticks\<close> on an \<^verbatim>\<open>int\<close>: an overflow is undefined.\<close>

definition count_tick :: "'d sworld \<Rightarrow> 'd sworld option" where
  "count_tick w = do { zmq_assert (ticks (sock w) + 1 < 2 ^ 31); Some (set_ticks (ticks (sock w) + 1) w) }"

function recv_loop :: "'d socket_class \<Rightarrow> msg \<Rightarrow> u64 \<Rightarrow> bool \<Rightarrow> int \<Rightarrow> sk_env \<Rightarrow> 'd sworld \<Rightarrow> (rc option \<times> msg \<times> sk_env \<times> 'd sworld) option" where
  "recv_loop cl m end_ms block timeout e w =
     (if timeout = 0 then None
      else case process_commands cl (if block then timeout else 0) False e w of
        None \<Rightarrow> None
      | Some (None, e, w) \<Rightarrow> Some (None, m, e, w)
      | Some (Some (Inl err), e, w) \<Rightarrow> Some (Some (Inl err), m, e, w)
      | Some (Some (Inr _), e, w) \<Rightarrow>
          (case x_recv cl m (deriv (sock w)) w of
             None \<Rightarrow> None
           | Some (rc, m, d, w) \<Rightarrow>
               let w = set_deriv d w
               in if rc = Inr () then map_option (\<lambda>w. (Some rc, m, e, w)) (extract_flags m (set_ticks 0 w))
                  else if rc \<noteq> Inl EAGAIN then Some (Some rc, m, e, w)
                  else if timeout > 0 then
                    (let left = wait_left end_ms (shd (nows e)); e = e\<lparr>nows := stl (nows e)\<rparr>
                     in if left \<le> 0 then Some (Some (Inl EAGAIN), m, e, w) else recv_loop cl m end_ms True left e w)
                  else recv_loop cl m end_ms True timeout e w))"
  by pat_completeness auto
lemma process_commands_le:
  assumes "process_commands cl timeout throttle e w = Some (rc, e', w')"
  shows "length (mail e') \<le> length (mail e)"
  using assms process_all_shorter[of cl "mail e"]
  by (fastforce simp: process_commands_def Let_def bind_Some_iff assert_bind split: if_splits)

termination recv_loop
  by (relation "measures [\<lambda>(cl, m, end_ms, block, timeout, e, w). length (mail e), \<lambda>(cl, m, end_ms, block, timeout, e, w). if block then 0 else 1]")
    (auto dest: process_commands_shorter process_commands_le le_imp_less_or_eq split: if_splits)

declare recv_loop.simps [simp del]

definition socket_recv :: "'d socket_class \<Rightarrow> msg \<Rightarrow> int \<Rightarrow> sk_env \<Rightarrow> 'd sworld \<Rightarrow> (rc option \<times> msg \<times> sk_env \<times> 'd sworld) option" where
  "socket_recv cl m flags e w =
     (if ctx_terminated (sock w) then Some (Some (Inl ETERM), m, e, w)
      else if \<not> msg_check m then Some (Some (Inl EFAULT), m, e, w)
      else do {
        w \<leftarrow> count_tick w;
        (rc, e, w) \<leftarrow> (if ticks (sock w) = inbound_poll_rate then do {
            (rc, e, w) \<leftarrow> process_commands cl 0 False e w;
            Some (rc, e, if rc = Some (Inr ()) then set_ticks 0 w else w) }
          else Some (Some (Inr ()), e, w));
        if rc \<noteq> Some (Inr ()) then Some (rc, m, e, w)
        else do {
          (rc, m, d, w) \<leftarrow> x_recv cl m (deriv (sock w)) w;
          let w = set_deriv d w;
          if rc = Inr () then do { w \<leftarrow> extract_flags m w; Some (Some (Inr ()), m, e, w) }
          else if rc \<noteq> Inl EAGAIN then Some (Some rc, m, e, w)
          else if dontwait flags \<or> rcvtimeo (sk_options (sock w)) = 0 then do {
            (rc, e, w) \<leftarrow> process_commands cl 0 False e w;
            if rc \<noteq> Some (Inr ()) then Some (rc, m, e, w)
            else do {
              (rc, m, d, w) \<leftarrow> x_recv cl m (deriv (sock w)) (set_ticks 0 w);
              let w = set_deriv d w;
              if rc \<noteq> Inr () then Some (Some rc, m, e, w)
              else do { w \<leftarrow> extract_flags m w; Some (Some (Inr ()), m, e, w) } } }
          else let timeout = rcvtimeo (sk_options (sock w)); (end_ms, e) = wait_end timeout e
            in recv_loop cl m end_ms (ticks (sock w) \<noteq> 0) timeout e w } })"

subsection \<open>Closing\<close>

definition socket_close :: "'d sworld \<Rightarrow> 'd sworld" where
  "socket_close w = sk_call Reap_me (upd_sock (\<lambda>s. s\<lparr>sk_tag := 0xdeadbeef\<rparr>) w)"

definition socket_stop :: "'d sworld \<Rightarrow> 'd sworld" where
  "socket_stop w = sk_call Stop_me w"

definition socket_terminate :: "'d sworld \<Rightarrow> 'd sworld option" where
  "socket_terminate w =
     (if is_terminating w then Some w
      else if owner (sk_own (sock w)) = 0 then socket_process_term (linger (sk_options (sock w))) w
      else Some (sk_call (Term_req_to (owner (sk_own (sock w)))) w))"

text \<open>The last call deletes the socket; the destructor closes the monitor.\<close>

definition socket_destroy :: "'d sworld \<Rightarrow> 'd sworld option" where
  "socket_destroy w = do { let w = stop_monitor w; zmq_assert (sk_destroyed (sock w)); Some w }"

definition check_destroy :: "'d sworld \<Rightarrow> 'd sworld option" where
  "check_destroy w =
     (if sk_destroyed (sock w) then do {
        let w = sk_call Reaped (sk_call Socket_destroyed (sk_call Rm_fd w));
        socket_destroy (sk_call Deleted w) }
      else Some w)"

definition start_reaping :: "'d sworld \<Rightarrow> 'd sworld option" where
  "start_reaping w = do { w \<leftarrow> socket_terminate (sk_call Add_fd w); check_destroy w }"

definition socket_in_event :: "'d socket_class \<Rightarrow> sk_env \<Rightarrow> 'd sworld \<Rightarrow> (sk_env \<times> 'd sworld) option" where
  "socket_in_event cl e w = do { (_, e, w) \<leftarrow> process_commands cl 0 False e w; w \<leftarrow> check_destroy w; Some (e, w) }"

subsection \<open>Kinds of sockets\<close>

datatype socket_kind = Pair_t | Pub_t | Sub_t | Req_t | Rep_t | Dealer_t | Router_t | Pull_t | Push_t | Xpub_t | Xsub_t

definition socket_create :: "int \<Rightarrow> errno + socket_kind" where
  "socket_create t = (case map_of (zip [0..10] [Pair_t, Pub_t, Sub_t, Req_t, Rep_t, Dealer_t, Router_t, Pull_t, Push_t, Xpub_t, Xsub_t]) t of
     None \<Rightarrow> Inl EINVAL | Some k \<Rightarrow> Inr k)"

subsection \<open>Endpoints\<close>

text \<open>The text before the first \<^verbatim>\<open>://\<close> and the text behind it.\<close>

fun split_uri :: "string \<Rightarrow> (string \<times> string) option" where
  "split_uri [] = None"
| "split_uri (c # cs) = (if take 3 (c # cs) = ''://'' then Some ([], drop 3 (c # cs))
     else map_option (\<lambda>(a, b). (c # a, b)) (split_uri cs))"

definition parse_uri :: "string \<Rightarrow> errno + (string \<times> string)" where
  "parse_uri uri = (case split_uri uri of
     None \<Rightarrow> Inl EINVAL
   | Some (prot, address) \<Rightarrow> if prot = [] \<or> address = [] then Inl EINVAL else Inr (prot, address))"

definition check_protocol :: "int \<Rightarrow> string \<Rightarrow> rc" where
  "check_protocol typ prot =
     (if prot \<noteq> ''inproc'' \<and> prot \<noteq> ''ipc'' \<and> prot \<noteq> ''tcp'' \<and> prot \<noteq> ''pgm'' \<and> prot \<noteq> ''epgm'' then Inl EPROTONOSUPPORT
      else if prot = ''pgm'' \<or> prot = ''epgm'' then Inl EPROTONOSUPPORT
      else Inr ())"

definition set_last_endpoint :: "string \<Rightarrow> 'd sworld \<Rightarrow> 'd sworld" where
  "set_last_endpoint uri w = upd_sock (\<lambda>s. s\<lparr>sk_options := (sk_options s)\<lparr>last_endpoint := map of_char uri\<rparr>\<rparr>) w"

definition add_endpoint :: "string \<Rightarrow> addr \<Rightarrow> 'd sworld \<Rightarrow> 'd sworld" where
  "add_endpoint uri c w = upd_sock (\<lambda>s. s\<lparr>endpoints := endpoints s @ [(uri, c)]\<rparr>) (sk_launch_child c w)"

text \<open>Only the events asked for are sent, each to the monitor.\<close>

definition monitor_bit :: "monitor_kind \<Rightarrow> u32" where
  "monitor_bit k = (case k of Connected \<Rightarrow> 1 | Connect_delayed \<Rightarrow> 2 | Connect_retried \<Rightarrow> 4 | Listening \<Rightarrow> 8 | Bind_failed \<Rightarrow> 16
     | Accepted \<Rightarrow> 32 | Accept_failed \<Rightarrow> 64 | Closed \<Rightarrow> 128 | Close_failed \<Rightarrow> 256 | Disconnected \<Rightarrow> 512)"

definition monitor_event :: "monitor_kind \<Rightarrow> string \<Rightarrow> int \<Rightarrow> 'd sworld \<Rightarrow> 'd sworld" where
  "monitor_event k address v w = (if monitor_socket (sock w) \<noteq> 0 then sk_call (Monitor_sent k address v) w else w)"

definition socket_event :: "monitor_kind \<Rightarrow> string \<Rightarrow> int \<Rightarrow> 'd sworld \<Rightarrow> 'd sworld" where
  "socket_event k address v w = (if monitor_events (sock w) AND monitor_bit k \<noteq> 0 then monitor_event k address v w else w)"

text \<open>
  \<open>registered\<close> says whether the context had the name free, \<open>io_thread\<close> is the thread it chose, \<open>listener\<close>
  the new object and \<open>bound\<close> the result of its \<^verbatim>\<open>set_address\<close> with the name it then has;
  \<open>errno_no\<close> gives the number of an error, for the monitor.
\<close>

definition socket_bind :: "'d socket_class \<Rightarrow> string \<Rightarrow> bool \<Rightarrow> addr \<Rightarrow> addr \<Rightarrow> (errno + string) \<Rightarrow> (errno \<Rightarrow> int) \<Rightarrow> sk_env \<Rightarrow> 'd sworld \<Rightarrow>
    (rc option \<times> sk_env \<times> 'd sworld) option" where
  "socket_bind cl uri registered io_thread listener bound errno_no e w =
     (if ctx_terminated (sock w) then Some (Some (Inl ETERM), e, w)
      else do {
        (rc, e, w) \<leftarrow> process_commands cl 0 False e w;
        if rc \<noteq> Some (Inr ()) then Some (rc, e, w)
        else case parse_uri uri of
          Inl err \<Rightarrow> Some (Some (Inl err), e, w)
        | Inr (prot, address) \<Rightarrow>
            (case check_protocol (sock_type (sk_options (sock w))) prot of
               Inl err \<Rightarrow> Some (Some (Inl err), e, w)
             | Inr _ \<Rightarrow>
                 if prot = ''inproc'' then
                   (let w = sk_call (Register_endpoint uri) w
                    in Some (if registered then (Some (Inr ()), e, set_last_endpoint uri w) else (Some (Inl EADDRINUSE), e, w)))
                 else if io_thread = 0 then Some (Some (Inl EMTHREAD), e, w)
                 else if prot = ''tcp'' \<or> prot = ''ipc'' then
                   (case bound of
                      Inl err \<Rightarrow> Some (Some (Inl err), e, socket_event Bind_failed address (errno_no err) w)
                    | Inr name \<Rightarrow> Some (Some (Inr ()), e, add_endpoint uri listener (set_last_endpoint name w)))
                 else None) })"

text \<open>The sum of two water marks is an \<^verbatim>\<open>int\<close>: an overflow is undefined.\<close>

definition inproc_hwm :: "int \<Rightarrow> int \<Rightarrow> int option" where
  "inproc_hwm a b = (if a \<noteq> 0 \<and> b \<noteq> 0 then do { zmq_assert (a + b < 2 ^ 31); Some (a + b) } else Some 0)"

definition inproc_identity :: "options \<Rightarrow> addr \<Rightarrow> 'd sworld \<Rightarrow> 'd sworld option" where
  "inproc_identity opts p w = do {
     (rc, m, h) \<leftarrow> msg_init_size (ucast (identity_size opts)) msg_closed (wmem w);
     zmq_assert (rc = Inr ());
     (m, h) \<leftarrow> msg_put 0 (take (unat (identity_size opts)) (opt_identity opts)) m h;
     (written, w) \<leftarrow> pipe_write p (msg_set_flags flag_identity m) (w\<lparr>wmem := h\<rparr>);
     zmq_assert written;
     pipe_flush p w }"

definition connect_inproc :: "'d socket_class \<Rightarrow> string \<Rightarrow> addr \<Rightarrow> options \<Rightarrow> 'd sworld \<Rightarrow> 'd sworld option" where
  "connect_inproc cl uri peer_sock peer_opts w = do {
     let opts = sk_options (sock w);
     snd_hwm \<leftarrow> inproc_hwm (sndhwm opts) (rcvhwm peer_opts);
     rcv_hwm \<leftarrow> inproc_hwm (rcvhwm opts) (sndhwm peer_opts);
     (p0, p1, w) \<leftarrow> pipepair (snd_hwm, rcv_hwm) (delay_on_disconnect opts, delay_on_close opts) w;
     w \<leftarrow> attach_pipe cl p0 False w;
     w \<leftarrow> (if recv_identity peer_opts then inproc_identity (sk_options (sock w)) p0 w else Some w);
     w \<leftarrow> (if recv_identity (sk_options (sock w)) then inproc_identity peer_opts p1 w else Some w);
     Some (set_last_endpoint uri (sk_call (Bind_to peer_sock p1) w)) }"

definition attach_session :: "addr \<Rightarrow> req_session + session \<Rightarrow> 's world \<Rightarrow> ((req_session + session) \<times> 's world) option" where
  "attach_session p ses w = (case ses of
     Inl r \<Rightarrow> do { (r, w) \<leftarrow> session_attach_pipe p r w; Some (Inl r, w) }
   | Inr s \<Rightarrow> do { (s, w) \<leftarrow> session_attach_pipe p s w; Some (Inr s, w) })"

text \<open>
  \<open>found\<close> is the endpoint the context knows by the name, \<open>resolved\<close> the result of the resolution of the
  address with its text, and \<open>ses_addr\<close> the new session, which is a part of the result.
\<close>

definition connect_session :: "'d socket_class \<Rightarrow> string \<Rightarrow> string \<Rightarrow> string \<Rightarrow> addr \<Rightarrow> 'd sworld \<Rightarrow> ((req_session + session) \<times> 'd sworld) option" where
  "connect_session cl uri prot text ses_addr w = do {
     let opts = sk_options (sock w);
     ses \<leftarrow> session_create True opts (Some prot);
     (ses, w) \<leftarrow> (if delay_attach_on_connect opts \<noteq> 1 then do {
         (p0, p1, w) \<leftarrow> pipepair (sndhwm opts, rcvhwm opts) (delay_on_disconnect opts, delay_on_close opts) w;
         w \<leftarrow> attach_pipe cl p0 False w;
         attach_session p1 ses w }
       else Some (ses, w));
     Some (ses, add_endpoint uri ses_addr (set_last_endpoint text w)) }"

definition socket_connect :: "'d socket_class \<Rightarrow> string \<Rightarrow> (addr \<times> options) option \<Rightarrow> addr \<Rightarrow> (errno + string) \<Rightarrow> addr \<Rightarrow> sk_env \<Rightarrow> 'd sworld \<Rightarrow>
    (rc option \<times> (req_session + session) option \<times> sk_env \<times> 'd sworld) option" where
  "socket_connect cl uri found io_thread resolved ses_addr e w =
     (if ctx_terminated (sock w) then Some (Some (Inl ETERM), None, e, w)
      else do {
        (rc, e, w) \<leftarrow> process_commands cl 0 False e w;
        if rc \<noteq> Some (Inr ()) then Some (rc, None, e, w)
        else case parse_uri uri of
          Inl err \<Rightarrow> Some (Some (Inl err), None, e, w)
        | Inr (prot, address) \<Rightarrow>
            (case check_protocol (sock_type (sk_options (sock w))) prot of
               Inl err \<Rightarrow> Some (Some (Inl err), None, e, w)
             | Inr _ \<Rightarrow>
                 if prot = ''inproc'' then
                   (case found of
                      None \<Rightarrow> Some (Some (Inl ECONNREFUSED), None, e, w)
                    | Some (q, opts) \<Rightarrow> do { w \<leftarrow> connect_inproc cl uri q opts w; Some (Some (Inr ()), None, e, w) })
                 else if io_thread = 0 then Some (Some (Inl EMTHREAD), None, e, w)
                 else
                   (case resolved of
                      Inl err \<Rightarrow> Some (Some (Inl err), None, e, w)
                    | Inr text \<Rightarrow> do { (ses, w) \<leftarrow> connect_session cl uri prot text ses_addr w; Some (Some (Inr ()), Some ses, e, w) })) })"

text \<open>
  When no endpoint has the name, \<^verbatim>\<open>errno\<close> is left as the receive from the mailbox set it.
\<close>

definition term_endpoint :: "'d socket_class \<Rightarrow> string option \<Rightarrow> sk_env \<Rightarrow> 'd sworld \<Rightarrow> (rc option \<times> sk_env \<times> 'd sworld) option" where
  "term_endpoint cl uri e w =
     (if ctx_terminated (sock w) then Some (Some (Inl ETERM), e, w)
      else if uri = None then Some (Some (Inl EINVAL), e, w)
      else do {
        (rc, e, w) \<leftarrow> process_commands cl 0 False e w;
        if rc \<noteq> Some (Inr ()) then Some (rc, e, w)
        else let range = filter (\<lambda>(k, _). k = the uri) (endpoints (sock w))
          in if range = [] then Some (Some (Inl EAGAIN), e, w)
             else Some (Some (Inr ()), e, upd_sock (\<lambda>s. s\<lparr>endpoints := filter (\<lambda>(k, _). k \<noteq> the uri) (endpoints s)\<rparr>)
               (fold (\<lambda>(_, c). sk_term_child c) range w)) })"

text \<open>
  \<open>opened\<close> is the new socket of the monitor or the error, \<open>linger_set\<close> whether its option could be set, and
  \<open>bound\<close> what \<^verbatim>\<open>zmq_bind\<close> gives for it; for a null pointer that is an error.
\<close>

definition socket_monitor :: "string option \<Rightarrow> u32 \<Rightarrow> (errno + addr) \<Rightarrow> bool \<Rightarrow> (addr \<Rightarrow> rc) \<Rightarrow> 'd sworld \<Rightarrow> rc \<times> 'd sworld" where
  "socket_monitor uri events opened linger_set bound w =
     (if ctx_terminated (sock w) then (Inl ETERM, w)
      else case uri of None \<Rightarrow> (Inr (), stop_monitor w)
      | Some uri \<Rightarrow>
          (case parse_uri uri of
             Inl err \<Rightarrow> (Inl err, w)
           | Inr (prot, address) \<Rightarrow>
               (case check_protocol (sock_type (sk_options (sock w))) prot of
                  Inl err \<Rightarrow> (Inl err, w)
                | Inr _ \<Rightarrow>
                    if prot \<noteq> ''inproc'' then (Inl EPROTONOSUPPORT, w)
                    else
                      (case opened of
                         Inl err \<Rightarrow> (Inl err, upd_sock (\<lambda>s. s\<lparr>monitor_events := events, monitor_socket := 0\<rparr>) w)
                       | Inr m \<Rightarrow>
                           let w = upd_sock (\<lambda>s. s\<lparr>monitor_events := events, monitor_socket := m\<rparr>) w;
                             w = (if \<not> linger_set then stop_monitor w else w);
                             rc = bound (monitor_socket (sock w))
                           in (rc, if rc \<noteq> Inr () then stop_monitor w else w)))))"

end
