(* ===== verification/Socket_Class.thy ===== *)
theory Socket_Class
  imports Socket_Base
begin

text \<open>
  What the classes of sockets promise to \<^verbatim>\<open>socket_base_t\<close>, and what follows for every class: their
  functions leave the state of the base alone, and so do the operations of the pipes. From this come
  the properties of the sockets whatever their class: when a call may give up, how often the commands
  are looked at, and when a socket is destroyed.
\<close>

unbundle bit_operations_syntax


subsection \<open>What the classes leave alone\<close>

text \<open>The operations of a pipe change pipes, messages and commands, but not the state of the owner.\<close>

lemma sock_simps [simp]:
  "sock (set_pipe p x w) = sock w" "sock (set_upipe u y w) = sock w" "sock (send_cmd d c w) = sock w"
  "sock (snd (new_upipe w)) = sock w" "sock (snd (new_pipe x w)) = sock w"
  by (simp_all add: set_pipe_def set_upipe_def send_cmd_def new_upipe_def new_pipe_def)

lemma rollback_loop_sock:
  assumes "rollback_loop a w = Some w'" shows "sock w' = sock w"
proof (rule rollback_loop.raw_induct[OF _ assms, where P = "\<lambda>a w w'. sock w' = sock w"])
  fix f a and w w' :: "'s world"
  assume IH: "\<And>b v v'. f b v = Some v' \<Longrightarrow> sock v' = sock v"
    and run: "do { u \<leftarrow> upipes w a; (m, u) \<leftarrow> ypipe_unwrite message_pipe_granularity u; let w = set_upipe a u w;
      case m of None \<Rightarrow> Some w | Some m \<Rightarrow> do { zmq_assert (mflags m AND flag_more \<noteq> 0); (rc, m, h) \<leftarrow> msg_close m (wmem w);
        zmq_assert (rc = Inr ()); f a (w\<lparr>wmem := h\<rparr>) } } = Some w'"
  obtain u m y where 1: "upipes w a = Some u" "ypipe_unwrite message_pipe_granularity u = Some (m, y)"
    using run by (auto simp: bind_Some_iff)
  show "sock w' = sock w"
    using run by (cases m) (auto simp: 1 bind_Some_iff assert_bind Let_def dest!: IH split: if_splits)
qed

lemma drain_loop_sock:
  assumes "drain_loop a w = Some w'" shows "sock w' = sock w"
proof (rule drain_loop.raw_induct[OF _ assms, where P = "\<lambda>a w w'. sock w' = sock w"])
  fix f a and w w' :: "'s world"
  assume IH: "\<And>b v v'. f b v = Some v' \<Longrightarrow> sock v' = sock v"
    and run: "do { u \<leftarrow> upipes w a; (m, u) \<leftarrow> ypipe_read message_pipe_granularity u; let w = set_upipe a u w;
      case m of None \<Rightarrow> Some w | Some m \<Rightarrow> do { (rc, m, h) \<leftarrow> msg_close m (wmem w);
        zmq_assert (rc = Inr ()); f a (w\<lparr>wmem := h\<rparr>) } } = Some w'"
  obtain u m y where 1: "upipes w a = Some u" "ypipe_read message_pipe_granularity u = Some (m, y)"
    using run by (auto simp: bind_Some_iff)
  show "sock w' = sock w"
    using run by (cases m) (auto simp: 1 bind_Some_iff assert_bind Let_def dest!: IH split: if_splits)
qed

lemma pipe_delimit_sock: "pipe_delimit p w = Some w' \<Longrightarrow> sock w' = sock w"
  by (auto simp: pipe_delimit_def bind_Some_iff split: if_splits)

lemma pipe_check_read_sock:
  assumes "pipe_check_read p w = Some (b, w')" shows "sock w' = sock w"
proof -
  obtain x where x: "get_pipe p w = Some x" using assms by (auto simp: pipe_check_read_def bind_Some_iff)
  show ?thesis
  proof (cases "pipe_readable x")
    case False
    then show ?thesis using assms x by (simp add: pipe_check_read_def)
  next
    case True
    then obtain u where u: "upipes w (inpipe x) = Some u" using assms x by (auto simp: pipe_check_read_def bind_Some_iff)
    obtain ok v where v: "ypipe_check_read u = (ok, v)" by fastforce
    show ?thesis
    proof (cases ok)
      case False
      then show ?thesis using assms x u v True by (auto simp: pipe_check_read_def)
    next
      case ok: True
      then obtain d y where d: "ypipe_probe msg_is_delimiter v = Some (d, y)"
        using assms x u v True by (auto simp: pipe_check_read_def bind_Some_iff)
      show ?thesis
        using assms unfolding pipe_check_read_def x
        by (cases d) (auto simp: u v d True ok Let_def bind_Some_iff assert_bind dest!: pipe_delimit_sock split: if_splits)
    qed
  qed
qed

lemma pipe_read_sock:
  assumes "pipe_read p w = Some (r, w')" shows "sock w' = sock w"
proof -
  obtain x where x: "get_pipe p w = Some x" using assms by (auto simp: pipe_read_def bind_Some_iff)
  show ?thesis
  proof (cases "pipe_readable x")
    case False
    then show ?thesis using assms unfolding pipe_read_def x by simp
  next
    case True
    then obtain u m y where u: "upipes w (inpipe x) = Some u" "ypipe_read message_pipe_granularity u = Some (m, y)"
      using assms unfolding pipe_read_def x by (auto simp: bind_Some_iff)
    show ?thesis
    proof (cases m)
      case None
      then show ?thesis using assms unfolding pipe_read_def x by (auto simp: u True)
    next
      case (Some k)
      then show ?thesis using assms unfolding pipe_read_def x
        by (cases "msg_is_delimiter k") (auto simp: u True Let_def bind_Some_iff dest!: pipe_delimit_sock)
    qed
  qed
qed

lemma pipe_check_write_sock: "pipe_check_write p w = Some (b, w') \<Longrightarrow> sock w' = sock w"
  by (auto simp: pipe_check_write_def bind_Some_iff split: if_splits)

lemma pipe_write_sock: "pipe_write p m w = Some (b, w') \<Longrightarrow> sock w' = sock w"
  by (auto simp: pipe_write_def bind_Some_iff Let_def dest!: pipe_check_write_sock split: if_splits)

lemma pipe_flush_sock: "pipe_flush p w = Some w' \<Longrightarrow> sock w' = sock w"
  by (auto simp: pipe_flush_def bind_Some_iff Let_def split_beta split: if_splits)

lemma pipe_rollback_sock: "pipe_rollback p w = Some w' \<Longrightarrow> sock w' = sock w"
  by (auto simp: pipe_rollback_def bind_Some_iff dest: rollback_loop_sock split: if_splits)

lemma pipe_terminate_sock: "pipe_terminate dly p w = Some w' \<Longrightarrow> sock w' = sock w"
  by (auto simp: pipe_terminate_def bind_Some_iff Let_def dest!: pipe_flush_sock pipe_rollback_sock split: if_splits)

lemma close_msg_sock: "close_msg m w = Some (m', w') \<Longrightarrow> sock w' = sock w"
  by (auto simp: close_msg_def bind_Some_iff assert_bind split: if_splits)

lemma set_event_sink_sock: "set_event_sink p w = Some w' \<Longrightarrow> sock w' = sock w"
  by (auto simp: set_event_sink_def bind_Some_iff assert_bind split: if_splits)

lemma process_pipe_term_sock: "process_pipe_term p w = Some w' \<Longrightarrow> sock w' = sock w"
  by (auto simp: process_pipe_term_def bind_Some_iff split: if_splits)

lemmas pipe_sock = pipe_check_read_sock pipe_read_sock pipe_check_write_sock pipe_write_sock pipe_flush_sock
  pipe_rollback_sock pipe_terminate_sock close_msg_sock set_event_sink_sock drain_loop_sock process_pipe_term_sock

text \<open>A command to a pipe reaches the owner only through the events of the pipe.\<close>

lemma process_pipe_cmd_sock:
  assumes "process_pipe_cmd sink c p w = Some w'"
  shows "sock w' = sock w \<or> (\<exists>ev w1 w2. sink ev p w1 = Some w2 \<and> sock w1 = sock w \<and> sock w' = sock w2)"
proof (cases c)
  case Activate_read
  then show ?thesis using assms
    by (auto simp: process_pipe_cmd_def process_activate_read_def bind_Some_iff assert_bind split: if_splits; metis sock_simps(1))
next
  case (Activate_write n)
  then show ?thesis using assms
    by (auto simp: process_pipe_cmd_def process_activate_write_def bind_Some_iff assert_bind Let_def split: if_splits; metis sock_simps(1))
next
  case (Hiccup u)
  then obtain x y w1 w2 where w: "get_pipe p w = Some x" "drain_loop (outpipe x) (set_upipe (outpipe x) y w) = Some w1"
    "delete_upipe (outpipe x) w1 = Some w2"
    "(let x = x\<lparr>outpipe := u, out_active := True\<rparr>; w = set_pipe p x w2 in
      if pstate x = Active then do { zmq_assert (pipe_sink x); sink Hiccuped p w } else Some w) = Some w'"
    using assms by (auto simp: process_pipe_cmd_def process_hiccup_def bind_Some_iff assert_bind Let_def split: if_splits)
  then have "sock w2 = sock w" by (auto simp: delete_upipe_def bind_Some_iff dest!: drain_loop_sock)
  then show ?thesis using w(4) by (auto simp: Let_def assert_bind split: if_splits; metis sock_simps(1))
next
  case Pipe_term
  then show ?thesis using assms by (auto simp: process_pipe_cmd_def dest: process_pipe_term_sock)
next
  case Pipe_term_ack
  then have "\<exists>w1. sink Pipe_terminated p w = Some w1 \<and> sock w' = sock w1" using assms
    by (auto simp: process_pipe_cmd_def process_pipe_term_ack_def delete_upipe_def bind_Some_iff assert_bind Let_def
        dest!: drain_loop_sock split: if_splits)
  then show ?thesis by blast
qed

subsection \<open>The classes of sockets\<close>

definition keeps_base :: "'d socket_class \<Rightarrow> bool" where
  "keeps_base cl \<longleftrightarrow>
     (\<forall>p b d w d' w'. x_attach_pipe cl p b d w = Some (d', w') \<longrightarrow> sock w' = sock w) \<and>
     (\<forall>o' v n d w rc d' w'. x_setsockopt cl o' v n d w = Some (rc, d', w') \<longrightarrow> sock w' = sock w) \<and>
     (\<forall>d w b d' w'. x_has_out cl d w = Some (b, d', w') \<longrightarrow> sock w' = sock w) \<and>
     (\<forall>d w b d' w'. x_has_in cl d w = Some (b, d', w') \<longrightarrow> sock w' = sock w) \<and>
     (\<forall>m fl d w rc m' d' w'. x_send cl m fl d w = Some (rc, m', d', w') \<longrightarrow> sock w' = sock w) \<and>
     (\<forall>m d w rc m' d' w'. x_recv cl m d w = Some (rc, m', d', w') \<longrightarrow> sock w' = sock w) \<and>
     (\<forall>p d w d' w'. x_read_activated cl p d w = Some (d', w') \<longrightarrow> sock w' = sock w) \<and>
     (\<forall>p d w d' w'. x_write_activated cl p d w = Some (d', w') \<longrightarrow> sock w' = sock w) \<and>
     (\<forall>p d w d' w'. x_hiccuped cl p d w = Some (d', w') \<longrightarrow> sock w' = sock w) \<and>
     (\<forall>p d w d' w'. x_terminated cl p d w = Some (d', w') \<longrightarrow> sock w' = sock w)"

lemma class_call_sock:
  assumes "class_call f w = Some w'" "\<And>d w d' w'. f d w = Some (d', w') \<Longrightarrow> sock w' = sock w"
  obtains d where "sock w' = (sock w)\<lparr>deriv := d\<rparr>"
  using assms by (auto simp: class_call_def set_deriv_def bind_Some_iff)

text \<open>What the commands leave as it is.\<close>

definition lasting :: "'d socket \<Rightarrow> u32 \<times> u64 \<times> int \<times> bool \<times> (string \<times> addr) list \<times> options" where
  "lasting s = (sk_tag s, last_tsc s, ticks s, rcvmore s, endpoints s, sk_options s)"

lemma lasting_simps [simp]:
  "lasting (s\<lparr>deriv := d\<rparr>) = lasting s" "lasting (s\<lparr>sk_own := x\<rparr>) = lasting s" "lasting (s\<lparr>sk_calls := c\<rparr>) = lasting s"
  "lasting (s\<lparr>sk_destroyed := b\<rparr>) = lasting s" "lasting (s\<lparr>sk_pipes := a\<rparr>) = lasting s" "lasting (s\<lparr>ctx_terminated := b\<rparr>) = lasting s"
  "lasting (s\<lparr>monitor_socket := m, monitor_events := e\<rparr>) = lasting s"
  by (simp_all add: lasting_def)

lemma lasting_own [simp]:
  "lasting (sock (set_own x w)) = lasting (sock w)" "lasting (sock (sk_call c w)) = lasting (sock w)"
  "lasting (sock (sk_register_term_acks n w)) = lasting (sock w)" "lasting (sock (sk_term_child a w)) = lasting (sock w)"
  "lasting (sock (sk_process_own a w)) = lasting (sock w)" "lasting (sock (stop_monitor w)) = lasting (sock w)"
  by (simp_all add: set_own_def sk_call_def sk_register_term_acks_def sk_term_child_def sk_process_own_def stop_monitor_def Let_def)

lemma lasting_fold_calls [simp]: "lasting (sock (fold (\<lambda>c. sk_call (f c)) cs w)) = lasting (sock w)"
  by (induction cs arbitrary: w) simp_all

lemma lasting_check: "sk_check_term_acks w = Some w' \<Longrightarrow> lasting (sock w') = lasting (sock w)"
  by (auto simp: sk_check_term_acks_def socket_process_destroy_def Let_def bind_Some_iff assert_bind split: if_splits)

lemma lasting_seqnum: "sk_process_seqnum w = Some w' \<Longrightarrow> lasting (sock w') = lasting (sock w)"
  by (auto simp: sk_process_seqnum_def Let_def dest!: lasting_check)

lemma lasting_unregister: "sk_unregister_term_ack w = Some w' \<Longrightarrow> lasting (sock w') = lasting (sock w)"
  by (auto simp: sk_unregister_term_ack_def Let_def bind_Some_iff assert_bind dest!: lasting_check split: if_splits)

lemma terminate_pipes_sock: "terminate_pipes ps w = Some w' \<Longrightarrow> sock w' = sock w"
  by (induction ps arbitrary: w) (auto simp: bind_Some_iff dest!: pipe_terminate_sock)

lemma lasting_process_term: "socket_process_term lng w = Some w' \<Longrightarrow> lasting (sock w') = lasting (sock w)"
  by (auto simp: socket_process_term_def own_process_term_def Let_def bind_Some_iff assert_bind dest!: lasting_check terminate_pipes_sock
      split: if_splits)

locale socket_virtuals =
  fixes cl :: "'d socket_class"
  assumes keeps: "keeps_base cl"
begin

lemma lasting_call:
  "class_call (x_attach_pipe cl p b) w = Some w' \<Longrightarrow> lasting (sock w') = lasting (sock w)"
  "class_call (x_read_activated cl p) w = Some w' \<Longrightarrow> lasting (sock w') = lasting (sock w)"
  "class_call (x_write_activated cl p) w = Some w' \<Longrightarrow> lasting (sock w') = lasting (sock w)"
  "class_call (x_hiccuped cl p) w = Some w' \<Longrightarrow> lasting (sock w') = lasting (sock w)"
  "class_call (x_terminated cl p) w = Some w' \<Longrightarrow> lasting (sock w') = lasting (sock w)"
  using keeps by (auto simp: keeps_base_def class_call_def set_deriv_def bind_Some_iff)

lemma lasting_attach:
  assumes "attach_pipe cl p b w = Some w'" shows "lasting (sock w') = lasting (sock w)"
proof -
  obtain w1 w2 where 1: "set_event_sink p w = Some w1"
    "class_call (x_attach_pipe cl p b) (upd_sock (\<lambda>s. s\<lparr>sk_pipes := array_push_back p (sk_pipes s)\<rparr>) w1) = Some w2"
    "(if is_terminating w2 then pipe_terminate False p (sk_register_term_acks 1 w2) else Some w2) = Some w'"
    using assms unfolding attach_pipe_def Let_def by (auto simp: bind_Some_iff)
  have "lasting (sock w2) = lasting (sock w)" using lasting_call(1)[OF 1(2)] set_event_sink_sock[OF 1(1)] by simp
  moreover have "lasting (sock w') = lasting (sock w2)" using 1(3) pipe_terminate_sock[of False p "sk_register_term_acks 1 w2" w']
    by (auto split: if_splits)
  ultimately show ?thesis by simp
qed

lemma lasting_sink: "socket_sink cl ev p w = Some w' \<Longrightarrow> lasting (sock w') = lasting (sock w)"
proof (cases ev)
  case Hiccuped
  then show "socket_sink cl ev p w = Some w' \<Longrightarrow> ?thesis"
    by (auto simp: socket_sink_def socket_hiccuped_def dest!: lasting_call(4) pipe_terminate_sock split: if_splits)
next
  case Pipe_terminated
  then show "socket_sink cl ev p w = Some w' \<Longrightarrow> ?thesis"
    by (auto simp: socket_sink_def socket_terminated_def Let_def bind_Some_iff dest!: lasting_call(5) lasting_unregister split: if_splits)
qed (auto simp: socket_sink_def dest: lasting_call(2,3))

lemma lasting_command: "socket_process_command cl c w = Some w' \<Longrightarrow> lasting (sock w') = lasting (sock w)"
  by (cases "(cl, c, w)" rule: socket_process_command.cases)
    (auto simp: socket_process_stop_def bind_Some_iff dest!: lasting_attach lasting_seqnum lasting_unregister lasting_process_term
      process_pipe_cmd_sock lasting_sink)

lemma lasting_all: "process_all cl rs w = Some (err, rs', w') \<Longrightarrow> lasting (sock w') = lasting (sock w)"
  by (induction rs arbitrary: w) (auto simp: bind_Some_iff dest!: lasting_command split: sum.splits)

end

subsection \<open>Giving up\<close>

text \<open>The time since the first reading of the clock, at the reading \<open>k\<close>.\<close>

definition waited :: "sk_env \<Rightarrow> nat \<Rightarrow> int" where
  "waited e k = int (unat (nows e !! k - nows e !! 0))"

text \<open>A call with a timeout of \<open>t\<close> had the time it was given: it read the clock for the first time not before its end.\<close>

definition timed_out :: "int \<Rightarrow> sk_env \<Rightarrow> sk_env \<Rightarrow> bool" where
  "timed_out t e e' \<longleftrightarrow> t = 0 \<or> 0 < t \<and> (\<exists>k > 0. nows e' = sdrop (Suc k) (nows e) \<and> t \<le> waited e k \<and> (\<forall>j. 0 < j \<and> j < k \<longrightarrow> waited e j < t))"

lemma sint32: "- (2 ^ 31) \<le> x \<Longrightarrow> x < 2 ^ 31 \<Longrightarrow> sint (word_of_int x :: u32) = x"
  by (simp add: int_word_sint)

lemma wait_left_eq:
  assumes "0 < t" "t < 2 ^ 31" "int (unat (now - t0)) < 2 ^ 31"
  shows "wait_left (t0 + word_of_int t) now = t - int (unat (now - t0))"
proof -
  let ?d = "int (unat (now - t0))"
  have "now - t0 = word_of_int ?d" by simp
  then have e: "t0 + word_of_int t - now = word_of_int (t - ?d)" by (metis (no_types, opaque_lifting) add_diff_cancel_left' diff_add_eq_diff_diff_swap diff_diff_eq2 wi_hom_sub)
  have nn: "0 \<le> ?d" by (rule of_nat_0_le_iff)
  have "wait_left (t0 + word_of_int t) now = sint (ucast (word_of_int (t - ?d) :: u64) :: u32)" by (simp only: wait_left_def e)
  also have "\<dots> = sint (word_of_int (t - ?d) :: u32)" by (subst ucast_down_wi) (simp_all add: is_down)
  also have "\<dots> = t - ?d" by (rule sint32) (use assms nn in linarith)+
  finally show ?thesis .
qed

context socket_virtuals
begin

lemma process_commands_keeps:
  assumes "process_commands cl timeout throttle e w = Some (rc, e', w')"
  shows "nows e' = nows e" "sk_options (sock w') = sk_options (sock w)" "ticks (sock w') = ticks (sock w)"
    "rc \<in> {None, Some (Inl EINTR), Some (Inl ETERM), Some (Inr ())}"
proof -
  have l: "sk_options (sock w'') = sk_options (sock v) \<and> ticks (sock w'') = ticks (sock v)"
    if "process_all cl rs v = Some (err, rs', w'')" for rs v err rs' w''
    using lasting_all[OF that] by (simp add: lasting_def)
  show "nows e' = nows e" "sk_options (sock w') = sk_options (sock w)" "ticks (sock w') = ticks (sock w)"
    "rc \<in> {None, Some (Inl EINTR), Some (Inl ETERM), Some (Inr ())}"
    using assms by (auto simp: process_commands_def Let_def bind_Some_iff assert_bind split: if_splits dest!: l)
qed

lemma x_send_sock: "x_send cl m fl d w = Some (rc, m', d', w') \<Longrightarrow> sock w' = sock w"
  using keeps by (auto simp: keeps_base_def)

lemma x_recv_sock: "x_recv cl m d w = Some (rc, m', d', w') \<Longrightarrow> sock w' = sock w"
  using keeps by (auto simp: keeps_base_def)

lemma process_commands_result:
  assumes "process_commands cl timeout throttle e w = Some (rc, e', w')" "rc \<noteq> Some (Inr ())"
  shows "rc \<noteq> Some (Inl EAGAIN)"
  using process_commands_keeps(4)[OF assms(1)] by auto

text \<open>How the loops read the clock: the first reading at which nothing is left is the last one.\<close>

definition gave_up :: "u64 \<Rightarrow> sk_env \<Rightarrow> sk_env \<Rightarrow> bool" where
  "gave_up end_ms e e' \<longleftrightarrow> (\<exists>k. nows e' = sdrop (Suc k) (nows e) \<and> wait_left end_ms (nows e !! k) \<le> 0 \<and>
    (\<forall>j < k. 0 < wait_left end_ms (nows e !! j)))"

lemma gave_up_now: "nows e1 = nows e \<Longrightarrow> wait_left end_ms (shd (nows e)) \<le> 0 \<Longrightarrow> gave_up end_ms e (e1\<lparr>nows := stl (nows e1)\<rparr>)"
  unfolding gave_up_def by (intro exI[of _ 0]) simp

lemma gave_up_later:
  assumes "nows e1 = nows e" "0 < wait_left end_ms (shd (nows e))" "gave_up end_ms (e1\<lparr>nows := stl (nows e1)\<rparr>) e'"
  shows "gave_up end_ms e e'"
proof -
  obtain k where "nows e' = sdrop (Suc k) (stl (nows e))" "wait_left end_ms (stl (nows e) !! k) \<le> 0"
    "\<forall>j < k. 0 < wait_left end_ms (stl (nows e) !! j)" using assms(1,3) by (auto simp: gave_up_def)
  then show ?thesis unfolding gave_up_def using assms(2)
    by (intro exI[of _ "Suc k"]) (auto simp: less_Suc_eq_0_disj)
qed

lemma send_loop_gives_up:
  assumes "send_loop cl m flags end_ms timeout e w = Some (Some (Inl EAGAIN), m', e', w')"
  shows "0 < timeout \<and> gave_up end_ms e e'"
  using assms
proof (induction "length (mail e)" arbitrary: m timeout e w rule: less_induct)
  case less
  note loop = less.prems[unfolded send_loop.simps[of cl m]]
  obtain rc1 e1 w1 where pc: "process_commands cl timeout False e w = Some (rc1, e1, w1)" and t: "timeout \<noteq> 0"
    using loop by (auto split: if_splits option.splits)
  note keep = process_commands_keeps[OF pc]
  have rc1: "rc1 = Some (Inr ())" using loop keep(4) by (auto simp: pc t)
  obtain rc2 m2 d2 w2 where x: "x_send cl m flags (deriv (sock w1)) w1 = Some (rc2, m2, d2, w2)"
    using loop by (auto simp: pc t rc1 split: option.splits)
  have rc2: "rc2 = Inl EAGAIN" using loop by (auto simp: pc t rc1 x Let_def split: if_splits)
  have less': "length (mail e1) < length (mail e)" using process_commands_shorter[OF pc[unfolded rc1] t] .
  show ?case
  proof (cases "timeout > 0")
    case False
    then have "send_loop cl m2 flags end_ms timeout e1 (set_deriv d2 w2) = Some (Some (Inl EAGAIN), m', e', w')"
      using loop by (simp add: pc t rc1 x rc2)
    from less.hyps[OF less' this] False show ?thesis by simp
  next
    case True
    let ?left = "wait_left end_ms (shd (nows e1))" and ?e = "e1\<lparr>nows := stl (nows e1)\<rparr>"
    show ?thesis
    proof (cases "?left \<le> 0")
      case left: True
      then have "e' = ?e" using loop True by (simp add: pc rc1 x rc2 Let_def)
      then show ?thesis using True left gave_up_now[OF keep(1)] keep(1) by simp
    next
      case left: False
      then have "send_loop cl m2 flags end_ms ?left ?e (set_deriv d2 w2) = Some (Some (Inl EAGAIN), m', e', w')"
        using loop True by (simp add: pc rc1 x rc2 Let_def)
      from less.hyps[OF _ this] less' have "gave_up end_ms ?e e'" by simp
      then show ?thesis using True left gave_up_later[OF keep(1)] keep(1) by simp
    qed
  qed
qed

lemma recv_loop_gives_up:
  assumes "recv_loop cl m end_ms block timeout e w = Some (Some (Inl EAGAIN), m', e', w')"
  shows "0 < timeout \<and> gave_up end_ms e e'"
  using assms
proof (induction "2 * length (mail e) + (if block then 0 else 1)" arbitrary: m block timeout e w rule: less_induct)
  case less
  note loop = less.prems[unfolded recv_loop.simps[of cl m]]
  let ?t = "if block then timeout else 0"
  obtain rc1 e1 w1 where pc: "process_commands cl ?t False e w = Some (rc1, e1, w1)" and t: "timeout \<noteq> 0"
    using loop by (auto split: if_splits option.splits)
  note keep = process_commands_keeps[OF pc]
  have rc1: "rc1 = Some (Inr ())" using loop keep(4) by (auto simp: pc t)
  obtain rc2 m2 d2 w2 where x: "x_recv cl m (deriv (sock w1)) w1 = Some (rc2, m2, d2, w2)"
    using loop by (auto simp: pc t rc1 split: option.splits)
  have rc2: "rc2 = Inl EAGAIN" using loop by (auto simp: pc t rc1 x Let_def split: if_splits)
  have less': "length (mail e1) + (if block then 1 else 0) \<le> length (mail e)"
    using process_commands_shorter[OF pc[unfolded rc1]] process_commands_le[OF pc] t by auto
  show ?case
  proof (cases "timeout > 0")
    case False
    then have "recv_loop cl m2 end_ms True timeout e1 (set_deriv d2 w2) = Some (Some (Inl EAGAIN), m', e', w')"
      using loop by (simp add: pc t rc1 x rc2)
    from less.hyps[OF _ this] less' False show ?thesis by (cases block) simp_all
  next
    case True
    let ?left = "wait_left end_ms (shd (nows e1))" and ?e = "e1\<lparr>nows := stl (nows e1)\<rparr>"
    show ?thesis
    proof (cases "?left \<le> 0")
      case left: True
      then have "e' = ?e" using loop True by (simp add: pc rc1 x rc2 Let_def)
      then show ?thesis using True left gave_up_now[OF keep(1)] keep(1) by simp
    next
      case left: False
      then have "recv_loop cl m2 end_ms True ?left ?e (set_deriv d2 w2) = Some (Some (Inl EAGAIN), m', e', w')"
        using loop True by (simp add: pc rc1 x rc2 Let_def)
      from less.hyps[OF _ this] less' have "gave_up end_ms ?e e'" by (cases block) simp_all
      then show ?thesis using True left gave_up_later[OF keep(1)] keep(1) by simp
    qed
  qed
qed

lemma gave_up_waited:
  assumes "gave_up (shd (nows e) + word_of_int t) (e1\<lparr>nows := stl (nows e)\<rparr>) e'" "0 < t" "t < 2 ^ 31" "\<forall>k. waited e k < 2 ^ 31"
  shows "timed_out t e e'"
proof -
  have left: "wait_left (shd (nows e) + word_of_int t) (stl (nows e) !! j) = t - waited e (Suc j)" for j
    using wait_left_eq[OF assms(2,3), of "stl (nows e) !! j" "shd (nows e)"] assms(4)[rule_format, of "Suc j"] by (simp add: waited_def)
  obtain k where "nows e' = sdrop (Suc k) (stl (nows e))" "t \<le> waited e (Suc k)" "\<forall>j < k. waited e (Suc j) < t"
    using assms(1) by (auto simp: gave_up_def left)
  then show ?thesis unfolding timed_out_def using assms(2)
    by (intro disjI2 conjI exI[of _ "Suc k"]) (auto simp: gr0_conv_Suc)
qed

lemma send_gives_up:
  assumes "socket_send cl m flags e w = Some (Some (Inl EAGAIN), m', e', w')" "\<not> dontwait flags"
    "sndtimeo (sk_options (sock w)) < 2 ^ 31" "\<forall>k. waited e k < 2 ^ 31"
  shows "timed_out (sndtimeo (sk_options (sock w))) e e'"
proof -
  obtain rc1 e1 w1 where pc: "process_commands cl 0 True e w = Some (rc1, e1, w1)" and ok: "\<not> ctx_terminated (sock w)" "msg_check m"
    using assms(1) by (auto simp: socket_send_def bind_Some_iff split: if_splits)
  note keep = process_commands_keeps[OF pc]
  have rc1: "rc1 = Some (Inr ())" using assms(1) keep(4) by (auto simp: socket_send_def pc ok)
  let ?m = "if sndmore flags then msg_set_flags flag_more (msg_reset_flags flag_more m) else msg_reset_flags flag_more m"
  obtain rc2 m2 d2 w2 where x: "x_send cl ?m flags (deriv (sock w1)) w1 = Some (rc2, m2, d2, w2)"
    using assms(1) by (auto simp: socket_send_def pc ok rc1 Let_def bind_Some_iff)
  let ?t = "sndtimeo (sk_options (sock w))"
  have t: "sndtimeo (sk_options (sock (set_deriv d2 w2))) = ?t" using x_send_sock[OF x] keep(2) by (simp add: set_deriv_def)
  have rc2: "rc2 = Inl EAGAIN" using assms(1) by (auto simp: socket_send_def pc ok rc1 x Let_def split: if_splits prod.splits)
  show ?thesis
  proof (cases "?t = 0")
    case True
    then show ?thesis by (simp add: timed_out_def)
  next
    case False
    then obtain e2 end_ms where l: "wait_end ?t e1 = (end_ms, e2)"
      "send_loop cl m2 flags end_ms ?t e2 (set_deriv d2 w2) = Some (Some (Inl EAGAIN), m', e', w')"
      using assms(1,2) by (auto simp: socket_send_def pc ok rc1 x rc2 t Let_def split: prod.splits)
    from send_loop_gives_up[OF l(2)] have "0 < ?t" "gave_up end_ms e2 e'" by simp_all
    moreover from this(1) l(1) keep(1) have "end_ms = shd (nows e) + word_of_int ?t" "e2 = e1\<lparr>nows := stl (nows e)\<rparr>"
      by (auto simp: wait_end_def)
    ultimately show ?thesis using gave_up_waited[OF _ _ assms(3,4)] by blast
  qed
qed

lemma recv_gives_up:
  assumes "socket_recv cl m flags e w = Some (Some (Inl EAGAIN), m', e', w')" "\<not> dontwait flags"
    "rcvtimeo (sk_options (sock w)) < 2 ^ 31" "\<forall>k. waited e k < 2 ^ 31"
  shows "timed_out (rcvtimeo (sk_options (sock w))) e e'"
proof -
  obtain w0 where ok: "\<not> ctx_terminated (sock w)" "msg_check m" "count_tick w = Some w0"
    using assms(1) by (auto simp: socket_recv_def bind_Some_iff split: if_splits)
  have w0: "sk_options (sock w0) = sk_options (sock w)" using ok(3) by (auto simp: count_tick_def set_ticks_def assert_bind split: if_splits)
  obtain rc1 e1 w1 where poll: "(if ticks (sock w0) = inbound_poll_rate then do {
        (rc, e, w) \<leftarrow> process_commands cl 0 False e w0;
        Some (rc, e, if rc = Some (Inr ()) then set_ticks 0 w else w) }
      else Some (Some (Inr ()), e, w0)) = Some (rc1, e1, w1)"
    using assms(1) by (auto simp: socket_recv_def ok bind_Some_iff)
  have keep: "nows e1 = nows e \<and> sk_options (sock w1) = sk_options (sock w) \<and> rc1 \<in> {None, Some (Inl EINTR), Some (Inl ETERM), Some (Inr ())}"
  proof (cases "ticks (sock w0) = inbound_poll_rate")
    case True
    then obtain v where pc: "process_commands cl 0 False e w0 = Some (rc1, e1, v)" "w1 = (if rc1 = Some (Inr ()) then set_ticks 0 v else v)"
      using poll by (auto simp: bind_Some_iff)
    show ?thesis using process_commands_keeps[OF pc(1)] by (auto simp: pc(2) w0 set_ticks_def)
  qed (use poll w0 in auto)
  note keep = keep[THEN conjunct1] keep[THEN conjunct2, THEN conjunct1] keep[THEN conjunct2, THEN conjunct2]
  have rc1: "rc1 = Some (Inr ())" using assms(1) keep(3) by (auto simp: socket_recv_def ok poll)
  obtain rc2 m2 d2 w2 where x: "x_recv cl m (deriv (sock w1)) w1 = Some (rc2, m2, d2, w2)"
    using assms(1) by (auto simp: socket_recv_def ok poll rc1 Let_def bind_Some_iff)
  let ?t = "rcvtimeo (sk_options (sock w))"
  have t: "rcvtimeo (sk_options (sock (set_deriv d2 w2))) = ?t" using x_recv_sock[OF x] keep(2) by (simp add: set_deriv_def)
  have rc2: "rc2 = Inl EAGAIN"
    using assms(1) by (auto simp: socket_recv_def ok poll rc1 x Let_def bind_Some_iff split: if_splits prod.splits)
  show ?thesis
  proof (cases "?t = 0")
    case True
    then show ?thesis by (simp add: timed_out_def)
  next
    case False
    then obtain e2 end_ms b where l: "wait_end ?t e1 = (end_ms, e2)"
      "recv_loop cl m2 end_ms b ?t e2 (set_deriv d2 w2) = Some (Some (Inl EAGAIN), m', e', w')"
      using assms(1,2) by (auto simp: socket_recv_def ok poll rc1 x rc2 t Let_def split: prod.splits)
    from recv_loop_gives_up[OF l(2)] have "0 < ?t" "gave_up end_ms e2 e'" by simp_all
    moreover from this(1) l(1) keep(1) have "end_ms = shd (nows e) + word_of_int ?t" "e2 = e1\<lparr>nows := stl (nows e)\<rparr>"
      by (auto simp: wait_end_def)
    ultimately show ?thesis using gave_up_waited[OF _ _ assms(3,4)] by blast
  qed
qed

end

text \<open>C39: A call that may wait gives up with \<^verbatim>\<open>EAGAIN\<close> only when its time is over. Whatever the class of the socket
  and whatever commands arrive meanwhile, a \<^verbatim>\<open>send\<close> or \<^verbatim>\<open>recv\<close> without \<^verbatim>\<open>ZMQ_DONTWAIT\<close> reports it only if the timeout
  of the socket is 0, or positive and passed at the last reading of the clock and at none before; with an
  infinite timeout it never does. The clock must not advance by 2^31 milliseconds, which the conversion of
  what is left to an \<^verbatim>\<open>int\<close> does not survive.\<close>

theorem socket_gives_up_late:
  assumes "keeps_base cl" "\<not> dontwait flags" "\<forall>k. waited e k < 2 ^ 31"
    "sndtimeo (sk_options (sock w)) < 2 ^ 31" "rcvtimeo (sk_options (sock w)) < 2 ^ 31"
  shows "(socket_send cl m flags e w = Some (Some (Inl EAGAIN), m', e', w') \<longrightarrow> timed_out (sndtimeo (sk_options (sock w))) e e') \<and>
    (socket_recv cl m flags e w = Some (Some (Inl EAGAIN), m', e', w') \<longrightarrow> timed_out (rcvtimeo (sk_options (sock w))) e e')"
proof -
  have v: "socket_virtuals cl" using assms(1) by (rule socket_virtuals.intro)
  show ?thesis using socket_virtuals.send_gives_up[OF v] socket_virtuals.recv_gives_up[OF v] assms(2-) by blast
qed

subsection \<open>Receiving without a look at the commands\<close>

text \<open>A row of receives, each of which finds a message at once.\<close>

inductive recv_run :: "'d socket_class \<Rightarrow> sk_env \<Rightarrow> 'd sworld \<Rightarrow> nat \<Rightarrow> sk_env \<Rightarrow> 'd sworld \<Rightarrow> bool" for cl e w where
  none: "recv_run cl e w 0 e w"
| more: "recv_run cl e w n e1 w1 \<Longrightarrow>
    x_recv cl m (deriv (sock w1)) (set_ticks (ticks (sock w1) + 1) w1) = Some (Inr (), m1, d, w2) \<Longrightarrow>
    socket_recv cl m flags e1 w1 = Some (Some (Inr ()), m', e2, w3) \<Longrightarrow> recv_run cl e w (Suc n) e2 w3"

context socket_virtuals
begin

lemma recv_past_rate:
  assumes "inbound_poll_rate \<le> ticks (sock w)"
    "x_recv cl m (deriv (sock w)) (set_ticks (ticks (sock w) + 1) w) = Some (Inr (), m1, d, w2)"
    "socket_recv cl m flags e w = Some (Some (Inr ()), m', e', w')"
  shows "e' = e \<and> ticks (sock w') = ticks (sock w) + 1 \<and> ctx_terminated (sock w') = ctx_terminated (sock w)"
proof -
  have ok: "\<not> ctx_terminated (sock w)" "msg_check m" "count_tick w = Some (set_ticks (ticks (sock w) + 1) w)"
    using assms(3) by (auto simp: socket_recv_def count_tick_def bind_Some_iff assert_bind split: if_splits)
  have "sock w2 = sock (set_ticks (ticks (sock w) + 1) w)" by (rule x_recv_sock[OF assms(2)])
  moreover have "extract_flags m1 (set_deriv d w2) = Some w'" "e' = e"
  proof -
    have "ticks (sock (set_ticks (ticks (sock w) + 1) w)) \<noteq> inbound_poll_rate" using assms(1) by (simp add: set_ticks_def)
    moreover have "deriv (sock (set_ticks (ticks (sock w) + 1) w)) = deriv (sock w)" by (simp add: set_ticks_def)
    ultimately have "socket_recv cl m flags e w = do { w \<leftarrow> extract_flags m1 (set_deriv d w2); Some (Some (Inr ()), m1, e, w) }"
      using ok assms(2) by (simp add: socket_recv_def Let_def)
    then have "do { w \<leftarrow> extract_flags m1 (set_deriv d w2); Some (Some (Inr ()), m1, e, w) } = Some (Some (Inr () :: rc), m', e', w')"
      using assms(3) by simp
    then show "extract_flags m1 (set_deriv d w2) = Some w'" "e' = e" by (auto simp: bind_Some_iff)
  qed
  ultimately show ?thesis by (auto simp: extract_flags_def set_ticks_def set_deriv_def assert_bind split: if_splits)
qed

lemma recv_run_past_rate:
  assumes "recv_run cl e w n e' w'" "inbound_poll_rate \<le> ticks (sock w)"
  shows "e' = e \<and> ticks (sock w') = ticks (sock w) + int n \<and> ctx_terminated (sock w') = ctx_terminated (sock w)"
  using assms
proof (induction rule: recv_run.induct)
  case (more n e1 w1 m m1 d w2 flags m' e2 w3)
  then have "inbound_poll_rate \<le> ticks (sock w1)" by simp
  from recv_past_rate[OF this more.hyps(2,3)] more.IH[OF more.prems] show ?case by simp
qed simp

end


subsection \<open>The end of a socket\<close>

text \<open>
  What may happen to a socket: it receives a command; the user attaches a pipe, launches a child or ends
  one by \<^verbatim>\<open>connect\<close>, \<^verbatim>\<open>bind\<close> and \<^verbatim>\<open>term_endpoint\<close>; a peer finds it by its name, which counts a command that
  is still to come; and the reaper ends it. A command that is counted is only received while there is
  one on the way, and a child only acknowledges when it was asked to end.
\<close>

datatype sk_op = Received socket_cmd | Attached addr bool | Launched addr | Dropped addr | Found | Ended

definition term_asked :: "'d socket \<Rightarrow> nat" where
  "term_asked s = length (filter (\<lambda>c. \<exists>a n. c = Term_to a n) (sk_calls s))"

fun sk_legal :: "sk_op \<Rightarrow> nat \<Rightarrow> 'd socket \<Rightarrow> bool" where
  "sk_legal (Received (To_pipe p c)) k s = (p \<in> set (items (sk_pipes s)))"
| "sk_legal (Received Stop_cmd) k s = True"
| "sk_legal (Received (Bind_cmd p)) k s =
     (p \<noteq> 0 \<and> p \<notin> set (items (sk_pipes s)) \<and> processed_seqnum (sk_own s) \<noteq> ucast (sent_seqnum (sk_own s)))"
| "sk_legal (Received (To_own (Own c))) k s = (processed_seqnum (sk_own s) \<noteq> ucast (sent_seqnum (sk_own s)))"
| "sk_legal (Received (To_own (Term_req c))) k s = True"
| "sk_legal (Received (To_own Term_ack)) k s = (k < term_asked s)"
| "sk_legal (Received (To_own Plug)) k s = False"
| "sk_legal (Received (To_own (Term n))) k s = False"
| "sk_legal (Attached p b) k s = (p \<noteq> 0 \<and> p \<notin> set (items (sk_pipes s)) \<and> \<not> own_terminating (sk_own s))"
| "sk_legal (Launched c) k s = (\<not> own_terminating (sk_own s))"
| "sk_legal (Dropped c) k s = True"
| "sk_legal Found k s = (\<not> own_terminating (sk_own s))"
| "sk_legal Ended k s = True"

fun sk_step :: "'d socket_class \<Rightarrow> sk_op \<Rightarrow> 'd sworld \<Rightarrow> 'd sworld option" where
  "sk_step cl (Received c) w = socket_process_command cl c w"
| "sk_step cl (Attached p b) w = attach_pipe cl p b w"
| "sk_step cl (Launched c) w = Some (sk_launch_child c w)"
| "sk_step cl (Dropped c) w = Some (sk_term_child c w)"
| "sk_step cl Found w = Some (sk_inc_seqnum w)"
| "sk_step cl Ended w = socket_terminate w"

text \<open>The count is that of the acknowledgements received.\<close>

inductive sk_reach :: "'d socket_class \<Rightarrow> nat \<Rightarrow> 'd sworld \<Rightarrow> bool" for cl where
  created: "sock w = socket_new opts sid d \<Longrightarrow> sk_reach cl 0 w"
| stepped: "sk_reach cl k w \<Longrightarrow> sk_legal a k (sock w) \<Longrightarrow> sk_step cl a w = Some w' \<Longrightarrow>
    sk_reach cl (if a = Received (To_own Term_ack) then k + 1 else k) w'"

definition sk_done :: "nat \<Rightarrow> 'd socket \<Rightarrow> bool" where
  "sk_done k s \<longleftrightarrow> own_terminating (sk_own s) \<and> items (sk_pipes s) = [] \<and> term_asked s = k \<and>
     processed_seqnum (sk_own s) = ucast (sent_seqnum (sk_own s))"

definition sk_counts :: "nat \<Rightarrow> 'd socket \<Rightarrow> bool" where
  "sk_counts k s \<longleftrightarrow> k \<le> term_asked s \<and> array_inv (sk_pipes s) \<and> owner (sk_own s) = 0 \<and>
     term_acks (sk_own s) = int (term_asked s - k) + (if own_terminating (sk_own s) then int (length (items (sk_pipes s))) else 0) \<and>
     (own_terminating (sk_own s) \<longrightarrow> owned (sk_own s) = [])"

definition sk_inv :: "nat \<Rightarrow> 'd socket \<Rightarrow> bool" where
  "sk_inv k s \<longleftrightarrow> sk_counts k s \<and> (sk_destroyed s \<longleftrightarrow> sk_done k s)"

lemma sk_check_ok:
  assumes "sk_counts k (sock w)" "sk_destroyed (sock w) \<longrightarrow> sk_done k (sock w)"
  obtains w' where "sk_check_term_acks w = Some w'" "sk_inv k (sock w')"
proof (cases "sk_done k (sock w)")
  case True
  then have "own_terminating (sk_own (sock w))" "processed_seqnum (sk_own (sock w)) = ucast (sent_seqnum (sk_own (sock w)))"
    "term_acks (sk_own (sock w)) = 0" "owned (sk_own (sock w)) = []" "owner (sk_own (sock w)) = 0"
    using assms(1) by (simp_all add: sk_done_def sk_counts_def)
  then have "sk_check_term_acks w = Some (socket_process_destroy w)" by (simp add: sk_check_term_acks_def)
  moreover have "sk_inv k (sock (socket_process_destroy w))"
    using assms(1) True by (simp add: sk_inv_def sk_counts_def sk_done_def term_asked_def socket_process_destroy_def)
  ultimately show ?thesis by (rule that)
next
  case False
  have "term_asked (sock w) = k \<and> items (sk_pipes (sock w)) = []"
    if "own_terminating (sk_own (sock w))" "term_acks (sk_own (sock w)) = 0"
  proof -
    have "term_acks (sk_own (sock w)) = int (term_asked (sock w) - k) + int (length (items (sk_pipes (sock w))))" "k \<le> term_asked (sock w)"
      using assms(1) that(1) by (simp_all add: sk_counts_def)
    then have "term_asked (sock w) - k = 0 \<and> length (items (sk_pipes (sock w))) = 0" using that(2) by linarith
    then show ?thesis using \<open>k \<le> term_asked (sock w)\<close> by simp
  qed
  then have "sk_check_term_acks w = Some w" using False by (auto simp: sk_check_term_acks_def sk_done_def Let_def)
  moreover have "sk_inv k (sock w)" using assms False by (simp add: sk_inv_def)
  ultimately show ?thesis by (rule that)
qed

lemma sk_seqnum_ok:
  assumes "sk_counts k (sock w)" "\<not> sk_destroyed (sock w)"
  obtains w' where "sk_process_seqnum w = Some w'" "sk_inv k (sock w')"
proof -
  have "sk_counts k (sock (set_own ((sk_own (sock w))\<lparr>processed_seqnum := processed_seqnum (sk_own (sock w)) + 1\<rparr>) w))"
    "\<not> sk_destroyed (sock (set_own ((sk_own (sock w))\<lparr>processed_seqnum := processed_seqnum (sk_own (sock w)) + 1\<rparr>) w))"
    using assms by (simp_all add: sk_counts_def set_own_def term_asked_def)
  from sk_check_ok[OF this(1)] this(2) show ?thesis using that unfolding sk_process_seqnum_def Let_def by blast
qed

text \<open>One acknowledgement less is expected: of a pipe that is gone, or of a child.\<close>

lemma sk_unregister_ok:
  assumes "term_acks (sk_own (sock w)) > 0" "\<not> sk_destroyed (sock w)"
    "sk_counts k ((sock w)\<lparr>sk_own := (sk_own (sock w))\<lparr>term_acks := term_acks (sk_own (sock w)) - 1\<rparr>\<rparr>)"
  obtains w' where "sk_unregister_term_ack w = Some w'" "sk_inv k (sock w')"
proof -
  let ?w = "set_own ((sk_own (sock w))\<lparr>term_acks := term_acks (sk_own (sock w)) - 1\<rparr>) w"
  have "sk_counts k (sock ?w)" "\<not> sk_destroyed (sock ?w)" using assms by (simp_all add: set_own_def)
  from sk_check_ok[OF this(1)] this(2) obtain w' where "sk_check_term_acks ?w = Some w'" "sk_inv k (sock w')" by blast
  then show ?thesis using that assms(1) by (simp add: sk_unregister_term_ack_def Let_def)
qed

lemma term_asked_simps [simp]:
  "term_asked (s\<lparr>deriv := d\<rparr>) = term_asked s" "term_asked (s\<lparr>sk_own := x\<rparr>) = term_asked s"
  "term_asked (s\<lparr>sk_pipes := a\<rparr>) = term_asked s"
  "term_asked (sock (sk_call c w)) = term_asked (sock w) + (if \<exists>a n. c = Term_to a n then 1 else 0)"
  by (simp_all add: term_asked_def sk_call_def)

lemma sk_call_other [simp]:
  "sk_own (sock (sk_call c w)) = sk_own (sock w)" "sk_pipes (sock (sk_call c w)) = sk_pipes (sock w)"
  "sk_destroyed (sock (sk_call c w)) = sk_destroyed (sock w)" "sk_options (sock (sk_call c w)) = sk_options (sock w)"
  by (simp_all add: sk_call_def)

lemma set_own_other [simp]:
  "sk_own (sock (set_own x w)) = x" "sk_pipes (sock (set_own x w)) = sk_pipes (sock w)"
  "sk_destroyed (sock (set_own x w)) = sk_destroyed (sock w)" "term_asked (sock (set_own x w)) = term_asked (sock w)"
  by (simp_all add: set_own_def)

lemma fold_term_to:
  "sk_own (sock (fold (\<lambda>c. sk_call (Term_to c n)) cs w)) = sk_own (sock w)"
  "sk_pipes (sock (fold (\<lambda>c. sk_call (Term_to c n)) cs w)) = sk_pipes (sock w)"
  "sk_destroyed (sock (fold (\<lambda>c. sk_call (Term_to c n)) cs w)) = sk_destroyed (sock w)"
  "term_asked (sock (fold (\<lambda>c. sk_call (Term_to c n)) cs w)) = term_asked (sock w) + length cs"
  by (induction cs arbitrary: w) simp_all

lemma own_process_term_ok:
  assumes "sk_inv k (sock v)" "\<not> own_terminating (sk_own (sock v))" "sock w = sock (sk_register_term_acks (int (length (items (sk_pipes (sock v))))) v)"
  obtains w' where "own_process_term n w = Some w'" "sk_inv k (sock w')"
proof -
  let ?x = "sk_own (sock w)"
  let ?w1 = "sk_register_term_acks (int (length (owned ?x))) (fold (\<lambda>c. sk_call (Term_to c n)) (owned ?x) w)"
  let ?w2 = "set_own ((sk_own (sock ?w1))\<lparr>owned := [], own_terminating := True\<rparr>) ?w1"
  have "sk_counts k (sock v)" "\<not> sk_destroyed (sock v)" using assms(1,2) by (auto simp: sk_inv_def sk_done_def)
  then have "sk_counts k (sock ?w2)" "\<not> sk_destroyed (sock ?w2)" using assms(2)
    by (auto simp: sk_counts_def sk_register_term_acks_def fold_term_to Let_def assms(3))
  from sk_check_ok[OF this(1)] this(2) obtain w' where "sk_check_term_acks ?w2 = Some w'" "sk_inv k (sock w')" by blast
  moreover have "\<not> own_terminating ?x" using assms(2,3) by (simp add: sk_register_term_acks_def Let_def)
  ultimately show ?thesis using that by (simp add: own_process_term_def Let_def)
qed

context socket_virtuals
begin

lemma class_call_inv:
  assumes "class_call f w = Some w'" "\<And>d w d' w'. f d w = Some (d', w') \<Longrightarrow> sock w' = sock w"
  shows "sk_counts k (sock w') = sk_counts k (sock w)" "sk_done k (sock w') = sk_done k (sock w)"
    "sk_own (sock w') = sk_own (sock w)" "sk_pipes (sock w') = sk_pipes (sock w)" "sk_destroyed (sock w') = sk_destroyed (sock w)"
    "term_asked (sock w') = term_asked (sock w)" "sk_options (sock w') = sk_options (sock w)"
  by (rule class_call_sock[OF assms], assumption, simp add: sk_counts_def sk_done_def)+

lemma class_keeps:
  "x_attach_pipe cl p b d w = Some (d', w') \<Longrightarrow> sock w' = sock w"
  "x_read_activated cl p d w = Some (d', w') \<Longrightarrow> sock w' = sock w"
  "x_write_activated cl p d w = Some (d', w') \<Longrightarrow> sock w' = sock w"
  "x_hiccuped cl p d w = Some (d', w') \<Longrightarrow> sock w' = sock w"
  "x_terminated cl p d w = Some (d', w') \<Longrightarrow> sock w' = sock w"
  using keeps by (auto simp: keeps_base_def)

lemma terminated_ok:
  assumes "sk_inv k (sock w)" "p \<in> set (items (sk_pipes (sock w)))" "class_call (x_terminated cl p) w = Some w1"
  obtains w' where "socket_terminated cl p w = Some w'" "sk_inv k (sock w')"
proof -
  have live: "\<not> sk_destroyed (sock w)" "sk_counts k (sock w)" using assms(1,2) by (auto simp: sk_inv_def sk_done_def)
  note c = class_call_inv[OF assms(3) class_keeps(5)]
  have "array_inv (sk_pipes (sock w))" using live(2) by (simp add: sk_counts_def)
  then obtain a i where a: "array_erase p (sk_pipes (sock w)) = Some a" "array_inv a"
    "items a = butlast ((items (sk_pipes (sock w)))[i := last (items (sk_pipes (sock w)))])"
    by (rule array_erase_ok[OF _ assms(2)])
  let ?w2 = "upd_sock (\<lambda>s. s\<lparr>sk_pipes := a\<rparr>) w1"
  have run: "socket_terminated cl p w = (if own_terminating (sk_own (sock w)) then sk_unregister_term_ack ?w2 else Some ?w2)"
    by (simp add: socket_terminated_def assms(3) c a(1) is_terminating_def Let_def)
  have len: "length (items (sk_pipes (sock w))) = Suc (length (items a))" using length_pos_if_in_set[OF assms(2)] by (simp add: a(3))
  show ?thesis
  proof (cases "own_terminating (sk_own (sock w))")
    case False
    then show ?thesis using that[of ?w2] run live a(2) by (simp add: sk_inv_def sk_counts_def sk_done_def c)
  next
    case True
    have "term_acks (sk_own (sock ?w2)) > 0" "\<not> sk_destroyed (sock ?w2)"
      "sk_counts k ((sock ?w2)\<lparr>sk_own := (sk_own (sock ?w2))\<lparr>term_acks := term_acks (sk_own (sock ?w2)) - 1\<rparr>\<rparr>)"
      using True live a(2) len by (simp_all add: sk_counts_def c)
    then obtain w3 where "sk_unregister_term_ack ?w2 = Some w3" "sk_inv k (sock w3)" by (rule sk_unregister_ok)
    then show ?thesis using that[of w3] run True by simp
  qed
qed

lemma terminated_inv:
  assumes "sk_inv k (sock w)" "p \<in> set (items (sk_pipes (sock w)))" "socket_terminated cl p w = Some w'"
  shows "sk_inv k (sock w')"
proof -
  obtain w1 where "class_call (x_terminated cl p) w = Some w1" using assms(3) by (auto simp: socket_terminated_def bind_Some_iff)
  then obtain w2 where "socket_terminated cl p w = Some w2" "sk_inv k (sock w2)" by (rule terminated_ok[OF assms(1,2)])
  with assms(3) show ?thesis by simp
qed

lemma sink_inv:
  assumes "sk_inv k (sock w)" "p \<in> set (items (sk_pipes (sock w)))" "socket_sink cl ev p w = Some w'"
  shows "sk_inv k (sock w')"
proof (cases ev)
  case Pipe_terminated
  then show ?thesis using assms terminated_inv by (simp add: socket_sink_def)
next
  case Hiccuped
  then show ?thesis using assms class_call_inv[of "x_hiccuped cl p" w w', OF _ class_keeps(4)] pipe_terminate_sock[of False p w w']
    by (auto simp: socket_sink_def socket_hiccuped_def sk_inv_def split: if_splits)
next
  case Read_activated
  then show ?thesis using assms class_call_inv[of "x_read_activated cl p" w w', OF _ class_keeps(2)] by (simp add: socket_sink_def sk_inv_def)
next
  case Write_activated
  then show ?thesis using assms class_call_inv[of "x_write_activated cl p" w w', OF _ class_keeps(3)] by (simp add: socket_sink_def sk_inv_def)
qed

lemma attach_counts:
  assumes "sk_counts k (sock w)" "p \<noteq> 0" "p \<notin> set (items (sk_pipes (sock w)))" "attach_pipe cl p b w = Some w'"
  shows "sk_counts k (sock w')" "sk_destroyed (sock w') = sk_destroyed (sock w)" "own_terminating (sk_own (sock w')) = own_terminating (sk_own (sock w))"
proof -
  obtain w1 w2 where 1: "set_event_sink p w = Some w1"
    "class_call (x_attach_pipe cl p b) (upd_sock (\<lambda>s. s\<lparr>sk_pipes := array_push_back p (sk_pipes s)\<rparr>) w1) = Some w2"
    "(if is_terminating w2 then pipe_terminate False p (sk_register_term_acks 1 w2) else Some w2) = Some w'"
    using assms(4) unfolding attach_pipe_def Let_def by (auto simp: bind_Some_iff)
  note c = class_call_inv[OF 1(2) class_keeps(1)]
  have s: "sock w1 = sock w" by (rule set_event_sink_sock[OF 1(1)])
  have w': "sock w' = sock (if own_terminating (sk_own (sock w)) then sk_register_term_acks 1 w2 else w2)"
    using 1(3) pipe_terminate_sock[of False p "sk_register_term_acks 1 w2" w'] by (auto simp: is_terminating_def c s split: if_splits)
  have "array_inv (array_push_back p (sk_pipes (sock w)))" using assms(1-3) by (intro array_push_back_inv) (auto simp: sk_counts_def)
  then show "sk_counts k (sock w')" "sk_destroyed (sock w') = sk_destroyed (sock w)"
    "own_terminating (sk_own (sock w')) = own_terminating (sk_own (sock w))"
    using assms(1) by (auto simp: w' sk_register_term_acks_def Let_def sk_counts_def c s)
qed

lemma term_child_inv: "sk_inv k (sock w) \<Longrightarrow> sk_inv k (sock (sk_term_child c w))"
  by (auto simp: sk_term_child_def sk_register_term_acks_def Let_def sk_inv_def sk_counts_def sk_done_def)

lemma process_own_counts:
  assumes "sk_counts k (sock w)"
  shows "sk_counts k (sock (sk_process_own c w))" "sk_destroyed (sock (sk_process_own c w)) = sk_destroyed (sock w)"
  using assms by (auto simp: sk_process_own_def sk_register_term_acks_def Let_def sk_counts_def)

lemma process_term_inv:
  assumes "sk_inv k (sock w)" "\<not> own_terminating (sk_own (sock w))" "socket_process_term n w = Some w'"
  shows "sk_inv k (sock w')"
proof -
  obtain w1 where 1: "terminate_pipes (items (sk_pipes (sock w))) (sk_call Unregister_endpoints w) = Some w1"
    "own_process_term n (sk_register_term_acks (int (array_size (sk_pipes (sock w1)))) w1) = Some w'"
    using assms(3) by (auto simp: socket_process_term_def bind_Some_iff)
  note s = terminate_pipes_sock[OF 1(1)]
  have "sk_inv k (sock (sk_call Unregister_endpoints w))" using assms(1) by (simp add: sk_inv_def sk_counts_def sk_done_def)
  moreover have "\<not> own_terminating (sk_own (sock (sk_call Unregister_endpoints w)))" using assms(2) by simp
  moreover have "sock (sk_register_term_acks (int (array_size (sk_pipes (sock w1)))) w1) =
    sock (sk_register_term_acks (int (length (items (sk_pipes (sock (sk_call Unregister_endpoints w)))))) (sk_call Unregister_endpoints w))"
    by (simp add: sk_register_term_acks_def set_own_def Let_def s array_size_def)
  ultimately obtain w2 where "own_process_term n (sk_register_term_acks (int (array_size (sk_pipes (sock w1)))) w1) = Some w2" "sk_inv k (sock w2)"
    by (rule own_process_term_ok)
  with 1(2) show ?thesis by simp
qed

text \<open>A command to the socket as an \<^verbatim>\<open>own_t\<close> is always taken.\<close>

lemma own_command_ok:
  assumes "sk_inv k (sock w)" "sk_legal (Received (To_own c)) k (sock w)"
  obtains w' where "socket_process_command cl (To_own c) w = Some w'" "sk_inv (if c = Term_ack then k + 1 else k) (sock w')"
proof (cases c)
  case (Own a)
  then have "sk_counts k (sock w)" "\<not> sk_destroyed (sock w)" using assms by (auto simp: sk_inv_def sk_done_def)
  then have "sk_counts k (sock (sk_process_own a w))" "\<not> sk_destroyed (sock (sk_process_own a w))"
    using process_own_counts[of k w a] by simp_all
  then obtain w' where "sk_process_seqnum (sk_process_own a w) = Some w'" "sk_inv k (sock w')" by (rule sk_seqnum_ok)
  then show ?thesis using that[of w'] Own by simp
next
  case (Term_req a)
  then show ?thesis using that[of "sk_term_child a w"] term_child_inv[OF assms(1)] by simp
next
  case Term_ack
  then have "term_acks (sk_own (sock w)) > 0" "\<not> sk_destroyed (sock w)"
    "sk_counts (k + 1) ((sock w)\<lparr>sk_own := (sk_own (sock w))\<lparr>term_acks := term_acks (sk_own (sock w)) - 1\<rparr>\<rparr>)"
    using assms by (auto simp: sk_inv_def sk_counts_def sk_done_def)
  then obtain w' where "sk_unregister_term_ack w = Some w'" "sk_inv (k + 1) (sock w')" by (rule sk_unregister_ok)
  then show ?thesis using that[of w'] Term_ack by simp
qed (use assms in simp_all)

lemma command_inv:
  assumes "sk_inv k (sock w)" "sk_legal (Received c) k (sock w)" "socket_process_command cl c w = Some w'"
  shows "sk_inv (if c = To_own Term_ack then k + 1 else k) (sock w')"
proof (cases c)
  case (To_pipe p pc)
  then have p: "p \<in> set (items (sk_pipes (sock w)))" "process_pipe_cmd (socket_sink cl) pc p w = Some w'" using assms(2,3) by simp_all
  from process_pipe_cmd_sock[OF p(2)] show ?thesis
  proof (elim disjE exE conjE)
    fix ev w1 w2 assume w: "socket_sink cl ev p w1 = Some w2" "sock w1 = sock w" "sock w' = sock w2"
    then have "sk_inv k (sock w1)" "p \<in> set (items (sk_pipes (sock w1)))" using assms(1) p(1) by simp_all
    from sink_inv[OF this w(1)] show ?thesis using w(3) To_pipe by simp
  qed (use assms(1) To_pipe in simp)
next
  case Stop_cmd
  then have "w' = socket_process_stop w" using assms(3) by simp
  then have "sk_own (sock w') = sk_own (sock w)" "sk_pipes (sock w') = sk_pipes (sock w)" "sk_destroyed (sock w') = sk_destroyed (sock w)"
    "term_asked (sock w') = term_asked (sock w)"
    by (simp_all add: socket_process_stop_def stop_monitor_def sk_call_def term_asked_def)
  then show ?thesis using assms(1) Stop_cmd by (simp add: sk_inv_def sk_counts_def sk_done_def)
next
  case (Bind_cmd p)
  then obtain w1 where w1: "attach_pipe cl p False w = Some w1" "sk_process_seqnum w1 = Some w'" using assms(3) by (auto simp: bind_Some_iff)
  have "sk_counts k (sock w)" "\<not> sk_destroyed (sock w)" using assms(1,2) Bind_cmd by (auto simp: sk_inv_def sk_done_def)
  then have "sk_counts k (sock w1)" "\<not> sk_destroyed (sock w1)"
    using attach_counts[of k w p False w1] assms(2) Bind_cmd w1(1) by simp_all
  then obtain w2 where "sk_process_seqnum w1 = Some w2" "sk_inv k (sock w2)" by (rule sk_seqnum_ok)
  then show ?thesis using w1(2) Bind_cmd by simp
next
  case (To_own oc)
  obtain w2 where "socket_process_command cl (To_own oc) w = Some w2" "sk_inv (if oc = Term_ack then k + 1 else k) (sock w2)"
    by (rule own_command_ok[OF assms(1) assms(2)[unfolded To_own]])
  then show ?thesis using assms(3) To_own by simp
qed

lemma step_inv:
  assumes "sk_inv k (sock w)" "sk_legal a k (sock w)" "sk_step cl a w = Some w'"
  shows "sk_inv (if a = Received (To_own Term_ack) then k + 1 else k) (sock w')"
proof (cases a)
  case (Received c)
  then show ?thesis using command_inv[of k w c w'] assms by simp
next
  case (Attached p b)
  have "sk_counts k (sock w)" "\<not> own_terminating (sk_own (sock w))" "\<not> sk_destroyed (sock w)"
    using assms(1,2) Attached by (auto simp: sk_inv_def sk_done_def)
  then show ?thesis using attach_counts[of k w p b w'] assms(2,3) Attached by (simp add: sk_inv_def sk_done_def)
next
  case (Launched c)
  then show ?thesis using assms by (auto simp: sk_launch_child_def sk_inc_seqnum_def Let_def sk_inv_def sk_counts_def sk_done_def)
next
  case (Dropped c)
  then show ?thesis using assms term_child_inv by auto
next
  case Found
  then show ?thesis using assms by (auto simp: sk_inc_seqnum_def Let_def sk_inv_def sk_counts_def sk_done_def)
next
  case Ended
  have "owner (sk_own (sock w)) = 0" using assms(1) by (simp add: sk_inv_def sk_counts_def)
  then show ?thesis using assms Ended process_term_inv[of k w _ w']
    by (auto simp: socket_terminate_def is_terminating_def split: if_splits)
qed

lemma sk_reach_inv: "sk_reach cl k w \<Longrightarrow> sk_inv k (sock w)"
proof (induction rule: sk_reach.induct)
  case (created w opts sid d)
  then show ?case by (simp add: socket_new_def sk_inv_def sk_counts_def sk_done_def term_asked_def own_init_def)
next
  case (stepped k w a w')
  then show ?case using step_inv by blast
qed

end

text \<open>C38: A socket is destroyed at the right moment, whatever its class: it counts an acknowledgement for every pipe
  it still has and for every child it asked to end; it is marked as destroyed exactly when it is terminating, the
  last pipe has gone, every child has answered, and every command that was announced to it has been
  processed. No assertion of the count fails: every command to it as an owner is taken, and every pipe
  of it may end.\<close>

theorem socket_destroyed_when_done:
  assumes "keeps_base cl" "sk_reach cl k w"
  shows "(sk_destroyed (sock w) \<longleftrightarrow> own_terminating (sk_own (sock w)) \<and> items (sk_pipes (sock w)) = [] \<and> term_asked (sock w) = k \<and>
      processed_seqnum (sk_own (sock w)) = ucast (sent_seqnum (sk_own (sock w)))) \<and>
    (own_terminating (sk_own (sock w)) \<longrightarrow>
      term_acks (sk_own (sock w)) = int (length (items (sk_pipes (sock w)))) + (int (term_asked (sock w)) - int k)) \<and>
    (\<forall>c. sk_legal (Received (To_own c)) k (sock w) \<longrightarrow> socket_process_command cl (To_own c) w \<noteq> None) \<and>
    (\<forall>p \<in> set (items (sk_pipes (sock w))). class_call (x_terminated cl p) w \<noteq> None \<longrightarrow> socket_terminated cl p w \<noteq> None)"
proof -
  have v: "socket_virtuals cl" using assms(1) by (rule socket_virtuals.intro)
  note inv = socket_virtuals.sk_reach_inv[OF v assms(2)]
  have own: "socket_process_command cl (To_own c) w \<noteq> None" if "sk_legal (Received (To_own c)) k (sock w)" for c
    by (rule socket_virtuals.own_command_ok[OF v inv that]) simp
  have ends: "socket_terminated cl p w \<noteq> None"
    if "p \<in> set (items (sk_pipes (sock w)))" "class_call (x_terminated cl p) w = Some w1" for p w1
    by (rule socket_virtuals.terminated_ok[OF v inv that]) simp
  have "k \<le> term_asked (sock w)" using inv by (simp add: sk_inv_def sk_counts_def)
  then show ?thesis using inv own ends by (auto simp: sk_inv_def sk_counts_def sk_done_def of_nat_diff)
qed

subsection \<open>The classes of the model\<close>

text \<open>Loops over pipes leave the owner alone, since every operation on a pipe does.\<close>

lemma fq_loop_sock: "fq_loop pipe_read f w = Some (r, f', w') \<Longrightarrow> sock w' = sock w"
proof (induction "fq_active f" arbitrary: f w rule: less_induct)
  case less
  note run = less.prems[unfolded fq_loop.simps[of pipe_read f w]]
  show ?case
  proof (cases "fq_active f > 0")
    case True
    obtain p a v where p: "array_at (fq_pipes f) (fq_current f) = Some p" "pipe_read p w = Some (a, v)"
      using run True by (auto simp: bind_Some_iff)
    show ?thesis
    proof (cases a)
      case None
      then obtain f1 where f1: "fq_deactivate (fq_current f) f = Some f1" "fq_loop pipe_read f1 v = Some (r, f', w')"
        using run True p by (auto simp: bind_Some_iff assert_bind split: if_splits)
      from less.hyps[OF _ f1(2)] fq_deactivate_active[OF f1(1)] True pipe_read_sock[OF p(2)] show ?thesis by simp
    next
      case (Some m)
      then have "w' = v" using run True p by (auto simp: Let_def split: if_splits)
      then show ?thesis using pipe_read_sock[OF p(2)] by simp
    qed
  qed (use run in simp)
qed

lemma fq_recvpipe_sock: "fq_recvpipe pipe_read f m w = Some (r, m', f', w') \<Longrightarrow> sock w' = sock w"
  by (auto simp: fq_recvpipe_def bind_Some_iff dest!: close_msg_sock fq_loop_sock split: option.splits)

lemma lb_loop_sock: "lb_loop pipe_write l m w = Some (l', w') \<Longrightarrow> sock w' = sock w"
proof (induction "lb_active l" arbitrary: l w rule: less_induct)
  case less
  note run = less.prems[unfolded lb_loop.simps[of pipe_write l m w]]
  show ?case
  proof (cases "lb_active l > 0")
    case True
    obtain p b v where p: "array_at (lb_pipes l) (lb_current l) = Some p" "pipe_write p m w = Some (b, v)"
      using run True by (auto simp: bind_Some_iff)
    show ?thesis
    proof (cases b)
      case False
      then obtain l1 where l1: "lb_skip l = Some l1" "lb_loop pipe_write l1 m v = Some (l', w')"
        using run True p by (auto simp: bind_Some_iff assert_bind split: if_splits)
      from less.hyps[OF _ l1(2)] lb_skip_active[OF l1(1)] True pipe_write_sock[OF p(2)] show ?thesis by simp
    next
      case b: True
      then show ?thesis using run True p pipe_write_sock[OF p(2)] by simp
    qed
  qed (use run in simp)
qed

lemma lb_send_sock: "lb_send pipe_write pipe_flush l m w = Some (rc, m', l', w') \<Longrightarrow> sock w' = sock w"
  by (auto simp: lb_send_def Let_def bind_Some_iff dest!: close_msg_sock lb_loop_sock pipe_flush_sock split: if_splits)

lemma lb_has_out_sock: "lb_has_out pipe_check_write l w = Some (b, l', w') \<Longrightarrow> sock w' = sock w"
proof (induction "lb_active l" arbitrary: l w rule: less_induct)
  case less
  note run = less.prems[unfolded lb_has_out.simps[of pipe_check_write l w]]
  show ?case
  proof (cases "lb_more l \<or> lb_active l = 0")
    case False
    then obtain p c v where p: "array_at (lb_pipes l) (lb_current l) = Some p" "pipe_check_write p w = Some (c, v)"
      using run by (auto simp: bind_Some_iff)
    show ?thesis
    proof (cases c)
      case c: False
      then obtain l1 where l1: "lb_deactivate (lb_current l) l = Some l1" "lb_has_out pipe_check_write l1 v = Some (b, l', w')"
        using run False p by (auto simp: bind_Some_iff)
      from less.hyps[OF _ l1(2)] lb_deactivate_active[OF l1(1)] False pipe_check_write_sock[OF p(2)] show ?thesis by simp
    next
      case True
      then show ?thesis using run False p pipe_check_write_sock[OF p(2)] by simp
    qed
  next
    case True
    then have "w' = w" using run by (cases "lb_more l") simp_all
    then show ?thesis by simp
  qed
qed

lemma recv_until_sock:
  assumes "recv_until P f m w = Some (rc, m', f', w')" shows "sock w' = sock w"
proof -
  have "sock (snd (snd (snd (rc, m', f', w')))) = sock (snd (((P, f), m), w))"
  proof (rule recv_until.raw_induct[OF _ assms, where Pa = "\<lambda>x r. sock (snd (snd (snd r))) = sock (snd x)"])
    fix g P f m and w :: "'a world" and r
    assume IH: "\<And>P f m w r. g P f m w = Some r \<Longrightarrow> sock (snd (snd (snd r))) = sock (snd (((P, f), m), w))"
      and run: "do { (rc, m, f, w) \<leftarrow> fq_recvpipe pipe_read f m w;
        case rc of Inl e \<Rightarrow> Some (rc, m, f, w) | Inr q \<Rightarrow> if P m then Some (rc, m, f, w) else g P f m w } = Some r"
    obtain rc m1 f1 w1 where 1: "fq_recvpipe pipe_read f m w = Some (rc, m1, f1, w1)"
      using run by (auto simp: bind_Some_iff)
    note frame = fq_recvpipe_sock[OF 1]
    show "sock (snd (snd (snd r))) = sock (snd (((P, f), m), w))"
    proof (cases "(\<exists>q. rc = Inr q) \<and> \<not> P m1")
      case True
      then have "g P f m1 w1 = Some r \<or> g P f1 m1 w1 = Some r" using run by (auto simp: 1)
      then show ?thesis using frame by (elim disjE) (use IH in fastforce)+
    next
      case False
      then have "r = (rc, m1, f1, w1)" using run by (cases rc) (simp_all add: 1 split: if_splits)
      then show ?thesis using frame by simp
    qed
  qed
  then show ?thesis by simp
qed

definition pair_class :: "pair socket_class" where
  "pair_class = (base_class pair_xattach_pipe (\<lambda>p d w. Some (pair_xterminated p d, w)))
     \<lparr>x_has_out := \<lambda>d w. do { (b, w) \<leftarrow> pair_xhas_out d w; Some (b, d, w) },
      x_send := \<lambda>m flags d w. do { (rc, m, w) \<leftarrow> pair_xsend m (sndmore flags) d w; Some (rc, m, d, w) },
      x_has_in := \<lambda>d w. do { (b, w) \<leftarrow> pair_xhas_in d w; Some (b, d, w) },
      x_recv := \<lambda>m d w. do { (rc, m, w) \<leftarrow> pair_xrecv m d w; Some (rc, m, d, w) },
      x_read_activated := \<lambda>p d w. Some (pair_xread_activated p d, w),
      x_write_activated := \<lambda>p d w. Some (pair_xwrite_activated p d, w)\<rparr>"

definition dealer_class :: "dealer socket_class" where
  "dealer_class = (base_class (\<lambda>p b d w. do { d \<leftarrow> dealer_xattach_pipe p d; Some (d, w) })
      (\<lambda>p d w. do { d \<leftarrow> dealer_xterminated p d; Some (d, w) }))
     \<lparr>x_has_out := dealer_xhas_out, x_send := \<lambda>m flags. dealer_xsend m, x_has_in := dealer_xhas_in, x_recv := dealer_xrecv,
      x_read_activated := \<lambda>p d w. do { d \<leftarrow> dealer_xread_activated p d; Some (d, w) },
      x_write_activated := \<lambda>p d w. do { d \<leftarrow> dealer_xwrite_activated p d; Some (d, w) }\<rparr>"

lemma pair_frames:
  "pair_xattach_pipe p b d w = Some (d', w') \<Longrightarrow> sock w' = sock w"
  "pair_xhas_out d w = Some (c, w') \<Longrightarrow> sock w' = sock w"
  "pair_xhas_in d w = Some (c, w') \<Longrightarrow> sock w' = sock w"
  by (auto simp: pair_xattach_pipe_def pair_xhas_out_def pair_xhas_in_def bind_Some_iff assert_bind
      dest: pipe_terminate_sock pipe_check_write_sock pipe_check_read_sock split: if_splits)

lemma pair_xsend_sock: "pair_xsend m b d w = Some (rc, m', w') \<Longrightarrow> sock w' = sock w"
  by (auto simp: pair_xsend_def bind_Some_iff dest!: pipe_write_sock pipe_flush_sock split: if_splits)

lemma pair_xrecv_sock:
  assumes "pair_xrecv m d w = Some (rc, m', w')" shows "sock w' = sock w"
proof -
  obtain m1 w1 got w2 where 1: "close_msg m w = Some (m1, w1)"
    "(if pair_pipe d = 0 then Some (None, w1) else pipe_read (pair_pipe d) w1) = Some (got, w2)" "w' = w2"
    using assms by (auto simp: pair_xrecv_def bind_Some_iff split: option.splits)
  have "sock w2 = sock w1" using 1(2) pipe_read_sock by (auto split: if_splits)
  then show ?thesis using close_msg_sock[OF 1(1)] 1(3) by simp
qed

lemma pair_keeps_base: "keeps_base pair_class"
  unfolding keeps_base_def pair_class_def base_class_def
  by (auto simp: bind_Some_iff dest: pair_frames pair_xsend_sock pair_xrecv_sock)

lemma dealer_xrecv_sock: "dealer_xrecv m d w = Some (rc, m', d', w') \<Longrightarrow> sock w' = sock w"
  by (auto simp: dealer_xrecv_def bind_Some_iff assert_bind dest!: recv_until_sock split: if_splits)

lemma dealer_keeps_base: "keeps_base dealer_class"
proof -
  have "sock w' = sock w" if "dealer_xhas_in d w = Some (b, d', w')" for d b d' and w w' :: "dealer sworld"
    using that by (auto simp: dealer_xhas_in_def Let_def bind_Some_iff assert_bind dest!: dealer_xrecv_sock split: if_splits)
  then show ?thesis
    by (auto simp: keeps_base_def dealer_class_def base_class_def bind_Some_iff dealer_xhas_out_def dealer_xsend_def
        dest!: dealer_xrecv_sock lb_send_sock lb_has_out_sock)
qed

interpretation pair_sock: socket_virtuals pair_class
  by (rule socket_virtuals.intro) (rule pair_keeps_base)

interpretation dealer_sock: socket_virtuals dealer_class
  by (rule socket_virtuals.intro) (rule dealer_keeps_base)

subsection \<open>Examples\<close>

definition example_sock :: "pair sworld" where
  "example_sock = \<lparr>wpipes = (\<lambda>_. None), upipes = (\<lambda>_. None), next_addr = 1, wmem = mem_new (\<lambda>_ _. True) (\<lambda>_. 0), wcmds = [],
     sock = socket_new (options_new []) 7 (pair_new [])\<rparr>"

text \<open>A socket with one child is destroyed by the acknowledgement of the child.\<close>

theorem socket_destroyed_when_done_witness:
  "\<exists>w. sk_reach pair_class 1 w \<and> sk_destroyed (sock w) \<and> term_acks (sk_own (sock w)) = 0"
proof -
  let ?w0 = "example_sock" and ?w1 = "sk_launch_child 5 example_sock"
  have s0: "sock ?w0 = socket_new (options_new []) 7 (pair_new [])" by (simp add: example_sock_def)
  have r0: "sk_reach pair_class 0 ?w0" by (rule sk_reach.created[OF s0])
  have r1: "sk_reach pair_class 0 ?w1" using sk_reach.stepped[OF r0, of "Launched 5" ?w1] s0 by (simp add: socket_new_def own_init_def)
  have s1: "sock ?w1 = (sock ?w0)\<lparr>sk_own := (own_init (-1))\<lparr>sent_seqnum := 1\<rparr>, sk_calls := [Child_launched 5]\<rparr>"
    by (simp add: sk_launch_child_def sk_inc_seqnum_def sk_call_def set_own_def s0 socket_new_def own_init_def options_new_def)
  obtain w2 where w2: "socket_process_command pair_class (To_own (Own 5)) ?w1 = Some w2"
    "sk_own (sock w2) = (own_init (-1))\<lparr>sent_seqnum := 1, processed_seqnum := 1, owned := [5]\<rparr>" "sk_calls (sock w2) = [Child_launched 5]"
    "sk_pipes (sock w2) = array_new" "sk_options (sock w2) = (options_new [])\<lparr>socket_id := 7\<rparr>"
    by (simp add: sk_process_own_def sk_process_seqnum_def sk_check_term_acks_def s1 s0 socket_new_def own_init_def set_own_def Let_def insort_insert_key_def)
  have r2: "sk_reach pair_class 0 w2"
    using sk_reach.stepped[OF r1, of "Received (To_own (Own 5))" w2] w2(1) s1 by (simp add: own_init_def)
  obtain w3 where w3: "socket_terminate w2 = Some w3"
    "sk_own (sock w3) = (own_init (-1))\<lparr>sent_seqnum := 1, processed_seqnum := 1, term_acks := 1, own_terminating := True\<rparr>"
    "sk_calls (sock w3) = [Child_launched 5, Unregister_endpoints, Term_to 5 (-1)]" "sk_pipes (sock w3) = array_new"
    by (simp add: socket_terminate_def socket_process_term_def own_process_term_def sk_check_term_acks_def is_terminating_def
        sk_register_term_acks_def sk_call_def set_own_def w2 own_init_def options_new_def array_new_def array_size_def Let_def)
  have r3: "sk_reach pair_class 0 w3" using sk_reach.stepped[OF r2, of Ended w3] w3(1) by simp
  obtain w4 where w4: "socket_process_command pair_class (To_own Term_ack) w3 = Some w4"
    "sk_own (sock w4) = (own_init (-1))\<lparr>sent_seqnum := 1, processed_seqnum := 1, own_terminating := True\<rparr>"
    "sk_calls (sock w4) = sk_calls (sock w3)" "sk_pipes (sock w4) = array_new"
    by (simp add: sk_unregister_term_ack_def sk_check_term_acks_def set_own_def w3 own_init_def socket_process_destroy_def Let_def)
  have r4: "sk_reach pair_class 1 w4"
    using sk_reach.stepped[OF r3, of "Received (To_own Term_ack)" w4] w4(1) w3(3) by (simp add: term_asked_def)
  have d: "sk_destroyed (sock w4)"
    using socket_destroyed_when_done[OF pair_keeps_base r4] w4 w3(3) by (simp add: own_init_def array_new_def term_asked_def)
  then show ?thesis using r4 w4(2) by (auto simp: own_init_def)
qed

lemma poll_interrupted:
  "mail e = Inl EINTR # rs \<Longrightarrow>
    process_commands cl 0 False e w = Some (Some (Inl EINTR), e\<lparr>mail := rs, tscs := stl (tscs e)\<rparr>, w)"
  by (cases e) (simp add: process_commands_def)


text \<open>A pair without a pipe waits for ten milliseconds.\<close>

theorem socket_gives_up_late_witness:
  "\<exists>e'. timed_out 10 \<lparr>mail = [Inl EAGAIN, Inl EAGAIN], tscs = sconst 0, nows = 0 ## sconst 10\<rparr> e'"
proof -
  let ?w = "upd_sock (\<lambda>s. s\<lparr>sk_options := (sk_options s)\<lparr>sndtimeo := 10\<rparr>\<rparr>) example_sock"
  let ?e = "\<lparr>mail = [Inl EAGAIN, Inl EAGAIN], tscs = sconst 0, nows = 0 ## sconst 10\<rparr> :: sk_env"
  have clock: "\<forall>k. waited ?e k < 2 ^ 31"
  proof
    fix k show "waited ?e k < 2 ^ 31" by (cases k) (simp_all add: waited_def)
  qed
  have opts: "sndtimeo (sk_options (sock ?w)) < 2 ^ 31" "rcvtimeo (sk_options (sock ?w)) < 2 ^ 31"
    by (simp_all add: example_sock_def socket_new_def options_new_def)
  have f: "\<not> dontwait 0" by (simp add: dontwait_def)
  obtain m' e' w' where "socket_send pair_class example_msg 0 ?e ?w = Some (Some (Inl EAGAIN), m', e', w')"
    by (simp add: socket_send_def send_loop.simps process_commands_def example_sock_def socket_new_def pair_class_def base_class_def
        pair_xsend_def pair_new_def set_deriv_def wait_end_def wait_left_def example_msg(1) dontwait_def sndmore_def)
  with socket_gives_up_late[OF pair_keeps_base f clock opts, of example_msg m' e' w'] show ?thesis
    by (auto simp: example_sock_def)
qed

end
