(* ===== verification/Spec2Isabelle.thy ===== *)
theory Spec2Isabelle
  imports Ypipe Mailbox Mtrie Codec Pipe_Flow Fq Lb Dist Fq_Stream Sock_Dealer Tcp_Address Own Sock_Req Options Sock_Pub Sock_Sub Sock_Router Sock_Pair Session Engine Socket_Class
begin

text \<open>
  A model of the ZeroMQ 3.2 core in src/PeerLanding/dependencies/erlzmq2/deps/zeromq3/src.
\<close>

end
